(* ===== verification/Py_Base.thy ===== *)
theory Py_Base
  imports Main "HOL-Library.Multiset" "HOL-Library.Sublist"
begin

text \<open>
  Prelude of the development: the part of Python 2 that the scripts under
  \<^verbatim>\<open>src/tools\<close> use.

  \<^item> exceptions as values: \<open>py_error\<close> and the result type \<open>'a result = py_error + 'a\<close>
    (\<open>Inl\<close> is a raised exception) with the sequencing operator \<open>rbind\<close>;
  \<^item> byte strings: Python 2 \<open>str\<close> is a sequence of bytes, so it is \<open>string\<close>
    (\<open>char list\<close>, a \<open>char\<close> being a byte); \<open>strip\<close>, \<open>split\<close>, \<open>join\<close>, \<open>find\<close>,
    \<open>replace\<close>, \<open>lower\<close>, the character tests, and decimal numerals;
  \<^item> dictionaries as association lists with distinct keys (\<open>dict_set\<close>, \<open>map_of\<close>);
  \<^item> the locale \<open>growing_loop\<close> for loops over lists that grow.

  The generic lemmas at the end of each part are the ones the component theories share.
\<close>

named_theorems py_simps
named_theorems step_defs

section \<open>Exceptions\<close>

datatype py_error =
    IndexError
  | KeyError
  | AttributeError
  | AssertionError
  | TypeError
  | ValueError
  | NameError
  | UnboundLocalError
  | ZeroDivisionError
  | IOError
  | OSError
  | RuntimeError
  | StringException
  | WafError string
  | SystemExit int
  | Unsupported

text \<open>
  \<open>RuntimeError\<close> is what Python raises when the recursion limit is exceeded; a model with
  fuel returns it when the fuel is used up. \<open>Unsupported\<close> marks an input outside the
  fragment of a library function that is modelled (the compilers of regular expressions
  of \<open>Test_Config\<close> and \<open>Waf_Glob\<close>, \<open>fnmatch\<close>, and sums of pairs in \<open>Waf_Cmacro\<close>).
\<close>

type_synonym 'a result = "py_error + 'a"

definition rbind :: "'a result \<Rightarrow> ('a \<Rightarrow> 'b result) \<Rightarrow> 'b result" where
  "rbind r f = (case r of Inl e \<Rightarrow> Inl e | Inr x \<Rightarrow> f x)"

definition rmap :: "('a \<Rightarrow> 'b) \<Rightarrow> 'a result \<Rightarrow> 'b result" where
  "rmap f r = rbind r (\<lambda>x. Inr (f x))"

lemma rbind_simps [simp]:
  "rbind (Inl e) f = Inl e"
  "rbind (Inr x) f = f x"
  by (simp_all add: rbind_def)

lemma rbind_Inr_iff: "rbind r f = Inr y \<longleftrightarrow> (\<exists>x. r = Inr x \<and> f x = Inr y)"
  by (cases r) auto

lemma rbind_assoc: "rbind (rbind r f) g = rbind r (\<lambda>x. rbind (f x) g)"
  by (cases r) (simp_all add: rbind_def)

lemma rbind_InrE: "rbind m f = Inr y \<Longrightarrow> (\<And>x. m = Inr x \<Longrightarrow> f x = Inr y \<Longrightarrow> P) \<Longrightarrow> P"
  by (auto simp: rbind_Inr_iff)

lemma rbind_Inl_iff: "rbind r f = Inl e \<longleftrightarrow> r = Inl e \<or> (\<exists>x. r = Inr x \<and> f x = Inl e)"
  by (cases r) auto

lemma rmap_simps [simp]:
  "rmap f (Inl e) = Inl e"
  "rmap f (Inr x) = Inr (f x)"
  by (simp_all add: rmap_def)

lemma rmap_Inr_iff: "rmap f r = Inr y \<longleftrightarrow> (\<exists>x. r = Inr x \<and> y = f x)"
  by (cases r) auto

text \<open>Mapping a function that may raise over a list, left to right.\<close>

fun mapM :: "('a \<Rightarrow> 'b result) \<Rightarrow> 'a list \<Rightarrow> 'b list result" where
  "mapM f [] = Inr []"
| "mapM f (x # xs) = rbind (f x) (\<lambda>y. rmap (Cons y) (mapM f xs))"

lemma mapM_Inr_iff: "mapM f xs = Inr ys \<longleftrightarrow> list_all2 (\<lambda>x y. f x = Inr y) xs ys"
proof (induction xs arbitrary: ys)
  case Nil
  then show ?case by auto
next
  case (Cons x xs)
  then show ?case
    by (cases ys) (auto simp: rbind_Inr_iff rmap_Inr_iff)
qed

lemma mapM_pure: "mapM (\<lambda>x. Inr (f x)) xs = Inr (map f xs)"
  by (induction xs) auto

lemma mapM_all_Inr: "\<forall>x \<in> set xs. f x = Inr (g x) \<Longrightarrow> mapM f xs = Inr (map g xs)"
  by (induction xs) auto

text \<open>A loop that threads a state and may raise.\<close>

fun foldM :: "('a \<Rightarrow> 's \<Rightarrow> 's result) \<Rightarrow> 'a list \<Rightarrow> 's \<Rightarrow> 's result" where
  "foldM f [] s = Inr s"
| "foldM f (x # xs) s = rbind (f x s) (foldM f xs)"

lemma foldM_snoc: "foldM f (xs @ [x]) s = rbind (foldM f xs s) (f x)"
  by (induction xs arbitrary: s) (simp_all add: rbind_def split: sum.splits)

section \<open>Characters\<close>

abbreviation ord :: "char \<Rightarrow> nat" where
  "ord c \<equiv> of_char c"

definition chr_isspace :: "char \<Rightarrow> bool" where
  "chr_isspace c = (ord c = 32 \<or> 9 \<le> ord c \<and> ord c \<le> 13)"

definition chr_isdigit :: "char \<Rightarrow> bool" where
  "chr_isdigit c = (48 \<le> ord c \<and> ord c \<le> 57)"

definition chr_isupper :: "char \<Rightarrow> bool" where
  "chr_isupper c = (65 \<le> ord c \<and> ord c \<le> 90)"

definition chr_islower :: "char \<Rightarrow> bool" where
  "chr_islower c = (97 \<le> ord c \<and> ord c \<le> 122)"

definition chr_isalpha :: "char \<Rightarrow> bool" where
  "chr_isalpha c = (chr_isupper c \<or> chr_islower c)"

text \<open>The class \<open>\w\<close> of Python's \<open>re\<close> without flags: ASCII letters, digits and underscore.\<close>

definition chr_isword :: "char \<Rightarrow> bool" where
  "chr_isword c = (chr_isalpha c \<or> chr_isdigit c \<or> c = CHR ''_'')"

definition chr_lower :: "char \<Rightarrow> char" where
  "chr_lower c = (if chr_isupper c then char_of (ord c + 32) else c)"

lemmas chr_defs [py_simps] =
  chr_isspace_def chr_isdigit_def chr_isupper_def chr_islower_def chr_isalpha_def
  chr_isword_def chr_lower_def

lemma ord_bound: "ord c < 256"
  by (cases c) (simp add: of_char_def horner_sum_simps split: if_splits)

lemma char_eq_iff_ord: "c = d \<longleftrightarrow> ord c = ord d"
  by (metis char_of_char)

section \<open>Byte strings\<close>

definition py_lower :: "string \<Rightarrow> string" where
  "py_lower s = map chr_lower s"

definition py_lstrip :: "string \<Rightarrow> string" where
  "py_lstrip s = dropWhile chr_isspace s"

definition py_rstrip :: "string \<Rightarrow> string" where
  "py_rstrip s = rev (dropWhile chr_isspace (rev s))"

definition py_strip :: "string \<Rightarrow> string" where
  "py_strip s = py_rstrip (py_lstrip s)"

definition py_startswith :: "string \<Rightarrow> string \<Rightarrow> bool" where
  "py_startswith s p = (take (length p) s = p)"

definition py_endswith :: "string \<Rightarrow> string \<Rightarrow> bool" where
  "py_endswith s p = py_startswith (rev s) (rev p)"

text \<open>\<open>s[i:j]\<close> for \<open>0 \<le> i\<close> and \<open>0 \<le> j\<close>.\<close>

definition py_slice :: "'a list \<Rightarrow> nat \<Rightarrow> nat \<Rightarrow> 'a list" where
  "py_slice s i j = take (j - i) (drop i s)"

text \<open>
  \<open>s.find(sub, i)\<close>: the least position \<open>j \<ge> i\<close> where \<open>sub\<close> occurs, \<open>None\<close> for Python's
  \<open>-1\<close>. \<open>py_find_from\<close> scans the rest of the text and carries the position.
\<close>

fun py_find_from :: "string \<Rightarrow> string \<Rightarrow> nat \<Rightarrow> nat option" where
  "py_find_from [] sub i = (if sub = [] then Some i else None)"
| "py_find_from (c # s) sub i =
     (if py_startswith (c # s) sub then Some i else py_find_from s sub (Suc i))"

definition py_find :: "string \<Rightarrow> string \<Rightarrow> nat \<Rightarrow> nat option" where
  "py_find s sub i = (if i \<le> length s then py_find_from (drop i s) sub i else None)"

text \<open>
  \<open>s.replace(old, new)\<close>: every non-overlapping occurrence from the left. An empty \<open>old\<close>
  puts \<open>new\<close> before every character and at the end, as Python does.
\<close>

fun py_replace_ne :: "nat \<Rightarrow> string \<Rightarrow> string \<Rightarrow> string \<Rightarrow> string" where
  "py_replace_ne k old new [] = []"
| "py_replace_ne (Suc k) old new (c # s) = py_replace_ne k old new s"
| "py_replace_ne 0 old new (c # s) =
     (if py_startswith (c # s) old
      then new @ py_replace_ne (length old - 1) old new s
      else c # py_replace_ne 0 old new s)"

definition py_replace :: "string \<Rightarrow> string \<Rightarrow> string \<Rightarrow> string" where
  "py_replace s old new =
     (if old = [] then concat (map (\<lambda>c. new @ [c]) s) @ new else py_replace_ne 0 old new s)"

text \<open>\<open>s.split(c)\<close> for a one-character separator, and \<open>s.split()\<close>.\<close>

fun py_split_chr :: "char \<Rightarrow> string \<Rightarrow> string list" where
  "py_split_chr d [] = [[]]"
| "py_split_chr d (c # s) =
     (if c = d then [] # py_split_chr d s
      else (case py_split_chr d s of [] \<Rightarrow> [[c]] | w # ws \<Rightarrow> (c # w) # ws))"

fun py_split_ws_aux :: "string \<Rightarrow> string \<Rightarrow> string list" where
  "py_split_ws_aux w [] = (if w = [] then [] else [w])"
| "py_split_ws_aux w (c # s) =
     (if chr_isspace c then (if w = [] then [] else [w]) @ py_split_ws_aux [] s
      else py_split_ws_aux (w @ [c]) s)"

definition py_split_ws :: "string \<Rightarrow> string list" where
  "py_split_ws s = py_split_ws_aux [] s"

fun py_join :: "string \<Rightarrow> string list \<Rightarrow> string" where
  "py_join sep [] = []"
| "py_join sep [w] = w"
| "py_join sep (w # v # ws) = w @ sep @ py_join sep (v # ws)"

text \<open>\<open>str(n)\<close> for a natural number and for an integer.\<close>

definition digit_chr :: "nat \<Rightarrow> char" where
  "digit_chr d = char_of (48 + d)"

fun str_nat :: "nat \<Rightarrow> string" where
  "str_nat n = (if n < 10 then [digit_chr n] else str_nat (n div 10) @ [digit_chr (n mod 10)])"

declare str_nat.simps [simp del]

definition str_int :: "int \<Rightarrow> string" where
  "str_int i = (if i < 0 then CHR ''-'' # str_nat (nat (- i)) else str_nat (nat i))"

text \<open>Reading decimal digits back (used to state round trips, not part of any script).\<close>

definition nat_of_str :: "string \<Rightarrow> nat" where
  "nat_of_str s = foldl (\<lambda>n c. 10 * n + (ord c - 48)) 0 s"


section \<open>Lemmas on strings\<close>

lemma py_startswith_iff_prefix: "py_startswith s p \<longleftrightarrow> prefix p s"
  by (metis append_eq_conv_conj prefix_def py_startswith_def)

lemma py_endswith_iff_suffix: "py_endswith s p \<longleftrightarrow> suffix p s"
  by (simp add: py_endswith_def py_startswith_iff_prefix suffix_to_prefix)

lemma py_startswith_Nil [simp]: "py_startswith s []"
  by (simp add: py_startswith_def)

lemma py_startswith_Cons [simp]:
  "py_startswith (c # s) (d # p) \<longleftrightarrow> c = d \<and> py_startswith s p"
  "\<not> py_startswith [] (d # p)"
  by (simp_all add: py_startswith_def)

lemma py_find_from_Some:
  "py_find_from s sub i = Some j \<Longrightarrow>
     i \<le> j \<and> j - i \<le> length s \<and> py_startswith (drop (j - i) s) sub"
proof (induction s sub i rule: py_find_from.induct)
  case (2 c s sub i)
  show ?case
  proof (cases "py_startswith (c # s) sub")
    case False
    with 2 have "Suc i \<le> j \<and> j - Suc i \<le> length s \<and> py_startswith (drop (j - Suc i) s) sub"
      by simp
    moreover from this have "j - i = Suc (j - Suc i)" by linarith
    ultimately show ?thesis by simp
  qed (use 2 in auto)
qed (auto split: if_splits)

lemma py_find_from_least:
  "py_find_from s sub i = Some j \<Longrightarrow> i \<le> k \<Longrightarrow> k < j \<Longrightarrow> \<not> py_startswith (drop (k - i) s) sub"
proof (induction s sub i arbitrary: k rule: py_find_from.induct)
  case (2 c s sub i)
  then have st: "\<not> py_startswith (c # s) sub" and f: "py_find_from s sub (Suc i) = Some j"
    by (auto split: if_splits)
  show ?case
  proof (cases "k = i")
    case False
    with 2 st f have "\<not> py_startswith (drop (k - Suc i) s) sub" by simp
    moreover from False 2 have "k - i = Suc (k - Suc i)" by simp
    ultimately show ?thesis by simp
  qed (use st in simp)
qed (auto split: if_splits)

lemma py_find_from_None:
  "py_find_from s sub i = None \<Longrightarrow> k \<le> length s \<Longrightarrow> \<not> py_startswith (drop k s) sub"
proof (induction s sub i arbitrary: k rule: py_find_from.induct)
  case (1 sub i)
  then show ?case by (cases sub) (auto split: if_splits)
next
  case (2 c s sub i)
  then show ?case by (cases k) (auto split: if_splits)
qed

lemma py_find_Some:
  assumes "py_find s sub i = Some j"
  shows "i \<le> j" and "j + length sub \<le> length s" and "py_startswith (drop j s) sub"
    and "\<And>k. i \<le> k \<Longrightarrow> k < j \<Longrightarrow> \<not> py_startswith (drop k s) sub"
proof -
  from assms have i: "i \<le> length s" and f: "py_find_from (drop i s) sub i = Some j"
    by (auto simp: py_find_def split: if_splits)
  from py_find_from_Some[OF f] i show ij: "i \<le> j" and st: "py_startswith (drop j s) sub"
    by (auto simp: drop_drop)
  from py_find_from_Some[OF f] i have jl: "j \<le> length s" by auto
  from st have "length sub \<le> length (drop j s)"
    by (metis py_startswith_iff_prefix prefix_length_le)
  with jl show "j + length sub \<le> length s" by simp
  show "\<And>k. i \<le> k \<Longrightarrow> k < j \<Longrightarrow> \<not> py_startswith (drop k s) sub"
    using py_find_from_least[OF f] by (fastforce simp: drop_drop)
qed

lemma py_find_None:
  assumes "py_find s sub i = None" and "i \<le> k" and "k \<le> length s"
  shows "\<not> py_startswith (drop k s) sub"
proof -
  from assms have "py_find_from (drop i s) sub i = None" by (auto simp: py_find_def)
  from py_find_from_None[OF this, of "k - i"] assms show ?thesis by (simp add: drop_drop)
qed

lemma length_py_slice: "j \<le> length s \<Longrightarrow> length (py_slice s i j) = j - i"
  by (simp add: py_slice_def)

lemma py_replace_ne_absent:
  "(\<forall>k. \<not> py_startswith (drop k s) old) \<Longrightarrow> py_replace_ne 0 old new s = s"
proof (induction s)
  case (Cons c s)
  from Cons.prems have "\<not> py_startswith (c # s) old" by (metis drop0)
  moreover have "\<forall>k. \<not> py_startswith (drop k s) old"
    using Cons.prems by (metis drop_Suc_Cons)
  ultimately show ?case using Cons.IH by simp
qed simp

lemma py_split_chr_nonempty [simp]: "py_split_chr d s \<noteq> []"
  by (induction d s rule: py_split_chr.induct) (auto split: list.splits)

lemma py_split_chr_no_sep: "d \<notin> set s \<Longrightarrow> py_split_chr d s = [s]"
  by (induction s) auto

lemma py_split_chr_sep: "d \<notin> set s \<Longrightarrow> py_split_chr d (s @ d # t) = s # py_split_chr d t"
  by (induction s) (auto split: list.splits)

lemma py_join_split_chr: "py_join [d] (py_split_chr d s) = s"
proof (induction d s rule: py_split_chr.induct)
  case (2 d c s)
  show ?case
  proof (cases "py_split_chr d s")
    case (Cons w ws)
    with 2 show ?thesis by (cases ws) auto
  qed simp
qed simp

lemma py_split_join_chr:
  "ws \<noteq> [] \<Longrightarrow> \<forall>w \<in> set ws. d \<notin> set w \<Longrightarrow> py_split_chr d (py_join [d] ws) = ws"
proof (induction "[d]" ws rule: py_join.induct)
  case (3 w v ws)
  then show ?case using py_split_chr_sep[of d w "py_join [d] (v # ws)"] by simp
qed (auto simp: py_split_chr_no_sep)

lemma py_strip_id:
  assumes "s = [] \<or> \<not> chr_isspace (hd s) \<and> \<not> chr_isspace (last s)"
  shows "py_strip s = s"
proof (cases "s = []")
  case False
  with assms have "dropWhile chr_isspace s = s" and "dropWhile chr_isspace (rev s) = rev s"
    by (auto simp: dropWhile_eq_self_iff hd_rev)
  then show ?thesis by (simp add: py_strip_def py_rstrip_def py_lstrip_def)
qed (simp add: py_strip_def py_rstrip_def py_lstrip_def)

lemma py_strip_ends:
  assumes "py_strip s \<noteq> []"
  shows "\<not> chr_isspace (hd (py_strip s))" and "\<not> chr_isspace (last (py_strip s))"
proof -
  let ?l = "dropWhile chr_isspace s" and ?r = "dropWhile chr_isspace (rev (dropWhile chr_isspace s))"
  have eq: "py_strip s = rev ?r" by (simp add: py_strip_def py_rstrip_def py_lstrip_def)
  with assms have r: "?r \<noteq> []" by simp
  then show "\<not> chr_isspace (last (py_strip s))"
    using hd_dropWhile[of chr_isspace "rev ?l"] by (simp add: eq last_rev del: dropWhile_eq_Nil_conv)
  from r have l: "?l \<noteq> []" by (metis dropWhile.simps(1) rev.simps(1))
  have "suffix ?r (rev ?l)" by (rule suffix_dropWhile)
  then have "prefix (rev ?r) ?l" by (simp add: suffix_to_prefix)
  with r l have "hd (rev ?r) = hd ?l" by (metis hd_append prefix_def rev_is_Nil_conv)
  then show "\<not> chr_isspace (hd (py_strip s))"
    using hd_dropWhile[of chr_isspace s] l by (simp add: eq)
qed

lemma py_strip_idem [simp]: "py_strip (py_strip s) = py_strip s"
  using py_strip_ends py_strip_id by blast

lemma set_py_strip: "set (py_strip s) \<subseteq> set s"
  by (auto simp: py_strip_def py_rstrip_def py_lstrip_def dest!: set_dropWhileD)

section \<open>Decimal numerals\<close>

lemma ord_digit_chr: "d < 10 \<Longrightarrow> ord (digit_chr d) = 48 + d"
  by (simp add: digit_chr_def of_char_of)

lemma nat_of_str_snoc: "nat_of_str (s @ [c]) = 10 * nat_of_str s + (ord c - 48)"
  by (simp add: nat_of_str_def)

lemma nat_of_str_str_nat [simp]: "nat_of_str (str_nat n) = n"
proof (induction n rule: str_nat.induct)
  case (1 n)
  show ?case
  proof (cases "n < 10")
    case True
    then show ?thesis by (simp add: str_nat.simps[of n] nat_of_str_def ord_digit_chr)
  next
    case False
    with 1 have "nat_of_str (str_nat (n div 10)) = n div 10" by simp
    with False show ?thesis
      by (simp add: str_nat.simps[of n] nat_of_str_snoc ord_digit_chr)
  qed
qed

lemma set_str_nat: "c \<in> set (str_nat n) \<Longrightarrow> chr_isdigit c"
proof (induction n rule: str_nat.induct)
  case (1 n)
  then show ?case
    by (cases "n < 10")
       (auto simp: str_nat.simps[of n] chr_isdigit_def ord_digit_chr)
qed

lemma str_nat_inj: "str_nat m = str_nat n \<Longrightarrow> m = n"
  by (metis nat_of_str_str_nat)

section \<open>Dictionaries\<close>

text \<open>
  A dictionary as an association list with distinct keys. Assigning to a present key keeps its
  place. The order of the list is not Python's iteration order, which depends on hashing:
  a definition whose result depends on it takes the order as a parameter.
\<close>

fun dict_set :: "'k \<Rightarrow> 'v \<Rightarrow> ('k \<times> 'v) list \<Rightarrow> ('k \<times> 'v) list" where
  "dict_set k v [] = [(k, v)]"
| "dict_set k v ((l, w) # d) = (if k = l then (k, v) # d else (l, w) # dict_set k v d)"

definition dict_del :: "'k \<Rightarrow> ('k \<times> 'v) list \<Rightarrow> ('k \<times> 'v) list" where
  "dict_del k d = filter (\<lambda>(l, w). l \<noteq> k) d"

lemma map_of_dict_set: "map_of (dict_set k v d) = (map_of d)(k \<mapsto> v)"
  by (induction k v d rule: dict_set.induct) auto

lemma map_of_dict_del: "map_of (dict_del k d) = (map_of d)(k := None)"
  by (induction d) (auto simp: dict_del_def)

lemma keys_dict_set: "fst ` set (dict_set k v d) = insert k (fst ` set d)"
  by (induction k v d rule: dict_set.induct) auto

lemma distinct_dict_set: "distinct (map fst d) \<Longrightarrow> distinct (map fst (dict_set k v d))"
proof (induction k v d rule: dict_set.induct)
  case (2 k v l w d)
  have "fst ` set (dict_set k v d) = insert k (fst ` set d)" by (rule keys_dict_set)
  with 2 show ?case by auto
qed simp

lemma distinct_dict_del: "distinct (map fst d) \<Longrightarrow> distinct (map fst (dict_del k d))"
  by (simp add: dict_del_def distinct_map_filter)

section \<open>Paths\<close>

text \<open>\<open>os.path.join\<close>, \<open>basename\<close> and \<open>dirname\<close> on a POSIX system.\<close>

definition path_join :: "string \<Rightarrow> string \<Rightarrow> string" where
  "path_join a b =
     (if py_startswith b ''/'' then b
      else if a = [] \<or> py_endswith a ''/'' then a @ b
      else a @ ''/'' @ b)"

definition basename :: "string \<Rightarrow> string" where
  "basename p = rev (takeWhile (\<lambda>c. c \<noteq> CHR ''/'') (rev p))"

definition dirname :: "string \<Rightarrow> string" where
  "dirname p =
     (let head = rev (dropWhile (\<lambda>c. c \<noteq> CHR ''/'') (rev p))
      in if list_all (\<lambda>c. c = CHR ''/'') head then head
         else rev (dropWhile (\<lambda>c. c = CHR ''/'') (rev head)))"

section \<open>Loops over lists that grow\<close>

text \<open>
  The interface of a loop \<^verbatim>\<open>for x in self.list: ...\<close> whose body may append to the list: \<open>items\<close> reads the list from the
  state, \<open>step\<close> is the body, and \<open>loop n i\<close> is the loop from the place \<open>i\<close> on, with a bound \<open>n\<close> on its rounds.
\<close>

locale growing_loop =
  fixes items :: "'s \<Rightarrow> 'a list"
    and step :: "'a \<Rightarrow> 's \<Rightarrow> 's result"
    and loop :: "nat \<Rightarrow> nat \<Rightarrow> 's \<Rightarrow> 's result"
  assumes loop_done: "length (items s) \<le> i \<Longrightarrow> loop n i s = Inr s"
    and loop_bound: "i < length (items s) \<Longrightarrow> loop 0 i s = Inl RuntimeError"
    and loop_step: "i < length (items s) \<Longrightarrow> loop (Suc n) i s = rbind (step (items s ! i) s) (loop n (Suc i))"
begin

text \<open>When the body only appends, the loop does what the body does for each element of the list at the end, in order.\<close>

lemma loop_fold:
  assumes "\<And>x s s'. step x s = Inr s' \<Longrightarrow> prefix (items s) (items s')" and "loop n i s = Inr s'"
  shows "foldM step (drop i (items s')) s = Inr s' \<and> prefix (items s) (items s')"
  using assms(2)
proof (induction n arbitrary: i s)
  case 0
  then have "length (items s) \<le> i" using loop_bound[of i s] by fastforce
  then show ?case using 0 loop_done[of s i 0] by simp
next
  case (Suc n)
  show ?case
  proof (cases "length (items s) \<le> i")
    case True
    then show ?thesis using Suc.prems loop_done[of s i "Suc n"] by simp
  next
    case False
    then obtain u where u: "step (items s ! i) s = Inr u" "loop n (Suc i) u = Inr s'"
      using Suc.prems loop_step[of i s n] by (auto simp: rbind_Inr_iff)
    have p: "prefix (items s) (items u)" "prefix (items u) (items s')" using assms(1)[OF u(1)] Suc.IH[OF u(2)] by auto
    then have p2: "prefix (items s) (items s')" by (rule prefix_order.trans)
    then have "drop i (items s') = items s ! i # drop (Suc i) (items s')"
      using False by (metis Cons_nth_drop_Suc leI nth_append prefixE prefix_length_le order_less_le_trans not_le)
    then show ?thesis using Suc.IH[OF u(2)] u(1) p2 by simp
  qed
qed

text \<open>A larger bound does not change the result.\<close>

lemma loop_more: "loop n i s = Inr s' \<Longrightarrow> n \<le> m \<Longrightarrow> loop m i s = Inr s'"
proof (induction n arbitrary: i s m)
  case 0
  then have "length (items s) \<le> i" using loop_bound[of i s] by fastforce
  then show ?case using 0 loop_done[of s i] by simp
next
  case (Suc n)
  show ?case
  proof (cases "length (items s) \<le> i")
    case True
    then show ?thesis using Suc.prems(1) loop_done[of s i] by simp
  next
    case False
    obtain k where m: "m = Suc k" "n \<le> k" using Suc.prems(2) by (cases m) auto
    then show ?thesis using False Suc.prems(1) Suc.IH[of _ _ k] loop_step[of i s] by (auto simp: rbind_Inr_iff)
  qed
qed

text \<open>When the body leaves the list alone, the loop is the loop over the list, and its length is bound enough.\<close>

lemma loop_fixed:
  assumes "\<And>x s s'. step x s = Inr s' \<Longrightarrow> items s' = items s" and "length (items s) - i \<le> n"
  shows "loop n i s = foldM step (drop i (items s)) s"
  using assms(2)
proof (induction n arbitrary: i s)
  case 0
  then show ?case using loop_done[of s i 0] by simp
next
  case (Suc n)
  show ?case
  proof (cases "length (items s) \<le> i")
    case True
    then show ?thesis using loop_done[of s i "Suc n"] by simp
  next
    case False
    have "drop i (items s) = items s ! i # drop (Suc i) (items s)" using False by (simp add: Cons_nth_drop_Suc)
    moreover have "loop n (Suc i) u = foldM step (drop (Suc i) (items s)) u" if "step (items s ! i) s = Inr u" for u
      using Suc.IH[of u "Suc i"] Suc.prems assms(1)[OF that] by simp
    ultimately show ?thesis using False loop_step[of i s n] by (cases "step (items s ! i) s") simp_all
  qed
qed

end

end
