(* ===== verification/Test_Expr.thy ===== *)
theory Test_Expr
  imports Py_Base
begin

text \<open>
  The expressions of the test status files, \<^verbatim>\<open>src/tools/test.py\<close> lines 701 to 822: the
  outcome names, the outcome sets (\<open>ListSet\<close>, \<open>Everything\<close>, \<open>Nothing\<close>) and the expression
  classes with their methods \<open>Evaluate\<close> and \<open>GetOutcomes\<close>.

  After the definitions: the outcome sets implement the set operations (locale
  \<open>outcome_set\<close>), and on well-formed expressions evaluation returns and computes the denotation.
\<close>

section \<open>Definitions\<close>

subsection \<open>Outcome names and outcome sets\<close>

text \<open>
  A member of an outcome set is a string, or Python's \<open>None\<close> (the environment binds
  \<open>system\<close> and \<open>arch\<close> to \<open>None\<close> on an unknown platform).
\<close>

type_synonym pystr = "string option"

definition SKIP :: pystr where "SKIP = Some ''skip''"
definition FAIL :: pystr where "FAIL = Some ''fail''"
definition PASS :: pystr where "PASS = Some ''pass''"
definition OKAY :: pystr where "OKAY = Some ''okay''"
definition TIMEOUT :: pystr where "TIMEOUT = Some ''timeout''"
definition CRASH :: pystr where "CRASH = Some ''crash''"
definition SLOW :: pystr where "SLOW = Some ''slow''"

lemmas outcome_defs [py_simps] =
  SKIP_def FAIL_def PASS_def OKAY_def TIMEOUT_def CRASH_def SLOW_def

datatype oset = ListSet "pystr list" | Everything | Nothing

fun Intersect :: "oset \<Rightarrow> oset \<Rightarrow> oset" where
  "Intersect (ListSet xs) (ListSet ys) = ListSet (filter (\<lambda>x. x \<in> set ys) xs)"
| "Intersect (ListSet xs) Everything = ListSet xs"
| "Intersect (ListSet xs) Nothing = Nothing"
| "Intersect Everything that = that"
| "Intersect Nothing that = Nothing"

fun Union :: "oset \<Rightarrow> oset \<Rightarrow> oset" where
  "Union (ListSet xs) (ListSet ys) = ListSet (xs @ filter (\<lambda>x. x \<notin> set xs) ys)"
| "Union (ListSet xs) Everything = Everything"
| "Union (ListSet xs) Nothing = ListSet xs"
| "Union Everything that = Everything"
| "Union Nothing that = that"

fun IsEmpty :: "oset \<Rightarrow> bool" where
  "IsEmpty (ListSet xs) = (length xs = 0)"
| "IsEmpty Everything = False"
| "IsEmpty Nothing = True"

subsection \<open>Expressions\<close>

datatype expr =
    Constant bool
  | Variable string
  | Outcome string
  | Operation expr string expr

type_synonym env = "string \<rightharpoonup> pystr"
type_synonym defs = "string \<rightharpoonup> expr"

text \<open>
  \<open>Variable\<close> and \<open>Outcome\<close> have no method \<open>Evaluate\<close> and \<open>Constant\<close> has no method
  \<open>GetOutcomes\<close>: calling it raises \<open>AttributeError\<close>. A definition may refer to itself; the
  first argument bounds the number of nested uses of definitions, and \<open>RuntimeError\<close> stands
  for Python's recursion limit.
\<close>

fun Evaluate :: "nat \<Rightarrow> env \<Rightarrow> defs \<Rightarrow> expr \<Rightarrow> bool result"
and GetOutcomes :: "nat \<Rightarrow> env \<Rightarrow> defs \<Rightarrow> expr \<Rightarrow> oset result" where
  "Evaluate n env defs (Constant v) = Inr v"
| "Evaluate n env defs (Variable x) = Inl AttributeError"
| "Evaluate n env defs (Outcome x) = Inl AttributeError"
| "Evaluate n env defs (Operation l op r) =
     (if op = ''||'' \<or> op = '',''
      then rbind (Evaluate n env defs l) (\<lambda>b. if b then Inr True else Evaluate n env defs r)
      else if op = ''if'' then Inr False
      else if op = ''==''
      then rbind (GetOutcomes n env defs l) (\<lambda>s.
             rbind (GetOutcomes n env defs r) (\<lambda>t. Inr (\<not> IsEmpty (Intersect s t))))
      else if op = ''&&''
      then rbind (Evaluate n env defs l) (\<lambda>b. if b then Evaluate n env defs r else Inr False)
      else Inl AssertionError)"
| "GetOutcomes n env defs (Constant v) = Inl AttributeError"
| "GetOutcomes n env defs (Variable x) =
     (case env x of Some v \<Rightarrow> Inr (ListSet [v]) | None \<Rightarrow> Inr Nothing)"
| "GetOutcomes n env defs (Outcome x) =
     (case defs x of
        Some e \<Rightarrow> (case n of 0 \<Rightarrow> Inl RuntimeError | Suc m \<Rightarrow> GetOutcomes m env defs e)
      | None \<Rightarrow> Inr (ListSet [Some x]))"
| "GetOutcomes n env defs (Operation l op r) =
     (if op = ''||'' \<or> op = '',''
      then rbind (GetOutcomes n env defs l) (\<lambda>s. rmap (Union s) (GetOutcomes n env defs r))
      else if op = ''if''
      then rbind (Evaluate n env defs r) (\<lambda>b. if b then GetOutcomes n env defs l else Inr Nothing)
      else if op = ''&&''
      then rbind (GetOutcomes n env defs l) (\<lambda>s. rmap (Intersect s) (GetOutcomes n env defs r))
      else Inl AssertionError)"



section \<open>Outcome sets implement sets\<close>

text \<open>
  The contract between the set classes and the expression evaluator: the operations act on the
  members as intersection, union and the emptiness test.
\<close>

locale outcome_set =
  fixes inter :: "'s \<Rightarrow> 's \<Rightarrow> 's"
    and union :: "'s \<Rightarrow> 's \<Rightarrow> 's"
    and is_empty :: "'s \<Rightarrow> bool"
    and elems :: "'s \<Rightarrow> 'a set"
  assumes elems_inter: "elems (inter a b) = elems a \<inter> elems b"
    and elems_union: "elems (union a b) = elems a \<union> elems b"
    and is_empty_iff: "is_empty a \<longleftrightarrow> elems a = {}"
begin

lemma meets_iff: "\<not> is_empty (inter a b) \<longleftrightarrow> (\<exists>x. x \<in> elems a \<and> x \<in> elems b)"
  by (auto simp: is_empty_iff elems_inter)

lemma is_empty_union: "is_empty (union a b) \<longleftrightarrow> is_empty a \<and> is_empty b"
  by (simp add: is_empty_iff elems_union)

lemma meets_commute: "is_empty (inter a b) \<longleftrightarrow> is_empty (inter b a)"
  by (simp add: is_empty_iff elems_inter Int_commute)

lemmas set_laws = elems_inter elems_union is_empty_iff

end

fun oset_elems :: "oset \<Rightarrow> pystr set" where
  "oset_elems (ListSet xs) = set xs"
| "oset_elems Everything = UNIV"
| "oset_elems Nothing = {}"

lemma oset_elems_Intersect: "oset_elems (Intersect a b) = oset_elems a \<inter> oset_elems b"
  by (cases a; cases b) auto

lemma oset_elems_Union: "oset_elems (Union a b) = oset_elems a \<union> oset_elems b"
  by (cases a; cases b) auto

interpretation os: outcome_set Intersect Union IsEmpty oset_elems
proof unfold_locales
  fix a b
  show "oset_elems (Intersect a b) = oset_elems a \<inter> oset_elems b" by (rule oset_elems_Intersect)
  show "oset_elems (Union a b) = oset_elems a \<union> oset_elems b" by (rule oset_elems_Union)
  show "IsEmpty a \<longleftrightarrow> oset_elems a = {}" by (cases a) auto
qed

section \<open>Evaluation\<close>

text \<open>
  Two kinds of well-formed expressions: conditions (arguments of \<open>Evaluate\<close>) and outcome
  expressions (arguments of \<open>GetOutcomes\<close>).
\<close>

abbreviation logical_op :: "string \<Rightarrow> bool" where
  "logical_op op \<equiv> op = ''||'' \<or> op = '','' \<or> op = ''&&''"

fun is_cond :: "expr \<Rightarrow> bool" and is_val :: "expr \<Rightarrow> bool" where
  "is_cond (Constant v) = True"
| "is_cond (Variable x) = False"
| "is_cond (Outcome x) = False"
| "is_cond (Operation l op r) =
     (if logical_op op then is_cond l \<and> is_cond r
      else if op = ''if'' then True
      else op = ''=='' \<and> is_val l \<and> is_val r)"
| "is_val (Constant v) = False"
| "is_val (Variable x) = True"
| "is_val (Outcome x) = True"
| "is_val (Operation l op r) =
     (if logical_op op then is_val l \<and> is_val r
      else op = ''if'' \<and> is_val l \<and> is_cond r)"

text \<open>
  Denotation: the truth value of a condition and the set of outcomes of an outcome expression,
  where \<open>N\<close> gives the outcomes a name stands for.
\<close>

fun holds :: "env \<Rightarrow> (string \<Rightarrow> pystr set) \<Rightarrow> expr \<Rightarrow> bool"
and den :: "env \<Rightarrow> (string \<Rightarrow> pystr set) \<Rightarrow> expr \<Rightarrow> pystr set" where
  "holds env N (Constant v) = v"
| "holds env N (Variable x) = False"
| "holds env N (Outcome x) = False"
| "holds env N (Operation l op r) =
     (if op = ''||'' \<or> op = '','' then holds env N l \<or> holds env N r
      else if op = ''&&'' then holds env N l \<and> holds env N r
      else op = ''=='' \<and> den env N l \<inter> den env N r \<noteq> {})"
| "den env N (Constant v) = {}"
| "den env N (Variable x) = set_option (env x)"
| "den env N (Outcome x) = N x"
| "den env N (Operation l op r) =
     (if op = ''||'' \<or> op = '','' then den env N l \<union> den env N r
      else if op = ''&&'' then den env N l \<inter> den env N r
      else if op = ''if'' \<and> holds env N r then den env N l else {})"

fun names :: "expr \<Rightarrow> string set" where
  "names (Constant v) = {}"
| "names (Variable x) = {}"
| "names (Outcome x) = {x}"
| "names (Operation l op r) = names l \<union> names r"

text \<open>
  Definitions that are outcome expressions and do not refer to themselves, directly or not:
  \<open>rank\<close> goes down along every reference.
\<close>

definition good_defs :: "(string \<Rightarrow> nat) \<Rightarrow> defs \<Rightarrow> bool" where
  "good_defs rank defs \<longleftrightarrow>
     (\<forall>x d. defs x = Some d \<longrightarrow> is_val d \<and> (\<forall>y \<in> names d. rank y < rank x))"

definition names_denote :: "env \<Rightarrow> defs \<Rightarrow> (string \<Rightarrow> pystr set) \<Rightarrow> bool" where
  "names_denote env defs N \<longleftrightarrow>
     (\<forall>x. N x = (case defs x of Some d \<Rightarrow> den env N d | None \<Rightarrow> {Some x}))"

lemma eval_correct:
  assumes "good_defs rank defs" and "names_denote env defs N"
    and "\<forall>y \<in> names e. rank y < n"
  shows "(is_cond e \<longrightarrow> Evaluate n env defs e = Inr (holds env N e)) \<and>
    (is_val e \<longrightarrow> (\<exists>s. GetOutcomes n env defs e = Inr s \<and> oset_elems s = den env N e))"
  using assms(3)
proof (induction n arbitrary: e rule: less_induct)
  case (less n)
  note outer = less.IH
  from less.prems show ?case
  proof (induction e)
    case (Outcome x)
    show ?case
    proof (cases "defs x")
      case None
      then show ?thesis using assms(2) by (simp add: names_denote_def)
    next
      case (Some d)
      from Outcome have "rank x < n" by simp
      then obtain m where n: "n = Suc m" and m: "rank x \<le> m" by (cases n) auto
      from assms(1) Some have d: "is_val d" and "\<forall>y \<in> names d. rank y < rank x"
        by (auto simp: good_defs_def)
      with m have "\<forall>y \<in> names d. rank y < m" by fastforce
      with outer[of m d] n d have "\<exists>s. GetOutcomes m env defs d = Inr s \<and> oset_elems s = den env N d"
        by simp
      with Some n assms(2) show ?thesis by (simp add: names_denote_def)
    qed
  next
    case (Operation l op r)
    then have IHl: "is_cond l \<Longrightarrow> Evaluate n env defs l = Inr (holds env N l)"
        "is_val l \<Longrightarrow> \<exists>s. GetOutcomes n env defs l = Inr s \<and> oset_elems s = den env N l"
      and IHr: "is_cond r \<Longrightarrow> Evaluate n env defs r = Inr (holds env N r)"
        "is_val r \<Longrightarrow> \<exists>s. GetOutcomes n env defs r = Inr s \<and> oset_elems s = den env N r"
      by auto
    have cond: "Evaluate n env defs (Operation l op r) = Inr (holds env N (Operation l op r))"
      if c: "is_cond (Operation l op r)"
    proof (cases "op = ''==''")
      case True
      with c IHl IHr obtain s u where "GetOutcomes n env defs l = Inr s" "oset_elems s = den env N l"
        "GetOutcomes n env defs r = Inr u" "oset_elems u = den env N r" by auto
      with True show ?thesis by (simp add: os.set_laws)
    next
      case False
      with c IHl(1) IHr(1) show ?thesis by (auto split: if_splits)
    qed
    have val: "\<exists>s. GetOutcomes n env defs (Operation l op r) = Inr s \<and>
        oset_elems s = den env N (Operation l op r)"
      if v: "is_val (Operation l op r)"
    proof (cases "op = ''if''")
      case True
      with v IHl(2) IHr(1) show ?thesis by simp
    next
      case False
      with v IHl IHr obtain s u where "GetOutcomes n env defs l = Inr s" "oset_elems s = den env N l"
        "GetOutcomes n env defs r = Inr u" "oset_elems u = den env N r" by (auto split: if_splits)
      with False v show ?thesis by (auto simp: os.set_laws split: if_splits)
    qed
    from cond val show ?case by blast
  qed (auto split: option.splits)
qed

section \<open>Properties\<close>

text \<open>
  C33. Evaluation of the status expressions is total and right: with definitions that are outcome
  expressions and do not refer to themselves, a condition evaluates, without an exception, to its
  truth value, and an outcome expression to its set of outcomes. The nesting bound only has to
  exceed the rank of the names in the expression.
\<close>

theorem evaluation_correct:
  assumes "good_defs rank defs" and "names_denote env defs N" and "\<forall>y \<in> names e. rank y < n"
  shows "(is_cond e \<longrightarrow> Evaluate n env defs e = Inr (holds env N e)) \<and>
    (is_val e \<longrightarrow> (\<exists>s. GetOutcomes n env defs e = Inr s \<and> oset_elems s = den env N e))"
  by (rule eval_correct[OF assms])

text \<open>The definition \<open>def flaky = pass || fail\<close> and the condition \<open>flaky == $want\<close>.\<close>

theorem evaluation_correct_witness:
  "Evaluate 2 [''want'' \<mapsto> FAIL]
     [''flaky'' \<mapsto> Operation (Outcome ''pass'') ''||'' (Outcome ''fail'')]
     (Operation (Outcome ''flaky'') ''=='' (Variable ''want'')) = Inr True"
proof -
  let ?defs = "[''flaky'' \<mapsto> Operation (Outcome ''pass'') ''||'' (Outcome ''fail'')]"
  let ?rank = "\<lambda>x::string. if x = ''flaky'' then 1 else 0 :: nat"
  let ?N = "\<lambda>x. if x = ''flaky'' then {Some ''pass'', Some ''fail''} else {Some x}"
  let ?e = "Operation (Outcome ''flaky'') ''=='' (Variable ''want'')"
  have g: "good_defs ?rank ?defs" by (auto simp: good_defs_def)
  have d: "names_denote [''want'' \<mapsto> FAIL] ?defs ?N"
    by (simp add: names_denote_def insert_commute)
  have n: "\<forall>y \<in> names ?e. ?rank y < 2" by simp
  from evaluation_correct[OF g d n] show ?thesis by (simp add: FAIL_def)
qed

text \<open>
  A definition that refers to itself has no value: however deep the recursion may go, asking
  for the outcomes of a name defined as itself ends in Python's recursion error.
\<close>

theorem cyclic_definition_diverges:
  "GetOutcomes n env [x \<mapsto> Outcome x] (Outcome x) = Inl RuntimeError"
  by (induction n) simp_all

end
