(* ===== verification/Test_Parser.thy ===== *)
theory Test_Parser
  imports Test_Expr
begin

text \<open>
  The parser of the test status files, \<^verbatim>\<open>src/tools/test.py\<close> lines 825 to 998: tokenizer,
  scanner and recursive descent parser.

  After the definitions: the tokenizer equals a reference lexer, drops only white space and
  reads back what is printed with spaces between tokens; the parser accepts exactly the grammar
  \<open>LogicG\<close> (sound and complete) within the bound it is given, so the only exception it can
  raise is \<open>IndexError\<close>.
\<close>

section \<open>Definitions\<close>

subsection \<open>Tokenizer\<close>

definition IsAlpha :: "string \<Rightarrow> bool" where
  "IsAlpha str = list_all (\<lambda>c. chr_isalpha c \<or> chr_isdigit c \<or> c = CHR ''_'') str"

record tokenizer =
  tk_index :: nat
  tk_expr :: string
  tk_tokens :: "string list"

definition tk_init :: "string \<Rightarrow> tokenizer" where
  "tk_init expr = \<lparr>tk_index = 0, tk_expr = expr, tk_tokens = []\<rparr>"

definition tk_HasMore :: "nat \<Rightarrow> tokenizer \<Rightarrow> bool" where
  "tk_HasMore len t = (tk_index t < length (tk_expr t) + (len - 1))"

definition tk_Current :: "nat \<Rightarrow> tokenizer \<Rightarrow> string" where
  "tk_Current len t =
     (if \<not> tk_HasMore len t then [] else py_slice (tk_expr t) (tk_index t) (tk_index t + len))"

definition tk_Advance :: "nat \<Rightarrow> tokenizer \<Rightarrow> tokenizer" where
  "tk_Advance cnt t = t\<lparr>tk_index := tk_index t + cnt\<rparr>"

definition tk_AddToken :: "string \<Rightarrow> tokenizer \<Rightarrow> tokenizer" where
  "tk_AddToken token t = t\<lparr>tk_tokens := tk_tokens t @ [token]\<rparr>"

definition py_isspace :: "string \<Rightarrow> bool" where
  "py_isspace s = (s \<noteq> [] \<and> list_all chr_isspace s)"

lemmas tk_defs [step_defs] =
  tk_init_def tk_HasMore_def tk_Current_def tk_Advance_def tk_AddToken_def

function SkipSpaces :: "tokenizer \<Rightarrow> tokenizer" where
  "SkipSpaces t =
     (if tk_HasMore 1 t \<and> py_isspace (tk_Current 1 t) then SkipSpaces (tk_Advance 1 t) else t)"
  by pat_completeness auto
termination
  by (relation "measure (\<lambda>t. length (tk_expr t) - tk_index t)")
     (auto simp: tk_HasMore_def tk_Advance_def)

declare SkipSpaces.simps [simp del]

function ReadWord :: "string \<Rightarrow> tokenizer \<Rightarrow> string \<times> tokenizer" where
  "ReadWord buf t =
     (if tk_HasMore 1 t \<and> IsAlpha (tk_Current 1 t)
      then ReadWord (buf @ tk_Current 1 t) (tk_Advance 1 t) else (buf, t))"
  by pat_completeness auto
termination
  by (relation "measure (\<lambda>(buf, t). length (tk_expr t) - tk_index t)")
     (auto simp: tk_HasMore_def tk_Advance_def)

declare ReadWord.simps [simp del]

lemma SkipSpaces_frame:
  "tk_expr (SkipSpaces t) = tk_expr t \<and> tk_tokens (SkipSpaces t) = tk_tokens t \<and>
   tk_index t \<le> tk_index (SkipSpaces t)"
proof (induction t rule: SkipSpaces.induct)
  case (1 t)
  then show ?case
    by (subst (1 2 3) SkipSpaces.simps) (auto simp: tk_Advance_def)
qed

lemma ReadWord_frame:
  "tk_expr (snd (ReadWord buf t)) = tk_expr t \<and> tk_tokens (snd (ReadWord buf t)) = tk_tokens t \<and>
   tk_index t \<le> tk_index (snd (ReadWord buf t))"
proof (induction buf t rule: ReadWord.induct)
  case (1 buf t)
  then show ?case
    by (subst (1 2 3) ReadWord.simps) (auto simp: tk_Advance_def)
qed

lemma ReadWord_progress:
  assumes "tk_HasMore 1 t" and "IsAlpha (tk_Current 1 t)"
  shows "tk_index t < tk_index (snd (ReadWord buf t))"
proof -
  have "ReadWord buf t = ReadWord (buf @ tk_Current 1 t) (tk_Advance 1 t)"
    using assms by (subst ReadWord.simps) simp
  then show ?thesis
    using ReadWord_frame[of "buf @ tk_Current 1 t" "tk_Advance 1 t"]
    by (simp add: tk_Advance_def)
qed

function TokenizeLoop :: "tokenizer \<Rightarrow> string list option" where
  "TokenizeLoop t0 =
     (if \<not> tk_HasMore 1 t0 then Some (tk_tokens t0)
      else let t = SkipSpaces t0 in
        if \<not> tk_HasMore 1 t then None
        else if tk_Current 1 t = ''('' then TokenizeLoop (tk_Advance 1 (tk_AddToken ''('' t))
        else if tk_Current 1 t = '')'' then TokenizeLoop (tk_Advance 1 (tk_AddToken '')'' t))
        else if tk_Current 1 t = ''$'' then TokenizeLoop (tk_Advance 1 (tk_AddToken ''$'' t))
        else if tk_Current 1 t = '','' then TokenizeLoop (tk_Advance 1 (tk_AddToken '','' t))
        else if IsAlpha (tk_Current 1 t)
        then TokenizeLoop (tk_AddToken (fst (ReadWord [] t)) (snd (ReadWord [] t)))
        else if tk_Current 2 t = ''&&'' then TokenizeLoop (tk_Advance 2 (tk_AddToken ''&&'' t))
        else if tk_Current 2 t = ''||'' then TokenizeLoop (tk_Advance 2 (tk_AddToken ''||'' t))
        else if tk_Current 2 t = ''=='' then TokenizeLoop (tk_Advance 2 (tk_AddToken ''=='' t))
        else None)"
  by pat_completeness auto
termination
proof (relation "measure (\<lambda>t. length (tk_expr t) - tk_index t)", goal_cases)
  case (6 t0 t)
  then show ?case
    using ReadWord_progress[of t "[]"] ReadWord_frame[of "[]" t] SkipSpaces_frame[of t0]
    by (auto simp: tk_AddToken_def tk_HasMore_def)
qed (simp_all add: tk_AddToken_def tk_HasMore_def tk_Advance_def SkipSpaces_frame
       diff_less_mono2 less_Suc_eq_le le_SucI)

declare TokenizeLoop.simps [simp del]

definition Tokenize :: "string \<Rightarrow> string list option" where
  "Tokenize expr = TokenizeLoop (tk_init expr)"

subsection \<open>Scanner and parser\<close>

text \<open>
  The scanner is the token list and an index. \<open>Current\<close> past the end raises \<open>IndexError\<close>,
  as Python's list access does. Every parsing function returns the parsed expression
  (\<open>None\<close> for Python's \<open>None\<close>) and the scanner's new index.

  \<open>ParseAtomicExpression\<close> calls \<open>ParseLogicalExpression\<close> for a parenthesis; the functions
  in between take that call as their argument \<open>plog\<close>, and \<open>ParseLogicalExpression\<close> ties the
  knot. The number bounds nesting and loop rounds (\<open>RuntimeError\<close> when it is used up);
  \<open>ParseLogicalExpression_enough\<close> below shows how much is always enough.
\<close>

definition scan_Current :: "string list \<Rightarrow> nat \<Rightarrow> string result" where
  "scan_Current ts i = (if i < length ts then Inr (ts ! i) else Inl IndexError)"

definition scan_HasMore :: "string list \<Rightarrow> nat \<Rightarrow> bool" where
  "scan_HasMore ts i = (i < length ts)"

definition BINARIES :: "string list" where
  "BINARIES = [''=='']"

definition LOGICALS :: "string list" where
  "LOGICALS = [''&&'', ''||'', '','']"

type_synonym parsed = "(expr option \<times> nat) result"

definition ParseAtomicExpression :: "(nat \<Rightarrow> parsed) \<Rightarrow> string list \<Rightarrow> nat \<Rightarrow> parsed" where
  "ParseAtomicExpression plog ts i =
     rbind (scan_Current ts i) (\<lambda>t.
       if t = ''true'' then Inr (Some (Constant True), Suc i)
       else if t = ''false'' then Inr (Some (Constant False), Suc i)
       else if IsAlpha t then Inr (Some (Outcome (py_lower t)), Suc i)
       else if t = ''$''
       then rbind (scan_Current ts (Suc i)) (\<lambda>name.
              if \<not> IsAlpha name then Inr (None, Suc i)
              else Inr (Some (Variable (py_lower name)), Suc (Suc i)))
       else if t = ''(''
       then rbind (plog (Suc i)) (\<lambda>(res, j).
              case res of None \<Rightarrow> Inr (None, j)
              | Some e \<Rightarrow> rbind (scan_Current ts j) (\<lambda>c.
                  if c \<noteq> '')'' then Inr (None, j) else Inr (Some e, Suc j)))
       else Inr (None, i))"

fun ParseOperatorExpression :: "(nat \<Rightarrow> parsed) \<Rightarrow> nat \<Rightarrow> string list \<Rightarrow> nat \<Rightarrow> parsed"
and OperatorLoop :: "(nat \<Rightarrow> parsed) \<Rightarrow> nat \<Rightarrow> string list \<Rightarrow> expr \<Rightarrow> nat \<Rightarrow> parsed" where
  "ParseOperatorExpression plog 0 ts i = Inl RuntimeError"
| "ParseOperatorExpression plog (Suc n) ts i =
     rbind (ParseAtomicExpression plog ts i) (\<lambda>(res, j).
       case res of None \<Rightarrow> Inr (None, j) | Some left \<Rightarrow> OperatorLoop plog n ts left j)"
| "OperatorLoop plog 0 ts left i = Inl RuntimeError"
| "OperatorLoop plog (Suc n) ts left i =
     (if scan_HasMore ts i \<and> ts ! i \<in> set BINARIES
      then rbind (ParseOperatorExpression plog n ts (Suc i)) (\<lambda>(res, j).
             case res of None \<Rightarrow> Inr (None, j)
             | Some right \<Rightarrow> OperatorLoop plog n ts (Operation left (ts ! i) right) j)
      else Inr (Some left, i))"

fun ConditionalLoop :: "(nat \<Rightarrow> parsed) \<Rightarrow> nat \<Rightarrow> string list \<Rightarrow> expr \<Rightarrow> nat \<Rightarrow> parsed" where
  "ConditionalLoop plog 0 ts left i = Inl RuntimeError"
| "ConditionalLoop plog (Suc n) ts left i =
     (if scan_HasMore ts i \<and> ts ! i = ''if''
      then rbind (ParseOperatorExpression plog n ts (Suc i)) (\<lambda>(res, j).
             case res of None \<Rightarrow> Inr (None, j)
             | Some right \<Rightarrow> ConditionalLoop plog n ts (Operation left ''if'' right) j)
      else Inr (Some left, i))"

definition ParseConditionalExpression ::
  "(nat \<Rightarrow> parsed) \<Rightarrow> nat \<Rightarrow> string list \<Rightarrow> nat \<Rightarrow> parsed" where
  "ParseConditionalExpression plog n ts i =
     rbind (ParseOperatorExpression plog n ts i) (\<lambda>(res, j).
       case res of None \<Rightarrow> Inr (None, j) | Some left \<Rightarrow> ConditionalLoop plog n ts left j)"

fun LogicalLoop :: "(nat \<Rightarrow> parsed) \<Rightarrow> nat \<Rightarrow> string list \<Rightarrow> expr \<Rightarrow> nat \<Rightarrow> parsed" where
  "LogicalLoop plog 0 ts left i = Inl RuntimeError"
| "LogicalLoop plog (Suc n) ts left i =
     (if scan_HasMore ts i \<and> ts ! i \<in> set LOGICALS
      then rbind (ParseConditionalExpression plog n ts (Suc i)) (\<lambda>(res, j).
             case res of None \<Rightarrow> Inr (None, j)
             | Some right \<Rightarrow> LogicalLoop plog n ts (Operation left (ts ! i) right) j)
      else Inr (Some left, i))"

primrec ParseLogicalExpression :: "nat \<Rightarrow> string list \<Rightarrow> nat \<Rightarrow> parsed" where
  "ParseLogicalExpression 0 = (\<lambda>ts i. Inl RuntimeError)"
| "ParseLogicalExpression (Suc n) = (\<lambda>ts i.
     rbind (ParseConditionalExpression (ParseLogicalExpression n ts) n ts i) (\<lambda>(res, j).
       case res of None \<Rightarrow> Inr (None, j)
       | Some left \<Rightarrow> LogicalLoop (ParseLogicalExpression n ts) n ts left j))"

text \<open>
  \<open>ParseCondition\<close>: \<open>None\<close> after the message \<open>Malformed expression\<close>; the messages themselves
  are not modelled. The bound passed to the parser is the one of
  \<open>ParseLogicalExpression_enough\<close>.
\<close>

definition parse_fuel :: "string list \<Rightarrow> nat" where
  "parse_fuel ts = length ts + 2"

definition ParseCondition :: "string \<Rightarrow> expr option result" where
  "ParseCondition expr =
     (case Tokenize expr of
        None \<Rightarrow> Inr None
      | Some tokens \<Rightarrow>
          if tokens = [] then Inr None
          else rbind (ParseLogicalExpression (parse_fuel tokens) tokens 0) (\<lambda>(ast, i).
            case ast of None \<Rightarrow> Inr None
            | Some e \<Rightarrow> if scan_HasMore tokens i then Inr None else Inr (Some e)))"

section \<open>Tokenizer\<close>

definition alnum :: "char \<Rightarrow> bool" where
  "alnum c \<longleftrightarrow> chr_isalpha c \<or> chr_isdigit c \<or> c = CHR ''_''"

lemma IsAlpha_iff: "IsAlpha = list_all alnum"
  by (simp add: fun_eq_iff IsAlpha_def alnum_def list_all_iff)

text \<open>A reference lexer on the rest of the text: the first token, then all of them.\<close>

fun lex_tok :: "string \<Rightarrow> (string \<times> string) option" where
  "lex_tok [] = None"
| "lex_tok (c # s) =
     (if c \<in> set ''()$,'' then Some ([c], s)
      else if alnum c then Some (c # takeWhile alnum s, dropWhile alnum s)
      else case s of
        [] \<Rightarrow> None
      | d # s' \<Rightarrow> if c = d \<and> c \<in> set ''&|='' then Some ([c, d], s') else None)"

lemma lex_tok_length: "lex_tok s = Some (w, r) \<Longrightarrow> length r < length s"
proof (cases s)
  case (Cons c s')
  assume "lex_tok s = Some (w, r)"
  with Cons have "r = s' \<or> r = dropWhile alnum s' \<or> (\<exists>d. s' = d # r)"
    by (simp split: if_splits list.splits)
  with Cons show ?thesis
    using length_dropWhile_le[of alnum s'] by auto
qed simp

function ref_lex :: "string \<Rightarrow> string list option" where
  "ref_lex s =
     (if s = [] then Some []
      else case lex_tok (dropWhile chr_isspace s) of
        None \<Rightarrow> None
      | Some (w, r) \<Rightarrow> map_option (Cons w) (ref_lex r))"
  by pat_completeness auto
termination
proof (relation "measure length", goal_cases)
  case (2 s x w r)
  then have "length r < length (dropWhile chr_isspace s)" by (auto intro: lex_tok_length)
  then show ?case using length_dropWhile_le[of chr_isspace s] by simp
qed simp

declare ref_lex.simps [simp del]

definition rest :: "tokenizer \<Rightarrow> string" where
  "rest t = drop (tk_index t) (tk_expr t)"

lemma tk_rest:
  "tk_HasMore (Suc 0) t \<longleftrightarrow> rest t \<noteq> []"
  "tk_Current (Suc 0) t = take 1 (rest t)"
  "tk_Current 2 t = take 2 (rest t)"
  by (auto simp: tk_HasMore_def tk_Current_def rest_def py_slice_def)

lemma rest_Advance: "rest (tk_Advance n t) = drop n (rest t)"
  by (simp add: rest_def tk_Advance_def add.commute)

lemma rest_AddToken [simp]: "rest (tk_AddToken w t) = rest t"
  by (simp add: rest_def tk_AddToken_def)

lemma rest_SkipSpaces: "rest (SkipSpaces t) = dropWhile chr_isspace (rest t)"
proof (induction t rule: SkipSpaces.induct)
  case (1 t)
  show ?case
  proof (cases "rest t")
    case Nil
    then show ?thesis by (subst SkipSpaces.simps) (simp add: tk_rest)
  next
    case (Cons c s)
    then show ?thesis using 1
      by (subst SkipSpaces.simps)
         (auto simp: tk_rest rest_Advance py_isspace_def)
  qed
qed

lemma ReadWord_rest:
  "fst (ReadWord buf t) = buf @ takeWhile alnum (rest t) \<and>
   rest (snd (ReadWord buf t)) = dropWhile alnum (rest t)"
proof (induction buf t rule: ReadWord.induct)
  case (1 buf t)
  show ?case
  proof (cases "rest t")
    case Nil
    then show ?thesis by (subst (1 2) ReadWord.simps) (simp add: tk_rest)
  next
    case (Cons c s)
    then show ?thesis using 1
      by (subst (1 2) ReadWord.simps)
         (auto simp: tk_rest rest_Advance IsAlpha_iff)
  qed
qed

lemma tk_tokens_simps [simp]:
  "tk_tokens (tk_Advance n t) = tk_tokens t"
  "tk_tokens (tk_AddToken w t) = tk_tokens t @ [w]"
  by (simp_all add: tk_Advance_def tk_AddToken_def)

text \<open>One round of the tokenizer's loop takes the first token of the reference lexer.\<close>

lemma TokenizeLoop_step:
  assumes "rest t0 \<noteq> []"
  shows "(case lex_tok (dropWhile chr_isspace (rest t0)) of
      None \<Rightarrow> TokenizeLoop t0 = None
    | Some (w, r) \<Rightarrow> \<exists>t'. TokenizeLoop t0 = TokenizeLoop t' \<and> rest t' = r \<and>
        tk_tokens t' = tk_tokens t0 @ [w])"
proof -
  define t where "t = SkipSpaces t0"
  have tok: "tk_tokens t = tk_tokens t0" by (simp add: t_def SkipSpaces_frame)
  have rt: "rest t = dropWhile chr_isspace (rest t0)" by (simp add: t_def rest_SkipSpaces)
  note unfold = TokenizeLoop.simps[of t0, folded t_def, unfolded Let_def]
  show ?thesis
  proof (cases "rest t")
    case Nil
    with assms rt show ?thesis by (simp add: unfold tk_rest)
  next
    case (Cons c s)
    have adv: "rest (tk_Advance 1 (tk_AddToken w t)) = s"
        "rest (tk_Advance 2 (tk_AddToken w t)) = drop 1 s"
        "tk_tokens (tk_Advance k (tk_AddToken w t)) = tk_tokens t0 @ [w]" for w k
      using Cons tok by (simp_all add: rest_Advance)
    have cur: "tk_Current 1 t = [c]" "tk_Current 2 t = c # take 1 s"
      and hm: "tk_HasMore 1 t" "tk_HasMore 1 t0"
      using Cons assms by (simp_all add: tk_rest)
    have alpha: "IsAlpha [c] \<longleftrightarrow> alnum c" by (simp add: IsAlpha_iff)
    consider (single) "c \<in> set ''()$,''" | (word) "c \<notin> set ''()$,''" "alnum c"
      | (double) "c \<notin> set ''()$,''" "\<not> alnum c" by blast
    then show ?thesis
    proof cases
      case single
      then have "TokenizeLoop t0 = TokenizeLoop (tk_Advance 1 (tk_AddToken [c] t))"
        unfolding unfold cur using hm by (elim set_ConsD[elim_format] disjE) simp_all
      moreover from single have "lex_tok (c # s) = Some ([c], s)" by simp
      ultimately show ?thesis unfolding rt[symmetric] Cons using adv(1,3) by auto
    next
      case word
      then have "TokenizeLoop t0 =
          TokenizeLoop (tk_AddToken (fst (ReadWord [] t)) (snd (ReadWord [] t)))"
        unfolding unfold cur alpha using hm by simp
      moreover have "tk_tokens (snd (ReadWord [] t)) = tk_tokens t0"
        using ReadWord_frame[of "[]" t] tok by simp
      moreover from word have "lex_tok (c # s) = Some (c # takeWhile alnum s, dropWhile alnum s)"
        by simp
      moreover have "fst (ReadWord [] t) = c # takeWhile alnum s"
          "rest (snd (ReadWord [] t)) = dropWhile alnum s"
        using ReadWord_rest[of "[]" t] Cons word(2) by simp_all
      ultimately show ?thesis unfolding rt[symmetric] Cons by auto
    next
      case double
      then have loop: "TokenizeLoop t0 =
          (if c # take 1 s \<in> {''&&'', ''||'', ''==''}
           then TokenizeLoop (tk_Advance 2 (tk_AddToken (c # take 1 s) t)) else None)"
        unfolding unfold cur alpha using hm by simp
      have tok2: "lex_tok (c # s) =
          (if c # take 1 s \<in> {''&&'', ''||'', ''==''} then Some (c # take 1 s, drop 1 s) else None)"
        using double by (cases s) auto
      show ?thesis unfolding rt[symmetric] Cons tok2 loop using adv(2,3) by auto
    qed
  qed
qed

lemma TokenizeLoop_lex: "TokenizeLoop t = map_option ((@) (tk_tokens t)) (ref_lex (rest t))"
proof (induction "length (rest t)" arbitrary: t rule: less_induct)
  case less
  show ?case
  proof (cases "rest t = []")
    case True
    then show ?thesis
      by (subst TokenizeLoop.simps) (simp add: tk_rest ref_lex.simps)
  next
    case False
    note step = TokenizeLoop_step[OF False]
    show ?thesis
    proof (cases "lex_tok (dropWhile chr_isspace (rest t))")
      case None
      with step False show ?thesis by (simp add: ref_lex.simps[of "rest t"])
    next
      case (Some wr)
      then obtain w r where wr: "lex_tok (dropWhile chr_isspace (rest t)) = Some (w, r)"
        by (cases wr) auto
      with step obtain t' where t': "TokenizeLoop t = TokenizeLoop t'" "rest t' = r"
        "tk_tokens t' = tk_tokens t @ [w]" by auto
      from lex_tok_length[OF wr] have "length r < length (rest t)"
        using length_dropWhile_le le_trans not_less by blast
      with less[of t'] t' have "TokenizeLoop t = map_option ((@) (tk_tokens t @ [w])) (ref_lex r)"
        by simp
      also have "\<dots> = map_option ((@) (tk_tokens t)) (map_option (Cons w) (ref_lex r))"
        by (cases "ref_lex r") auto
      also have "\<dots> = map_option ((@) (tk_tokens t)) (ref_lex (rest t))"
        using wr False by (simp add: ref_lex.simps[of "rest t"])
      finally show ?thesis .
    qed
  qed
qed

lemma Tokenize_ref_lex: "Tokenize s = ref_lex s"
  by (cases "ref_lex s") (simp_all add: Tokenize_def TokenizeLoop_lex tk_init_def rest_def)

definition valid_token :: "string \<Rightarrow> bool" where
  "valid_token w \<longleftrightarrow>
     w \<in> {''('', '')'', ''$'', '','', ''&&'', ''||'', ''==''} \<or> w \<noteq> [] \<and> IsAlpha w"

lemma alnum_not_space: "alnum c \<Longrightarrow> \<not> chr_isspace c"
  by (auto simp: alnum_def py_simps)

lemma valid_token_no_space: "valid_token w \<Longrightarrow> c \<in> set w \<Longrightarrow> \<not> chr_isspace c"
proof (cases "IsAlpha w")
  case True
  assume "c \<in> set w"
  with True have "alnum c" by (simp add: IsAlpha_iff list_all_iff)
  then show ?thesis by (rule alnum_not_space)
next
  case False
  assume "valid_token w" "c \<in> set w"
  with False have "c \<in> set ''()$,&|=''" by (auto simp: valid_token_def)
  then show ?thesis by (auto simp: chr_isspace_def)
qed

lemma valid_token_nonempty: "valid_token w \<Longrightarrow> w \<noteq> []"
  by (auto simp: valid_token_def)

lemma lex_tok_sound:
  assumes "lex_tok s = Some (w, r)"
  shows "s = w @ r \<and> valid_token w"
proof (cases s)
  case (Cons c s')
  consider "c \<in> set ''()$,''" | "c \<notin> set ''()$,''" "alnum c" | "c \<notin> set ''()$,''" "\<not> alnum c" by blast
  then show ?thesis
  proof cases
    case 1
    with assms Cons have "w = [c]" "r = s'" by simp_all
    with 1 Cons show ?thesis by (simp add: valid_token_def)
  next
    case 2
    with assms Cons have "w = c # takeWhile alnum s'" "r = dropWhile alnum s'" by simp_all
    moreover have "list_all alnum (takeWhile alnum s')"
      by (auto simp: list_all_iff dest: set_takeWhileD)
    ultimately show ?thesis using 2 Cons by (simp add: valid_token_def IsAlpha_iff)
  next
    case 3
    show ?thesis
    proof (cases s')
      case Nil
      with 3 assms Cons show ?thesis by simp
    next
      case (Cons d s'')
      with 3 assms \<open>s = c # s'\<close> have "c = d" "c \<in> set ''&|=''" "w = [c, d]" "r = s''"
        by (simp_all split: if_splits)
      then show ?thesis using Cons \<open>s = c # s'\<close> by (auto simp: valid_token_def)
    qed
  qed
qed (use assms in simp)

lemma filter_dropWhile_space:
  "filter (\<lambda>c. \<not> chr_isspace c) (dropWhile chr_isspace s) = filter (\<lambda>c. \<not> chr_isspace c) s"
  by (induction s) auto

lemma ref_lex_sound:
  "ref_lex s = Some ts \<Longrightarrow>
     list_all valid_token ts \<and> concat ts = filter (\<lambda>c. \<not> chr_isspace c) s"
proof (induction s arbitrary: ts rule: ref_lex.induct)
  case (1 s)
  show ?case
  proof (cases "s = []")
    case True
    with 1 show ?thesis by (simp add: ref_lex.simps)
  next
    case False
    with 1 obtain w r us where tok: "lex_tok (dropWhile chr_isspace s) = Some (w, r)"
      and us: "ref_lex r = Some us" and ts: "ts = w # us"
      by (auto simp: ref_lex.simps[of s] split: option.splits)
    from lex_tok_sound[OF tok] have s: "dropWhile chr_isspace s = w @ r" and w: "valid_token w"
      by simp_all
    from w have "filter (\<lambda>c. \<not> chr_isspace c) w = w"
      by (simp add: filter_id_conv valid_token_no_space)
    with s have "filter (\<lambda>c. \<not> chr_isspace c) s = w @ filter (\<lambda>c. \<not> chr_isspace c) r"
      by (metis filter_append filter_dropWhile_space)
    with "1.IH"[OF False tok refl us] ts w show ?thesis by simp
  qed
qed

lemma lex_tok_append:
  assumes "valid_token w" and "r = [] \<or> \<not> alnum (hd r)"
  shows "lex_tok (w @ r) = Some (w, r)"
proof -
  consider "w \<in> {''('', '')'', ''$'', '',''}" | "w \<in> {''&&'', ''||'', ''==''}" | "w \<noteq> []" "IsAlpha w"
    using assms(1) by (auto simp: valid_token_def)
  then show ?thesis
  proof cases
    case 1
    then show ?thesis by auto
  next
    case 2
    then show ?thesis by (auto simp: alnum_def py_simps)
  next
    case 3
    then obtain c w' where w: "w = c # w'" and c: "alnum c" and w': "\<forall>d \<in> set w'. alnum d"
      by (cases w) (auto simp: IsAlpha_iff list_all_iff)
    from c have "c \<notin> set ''()$,''" by (auto simp: alnum_def py_simps)
    moreover have "takeWhile alnum (w' @ r) = w'" "dropWhile alnum (w' @ r) = r"
      using w' assms(2) by (cases r; simp add: takeWhile_append dropWhile_append)+
    ultimately show ?thesis using w c by simp
  qed
qed

lemma ref_lex_space: "s \<noteq> [] \<Longrightarrow> ref_lex (CHR '' '' # s) = ref_lex s"
  by (simp add: ref_lex.simps[of s] ref_lex.simps[of "CHR '' '' # s"] chr_isspace_def)

lemma dropWhile_valid_token: "valid_token w \<Longrightarrow> dropWhile chr_isspace (w @ r) = w @ r"
  using valid_token_nonempty[of w] valid_token_no_space[of w "hd w"]
  by (cases w) auto

lemma ref_lex_join: "list_all valid_token ts \<Longrightarrow> ref_lex (py_join '' '' ts) = Some ts"
proof (induction "'' ''" ts rule: py_join.induct)
  case 1
  then show ?case by (simp add: ref_lex.simps)
next
  case (2 w)
  then have w: "valid_token w" by simp
  then show ?case
    using dropWhile_valid_token[OF w, of "[]"] lex_tok_append[OF w, of "[]"] valid_token_nonempty[OF w]
    by (simp add: ref_lex.simps[of w] ref_lex.simps[of "[]"])
next
  case (3 w v ws)
  then have w: "valid_token w" and v: "valid_token v" by simp_all
  let ?r = "py_join '' '' (v # ws)"
  have ne: "?r \<noteq> []" using valid_token_nonempty[OF v] by (cases ws) auto
  have "lex_tok (w @ '' '' @ ?r) = Some (w, '' '' @ ?r)"
    by (rule lex_tok_append[OF w]) (simp add: alnum_def py_simps)
  then have "ref_lex (w @ '' '' @ ?r) = map_option (Cons w) (ref_lex ('' '' @ ?r))"
    using dropWhile_valid_token[OF w, of "'' '' @ ?r"] by (subst ref_lex.simps) simp
  then show ?case using 3 ref_lex_space[OF ne] by simp
qed

section \<open>Parser\<close>

text \<open>
  The grammar the parser is written for. \<open>==\<close> associates to the right, \<open>if\<close> and the
  logical operators to the left, and all logical operators have the same precedence.
\<close>

inductive AtomG :: "string list \<Rightarrow> expr \<Rightarrow> bool"
  and OperG :: "string list \<Rightarrow> expr \<Rightarrow> bool"
  and CondG :: "string list \<Rightarrow> expr \<Rightarrow> bool"
  and LogicG :: "string list \<Rightarrow> expr \<Rightarrow> bool" where
  g_true: "AtomG [''true''] (Constant True)"
| g_false: "AtomG [''false''] (Constant False)"
| g_name: "IsAlpha t \<Longrightarrow> t \<noteq> ''true'' \<Longrightarrow> t \<noteq> ''false'' \<Longrightarrow> AtomG [t] (Outcome (py_lower t))"
| g_var: "IsAlpha t \<Longrightarrow> AtomG [''$'', t] (Variable (py_lower t))"
| g_paren: "LogicG ts e \<Longrightarrow> AtomG (''('' # ts @ ['')'']) e"
| g_atom: "AtomG ts e \<Longrightarrow> OperG ts e"
| g_eq: "AtomG ts e \<Longrightarrow> OperG us f \<Longrightarrow> OperG (ts @ ''=='' # us) (Operation e ''=='' f)"
| g_oper: "OperG ts e \<Longrightarrow> CondG ts e"
| g_if: "CondG ts e \<Longrightarrow> OperG us f \<Longrightarrow> CondG (ts @ ''if'' # us) (Operation e ''if'' f)"
| g_cond: "CondG ts e \<Longrightarrow> LogicG ts e"
| g_logic: "LogicG ts e \<Longrightarrow> CondG us f \<Longrightarrow> op \<in> set LOGICALS \<Longrightarrow>
    LogicG (ts @ op # us) (Operation e op f)"

subsection \<open>Soundness\<close>

definition sound_at :: "(string list \<Rightarrow> expr \<Rightarrow> bool) \<Rightarrow> string list \<Rightarrow> nat \<Rightarrow> parsed \<Rightarrow> bool" where
  "sound_at G ts i r \<longleftrightarrow>
     (\<forall>e j. r = Inr (Some e, j) \<longrightarrow> i < j \<and> j \<le> length ts \<and> G (py_slice ts i j) e)"

lemma sound_atD: "sound_at G ts i (Inr (Some e, j)) \<Longrightarrow> i < j \<and> j \<le> length ts \<and> G (py_slice ts i j) e"
  by (simp add: sound_at_def)

lemma sound_at_trivial [simp]: "sound_at G ts i (Inl x)" "sound_at G ts i (Inr (None, j))"
  by (simp_all add: sound_at_def)

text \<open>A parsing step followed by a continuation, as every function of the parser is built.\<close>

lemma sound_at_bind:
  assumes "sound_at G ts i r"
    and "\<And>e j. i < j \<Longrightarrow> j \<le> length ts \<Longrightarrow> G (py_slice ts i j) e \<Longrightarrow> r = Inr (Some e, j) \<Longrightarrow>
      sound_at H ts k (f e j)"
  shows "sound_at H ts k (rbind r (\<lambda>(res, j). case res of None \<Rightarrow> Inr (None, j) | Some e \<Rightarrow> f e j))"
proof (cases r)
  case (Inr x)
  with assms show ?thesis by (cases x; cases "fst x") (simp_all add: sound_atD)
qed simp

lemma slice_join: "i \<le> j \<Longrightarrow> j \<le> k \<Longrightarrow> py_slice ts i j @ py_slice ts j k = py_slice ts i k"
proof -
  assume "i \<le> j" "j \<le> k"
  then have "k - i = (j - i) + (k - j)" "drop (j - i) (drop i ts) = drop j ts" by simp_all
  then show ?thesis by (simp add: py_slice_def take_add)
qed

lemma slice_one: "i < length ts \<Longrightarrow> py_slice ts i (Suc i) = [ts ! i]"
  by (simp add: py_slice_def take_Suc_conv_app_nth hd_drop_conv_nth take_Suc)

lemma slice_snoc_op:
  "i \<le> j \<Longrightarrow> j < k \<Longrightarrow> j < length ts \<Longrightarrow>
     py_slice ts i j @ ts ! j # py_slice ts (Suc j) k = py_slice ts i k"
  using slice_one[of j ts] slice_join[of i j k ts] slice_join[of j "Suc j" k ts] by simp

lemma ParseAtomic_sound:
  assumes "\<And>i. sound_at LogicG ts i (plog i)"
  shows "sound_at AtomG ts i (ParseAtomicExpression plog ts i)"
proof (cases "i < length ts")
  case True
  note slice = slice_one[OF True]
  let ?t = "ts ! i"
  consider "?t = ''true''" | "?t = ''false''" | "?t \<noteq> ''true''" "?t \<noteq> ''false''" "IsAlpha ?t"
    | (var) "?t = ''$''" | (paren) "?t = ''(''"
    | "?t \<noteq> ''true''" "?t \<noteq> ''false''" "\<not> IsAlpha ?t" "?t \<noteq> ''$''" "?t \<noteq> ''(''"
    by blast
  then show ?thesis
  proof cases
    case var
    show ?thesis
    proof (cases "Suc i < length ts")
      case True2: True
      have "py_slice ts i (Suc (Suc i)) = [''$'', ts ! Suc i]"
        using slice_snoc_op[of i i "Suc (Suc i)" ts] slice_one[OF True2] True var
        by (simp add: py_slice_def)
      then show ?thesis using True True2 var
        by (auto simp: ParseAtomicExpression_def scan_Current_def sound_at_def IsAlpha_def py_simps
              intro: g_var)
    next
      case False
      then show ?thesis using True var
        by (simp add: ParseAtomicExpression_def scan_Current_def IsAlpha_def py_simps)
    qed
  next
    case paren
    have eq: "ParseAtomicExpression plog ts i =
        rbind (plog (Suc i)) (\<lambda>(res, j). case res of None \<Rightarrow> Inr (None, j)
          | Some e \<Rightarrow> rbind (scan_Current ts j) (\<lambda>c. if c \<noteq> '')'' then Inr (None, j) else Inr (Some e, Suc j)))"
      using paren True by (simp add: ParseAtomicExpression_def scan_Current_def IsAlpha_def py_simps)
    show ?thesis unfolding eq
    proof (rule sound_at_bind[OF assms])
      fix e j
      assume j: "Suc i < j" "j \<le> length ts" and g: "LogicG (py_slice ts (Suc i) j) e"
      have "py_slice ts i (Suc j) = ''('' # py_slice ts (Suc i) j @ ['')'']"
        if "j < length ts" "ts ! j = '')''"
        using slice_snoc_op[of i i "Suc j" ts] slice_join[of "Suc i" j "Suc j" ts] slice_one[OF that(1)]
          that(2) paren j True by (simp add: py_slice_def)
      with j g show "sound_at AtomG ts i
          (rbind (scan_Current ts j) (\<lambda>c. if c \<noteq> '')'' then Inr (None, j) else Inr (Some e, Suc j)))"
        by (auto simp: scan_Current_def sound_at_def intro: g_paren)
    qed
  qed (use True slice in \<open>auto simp: ParseAtomicExpression_def scan_Current_def sound_at_def
        intro: g_true g_false g_name\<close>)
next
  case False
  then show ?thesis by (simp add: ParseAtomicExpression_def scan_Current_def)
qed

text \<open>
  A loop that starts with \<open>left\<close> parsed from position \<open>i\<close> to \<open>j\<close> keeps the invariant that
  what it has read from \<open>i\<close> derives its accumulator.
\<close>

lemma Operator_follow:
  "ParseOperatorExpression plog n ts i = Inr (Some e, k) \<Longrightarrow> k < length ts \<Longrightarrow> ts ! k \<notin> set BINARIES"
  "OperatorLoop plog n ts left i = Inr (Some e, k) \<Longrightarrow> k < length ts \<Longrightarrow> ts ! k \<notin> set BINARIES"
proof (induction n arbitrary: i left)
  case (Suc n)
  {
    case 1
    then show ?case using Suc.IH(2) by (auto simp: rbind_Inr_iff split: option.splits prod.splits)
  next
    case 2
    then show ?case using Suc.IH(2)
      by (auto simp: rbind_Inr_iff scan_HasMore_def split: option.splits prod.splits if_splits)
  }
qed simp_all

lemma ParseOperator_sound:
  assumes "\<And>i. sound_at LogicG ts i (plog i)"
  shows "sound_at OperG ts i (ParseOperatorExpression plog n ts i)"
    and "i < j \<Longrightarrow> j \<le> length ts \<Longrightarrow> AtomG (py_slice ts i j) left \<Longrightarrow>
      sound_at OperG ts i (OperatorLoop plog n ts left j)"
proof (induction n arbitrary: i j left)
  case 0
  {
    case 1 then show ?case by simp
  next
    case 2 then show ?case by simp
  }
next
  case (Suc n)
  {
    case 1
    show ?case
      by (simp, rule sound_at_bind[OF ParseAtomic_sound[OF assms]]) (rule Suc.IH(2))
  next
    case 2
    have stop: "sound_at OperG ts i (Inr (Some left, j))"
      using 2 by (simp add: sound_at_def g_atom)
    have more: "sound_at OperG ts i (OperatorLoop plog (Suc n) ts left j)"
      if op: "scan_HasMore ts j \<and> ts ! j \<in> set BINARIES"
    proof -
      from op have j: "j < length ts" and eq: "ts ! j = ''==''"
        by (simp_all add: scan_HasMore_def BINARIES_def)
      have "sound_at OperG ts i (rbind (ParseOperatorExpression plog n ts (Suc j)) (\<lambda>(res, k).
          case res of None \<Rightarrow> Inr (None, k)
          | Some right \<Rightarrow> OperatorLoop plog n ts (Operation left (ts ! j) right) k))"
      proof (rule sound_at_bind[OF Suc.IH(1)])
        fix e k
        assume k: "Suc j < k" "k \<le> length ts" and g: "OperG (py_slice ts (Suc j) k) e"
          and ret: "ParseOperatorExpression plog n ts (Suc j) = Inr (Some e, k)"
        have "OperG (py_slice ts i k) (Operation left (ts ! j) e)"
          using g_eq[OF 2(3) g] slice_snoc_op[of i j k ts] 2 k j eq by simp
        then show "sound_at OperG ts i (OperatorLoop plog n ts (Operation left (ts ! j) e) k)"
          using Operator_follow(1)[OF ret] 2(1) k
          by (cases n) (auto simp: scan_HasMore_def sound_at_def)
      qed
      with op show ?thesis by simp
    qed
    show ?case
    proof (cases "scan_HasMore ts j \<and> ts ! j \<in> set BINARIES")
      case True then show ?thesis by (rule more)
    next
      case False with stop show ?thesis by (simp only: OperatorLoop.simps if_False)
    qed
  }
qed

lemma ConditionalLoop_sound:
  assumes "\<And>i. sound_at LogicG ts i (plog i)"
  shows "i < j \<Longrightarrow> j \<le> length ts \<Longrightarrow> CondG (py_slice ts i j) left \<Longrightarrow>
      sound_at CondG ts i (ConditionalLoop plog n ts left j)"
proof (induction n arbitrary: j left)
  case (Suc n)
  show ?case
  proof (cases "scan_HasMore ts j \<and> ts ! j = ''if''")
    case True
    then have j: "j < length ts" and op: "ts ! j = ''if''" by (simp_all add: scan_HasMore_def)
    have "sound_at CondG ts i (rbind (ParseOperatorExpression plog n ts (Suc j)) (\<lambda>(res, k).
          case res of None \<Rightarrow> Inr (None, k)
          | Some right \<Rightarrow> ConditionalLoop plog n ts (Operation left ''if'' right) k))"
    proof (rule sound_at_bind[OF ParseOperator_sound(1)[OF assms]], rule Suc.IH)
      fix e k
      assume k: "Suc j < k" "k \<le> length ts" and g: "OperG (py_slice ts (Suc j) k) e"
      show "CondG (py_slice ts i k) (Operation left ''if'' e)"
        using g_if[OF Suc.prems(3) g] slice_snoc_op[of i j k ts] Suc.prems k j op by simp
      show "i < k" "k \<le> length ts" using Suc.prems k by simp_all
    qed
    with True show ?thesis by simp
  next
    case False
    with Suc.prems show ?thesis by (simp only: ConditionalLoop.simps if_False) (simp add: sound_at_def)
  qed
qed simp

lemma ParseConditional_sound:
  assumes "\<And>i. sound_at LogicG ts i (plog i)"
  shows "sound_at CondG ts i (ParseConditionalExpression plog n ts i)"
  unfolding ParseConditionalExpression_def
  by (rule sound_at_bind[OF ParseOperator_sound(1)[OF assms]], rule ConditionalLoop_sound[OF assms])
     (simp_all add: g_oper)

lemma LogicalLoop_sound:
  assumes "\<And>i. sound_at LogicG ts i (plog i)"
  shows "i < j \<Longrightarrow> j \<le> length ts \<Longrightarrow> LogicG (py_slice ts i j) left \<Longrightarrow>
      sound_at LogicG ts i (LogicalLoop plog n ts left j)"
proof (induction n arbitrary: j left)
  case (Suc n)
  show ?case
  proof (cases "scan_HasMore ts j \<and> ts ! j \<in> set LOGICALS")
    case True
    then have j: "j < length ts" and op: "ts ! j \<in> set LOGICALS" by (simp_all add: scan_HasMore_def)
    have "sound_at LogicG ts i (rbind (ParseConditionalExpression plog n ts (Suc j)) (\<lambda>(res, k).
          case res of None \<Rightarrow> Inr (None, k)
          | Some right \<Rightarrow> LogicalLoop plog n ts (Operation left (ts ! j) right) k))"
    proof (rule sound_at_bind[OF ParseConditional_sound[OF assms]], rule Suc.IH)
      fix e k
      assume k: "Suc j < k" "k \<le> length ts" and g: "CondG (py_slice ts (Suc j) k) e"
      show "LogicG (py_slice ts i k) (Operation left (ts ! j) e)"
        using g_logic[OF Suc.prems(3) g op] slice_snoc_op[of i j k ts] Suc.prems k j by simp
      show "i < k" "k \<le> length ts" using Suc.prems k by simp_all
    qed
    with True show ?thesis by simp
  next
    case False
    with Suc.prems show ?thesis by (simp only: LogicalLoop.simps if_False) (simp add: sound_at_def)
  qed
qed simp

lemma ParseLogical_sound: "sound_at LogicG ts i (ParseLogicalExpression n ts i)"
proof (induction n arbitrary: i)
  case (Suc n)
  show ?case
    by (simp, rule sound_at_bind[OF ParseConditional_sound[OF Suc.IH]], rule LogicalLoop_sound[OF Suc.IH])
       (simp_all add: g_cond)
qed simp

subsection \<open>The bound is enough\<close>

abbreviation exhausted :: "parsed \<Rightarrow> bool" where
  "exhausted r \<equiv> r = Inl RuntimeError"

lemma bind_not_exhausted:
  assumes "\<not> exhausted r" and "\<And>e j. r = Inr (Some e, j) \<Longrightarrow> \<not> exhausted (f e j)"
  shows "\<not> exhausted (rbind r (\<lambda>(res, j). case res of None \<Rightarrow> Inr (None, j) | Some e \<Rightarrow> f e j))"
  using assms by (cases r) (auto split: option.splits prod.splits)

lemma ParseAtomic_enough:
  assumes "i < length ts \<Longrightarrow> \<not> exhausted (plog (Suc i))"
  shows "\<not> exhausted (ParseAtomicExpression plog ts i)"
  using assms unfolding ParseAtomicExpression_def scan_Current_def
  by (auto simp: rbind_Inl_iff split: if_splits option.splits)

text \<open>\<open>ts\<close> and the callback are fixed; the remaining number of tokens bounds the rounds.\<close>

definition enough_plog :: "string list \<Rightarrow> nat \<Rightarrow> (nat \<Rightarrow> parsed) \<Rightarrow> bool" where
  "enough_plog ts i plog \<longleftrightarrow>
     (\<forall>k. i < k \<longrightarrow> k \<le> length ts \<longrightarrow> \<not> exhausted (plog k)) \<and> (\<forall>k. sound_at LogicG ts k (plog k))"

lemma enough_plog_mono: "enough_plog ts i plog \<Longrightarrow> i \<le> j \<Longrightarrow> enough_plog ts j plog"
  by (auto simp: enough_plog_def)

lemma ParseOperator_enough:
  shows "enough_plog ts i plog \<Longrightarrow> length ts - i < n \<Longrightarrow> \<not> exhausted (ParseOperatorExpression plog n ts i)"
    and "enough_plog ts i plog \<Longrightarrow> length ts - i < n \<Longrightarrow> \<not> exhausted (OperatorLoop plog n ts left i)"
proof (induction n arbitrary: i left)
  case (Suc n)
  {
    case 1
    have snd: "\<And>k. sound_at LogicG ts k (plog k)" using 1 by (simp add: enough_plog_def)
    show ?case unfolding ParseOperatorExpression.simps
    proof (rule bind_not_exhausted[OF ParseAtomic_enough])
      show "i < length ts \<Longrightarrow> \<not> exhausted (plog (Suc i))" using 1 by (simp add: enough_plog_def)
      fix e j
      assume "ParseAtomicExpression plog ts i = Inr (Some e, j)"
      with ParseAtomic_sound[OF snd, of i] have "i < j" "j \<le> length ts" by (auto dest: sound_atD)
      then show "\<not> exhausted (OperatorLoop plog n ts e j)"
        using 1 by (intro Suc.IH(2) enough_plog_mono[OF 1(1)]) auto
    qed
  next
    case 2
    have snd: "\<And>k. sound_at LogicG ts k (plog k)" using 2 by (simp add: enough_plog_def)
    show ?case
    proof (cases "scan_HasMore ts i \<and> ts ! i \<in> set BINARIES")
      case True
      then have j: "i < length ts" by (simp add: scan_HasMore_def)
      have "\<not> exhausted (rbind (ParseOperatorExpression plog n ts (Suc i)) (\<lambda>(res, k).
          case res of None \<Rightarrow> Inr (None, k)
          | Some right \<Rightarrow> OperatorLoop plog n ts (Operation left (ts ! i) right) k))"
      proof (rule bind_not_exhausted)
        show "\<not> exhausted (ParseOperatorExpression plog n ts (Suc i))"
          using 2 j by (intro Suc.IH(1) enough_plog_mono[OF 2(1)]) auto
        fix e k
        assume "ParseOperatorExpression plog n ts (Suc i) = Inr (Some e, k)"
        with ParseOperator_sound(1)[OF snd, of "Suc i" n] have "Suc i < k" "k \<le> length ts"
          by (auto dest: sound_atD)
        then show "\<not> exhausted (OperatorLoop plog n ts (Operation left (ts ! i) e) k)"
          using 2 j by (intro Suc.IH(2) enough_plog_mono[OF 2(1)]) auto
      qed
      with True show ?thesis by simp
    next
      case False
      then show ?thesis by (simp only: OperatorLoop.simps if_False) simp
    qed
  }
qed simp_all

lemma ConditionalLoop_enough:
  "enough_plog ts i plog \<Longrightarrow> length ts - i < n \<Longrightarrow> \<not> exhausted (ConditionalLoop plog n ts left i)"
proof (induction n arbitrary: i left)
  case (Suc n)
  have snd: "\<And>k. sound_at LogicG ts k (plog k)" using Suc.prems by (simp add: enough_plog_def)
  show ?case
  proof (cases "scan_HasMore ts i \<and> ts ! i = ''if''")
    case True
    then have i: "i < length ts" by (simp add: scan_HasMore_def)
    have "\<not> exhausted (rbind (ParseOperatorExpression plog n ts (Suc i)) (\<lambda>(res, k).
        case res of None \<Rightarrow> Inr (None, k)
        | Some right \<Rightarrow> ConditionalLoop plog n ts (Operation left ''if'' right) k))"
    proof (rule bind_not_exhausted)
      show "\<not> exhausted (ParseOperatorExpression plog n ts (Suc i))"
        using Suc.prems i by (intro ParseOperator_enough(1) enough_plog_mono[OF Suc.prems(1)]) auto
      fix e k
      assume "ParseOperatorExpression plog n ts (Suc i) = Inr (Some e, k)"
      with ParseOperator_sound(1)[OF snd, of "Suc i" n] have "Suc i < k" "k \<le> length ts"
        by (auto dest: sound_atD)
      then show "\<not> exhausted (ConditionalLoop plog n ts (Operation left ''if'' e) k)"
        using Suc.prems i by (intro Suc.IH enough_plog_mono[OF Suc.prems(1)]) auto
    qed
    with True show ?thesis by simp
  next
    case False
    then show ?thesis by (simp only: ConditionalLoop.simps if_False) simp
  qed
qed simp

lemma ParseConditional_enough:
  assumes "enough_plog ts i plog" and "length ts - i < n"
  shows "\<not> exhausted (ParseConditionalExpression plog n ts i)"
  unfolding ParseConditionalExpression_def
proof (rule bind_not_exhausted[OF ParseOperator_enough(1)[OF assms]])
  fix e j
  assume "ParseOperatorExpression plog n ts i = Inr (Some e, j)"
  moreover have "\<And>k. sound_at LogicG ts k (plog k)" using assms by (simp add: enough_plog_def)
  ultimately have "i < j" using ParseOperator_sound(1)[of ts plog i n] by (auto dest: sound_atD)
  then show "\<not> exhausted (ConditionalLoop plog n ts e j)"
    using assms by (intro ConditionalLoop_enough enough_plog_mono[OF assms(1)]) auto
qed

lemma LogicalLoop_enough:
  "enough_plog ts i plog \<Longrightarrow> length ts - i < n \<Longrightarrow> \<not> exhausted (LogicalLoop plog n ts left i)"
proof (induction n arbitrary: i left)
  case (Suc n)
  have snd: "\<And>k. sound_at LogicG ts k (plog k)" using Suc.prems by (simp add: enough_plog_def)
  show ?case
  proof (cases "scan_HasMore ts i \<and> ts ! i \<in> set LOGICALS")
    case True
    then have i: "i < length ts" by (simp add: scan_HasMore_def)
    have "\<not> exhausted (rbind (ParseConditionalExpression plog n ts (Suc i)) (\<lambda>(res, k).
        case res of None \<Rightarrow> Inr (None, k)
        | Some right \<Rightarrow> LogicalLoop plog n ts (Operation left (ts ! i) right) k))"
    proof (rule bind_not_exhausted)
      show "\<not> exhausted (ParseConditionalExpression plog n ts (Suc i))"
        using Suc.prems i by (intro ParseConditional_enough enough_plog_mono[OF Suc.prems(1)]) auto
      fix e k
      assume "ParseConditionalExpression plog n ts (Suc i) = Inr (Some e, k)"
      with ParseConditional_sound[OF snd, of "Suc i" n] have "Suc i < k" "k \<le> length ts"
        by (auto dest: sound_atD)
      then show "\<not> exhausted (LogicalLoop plog n ts (Operation left (ts ! i) e) k)"
        using Suc.prems i by (intro Suc.IH enough_plog_mono[OF Suc.prems(1)]) auto
    qed
    with True show ?thesis by simp
  next
    case False
    then show ?thesis by (simp only: LogicalLoop.simps if_False) simp
  qed
qed simp

lemma ParseLogicalExpression_enough:
  "length ts - i + 1 < n \<Longrightarrow> \<not> exhausted (ParseLogicalExpression n ts i)"
proof (induction n arbitrary: i)
  case (Suc n)
  have en: "enough_plog ts i (ParseLogicalExpression n ts)"
    using Suc by (auto simp: enough_plog_def ParseLogical_sound intro!: Suc.IH)
  have "length ts - i < n" using Suc.prems by simp
  note cond = ParseConditional_enough[OF en this]
  show ?case unfolding ParseLogicalExpression.simps
  proof (rule bind_not_exhausted[OF cond])
    fix e j
    assume "ParseConditionalExpression (ParseLogicalExpression n ts) n ts i = Inr (Some e, j)"
    then have "i < j"
      using ParseConditional_sound[of ts "ParseLogicalExpression n ts" i n, OF ParseLogical_sound]
      by (auto dest: sound_atD)
    then show "\<not> exhausted (LogicalLoop (ParseLogicalExpression n ts) n ts e j)"
      using Suc.prems by (intro LogicalLoop_enough enough_plog_mono[OF en]) auto
  qed
qed simp

subsection \<open>Completeness\<close>

definition not_next :: "string set \<Rightarrow> string list \<Rightarrow> bool" where
  "not_next S post \<longleftrightarrow> post = [] \<or> hd post \<notin> S"

lemma not_next_simps [simp]: "not_next S []" "not_next S (w # ws) \<longleftrightarrow> w \<notin> S"
  by (simp_all add: not_next_def)

lemma at_post:
  assumes "ts = pre @ us @ post" and "not_next S post"
  shows "\<not> (scan_HasMore ts (length pre + length us) \<and> ts ! (length pre + length us) \<in> S)"
  using assms by (cases post) (auto simp: scan_HasMore_def nth_append)

lemma loop_stop:
  "\<not> (scan_HasMore ts i \<and> ts ! i \<in> {''==''}) \<Longrightarrow> OperatorLoop plog (Suc n) ts left i = Inr (Some left, i)"
  "\<not> (scan_HasMore ts i \<and> ts ! i \<in> {''if''}) \<Longrightarrow> ConditionalLoop plog (Suc n) ts left i = Inr (Some left, i)"
  "\<not> (scan_HasMore ts i \<and> ts ! i \<in> set LOGICALS) \<Longrightarrow> LogicalLoop plog (Suc n) ts left i = Inr (Some left, i)"
  by (auto simp: BINARIES_def)

definition complete_plog :: "string list \<Rightarrow> (nat \<Rightarrow> parsed) \<Rightarrow> nat \<Rightarrow> bool" where
  "complete_plog ts plog i \<longleftrightarrow>
     (\<forall>pre us post e. ts = pre @ us @ post \<longrightarrow> i < length pre \<longrightarrow> LogicG us e \<longrightarrow>
        not_next {''=='', ''if'', ''&&'', ''||'', '',''} post \<longrightarrow>
        plog (length pre) = Inr (Some e, length pre + length us))"

lemma complete_plogD:
  "complete_plog ts plog i \<Longrightarrow> ts = pre @ us @ post \<Longrightarrow> i < length pre \<Longrightarrow> LogicG us e \<Longrightarrow>
     not_next {''=='', ''if'', ''&&'', ''||'', '',''} post \<Longrightarrow>
     plog (length pre) = Inr (Some e, length pre + length us)"
  unfolding complete_plog_def by blast

lemma complete_plog_mono:
  assumes "complete_plog ts plog i" and "i \<le> j"
  shows "complete_plog ts plog j"
  unfolding complete_plog_def
  by (intro allI impI, rule complete_plogD[OF assms(1)]) (use assms(2) in simp_all)

inductive_cases AtomGE [consumes 1, case_names tr fa name var paren]: "AtomG us e"

lemma ParseAtomic_complete:
  assumes g: "AtomG us e" and ts: "ts = pre @ us @ post" and pl: "complete_plog ts plog (length pre)"
  shows "ParseAtomicExpression plog ts (length pre) = Inr (Some e, length pre + length us)"
  using g
proof (cases rule: AtomGE)
  case (var t)
  then show ?thesis using ts
    by (simp add: ParseAtomicExpression_def scan_Current_def nth_append IsAlpha_def py_simps)
next
  case (paren vs)
  have split: "ts = (pre @ [''('']) @ vs @ ('')'' # post)" using ts paren by simp
  have "plog (Suc (length pre)) = Inr (Some e, Suc (length pre) + length vs)"
    using complete_plogD[OF pl split _ paren(2)] by simp
  moreover have "ts ! Suc (length pre + length vs) = '')''"
    using paren ts by (simp add: nth_append)
  ultimately show ?thesis using ts paren
    by (simp add: ParseAtomicExpression_def scan_Current_def nth_append IsAlpha_def py_simps)
qed (simp_all add: ts ParseAtomicExpression_def scan_Current_def nth_append)

lemma ParseOperator_complete:
  assumes "OperG us e" and "ts = pre @ us @ post" and "complete_plog ts plog (length pre)"
    and "not_next {''==''} post" and "length ts - length pre < n"
  shows "ParseOperatorExpression plog n ts (length pre) = Inr (Some e, length pre + length us)"
  using assms
proof (induction us e arbitrary: pre n rule: AtomG_OperG_CondG_LogicG.inducts(2)
    [where ?P1.0 = "\<lambda>us e. True" and ?P3.0 = "\<lambda>us e. True" and ?P4.0 = "\<lambda>us e. True"])
  case (g_atom us e)
  then obtain m where n: "n = Suc m" by (cases n) auto
  have "us \<noteq> []" using g_atom.hyps by (auto elim: AtomGE)
  with g_atom n obtain m' where m: "m = Suc m'" by (cases m) auto
  have at: "ParseAtomicExpression plog ts (length pre) = Inr (Some e, length pre + length us)"
    using g_atom by (intro ParseAtomic_complete) auto
  show ?case
    using at loop_stop(1)[OF at_post[OF g_atom.prems(1,3)]] by (simp add: n m del: OperatorLoop.simps)
next
  case (g_eq us e vs f)
  then obtain m where n: "n = Suc m" by (cases n) auto
  have "us \<noteq> []" using g_eq.hyps(1) by (auto elim: AtomGE)
  then have ul: "0 < length us" by simp
  with g_eq.prems n obtain m' where m: "m = Suc m'" by (cases m) auto
  then obtain m'' where m': "m' = Suc m''" using g_eq.prems n m \<open>us \<noteq> []\<close> by (cases m') auto
  have at: "ParseAtomicExpression plog ts (length pre) = Inr (Some e, length pre + length us)"
    using g_eq by (intro ParseAtomic_complete[where post = "''=='' # vs @ post"]) auto
  have right: "ParseOperatorExpression plog m' ts (length (pre @ us @ [''=='']))
      = Inr (Some f, length (pre @ us @ [''=='']) + length vs)"
  proof (rule g_eq.IH)
    show "length ts - length (pre @ us @ [''=='']) < m'"
      using g_eq.prems(1,4) n m ul by (simp del: length_greater_0_conv)
  qed (use g_eq.prems in \<open>auto intro: complete_plog_mono\<close>)
  have "ts ! (length pre + length us) = ''==''" "length pre + length us < length ts"
    using g_eq.prems(1) by (simp_all add: nth_append)
  then have "ParseOperatorExpression plog n ts (length pre) =
      OperatorLoop plog m' ts (Operation e ''=='' f) (length (pre @ us @ [''=='']) + length vs)"
    using at right by (simp add: n m BINARIES_def scan_HasMore_def)
  moreover have split: "ts = (pre @ us @ [''=='']) @ vs @ post" using g_eq.prems(1) by simp
  from loop_stop(1)[OF at_post[OF split g_eq.prems(3)]]
  have "OperatorLoop plog m' ts (Operation e ''=='' f) (length (pre @ us @ [''=='']) + length vs) =
      Inr (Some (Operation e ''=='' f), length (pre @ us @ [''=='']) + length vs)"
    by (simp only: m')
  ultimately show ?case by (simp del: OperatorLoop.simps)
qed simp_all

text \<open>
  The two loops that associate to the left: parsing what derives \<open>e\<close> leads to the loop with
  accumulator \<open>e\<close>, with enough of the bound left for the rest of the tokens.
\<close>

lemma ParseConditional_to_loop:
  assumes "CondG us e" and "ts = pre @ us @ post" and "complete_plog ts plog (length pre)"
    and "not_next {''==''} post" and "length ts - length pre < n"
  shows "\<exists>m. length post < m \<and> ParseConditionalExpression plog n ts (length pre) =
    ConditionalLoop plog m ts e (length pre + length us)"
  using assms
proof (induction us e arbitrary: post rule: AtomG_OperG_CondG_LogicG.inducts(3)
    [where ?P1.0 = "\<lambda>us e. True" and ?P2.0 = "\<lambda>us e. True" and ?P4.0 = "\<lambda>us e. True"])
  case (g_oper us e)
  have "ParseOperatorExpression plog n ts (length pre) = Inr (Some e, length pre + length us)"
    using g_oper by (intro ParseOperator_complete) auto
  then show ?case using g_oper.prems
    by (intro exI[of _ n]) (simp add: ParseConditionalExpression_def)
next
  case (g_if us e vs f)
  have "ts = pre @ us @ (''if'' # vs @ post)" using g_if.prems(1) by simp
  from g_if.IH[OF this g_if.prems(2) _ g_if.prems(4)] obtain m
    where m: "length (''if'' # vs @ post) < m"
      and pc: "ParseConditionalExpression plog n ts (length pre) = ConditionalLoop plog m ts e (length pre + length us)"
    by auto
  from m obtain k where k: "m = Suc k" by (cases m) auto
  let ?pre = "pre @ us @ [''if'']"
  have "ParseOperatorExpression plog k ts (length ?pre) = Inr (Some f, length ?pre + length vs)"
    using g_if.prems g_if.hyps m k
    by (intro ParseOperator_complete[where post = post]) (auto intro: complete_plog_mono)
  moreover have "scan_HasMore ts (length pre + length us)" "ts ! (length pre + length us) = ''if''"
    using g_if.prems(1) by (simp_all add: scan_HasMore_def nth_append)
  ultimately have "ConditionalLoop plog m ts e (length pre + length us) =
      ConditionalLoop plog k ts (Operation e ''if'' f) (length ?pre + length vs)"
    by (simp add: k)
  with pc m k show ?case by (intro exI[of _ k]) (simp add: add.assoc)
qed simp_all

lemma ParseConditional_complete:
  assumes "CondG us e" and ts: "ts = pre @ us @ post" and "complete_plog ts plog (length pre)"
    and post: "not_next {''=='', ''if''} post" and "length ts - length pre < n"
  shows "ParseConditionalExpression plog n ts (length pre) = Inr (Some e, length pre + length us)"
proof -
  from post have p: "not_next {''==''} post" "not_next {''if''} post" by (auto simp: not_next_def)
  from ParseConditional_to_loop[OF assms(1-3) p(1) assms(5)] obtain m where "length post < m"
    and eq: "ParseConditionalExpression plog n ts (length pre) = ConditionalLoop plog m ts e (length pre + length us)"
    by blast
  then obtain k where "m = Suc k" by (cases m) auto
  with eq loop_stop(2)[OF at_post[OF ts p(2)]] show ?thesis by (simp del: ConditionalLoop.simps)
qed

lemma ParseLogical_to_loop:
  assumes "LogicG us e" and "ts = pre @ us @ post"
    and "complete_plog ts (ParseLogicalExpression n ts) (length pre)"
    and "not_next {''=='', ''if''} post" and "length ts - length pre < n"
  shows "\<exists>m. length post < m \<and> ParseLogicalExpression (Suc n) ts (length pre) =
    LogicalLoop (ParseLogicalExpression n ts) m ts e (length pre + length us)"
  using assms
proof (induction us e arbitrary: post rule: AtomG_OperG_CondG_LogicG.inducts(4)
    [where ?P1.0 = "\<lambda>us e. True" and ?P2.0 = "\<lambda>us e. True" and ?P3.0 = "\<lambda>us e. True"])
  case (g_cond us e)
  have "ParseConditionalExpression (ParseLogicalExpression n ts) n ts (length pre) =
      Inr (Some e, length pre + length us)"
    using g_cond by (intro ParseConditional_complete) auto
  then show ?case using g_cond.prems by (intro exI[of _ n]) simp
next
  case (g_logic us e vs f op)
  have op: "not_next {''=='', ''if''} (op # vs @ post)"
    using \<open>op \<in> set LOGICALS\<close> by (auto simp: LOGICALS_def)
  have "ts = pre @ us @ (op # vs @ post)" using g_logic.prems(1) by simp
  from g_logic.IH[OF this g_logic.prems(2) op g_logic.prems(4)] obtain m
    where m: "length (op # vs @ post) < m"
      and pc: "ParseLogicalExpression (Suc n) ts (length pre) =
        LogicalLoop (ParseLogicalExpression n ts) m ts e (length pre + length us)"
    by blast
  from m obtain k where k: "m = Suc k" by (cases m) auto
  let ?pre = "pre @ us @ [op]"
  have "ParseConditionalExpression (ParseLogicalExpression n ts) k ts (length ?pre) =
      Inr (Some f, length ?pre + length vs)"
    using g_logic.prems g_logic.hyps m k
    by (intro ParseConditional_complete[where post = post]) (auto intro: complete_plog_mono)
  moreover have "scan_HasMore ts (length pre + length us)" "ts ! (length pre + length us) = op"
    using g_logic.prems(1) by (simp_all add: scan_HasMore_def nth_append)
  ultimately have "LogicalLoop (ParseLogicalExpression n ts) m ts e (length pre + length us) =
      LogicalLoop (ParseLogicalExpression n ts) k ts (Operation e op f) (length ?pre + length vs)"
    using \<open>op \<in> set LOGICALS\<close> by (simp add: k)
  with pc m k show ?case by (intro exI[of _ k]) (simp add: add.assoc)
qed simp_all

lemma ParseLogical_complete:
  assumes "LogicG us e" and "ts = pre @ us @ post"
    and "not_next {''=='', ''if'', ''&&'', ''||'', '',''} post" and "length ts - length pre + 1 < n"
  shows "ParseLogicalExpression n ts (length pre) = Inr (Some e, length pre + length us)"
  using assms
proof (induction n arbitrary: pre us post e)
  case (Suc n)
  from Suc.prems(3) have p: "not_next {''=='', ''if''} post" "not_next (set LOGICALS) post"
    by (auto simp: not_next_def LOGICALS_def)
  have "complete_plog ts (ParseLogicalExpression n ts) (length pre)"
    unfolding complete_plog_def
  proof (intro allI impI)
    fix pre' us' post' e'
    assume a: "ts = pre' @ us' @ post'" "length pre < length pre'" "LogicG us' e'"
      "not_next {''=='', ''if'', ''&&'', ''||'', '',''} post'"
    from a(2) Suc.prems(4) a(1) have "length ts - length pre' + 1 < n" by simp
    from Suc.IH[OF a(3,1,4) this]
    show "ParseLogicalExpression n ts (length pre') = Inr (Some e', length pre' + length us')" .
  qed
  from ParseLogical_to_loop[OF Suc.prems(1,2) this p(1)] Suc.prems(4) obtain m where "length post < m"
    and eq: "ParseLogicalExpression (Suc n) ts (length pre) =
      LogicalLoop (ParseLogicalExpression n ts) m ts e (length pre + length us)"
    by auto
  then obtain k where "m = Suc k" by (cases m) auto
  with eq loop_stop(3)[OF at_post[OF Suc.prems(2) p(2)]] show ?case by (simp del: LogicalLoop.simps)
qed simp

subsection \<open>ParseCondition\<close>

text \<open>
  The bound \<open>parse_fuel\<close> is enough: the parser never gives up, so it answers or raises
  \<open>IndexError\<close> when the tokens end in the middle of an expression.
\<close>

lemma ParseAtomic_errors:
  "(\<And>i x. plog i = Inl x \<Longrightarrow> x \<in> {IndexError, RuntimeError}) \<Longrightarrow>
    ParseAtomicExpression plog ts i = Inl x \<Longrightarrow> x \<in> {IndexError, RuntimeError}"
  unfolding ParseAtomicExpression_def scan_Current_def
  by (auto simp: rbind_Inl_iff split: if_splits option.splits)

lemma ParseOperator_errors:
  assumes "\<And>i x. plog i = Inl x \<Longrightarrow> x \<in> {IndexError, RuntimeError}"
  shows "ParseOperatorExpression plog n ts i = Inl x \<Longrightarrow> x \<in> {IndexError, RuntimeError}"
    and "OperatorLoop plog n ts left i = Inl x \<Longrightarrow> x \<in> {IndexError, RuntimeError}"
proof (induction n arbitrary: i left)
  case (Suc n)
  {
    case 1
    then show ?case using Suc.IH ParseAtomic_errors[of plog, OF assms]
      by (auto simp: rbind_Inl_iff split: option.splits)
  next
    case 2
    then show ?case using Suc.IH
      by (auto simp: rbind_Inl_iff split: option.splits if_splits)
  }
qed simp_all

lemma ParseConditional_errors:
  assumes "\<And>i x. plog i = Inl x \<Longrightarrow> x \<in> {IndexError, RuntimeError}"
  shows "ParseConditionalExpression plog n ts i = Inl x \<Longrightarrow> x \<in> {IndexError, RuntimeError}"
proof -
  have loop: "ConditionalLoop plog n ts left i = Inl x \<Longrightarrow> x \<in> {IndexError, RuntimeError}"
    for n left i
  proof (induction n arbitrary: i left)
    case (Suc n)
    then show ?case using ParseOperator_errors(1)[of plog, OF assms]
      by (auto simp: rbind_Inl_iff split: option.splits if_splits)
  qed simp
  assume "ParseConditionalExpression plog n ts i = Inl x"
  then show ?thesis using loop ParseOperator_errors(1)[of plog, OF assms]
    unfolding ParseConditionalExpression_def by (auto simp: rbind_Inl_iff split: option.splits)
qed

lemma ParseLogical_errors:
  "ParseLogicalExpression n ts i = Inl x \<Longrightarrow> x \<in> {IndexError, RuntimeError}"
proof (induction n arbitrary: i x)
  case (Suc n)
  note cond = ParseConditional_errors[of "ParseLogicalExpression n ts", OF Suc.IH]
  have loop: "LogicalLoop (ParseLogicalExpression n ts) m ts left i = Inl x \<Longrightarrow>
      x \<in> {IndexError, RuntimeError}" for m left i
  proof (induction m arbitrary: i left)
    case (Suc m)
    then show ?case using cond by (auto simp: rbind_Inl_iff split: option.splits if_splits)
  qed simp
  from Suc.prems show ?case using loop cond by (auto simp: rbind_Inl_iff split: option.splits)
qed simp

lemma ParseCondition_Inl:
  assumes "ParseCondition s = Inl x"
  shows "x = IndexError"
proof -
  from assms obtain ts where "ParseLogicalExpression (parse_fuel ts) ts 0 = Inl x"
    by (auto simp: ParseCondition_def rbind_Inl_iff split: option.splits if_splits)
  moreover have "\<not> exhausted (ParseLogicalExpression (parse_fuel ts) ts 0)"
    by (rule ParseLogicalExpression_enough) (simp add: parse_fuel_def)
  ultimately show ?thesis using ParseLogical_errors by fastforce
qed

lemma ParseCondition_grammar:
  "ParseCondition s = Inr (Some e) \<longleftrightarrow> (\<exists>ts. Tokenize s = Some ts \<and> LogicG ts e)"
proof
  assume "ParseCondition s = Inr (Some e)"
  then obtain ts i where ts: "Tokenize s = Some ts" and "\<not> i < length ts"
    and ret: "ParseLogicalExpression (parse_fuel ts) ts 0 = Inr (Some e, i)"
    by (auto simp: ParseCondition_def rbind_Inr_iff scan_HasMore_def
        split: option.splits if_splits)
  with ParseLogical_sound[of ts 0 "parse_fuel ts"] have "i = length ts" "LogicG (py_slice ts 0 i) e"
    by (auto dest: sound_atD)
  with ts show "\<exists>ts. Tokenize s = Some ts \<and> LogicG ts e" by (auto simp: py_slice_def)
next
  assume "\<exists>ts. Tokenize s = Some ts \<and> LogicG ts e"
  then obtain ts where ts: "Tokenize s = Some ts" and g: "LogicG ts e" by blast
  have ret: "ParseLogicalExpression (parse_fuel ts) ts 0 = Inr (Some e, length ts)"
    using ParseLogical_complete[of ts e ts "[]" "[]" "parse_fuel ts"] g by (simp add: parse_fuel_def)
  have "ts \<noteq> []"
  proof
    assume "ts = []"
    with ParseLogical_sound[of ts 0 "parse_fuel ts"] ret show False by (auto dest: sound_atD)
  qed
  with ts ret show "ParseCondition s = Inr (Some e)" by (simp add: ParseCondition_def scan_HasMore_def)
qed

subsection \<open>Printing\<close>

text \<open>Fully parenthesised token lists, to state the round trip of the parser.\<close>

fun show_toks :: "expr \<Rightarrow> string list" where
  "show_toks (Constant b) = [if b then ''true'' else ''false'']"
| "show_toks (Outcome x) = [x]"
| "show_toks (Variable x) = [''$'', x]"
| "show_toks (Operation l op r) = ''('' # (show_toks l @ op # show_toks r) @ ['')'']"

text \<open>Names the parser can produce: words in lower case, outcome names not a keyword.\<close>

fun printable :: "expr \<Rightarrow> bool" where
  "printable (Constant b) \<longleftrightarrow> True"
| "printable (Outcome x) \<longleftrightarrow>
     x \<noteq> [] \<and> IsAlpha x \<and> py_lower x = x \<and> x \<noteq> ''true'' \<and> x \<noteq> ''false''"
| "printable (Variable x) \<longleftrightarrow> x \<noteq> [] \<and> IsAlpha x \<and> py_lower x = x"
| "printable (Operation l op r) \<longleftrightarrow>
     op \<in> {''=='', ''if'', ''&&'', ''||'', '',''} \<and> printable l \<and> printable r"

lemma show_toks_atom: "printable e \<Longrightarrow> AtomG (show_toks e) e"
proof (induction e)
  case (Outcome x)
  then show ?case using g_name[of x] by simp
next
  case (Variable x)
  then show ?case using g_var[of x] by simp
next
  case (Operation l op r)
  then have l: "AtomG (show_toks l) l" and r: "AtomG (show_toks r) r" by simp_all
  have "LogicG (show_toks l @ op # show_toks r) (Operation l op r)"
  proof -
    consider "op = ''==''" | "op = ''if''" | "op \<in> set LOGICALS"
      using Operation.prems by (auto simp: LOGICALS_def)
    then show ?thesis
    proof cases
      case 1
      with g_eq[OF l g_atom[OF r]] show ?thesis by (simp add: g_oper g_cond)
    next
      case 2
      with g_if[OF g_oper[OF g_atom[OF l]] g_atom[OF r]] show ?thesis by (simp add: g_cond)
    next
      case 3
      with g_logic[OF g_cond[OF g_oper[OF g_atom[OF l]]] g_oper[OF g_atom[OF r]]] show ?thesis
        by simp
    qed
  qed
  then show ?case by (simp only: show_toks.simps g_paren)
qed (auto intro: g_true g_false)

lemma valid_token_words:
  "valid_token ''true''" "valid_token ''false''" "valid_token ''if''"
  "valid_token ''(''" "valid_token '')''" "valid_token ''$''"
  "valid_token ''==''" "valid_token ''&&''" "valid_token ''||''" "valid_token '',''"
  by (simp_all add: valid_token_def IsAlpha_def py_simps)

lemma show_toks_valid: "printable e \<Longrightarrow> list_all valid_token (show_toks e)"
proof (induction e)
  case (Operation l op r)
  then have "valid_token op" by (auto simp: valid_token_words)
  with Operation show ?case by (simp add: valid_token_words)
qed (simp_all add: valid_token_words, simp_all add: valid_token_def)

section \<open>Properties\<close>

text \<open>
  The tokenizer of the status expressions drops nothing but white space: when it succeeds,
  every token is a word or an operator, and the tokens joined are the text without its white
  space. In the other direction it reads back any list of such tokens written with single
  spaces between them.
\<close>

theorem tokenize_exact:
  "(Tokenize s = Some ts \<longrightarrow> list_all valid_token ts \<and> concat ts = filter (\<lambda>c. \<not> chr_isspace c) s) \<and>
   (list_all valid_token us \<longrightarrow> Tokenize (py_join '' '' us) = Some us)"
  by (simp add: Tokenize_ref_lex ref_lex_sound ref_lex_join)

theorem tokenize_exact_witness:
  "list_all valid_token [''$'', ''a'', ''=='', ''b''] \<and>
   Tokenize (py_join '' '' [''$'', ''a'', ''=='', ''b'']) = Some [''$'', ''a'', ''=='', ''b''] \<and>
   concat [''$'', ''a'', ''=='', ''b''] =
     filter (\<lambda>c. \<not> chr_isspace c) (py_join '' '' [''$'', ''a'', ''=='', ''b''])"
proof -
  let ?u = "[''$'', ''a'', ''=='', ''b'']"
  have v: "list_all valid_token ?u"
    by (simp add: valid_token_def IsAlpha_def py_simps)
  then have t: "Tokenize (py_join '' '' ?u) = Some ?u"
    using tokenize_exact[of "py_join '' '' ?u" ?u ?u] by blast
  then have "concat ?u = filter (\<lambda>c. \<not> chr_isspace c) (py_join '' '' ?u)"
    using tokenize_exact[of "py_join '' '' ?u" ?u ?u] by blast
  with v t show ?thesis by blast
qed

text \<open>
  C34. The recursive descent parser of the status expressions decides its grammar: it returns the
  expression \<open>e\<close> exactly when the text tokenizes to a sentence of \<open>LogicG\<close> that derives \<open>e\<close>.
\<close>

theorem parse_condition_iff_grammar:
  "ParseCondition s = Inr (Some e) \<longleftrightarrow> (\<exists>ts. Tokenize s = Some ts \<and> LogicG ts e)"
  by (rule ParseCondition_grammar)

text \<open>
  Parsing a condition always comes back, within the bound the model gives the recursion, and
  the only exception it can raise is \<open>IndexError\<close>; it does raise it, for a text whose tokens end
  in the middle of an expression, where the code means to report a malformed expression.
\<close>

theorem parse_condition_total:
  "((\<exists>r. ParseCondition s = Inr r) \<or> ParseCondition s = Inl IndexError) \<and>
   ParseCondition ''a=='' = Inl IndexError"
proof
  show "(\<exists>r. ParseCondition s = Inr r) \<or> ParseCondition s = Inl IndexError"
    by (cases "ParseCondition s") (auto dest: ParseCondition_Inl)
  show "ParseCondition ''a=='' = Inl IndexError" by code_simp
qed

text \<open>
  C35. Round trip of the expression language: every expression whose names are lower-case words,
  printed fully parenthesised with spaces between its tokens, parses back to itself.
\<close>

theorem parse_print_roundtrip:
  assumes "printable e"
  shows "ParseCondition (py_join '' '' (show_toks e)) = Inr (Some e)"
proof -
  have "LogicG (show_toks e) e"
    using show_toks_atom[OF assms] by (intro g_cond g_oper g_atom)
  moreover have "Tokenize (py_join '' '' (show_toks e)) = Some (show_toks e)"
    by (simp add: Tokenize_ref_lex ref_lex_join show_toks_valid[OF assms])
  ultimately show ?thesis using ParseCondition_grammar by blast
qed

theorem parse_print_roundtrip_witness:
  "ParseCondition ''( fail if ( $ mode == debug ) )'' =
     Inr (Some (Operation (Outcome ''fail'') ''if''
       (Operation (Variable ''mode'') ''=='' (Outcome ''debug''))))"
proof -
  let ?e = "Operation (Outcome ''fail'') ''if'' (Operation (Variable ''mode'') ''=='' (Outcome ''debug''))"
  have p: "printable ?e" by (simp add: IsAlpha_def py_lower_def py_simps)
  have "py_join '' '' (show_toks ?e) = ''( fail if ( $ mode == debug ) )''" by simp
  with parse_print_roundtrip[OF p] show ?thesis by simp
qed

end
