(* ===== verification/Py_Re.thy ===== *)
theory Py_Re
  imports Py_Base
begin

text \<open>
  The fragment of Python's \<open>re\<close> module that the modelled scripts use, as a backtracking
  matcher: \<open>rx r s i g\<close> lists every way \<open>r\<close> can match the text \<open>s\<close> from position \<open>i\<close>, in
  the order in which Python's engine tries them, so that the first element is the match
  Python returns. A pattern of the source is a term of type \<open>re\<close>; \<open>re_match\<close>, \<open>re_search\<close>
  and \<open>re_group\<close> are the methods of the same names.

  \<open>rmatch\<close> is the order-free reference semantics as an inductive relation, and
  \<open>rx_iff_rmatch\<close> shows that the matcher is sound and complete for it, which also says that
  the iteration bound of \<open>star_iter\<close> is always enough.
\<close>

section \<open>Syntax\<close>

datatype re =
    REps
  | RChr "char \<Rightarrow> bool"
  | RSeq re re
  | RAlt re re
  | RStar re                    \<comment> \<open>greedy repetition\<close>
  | RLazy re                    \<comment> \<open>lazy repetition\<close>
  | RGroup nat re
  | RBol                        \<comment> \<open>start of the text\<close>
  | REol                        \<comment> \<open>end of the text, or before its final newline\<close>
  | RAhead bool "char \<Rightarrow> bool"  \<comment> \<open>one character of look-ahead, or its negation\<close>
  | RBehind bool "char \<Rightarrow> bool" \<comment> \<open>one character of look-behind, or its negation\<close>
  | RWordB                      \<comment> \<open>word boundary\<close>

type_synonym groups = "nat \<Rightarrow> (nat \<times> nat) option"

abbreviation RLit :: "char \<Rightarrow> re" where
  "RLit c \<equiv> RChr (\<lambda>d. d = c)"

abbreviation RAny :: re where
  "RAny \<equiv> RChr (\<lambda>c. c \<noteq> CHR 0x0A)"

abbreviation RSpace :: re where
  "RSpace \<equiv> RChr chr_isspace"

abbreviation RPlus :: "re \<Rightarrow> re" where
  "RPlus r \<equiv> RSeq r (RStar r)"

abbreviation ROpt :: "re \<Rightarrow> re" where
  "ROpt r \<equiv> RAlt r REps"

definition rstr :: "string \<Rightarrow> re" where
  "rstr w = foldr (\<lambda>c r. RSeq (RLit c) r) w REps"

definition rseq :: "re list \<Rightarrow> re" where
  "rseq rs = foldr RSeq rs REps"

text \<open>Sets of characters, and the join of patterns with \<open>|\<close>.\<close>

definition RIn :: "string \<Rightarrow> re" where "RIn w = RChr (\<lambda>c. c \<in> set w)"
definition RNotIn :: "string \<Rightarrow> re" where "RNotIn w = RChr (\<lambda>c. c \<notin> set w)"

definition ralts :: "re list \<Rightarrow> re" where
  "ralts rs = (case rs of [] \<Rightarrow> RChr (\<lambda>c. False) | r # q \<Rightarrow> foldl RAlt r q)"

section \<open>The matcher\<close>

primrec star_iter ::
  "(nat \<Rightarrow> groups \<Rightarrow> (nat \<times> groups) list) \<Rightarrow> nat \<Rightarrow> nat \<Rightarrow> groups \<Rightarrow> (nat \<times> groups) list" where
  "star_iter f 0 = (\<lambda>i g. [(i, g)])"
| "star_iter f (Suc n) =
     (\<lambda>i g. concat (map (\<lambda>(j, h). if i < j then star_iter f n j h else []) (f i g)) @ [(i, g)])"

primrec lazy_iter ::
  "(nat \<Rightarrow> groups \<Rightarrow> (nat \<times> groups) list) \<Rightarrow> nat \<Rightarrow> nat \<Rightarrow> groups \<Rightarrow> (nat \<times> groups) list" where
  "lazy_iter f 0 = (\<lambda>i g. [(i, g)])"
| "lazy_iter f (Suc n) =
     (\<lambda>i g. (i, g) # concat (map (\<lambda>(j, h). if i < j then lazy_iter f n j h else []) (f i g)))"

definition word_at :: "string \<Rightarrow> nat \<Rightarrow> bool" where
  "word_at s i = (i < length s \<and> chr_isword (s ! i))"

definition at_eol :: "string \<Rightarrow> nat \<Rightarrow> bool" where
  "at_eol s i = (i = length s \<or> Suc i = length s \<and> s ! i = CHR 0x0A)"

definition at_wordb :: "string \<Rightarrow> nat \<Rightarrow> bool" where
  "at_wordb s i = ((0 < i \<and> word_at s (i - 1)) \<noteq> word_at s i)"

primrec rx :: "re \<Rightarrow> string \<Rightarrow> nat \<Rightarrow> groups \<Rightarrow> (nat \<times> groups) list" where
  "rx REps = (\<lambda>s i g. [(i, g)])"
| "rx (RChr p) = (\<lambda>s i g. if i < length s \<and> p (s ! i) then [(Suc i, g)] else [])"
| "rx (RSeq r q) = (\<lambda>s i g. concat (map (\<lambda>(j, h). rx q s j h) (rx r s i g)))"
| "rx (RAlt r q) = (\<lambda>s i g. rx r s i g @ rx q s i g)"
| "rx (RStar r) = (\<lambda>s i g. star_iter (rx r s) (length s - i) i g)"
| "rx (RLazy r) = (\<lambda>s i g. lazy_iter (rx r s) (length s - i) i g)"
| "rx (RGroup k r) = (\<lambda>s i g. map (\<lambda>(j, h). (j, h(k \<mapsto> (i, j)))) (rx r s i g))"
| "rx RBol = (\<lambda>s i g. if i = 0 then [(i, g)] else [])"
| "rx REol = (\<lambda>s i g. if at_eol s i then [(i, g)] else [])"
| "rx (RAhead b p) = (\<lambda>s i g. if (i < length s \<and> p (s ! i)) = b then [(i, g)] else [])"
| "rx (RBehind b p) = (\<lambda>s i g. if (0 < i \<and> i \<le> length s \<and> p (s ! (i - 1))) = b then [(i, g)] else [])"
| "rx RWordB = (\<lambda>s i g. if at_wordb s i then [(i, g)] else [])"

text \<open>A match: start, end and groups.\<close>

type_synonym rmatch_obj = "nat \<times> nat \<times> groups"

definition re_match_at :: "re \<Rightarrow> string \<Rightarrow> nat \<Rightarrow> rmatch_obj option" where
  "re_match_at r s i = (case rx r s i Map.empty of [] \<Rightarrow> None | (j, g) # _ \<Rightarrow> Some (i, j, g))"

definition re_match :: "re \<Rightarrow> string \<Rightarrow> rmatch_obj option" where
  "re_match r s = re_match_at r s 0"

fun first_some :: "('a \<Rightarrow> 'b option) \<Rightarrow> 'a list \<Rightarrow> 'b option" where
  "first_some f [] = None"
| "first_some f (x # xs) = (case f x of None \<Rightarrow> first_some f xs | Some y \<Rightarrow> Some y)"

definition re_search :: "re \<Rightarrow> string \<Rightarrow> nat \<Rightarrow> rmatch_obj option" where
  "re_search r s i = first_some (re_match_at r s) [i..<Suc (length s)]"

definition re_group :: "string \<Rightarrow> rmatch_obj \<Rightarrow> nat \<Rightarrow> string option" where
  "re_group s m k = (case m of (i, j, g) \<Rightarrow>
     if k = 0 then Some (py_slice s i j)
     else map_option (\<lambda>(a, b). py_slice s a b) (g k))"

text \<open>\<open>finditer\<close> and \<open>sub\<close>.\<close>

fun re_finditer_from :: "nat \<Rightarrow> re \<Rightarrow> string \<Rightarrow> nat \<Rightarrow> rmatch_obj list" where
  "re_finditer_from 0 r s i = []"
| "re_finditer_from (Suc n) r s i =
     (case re_search r s i of
        None \<Rightarrow> []
      | Some (a, b, g) \<Rightarrow> (a, b, g) # re_finditer_from n r s (if b = a then Suc b else b))"

definition re_finditer :: "re \<Rightarrow> string \<Rightarrow> rmatch_obj list" where
  "re_finditer r s = re_finditer_from (Suc (length s)) r s 0"

fun sub_pieces :: "(rmatch_obj \<Rightarrow> string) \<Rightarrow> string \<Rightarrow> nat \<Rightarrow> rmatch_obj list \<Rightarrow> string" where
  "sub_pieces f s i [] = drop i s"
| "sub_pieces f s i ((a, b, g) # ms) = py_slice s i a @ f (a, b, g) @ sub_pieces f s b ms"

definition re_sub :: "re \<Rightarrow> (rmatch_obj \<Rightarrow> string) \<Rightarrow> string \<Rightarrow> string" where
  "re_sub r f s = sub_pieces f s 0 (re_finditer r s)"

text \<open>\<open>sub\<close> with a function that keeps a state between its calls.\<close>

fun sub_state :: "(rmatch_obj \<Rightarrow> 's \<Rightarrow> (string \<times> 's) result) \<Rightarrow> string \<Rightarrow> nat \<Rightarrow> rmatch_obj list \<Rightarrow> 's \<Rightarrow>
    (string \<times> 's) result" where
  "sub_state f s i [] st = Inr (drop i s, st)"
| "sub_state f s i ((a, b, g) # ms) st =
     rbind (f (a, b, g) st) (\<lambda>(t, st1).
       rbind (sub_state f s b ms st1) (\<lambda>(u, st2). Inr (py_slice s i a @ t @ u, st2)))"

definition re_sub_state :: "re \<Rightarrow> (rmatch_obj \<Rightarrow> 's \<Rightarrow> (string \<times> 's) result) \<Rightarrow> string \<Rightarrow> 's \<Rightarrow> (string \<times> 's) result" where
  "re_sub_state r f s st = sub_state f s 0 (re_finditer r s) st"

section \<open>Reference semantics\<close>

inductive rmatch :: "string \<Rightarrow> re \<Rightarrow> nat \<Rightarrow> groups \<Rightarrow> nat \<Rightarrow> groups \<Rightarrow> bool" for s where
  m_eps: "rmatch s REps i g i g"
| m_chr: "i < length s \<Longrightarrow> p (s ! i) \<Longrightarrow> rmatch s (RChr p) i g (Suc i) g"
| m_seq: "rmatch s r i g j h \<Longrightarrow> rmatch s q j h k l \<Longrightarrow> rmatch s (RSeq r q) i g k l"
| m_alt1: "rmatch s r i g j h \<Longrightarrow> rmatch s (RAlt r q) i g j h"
| m_alt2: "rmatch s q i g j h \<Longrightarrow> rmatch s (RAlt r q) i g j h"
| m_star0: "rmatch s (RStar r) i g i g"
| m_star1: "rmatch s r i g j h \<Longrightarrow> i < j \<Longrightarrow> rmatch s (RStar r) j h k l \<Longrightarrow> rmatch s (RStar r) i g k l"
| m_lazy0: "rmatch s (RLazy r) i g i g"
| m_lazy1: "rmatch s r i g j h \<Longrightarrow> i < j \<Longrightarrow> rmatch s (RLazy r) j h k l \<Longrightarrow> rmatch s (RLazy r) i g k l"
| m_group: "rmatch s r i g j h \<Longrightarrow> rmatch s (RGroup n r) i g j (h(n \<mapsto> (i, j)))"
| m_bol: "rmatch s RBol 0 g 0 g"
| m_eol: "at_eol s i \<Longrightarrow> rmatch s REol i g i g"
| m_ahead: "(i < length s \<and> p (s ! i)) = b \<Longrightarrow> rmatch s (RAhead b p) i g i g"
| m_behind: "(0 < i \<and> i \<le> length s \<and> p (s ! (i - 1))) = b \<Longrightarrow> rmatch s (RBehind b p) i g i g"
| m_wordb: "at_wordb s i \<Longrightarrow> rmatch s RWordB i g i g"

inductive_simps rmatch_simps:
  "rmatch s REps i g j h"
  "rmatch s (RChr p) i g j h"
  "rmatch s (RSeq r q) i g j h"
  "rmatch s (RAlt r q) i g j h"
  "rmatch s (RGroup n r) i g j h"
  "rmatch s RBol i g j h"
  "rmatch s REol i g j h"
  "rmatch s (RAhead b p) i g j h"
  "rmatch s (RBehind b p) i g j h"
  "rmatch s RWordB i g j h"

inductive_cases rmatch_starE [consumes 1, case_names stop step]: "rmatch s (RStar r) i g j h"
inductive_cases rmatch_lazyE [consumes 1, case_names stop step]: "rmatch s (RLazy r) i g j h"

lemma rmatch_bounds: "rmatch s r i g j h \<Longrightarrow> i \<le> length s \<Longrightarrow> i \<le> j \<and> j \<le> length s"
  by (induction rule: rmatch.induct) auto

text \<open>The two repetition loops against the reference semantics, given that the body agrees.\<close>

lemma star_iter_sound:
  assumes "\<And>i g j h. (j, h) \<in> set (f i g) \<Longrightarrow> rmatch s r i g j h"
  shows "(k, l) \<in> set (star_iter f n i g) \<Longrightarrow> rmatch s (RStar r) i g k l"
proof (induction n arbitrary: i g)
  case 0
  then show ?case by (auto intro: rmatch.intros)
next
  case (Suc n)
  then show ?case by (auto split: if_splits intro: rmatch.intros dest: assms)
qed

lemma lazy_iter_sound:
  assumes "\<And>i g j h. (j, h) \<in> set (f i g) \<Longrightarrow> rmatch s r i g j h"
  shows "(k, l) \<in> set (lazy_iter f n i g) \<Longrightarrow> rmatch s (RLazy r) i g k l"
proof (induction n arbitrary: i g)
  case 0
  then show ?case by (auto intro: rmatch.intros)
next
  case (Suc n)
  then show ?case by (auto split: if_splits intro: rmatch.intros dest: assms)
qed

lemma star_iter_complete:
  assumes body: "\<And>i g j h. rmatch s r i g j h \<Longrightarrow> i \<le> length s \<Longrightarrow> (j, h) \<in> set (f i g)"
  shows "rmatch s (RStar r) i g k l \<Longrightarrow> i \<le> length s \<Longrightarrow> length s - i \<le> n \<Longrightarrow>
    (k, l) \<in> set (star_iter f n i g)"
proof (induction n arbitrary: i g)
  case 0
  from "0.prems"(1) show ?case
  proof (cases rule: rmatch_starE)
    case (step j h)
    with rmatch_bounds[OF step(1) "0.prems"(2)] "0.prems" have False by simp
    then show ?thesis ..
  qed simp
next
  case (Suc n)
  from Suc.prems(1) show ?case
  proof (cases rule: rmatch_starE)
    case (step j h)
    have j: "j \<le> length s" "length s - j \<le> n"
      using rmatch_bounds[OF step(1) Suc.prems(2)] Suc.prems(3) \<open>i < j\<close> by simp_all
    with Suc.IH[OF step(3)] have "(k, l) \<in> set (star_iter f n j h)" by simp
    moreover from step(1) Suc.prems(2) have "(j, h) \<in> set (f i g)" by (rule body)
    moreover note \<open>i < j\<close>
    ultimately have "\<exists>x \<in> set (f i g). (k, l) \<in> set (case x of (j, h) \<Rightarrow> if i < j then star_iter f n j h else [])"
      by (intro bexI[of _ "(j, h)"]) auto
    then show ?thesis by simp
  qed auto
qed

lemma lazy_iter_complete:
  assumes body: "\<And>i g j h. rmatch s r i g j h \<Longrightarrow> i \<le> length s \<Longrightarrow> (j, h) \<in> set (f i g)"
  shows "rmatch s (RLazy r) i g k l \<Longrightarrow> i \<le> length s \<Longrightarrow> length s - i \<le> n \<Longrightarrow>
    (k, l) \<in> set (lazy_iter f n i g)"
proof (induction n arbitrary: i g)
  case 0
  from "0.prems"(1) show ?case
  proof (cases rule: rmatch_lazyE)
    case (step j h)
    with rmatch_bounds[OF step(1) "0.prems"(2)] "0.prems" have False by simp
    then show ?thesis ..
  qed simp
next
  case (Suc n)
  from Suc.prems(1) show ?case
  proof (cases rule: rmatch_lazyE)
    case (step j h)
    have j: "j \<le> length s" "length s - j \<le> n"
      using rmatch_bounds[OF step(1) Suc.prems(2)] Suc.prems(3) \<open>i < j\<close> by simp_all
    with Suc.IH[OF step(3)] have "(k, l) \<in> set (lazy_iter f n j h)" by simp
    moreover from step(1) Suc.prems(2) have "(j, h) \<in> set (f i g)" by (rule body)
    moreover note \<open>i < j\<close>
    ultimately have "\<exists>x \<in> set (f i g). (k, l) \<in> set (case x of (j, h) \<Rightarrow> if i < j then lazy_iter f n j h else [])"
      by (intro bexI[of _ "(j, h)"]) auto
    then show ?thesis by simp
  qed auto
qed

lemma rx_sound: "(j, h) \<in> set (rx r s i g) \<Longrightarrow> rmatch s r i g j h"
proof (induction r arbitrary: i g j h)
  case (RStar r)
  show ?case by (rule star_iter_sound[OF RStar.IH RStar.prems[simplified]])
next
  case (RLazy r)
  show ?case by (rule lazy_iter_sound[OF RLazy.IH RLazy.prems[simplified]])
qed (force simp: rmatch_simps split: if_splits)+

lemma rx_complete: "rmatch s r i g j h \<Longrightarrow> i \<le> length s \<Longrightarrow> (j, h) \<in> set (rx r s i g)"
proof (induction r arbitrary: i g j h)
  case (RSeq r q)
  then obtain k l where r: "rmatch s r i g k l" and q: "rmatch s q k l j h"
    by (auto simp: rmatch_simps)
  from r RSeq.prems(2) have "k \<le> length s" by (auto dest: rmatch_bounds)
  with RSeq r q show ?case by force
next
  case (RStar r)
  show ?case using star_iter_complete[OF RStar.IH RStar.prems order_refl] by simp
next
  case (RLazy r)
  show ?case using lazy_iter_complete[OF RLazy.IH RLazy.prems order_refl] by simp
qed (force simp: rmatch_simps)+

lemma rx_iff_rmatch:
  "i \<le> length s \<Longrightarrow> (j, h) \<in> set (rx r s i g) \<longleftrightarrow> rmatch s r i g j h"
  using rx_sound rx_complete by blast

lemma rx_bounds:
  "(j, h) \<in> set (rx r s i g) \<Longrightarrow> i \<le> length s \<Longrightarrow> i \<le> j \<and> j \<le> length s"
  using rx_sound rmatch_bounds by blast

lemma re_match_at_None:
  "i \<le> length s \<Longrightarrow> re_match_at r s i = None \<longleftrightarrow> (\<nexists>j h. rmatch s r i Map.empty j h)"
proof -
  assume i: "i \<le> length s"
  have "re_match_at r s i = None \<longleftrightarrow> set (rx r s i Map.empty) = {}"
    by (auto simp: re_match_at_def split: list.splits)
  also have "\<dots> \<longleftrightarrow> (\<nexists>j h. (j, h) \<in> set (rx r s i Map.empty))"
    by (simp only: set_eq_iff split_paired_All) simp
  also have "\<dots> \<longleftrightarrow> (\<nexists>j h. rmatch s r i Map.empty j h)"
    by (simp only: rx_iff_rmatch[OF i])
  finally show ?thesis .
qed

lemma re_match_at_Some:
  assumes "re_match_at r s i = Some (a, j, g)" and "i \<le> length s"
  shows "a = i \<and> i \<le> j \<and> j \<le> length s \<and> rmatch s r i Map.empty j g"
proof -
  from assms(1) have "a = i" and "(j, g) \<in> set (rx r s i Map.empty)"
    by (auto simp: re_match_at_def split: list.splits)
  with assms(2) show ?thesis using rx_bounds rx_sound by blast
qed

section \<open>Matches and substitution\<close>

lemma first_some_Some: "first_some f xs = Some y \<Longrightarrow> \<exists>x \<in> set xs. f x = Some y"
  by (induction f xs rule: first_some.induct) (auto split: option.splits)

lemma re_search_Some:
  assumes "re_search r s i = Some (a, b, g)"
  shows "i \<le> a \<and> a \<le> b \<and> b \<le> length s \<and> re_match_at r s a = Some (a, b, g)"
proof -
  from assms obtain x where x: "i \<le> x" "x \<le> length s" "re_match_at r s x = Some (a, b, g)"
    unfolding re_search_def by (auto dest!: first_some_Some)
  from re_match_at_Some[OF x(3,2)] x show ?thesis by auto
qed

text \<open>The matches of \<open>r\<close> in \<open>s\<close> from \<open>i\<close> on, in order and without overlap.\<close>

fun matches_in :: "re \<Rightarrow> string \<Rightarrow> nat \<Rightarrow> rmatch_obj list \<Rightarrow> bool" where
  "matches_in r s i [] = (i \<le> length s)"
| "matches_in r s i ((a, b, g) # ms) =
     (i \<le> a \<and> a \<le> b \<and> b \<le> length s \<and> re_match_at r s a = Some (a, b, g) \<and> matches_in r s b ms)"

lemma matches_in_mono: "matches_in r s j ms \<Longrightarrow> i \<le> j \<Longrightarrow> matches_in r s i ms"
  by (induction r s j ms rule: matches_in.induct) auto

lemma matches_in_le: "matches_in r s i ms \<Longrightarrow> i \<le> length s"
  by (induction r s i ms rule: matches_in.induct) auto

lemma finditer_from_matches: "i \<le> length s \<Longrightarrow> matches_in r s i (re_finditer_from n r s i)"
proof (induction n arbitrary: i)
  case 0
  then show ?case by simp
next
  case (Suc n)
  show ?case
  proof (cases "re_search r s i")
    case None
    with Suc.prems show ?thesis by simp
  next
    case (Some m)
    obtain a b g where m: "m = (a, b, g)" by (cases m)
    from re_search_Some[OF Some[unfolded m]]
    have ok: "i \<le> a" "a \<le> b" "b \<le> length s" "re_match_at r s a = Some (a, b, g)" by auto
    have "matches_in r s b (re_finditer_from n r s (if b = a then Suc b else b))"
    proof (cases "b = a \<and> b = length s")
      case True
      have "re_search r s (Suc (length s)) = None" by (simp add: re_search_def)
      then have "re_finditer_from n r s (Suc (length s)) = []" by (cases n) auto
      moreover from True have "(if b = a then Suc b else b) = Suc (length s)" by simp
      ultimately show ?thesis using ok by simp
    next
      case False
      with ok have "(if b = a then Suc b else b) \<le> length s" by auto
      from Suc.IH[OF this] show ?thesis by (rule matches_in_mono) simp
    qed
    with ok Some m show ?thesis by simp
  qed
qed

lemma finditer_matches: "matches_in r s 0 (re_finditer r s)"
  unfolding re_finditer_def by (rule finditer_from_matches) simp

lemma matches_inD:
  "matches_in r s i ms \<Longrightarrow> (a, b, g) \<in> set ms \<Longrightarrow>
     i \<le> a \<and> a \<le> b \<and> b \<le> length s \<and> re_match_at r s a = Some (a, b, g)"
proof (induction r s i ms rule: matches_in.induct)
  case (2 r s i a' b' g' ms)
  then show ?case by force
qed simp

lemmas finditerD = matches_inD[OF finditer_matches]

lemma set_py_slice: "set (py_slice s i j) \<subseteq> set s"
  unfolding py_slice_def by (meson set_drop_subset set_take_subset subset_trans)

lemma set_sub_pieces:
  "(\<And>m. m \<in> set ms \<Longrightarrow> set (f m) \<subseteq> A) \<Longrightarrow> set s \<subseteq> A \<Longrightarrow> set (sub_pieces f s i ms) \<subseteq> A"
proof (induction f s i ms rule: sub_pieces.induct)
  case (1 f s i)
  then show ?case using set_drop_subset[of i s] by auto
next
  case (2 f s i a b g ms)
  have "set (py_slice s i a) \<subseteq> A" using set_py_slice 2(3) by (rule subset_trans)
  moreover have "set (f (a, b, g)) \<subseteq> A" by (rule 2(2)) simp
  moreover have "set (sub_pieces f s b ms) \<subseteq> A" by (rule 2(1)) (simp_all add: 2)
  ultimately show ?case by simp
qed

lemma set_re_sub:
  "(\<And>m. m \<in> set (re_finditer r s) \<Longrightarrow> set (f m) \<subseteq> A) \<Longrightarrow> set s \<subseteq> A \<Longrightarrow> set (re_sub r f s) \<subseteq> A"
  unfolding re_sub_def by (rule set_sub_pieces)

lemma set_re_group: "re_group s m k = Some t \<Longrightarrow> set t \<subseteq> set s"
  by (cases m) (auto simp: re_group_def split: if_splits dest: subsetD[OF set_py_slice])

text \<open>An invariant of the state and of the texts, through a stateful substitution.\<close>

lemma sub_state_invariant:
  assumes "sub_state f s i ms st = Inr (t, st')"
    and "P st" and "set s \<subseteq> A"
    and step: "\<And>m st u st'. m \<in> set ms \<Longrightarrow> P st \<Longrightarrow> f m st = Inr (u, st') \<Longrightarrow> P st' \<and> set u \<subseteq> A"
  shows "P st' \<and> set t \<subseteq> A"
  using assms
proof (induction f s i ms st arbitrary: t st' rule: sub_state.induct)
  case (1 f s i st)
  then show ?case using set_drop_subset[of i s] by auto
next
  case (2 f s i a b g ms st)
  from 2(2) obtain u st1 v where f: "f (a, b, g) st = Inr (u, st1)"
    and r: "sub_state f s b ms st1 = Inr (v, st')" and t: "t = py_slice s i a @ u @ v"
    by (auto simp: rbind_Inr_iff)
  from 2(5)[OF _ 2(3) f] have u: "P st1" "set u \<subseteq> A" by auto
  have "P st' \<and> set v \<subseteq> A"
    by (rule 2(1)[OF r u(1) 2(4)]) (rule 2(5), simp_all)
  moreover have "set (py_slice s i a) \<subseteq> A" using set_py_slice 2(4) by (rule subset_trans)
  ultimately show ?case using u t by auto
qed

section \<open>Repetition of one character class\<close>

lemma star_chr_aux:
  "n = length s - i \<Longrightarrow>
   star_iter (rx (RChr p) s) n i g =
     map (\<lambda>k. (i + k, g)) (rev [0..<Suc (length (takeWhile p (drop i s)))])"
proof (induction n arbitrary: i)
  case 0
  then show ?case by simp
next
  case (Suc n)
  then have i: "i < length s" by simp
  then have d: "drop i s = s ! i # drop (Suc i) s" by (simp add: Cons_nth_drop_Suc)
  show ?case
  proof (cases "p (s ! i)")
    case True
    from Suc.prems have "n = length s - Suc i" by simp
    from Suc.IH[OF this] have IH: "star_iter (rx (RChr p) s) n (Suc i) g =
      map (\<lambda>k. (Suc i + k, g)) (rev [0..<Suc (length (takeWhile p (drop (Suc i) s)))])" .
    let ?m = "length (takeWhile p (drop (Suc i) s))"
    have "rev [0..<Suc (Suc ?m)] = map Suc (rev [0..<Suc ?m]) @ [0]"
      by (simp add: rev_map[symmetric] map_Suc_upt upt_rec[of 0 "Suc (Suc ?m)"] del: upt_Suc)
    with True i d IH show ?thesis by (simp add: o_def del: upt_Suc)
  next
    case False
    with d i show ?thesis by simp
  qed
qed

lemma rx_star_chr:
  "rx (RStar (RChr p)) s i g =
     map (\<lambda>k. (i + k, g)) (rev [0..<Suc (length (takeWhile p (drop i s)))])"
  using star_chr_aux[of "length s - i" s i p g] by (simp del: upt_Suc)

lemma rx_rstr: "rx (rstr w) s i g = (if py_startswith (drop i s) w \<and> (w = [] \<or> i < length s) then [(i + length w, g)] else [])"
proof (induction w arbitrary: i)
  case Nil
  then show ?case by (simp add: rstr_def)
next
  case (Cons c w)
  have step: "rx (rstr (c # w)) s i g = (if i < length s \<and> s ! i = c then rx (rstr w) s (Suc i) g else [])"
    unfolding rstr_def by auto
  show ?case
  proof (cases "i < length s")
    case True
    then have d: "drop i s = s ! i # drop (Suc i) s" by (simp add: Cons_nth_drop_Suc)
    show ?thesis
      unfolding step using Cons.IH[of "Suc i"] True by (cases w) (auto simp: d)
  next
    case False
    then show ?thesis by (simp add: step)
  qed
qed

end
