(* ===== verification/Test_Config.thy ===== *)
theory Test_Config
  imports Test_Parser Py_Re
begin

text \<open>
  Test configurations, \<^verbatim>\<open>src/tools/test.py\<close> lines 536 to 638, 1001 to 1112 and 1229 to 1247,
  with \<^verbatim>\<open>ReadLinesFrom\<close> of \<^verbatim>\<open>src/deps/v8/tools/utils.py\<close>: path patterns, rules, sections, the
  reader of status files, the classification of test cases, and the selection of tests from
  the suites.

  After the definitions: patterns match as shell patterns do, classification gives every case the
  outcomes of the rules that apply to it, and what happens to malformed headers and to rules with
  a condition that is false.
\<close>

section \<open>Definitions\<close>

subsection \<open>Path patterns\<close>

text \<open>
  \<open>Pattern.match\<close> compiles \<open>^p$\<close>, after replacing \<open>*\<close> by \<open>.*\<close>, as a regular expression and
  matches with it. The compiler is modelled for texts of plain characters, \<open>.\<close> and \<open>.*\<close>; any
  other character that is special in a regular expression gives \<open>Unsupported\<close>.
\<close>

definition re_special :: "char \<Rightarrow> bool" where
  "re_special c = (c \<in> set ''^$*+?{}[]|()'' \<or> c = CHR 0x5C)"

fun re_compile_body :: "string \<Rightarrow> re result" where
  "re_compile_body [] = Inr REps"
| "re_compile_body (c # s) =
     (if c = CHR ''.''
      then (case s of
              d # s' \<Rightarrow>
                if d = CHR ''*'' then rmap (RSeq (RStar RAny)) (re_compile_body s')
                else rmap (RSeq RAny) (re_compile_body s)
            | [] \<Rightarrow> Inr (RSeq RAny REps))
      else if re_special c then Inl Unsupported
      else rmap (RSeq (RLit c)) (re_compile_body s))"

definition re_compile :: "string \<Rightarrow> re result" where
  "re_compile s = rmap (\<lambda>r. rseq [RBol, r, REol]) (re_compile_body s)"

definition Pattern_match :: "string \<Rightarrow> string \<Rightarrow> bool result" where
  "Pattern_match p str = rmap (\<lambda>r. re_match r str \<noteq> None) (re_compile (py_replace p ''*'' ''.*''))"

definition SplitPath :: "string \<Rightarrow> string list" where
  "SplitPath s = filter (\<lambda>c. length c > 0) (map py_strip (py_split_chr (CHR ''/'') s))"

text \<open>
  The loop shared by \<open>Rule.Contains\<close> and \<open>TestConfiguration.Contains\<close>: every pattern matches
  the path component at its place.
\<close>

fun match_all :: "string list \<Rightarrow> string list \<Rightarrow> bool result" where
  "match_all [] file = Inr True"
| "match_all (p # ps) [] = Inl IndexError"
| "match_all (p # ps) (f # fs) = rbind (Pattern_match p f) (\<lambda>b. if b then match_all ps fs else Inr False)"

definition Contains :: "string list \<Rightarrow> string list \<Rightarrow> bool result" where
  "Contains path file = (if length path > length file then Inr False else match_all path file)"

subsection \<open>Rules, sections and configurations\<close>

record rule =
  raw_path :: string
  rule_path :: "string list"
  rule_value :: expr

definition Rule_GetOutcomes :: "nat \<Rightarrow> env \<Rightarrow> defs \<Rightarrow> rule \<Rightarrow> pystr list result" where
  "Rule_GetOutcomes n env defs r =
     rbind (GetOutcomes n env defs (rule_value r)) (\<lambda>s.
       case s of ListSet elms \<Rightarrow> Inr elms | _ \<Rightarrow> Inl AssertionError)"

text \<open>The condition of a section is \<open>None\<close> when its header did not parse.\<close>

record test_section =
  condition :: "expr option"
  rules :: "rule list"

definition AddRule :: "rule \<Rightarrow> test_section \<Rightarrow> test_section" where
  "AddRule r s = s\<lparr>rules := rules s @ [r]\<rparr>"

definition section_enabled :: "nat \<Rightarrow> env \<Rightarrow> defs \<Rightarrow> test_section \<Rightarrow> bool result" where
  "section_enabled n env defs s =
     (case condition s of None \<Rightarrow> Inl AttributeError | Some c \<Rightarrow> Evaluate n env defs c)"

fun filterM :: "('a \<Rightarrow> bool result) \<Rightarrow> 'a list \<Rightarrow> 'a list result" where
  "filterM p [] = Inr []"
| "filterM p (x # xs) =
     rbind (p x) (\<lambda>b. rmap (\<lambda>ys. if b then x # ys else ys) (filterM p xs))"

record configuration =
  sections :: "test_section list"
  cdefs :: defs

text \<open>
  \<open>ClassifyTests\<close>. Python keeps the unused rules in a set of rule objects; here the identity of
  a rule is the number of its section and its place there. A test case is its path.
\<close>

type_synonym rule_id = "nat \<times> nat"

definition section_rules :: "nat \<times> test_section \<Rightarrow> (rule_id \<times> rule) list" where
  "section_rules = (\<lambda>(i, s). map (\<lambda>(j, r). ((i, j), r)) (enumerate 0 (rules s)))"

fun apply_matches :: "nat \<Rightarrow> env \<Rightarrow> defs \<Rightarrow> (rule_id \<times> rule) list \<Rightarrow> pystr set \<Rightarrow> rule_id set \<Rightarrow>
    (pystr set \<times> rule_id set) result" where
  "apply_matches n env defs [] outcomes unused = Inr (outcomes, unused)"
| "apply_matches n env defs ((k, r) # ms) outcomes unused =
     rbind (Rule_GetOutcomes n env defs r) (\<lambda>xs.
       apply_matches n env defs ms (outcomes \<union> set xs) (unused - {k}))"

fun classify_cases :: "nat \<Rightarrow> env \<Rightarrow> defs \<Rightarrow> (rule_id \<times> rule) list \<Rightarrow> string list list \<Rightarrow>
    (string list \<times> pystr set) list \<Rightarrow> rule_id set \<Rightarrow> pystr set \<Rightarrow>
    ((string list \<times> pystr set) list \<times> rule_id set \<times> pystr set) result" where
  "classify_cases n env defs all_rules [] res unused all_outcomes = Inr (res, unused, all_outcomes)"
| "classify_cases n env defs all_rules (c # cs) res unused all_outcomes =
     rbind (filterM (\<lambda>(k, r). Contains (rule_path r) c) all_rules) (\<lambda>matches.
       rbind (apply_matches n env defs matches {} unused) (\<lambda>(outcomes, unused').
         let outcomes' = (if outcomes = {} then {PASS} else outcomes) in
         classify_cases n env defs all_rules cs (res @ [(c, outcomes')]) unused'
           (all_outcomes \<union> outcomes')))"

definition ClassifyTests :: "nat \<Rightarrow> configuration \<Rightarrow> string list list \<Rightarrow> env \<Rightarrow>
    ((string list \<times> pystr set) list \<times> rule_id set \<times> pystr set) result" where
  "ClassifyTests n cfg cases env =
     rbind (filterM (\<lambda>(i, s). section_enabled n env (cdefs cfg) s) (enumerate 0 (sections cfg))) (\<lambda>secs.
       let all_rules = concat (map section_rules secs) in
       classify_cases n env (cdefs cfg) all_rules cases [] (fst ` set all_rules) {})"

subsection \<open>Reading a status file\<close>

definition HEADER_PATTERN :: re where
  "HEADER_PATTERN = rseq [RLit (CHR ''[''), RGroup 1 (RPlus (RChr (\<lambda>c. c \<noteq> CHR '']''))), RLit (CHR '']'')]"

definition RULE_PATTERN :: re where
  "RULE_PATTERN = rseq [RStar RSpace, RGroup 1 (RStar (RChr (\<lambda>c. c \<noteq> CHR '':'' \<and> c \<noteq> CHR '' ''))),
     RStar RSpace, RLit (CHR '':''), RGroup 2 (RStar RAny)]"

definition DEF_PATTERN :: re where
  "DEF_PATTERN = rseq [RBol, rstr ''def'', RStar RSpace, RGroup 1 (RPlus (RChr chr_isword)),
     RStar RSpace, RLit (CHR ''=''), RGroup 2 (RStar RAny), REol]"

definition prefix_chr :: "char \<Rightarrow> bool" where
  "prefix_chr c = (chr_isword c \<or> c \<in> set ''.-/'')"

definition PREFIX_PATTERN :: re where
  "PREFIX_PATTERN = rseq [RBol, RStar RSpace, rstr ''prefix'', RPlus RSpace,
     RGroup 1 (RPlus (RChr prefix_chr)), REol]"

definition ReadLinesFrom :: "string \<Rightarrow> string list" where
  "ReadLinesFrom contents =
     filter (\<lambda>l. length l > 0)
       (map (\<lambda>line. py_strip (case py_find line ''#'' 0 of None \<Rightarrow> line | Some h \<Rightarrow> take h line))
         (py_split_chr (CHR 0x0A) contents))"

text \<open>
  The state of \<open>ReadConfigurationInto\<close>: the test_section list and the definitions it fills, and the
  current path prefix. The current section is always the last one of the list.
\<close>

record reader =
  rd_sections :: "test_section list"
  rd_defs :: defs
  rd_prefix :: "string list"

definition group_str :: "string \<Rightarrow> rmatch_obj \<Rightarrow> nat \<Rightarrow> string" where
  "group_str s m k = (case re_group s m k of None \<Rightarrow> [] | Some w \<Rightarrow> w)"

definition add_to_last :: "rule \<Rightarrow> test_section list \<Rightarrow> test_section list" where
  "add_to_last r secs = butlast secs @ [AddRule r (last secs)]"

text \<open>One round of the loop: the new state, and whether reading goes on.\<close>

definition read_line :: "string \<Rightarrow> reader \<Rightarrow> (bool \<times> reader) result" where
  "read_line line st =
     (case re_match HEADER_PATTERN line of
        Some m \<Rightarrow>
          rbind (ParseCondition (py_strip (group_str line m 1))) (\<lambda>cond.
            Inr (True, st\<lparr>rd_sections := rd_sections st @ [\<lparr>condition = cond, rules = []\<rparr>]\<rparr>))
      | None \<Rightarrow>
     (case re_match RULE_PATTERN line of
        Some m \<Rightarrow>
          rbind (ParseCondition (py_strip (group_str line m 2))) (\<lambda>val.
            case val of
              None \<Rightarrow> Inr (False, st)
            | Some v \<Rightarrow>
                Inr (True, st\<lparr>rd_sections := add_to_last
                  \<lparr>raw_path = group_str line m 1,
                   rule_path = rd_prefix st @ SplitPath (py_strip (group_str line m 1)),
                   rule_value = v\<rparr> (rd_sections st)\<rparr>))
      | None \<Rightarrow>
     (case re_match DEF_PATTERN line of
        Some m \<Rightarrow>
          rbind (ParseCondition (py_strip (group_str line m 2))) (\<lambda>val.
            case val of
              None \<Rightarrow> Inr (False, st)
            | Some v \<Rightarrow> Inr (True, st\<lparr>rd_defs := (rd_defs st)(py_lower (group_str line m 1) \<mapsto> v)\<rparr>))
      | None \<Rightarrow>
     (case re_match PREFIX_PATTERN line of
        Some m \<Rightarrow> Inr (True, st\<lparr>rd_prefix := SplitPath (py_strip (group_str line m 1))\<rparr>)
      | None \<Rightarrow> Inr (False, st)))))"

fun read_lines :: "string list \<Rightarrow> reader \<Rightarrow> (bool \<times> reader) result" where
  "read_lines [] st = Inr (True, st)"
| "read_lines (l # ls) st =
     rbind (read_line l st) (\<lambda>(go, st'). if go then read_lines ls st' else Inr (False, st'))"

definition ReadConfigurationInto :: "string \<Rightarrow> test_section list \<Rightarrow> defs \<Rightarrow>
    (bool \<times> test_section list \<times> defs) result" where
  "ReadConfigurationInto contents secs defs =
     rmap (\<lambda>(ok, st). (ok, rd_sections st, rd_defs st))
       (read_lines (ReadLinesFrom contents)
          \<lparr>rd_sections = secs @ [\<lparr>condition = Some (Constant True), rules = []\<rparr>],
           rd_defs = defs, rd_prefix = []\<rparr>)"

subsection \<open>Selecting tests from the suites\<close>

definition CarCdr :: "'a list \<Rightarrow> 'a option \<times> 'a list" where
  "CarCdr path = (if length path = 0 then (None, []) else (Some (hd path), tl path))"

text \<open>
  A repository is a name and its configuration's methods: \<open>ListTests\<close> from the current path, the
  pattern path and the mode, \<open>GetBuildRequirements\<close>, and \<open>GetTestStatus\<close>, which extends the sections
  and definitions. The module \<open>testcfg\<close> that provides them is loaded at run time, so they are
  parameters here; \<open>Test_Suites\<close> has the suites of this repository. \<open>name\<close> is \<open>None\<close> for an
  empty pattern path.
\<close>

record 'c repository =
  repo_name :: string
  repo_ListTests :: "string list \<Rightarrow> string list \<Rightarrow> string \<Rightarrow> 'c list result"
  repo_requirements :: "string list"
  repo_GetTestStatus :: "test_section list \<times> defs \<Rightarrow> (test_section list \<times> defs) result"

definition name_matches :: "string option \<Rightarrow> string \<Rightarrow> bool result" where
  "name_matches name test = (case name of None \<Rightarrow> Inr True | Some p \<Rightarrow> Pattern_match p test)"

definition VARIANT_FLAGS :: "string list list" where
  "VARIANT_FLAGS = [[]]"

text \<open>A listed test carries the variant flags that \<open>AddTestsToList\<close> sets on it.\<close>

definition AddTestsToList :: "'c repository \<Rightarrow> string list \<Rightarrow> string list \<Rightarrow> string \<Rightarrow>
    ('c \<times> string list) list result" where
  "AddTestsToList t current path mode =
     rmap concat (mapM (\<lambda>v. rmap (map (\<lambda>c. (c, v))) (repo_ListTests t current path mode)) VARIANT_FLAGS)"

fun LiteralTestSuite_ListTests :: "'c repository list \<Rightarrow> string list \<Rightarrow> string list \<Rightarrow> string \<Rightarrow>
    ('c \<times> string list) list result" where
  "LiteralTestSuite_ListTests [] current path mode = Inr []"
| "LiteralTestSuite_ListTests (t # ts) current path mode =
     rbind (name_matches (fst (CarCdr path)) (repo_name t)) (\<lambda>b.
       rbind (if b then AddTestsToList t (current @ [repo_name t]) path mode else Inr []) (\<lambda>tests.
         rmap ((@) tests) (LiteralTestSuite_ListTests ts current path mode)))"

fun LiteralTestSuite_GetBuildRequirements :: "'c repository list \<Rightarrow> string list \<Rightarrow> string list result" where
  "LiteralTestSuite_GetBuildRequirements [] path = Inr []"
| "LiteralTestSuite_GetBuildRequirements (t # ts) path =
     rbind (name_matches (fst (CarCdr path)) (repo_name t)) (\<lambda>b.
       rmap ((@) (if b then repo_requirements t else []))
         (LiteralTestSuite_GetBuildRequirements ts path))"

fun LiteralTestSuite_GetTestStatus :: "'c repository list \<Rightarrow> test_section list \<times> defs \<Rightarrow>
    (test_section list \<times> defs) result" where
  "LiteralTestSuite_GetTestStatus [] st = Inr st"
| "LiteralTestSuite_GetTestStatus (t # ts) st =
     rbind (repo_GetTestStatus t st) (LiteralTestSuite_GetTestStatus ts)"

section \<open>Patterns\<close>

text \<open>
  Shell pattern matching: \<open>*\<close> is any text without newlines, and any other character of the pattern
  accepts the characters that \<open>one\<close> says. In the patterns of this file, \<open>.\<close> accepts every
  character except a newline, and the others themselves.
\<close>

fun glob_with :: "(char \<Rightarrow> char \<Rightarrow> bool) \<Rightarrow> string \<Rightarrow> string \<Rightarrow> bool" where
  "glob_with one [] s \<longleftrightarrow> s = []"
| "glob_with one (p # ps) s \<longleftrightarrow>
     (if p = CHR ''*''
      then (\<exists>k \<le> length s. CHR 0x0A \<notin> set (take k s) \<and> glob_with one ps (drop k s))
      else case s of [] \<Rightarrow> False | c # cs \<Rightarrow> one p c \<and> glob_with one ps cs)"

definition dot_or_self :: "char \<Rightarrow> char \<Rightarrow> bool" where
  "dot_or_self p c \<longleftrightarrow> (if p = CHR ''.'' then c \<noteq> CHR 0x0A else c = p)"

abbreviation glob :: "string \<Rightarrow> string \<Rightarrow> bool" where
  "glob \<equiv> glob_with dot_or_self"

lemma dot_or_self_simps: "dot_or_self (CHR ''.'') = (\<lambda>c. c \<noteq> CHR 0x0A)" "p \<noteq> CHR ''.'' \<Longrightarrow> dot_or_self p = (\<lambda>c. c = p)"
  by (auto simp: dot_or_self_def fun_eq_iff)

definition plain_pattern :: "string \<Rightarrow> bool" where
  "plain_pattern p \<longleftrightarrow> list_all (\<lambda>c. c = CHR ''*'' \<or> \<not> re_special c) p"

fun glob_re :: "(char \<Rightarrow> char \<Rightarrow> bool) \<Rightarrow> string \<Rightarrow> re" where
  "glob_re one [] = REps"
| "glob_re one (p # ps) = RSeq (if p = CHR ''*'' then RStar RAny else RChr (one p)) (glob_re one ps)"

lemma py_replace_ne_chr:
  "py_replace_ne 0 [c] new s = concat (map (\<lambda>d. if d = c then new else [d]) s)"
  by (induction s) auto

lemma py_replace_chr: "py_replace s [c] new = concat (map (\<lambda>d. if d = c then new else [d]) s)"
  by (simp add: py_replace_def py_replace_ne_chr)

lemma re_compile_glob:
  "plain_pattern p \<Longrightarrow> re_compile_body (py_replace p ''*'' ''.*'') = Inr (glob_re dot_or_self p)"
proof (induction p)
  case Nil
  then show ?case by (simp add: py_replace_chr)
next
  case (Cons c p)
  then have IH: "re_compile_body (py_replace p ''*'' ''.*'') = Inr (glob_re dot_or_self p)"
    and c: "c = CHR ''*'' \<or> \<not> re_special c" by (simp_all add: plain_pattern_def)
  let ?r = "py_replace p ''*'' ''.*''"
  have rep: "py_replace (c # p) ''*'' ''.*'' = (if c = CHR ''*'' then ''.*'' else [c]) @ ?r"
    by (simp add: py_replace_chr)
  have hd: "?r = d # r' \<Longrightarrow> d \<noteq> CHR ''*''" for d r'
    by (cases p) (auto simp: py_replace_chr split: if_splits)
  consider "c = CHR ''*''" | "c = CHR ''.''" | "c \<noteq> CHR ''*''" "c \<noteq> CHR ''.''" "\<not> re_special c"
    using c by blast
  then show ?case
  proof cases
    case 2
    then show ?thesis using IH hd unfolding rep by (cases ?r) (auto simp: dot_or_self_simps)
  qed (unfold rep, use IH in \<open>simp_all add: dot_or_self_simps\<close>)
qed

lemma rmatch_star_chr:
  assumes "i \<le> length s"
  shows "rmatch s (RStar (RChr q)) i g j h \<longleftrightarrow>
    h = g \<and> i \<le> j \<and> j \<le> length s \<and> list_all q (py_slice s i j)"
proof -
  let ?w = "takeWhile q (drop i s)"
  have "rmatch s (RStar (RChr q)) i g j h \<longleftrightarrow> (\<exists>k \<le> length ?w. j = i + k \<and> h = g)"
    using rx_iff_rmatch[OF assms, of j h "RStar (RChr q)" g]
    by (auto simp: rx_star_chr less_Suc_eq_le simp del: rx.simps upt_Suc)
  also have "\<dots> \<longleftrightarrow> h = g \<and> i \<le> j \<and> j \<le> length s \<and> list_all q (py_slice s i j)"
  proof -
    have "k \<le> length ?w \<longleftrightarrow> i + k \<le> length s \<and> list_all q (take k (drop i s))" for k
    proof
      assume "k \<le> length ?w"
      moreover have "length ?w \<le> length s - i" using length_takeWhile_le[of q "drop i s"] by simp
      moreover have "take k (drop i s) = take k ?w"
        using \<open>k \<le> length ?w\<close> by (metis append_take_drop_id takeWhile_dropWhile_id take_append
            append.right_neutral diff_is_0_eq take0)
      ultimately show "i + k \<le> length s \<and> list_all q (take k (drop i s))"
        using assms by (auto simp: list_all_iff dest: in_set_takeD set_takeWhileD)
    next
      assume a: "i + k \<le> length s \<and> list_all q (take k (drop i s))"
      then have "takeWhile q (take k (drop i s) @ drop k (drop i s)) =
          take k (drop i s) @ takeWhile q (drop k (drop i s))"
        by (intro takeWhile_append2) (simp add: list_all_iff)
      then have "?w = take k (drop i s) @ takeWhile q (drop k (drop i s))"
        by (simp only: append_take_drop_id)
      with a show "k \<le> length ?w" by (metis (no_types, lifting) add_leD2 assms le_add1 le_diff_conv2
        length_append length_drop length_take min.absorb2 add.commute)
    qed
    then show ?thesis by (auto simp: py_slice_def le_iff_add)
  qed
  finally show ?thesis .
qed

lemma slice_Cons: "i < j \<Longrightarrow> j \<le> length s \<Longrightarrow> py_slice s i j = s ! i # py_slice s (Suc i) j"
  using slice_join[of i "Suc i" j s] slice_one[of i s] by simp

lemma rmatch_glob:
  "i \<le> length s \<Longrightarrow> rmatch s (glob_re one p) i g j h \<longleftrightarrow>
     h = g \<and> i \<le> j \<and> j \<le> length s \<and> glob_with one p (py_slice s i j)"
proof (induction p arbitrary: i)
  case Nil
  then show ?case by (auto simp: rmatch_simps py_slice_def)
next
  case (Cons p ps)
  show ?case
  proof (cases "p = CHR ''*''")
    case True
    have "rmatch s (glob_re one (p # ps)) i g j h \<longleftrightarrow>
        (\<exists>k. i \<le> k \<and> k \<le> length s \<and> CHR 0x0A \<notin> set (py_slice s i k) \<and> rmatch s (glob_re one ps) k g j h)"
      using True Cons.prems
      by (auto simp: rmatch_simps(3) rmatch_star_chr list_all_iff)
    also have "\<dots> \<longleftrightarrow> (\<exists>k. i \<le> k \<and> k \<le> j \<and> j \<le> length s \<and> h = g \<and>
        CHR 0x0A \<notin> set (py_slice s i k) \<and> glob_with one ps (py_slice s k j))"
      using Cons.IH by (metis order_trans)
    also have "\<dots> \<longleftrightarrow> h = g \<and> i \<le> j \<and> j \<le> length s \<and>
        (\<exists>k. i \<le> k \<and> k \<le> j \<and> CHR 0x0A \<notin> set (py_slice s i k) \<and> glob_with one ps (py_slice s k j))"
      by (auto dest: order_trans)
    also have "\<dots> \<longleftrightarrow> h = g \<and> i \<le> j \<and> j \<le> length s \<and> glob_with one (p # ps) (py_slice s i j)"
    proof -
      have "(\<exists>k. i \<le> k \<and> k \<le> j \<and> CHR 0x0A \<notin> set (py_slice s i k) \<and> glob_with one ps (py_slice s k j)) \<longleftrightarrow>
          glob_with one (p # ps) (py_slice s i j)" if "i \<le> j" "j \<le> length s"
      proof -
        have "take d (py_slice s i j) = py_slice s i (i + d)"
            "drop d (py_slice s i j) = py_slice s (i + d) j" if "d \<le> j - i" for d
          using that \<open>i \<le> j\<close> by (simp_all add: py_slice_def min_absorb1 drop_take add.commute)
        then show ?thesis using that True
          by (simp add: length_py_slice) (metis add.commute diff_add_inverse le_add1 le_diff_conv2 le_iff_add)
      qed
      then show ?thesis by blast
    qed
    finally show ?thesis .
  next
    case False
    have one: "rmatch s (glob_re one (p # ps)) i g j h \<longleftrightarrow>
        i < length s \<and> one p (s ! i) \<and>
        rmatch s (glob_re one ps) (Suc i) g j h"
      using False by (auto simp: rmatch_simps)
    show ?thesis
    proof (cases "i < length s")
      case True
      then have IH: "rmatch s (glob_re one ps) (Suc i) g j h \<longleftrightarrow>
        h = g \<and> Suc i \<le> j \<and> j \<le> length s \<and> glob_with one ps (py_slice s (Suc i) j)"
        by (intro Cons.IH) simp
      show ?thesis
      proof (cases "i < j \<and> j \<le> length s")
        case True2: True
        then show ?thesis unfolding one IH using True False by (auto simp: slice_Cons)
      next
        case False2: False
        then show ?thesis unfolding one IH using True False by (auto simp: py_slice_def)
      qed
    next
      case out: False
      then show ?thesis unfolding one using False Cons.prems by (auto simp: py_slice_def)
    qed
  qed
qed

text \<open>
  A whole match of the pattern, except that Python's \<open>$\<close> also matches before a newline at the end
  of the text.
\<close>

lemma re_match_glob:
  "re_match (rseq [RBol, glob_re one p, REol]) s \<noteq> None \<longleftrightarrow>
    glob_with one p s \<or> (\<exists>t. s = t @ [CHR 0x0A] \<and> glob_with one p t)"
proof -
  let ?R = "rseq [RBol, glob_re one p, REol]"
  have "re_match ?R s \<noteq> None \<longleftrightarrow> (\<exists>j h. rmatch s ?R 0 Map.empty j h)"
    by (simp add: re_match_def re_match_at_None)
  also have "\<dots> \<longleftrightarrow> (\<exists>j. at_eol s j \<and> j \<le> length s \<and> glob_with one p (take j s))"
    by (auto simp: rseq_def rmatch_simps rmatch_glob py_slice_def)
  also have "\<dots> \<longleftrightarrow> glob_with one p s \<or> (\<exists>t. s = t @ [CHR 0x0A] \<and> glob_with one p t)"
  proof
    assume "\<exists>j. at_eol s j \<and> j \<le> length s \<and> glob_with one p (take j s)"
    then obtain j where j: "at_eol s j" "j \<le> length s" "glob_with one p (take j s)" by blast
    show "glob_with one p s \<or> (\<exists>t. s = t @ [CHR 0x0A] \<and> glob_with one p t)"
    proof (cases "j = length s")
      case False
      with j have l: "Suc j = length s" "s ! j = CHR 0x0A" by (simp_all add: at_eol_def)
      then have "s = take j s @ [CHR 0x0A]" by (metis lessI take_Suc_conv_app_nth take_all_iff order_refl)
      with j show ?thesis by blast
    qed (use j in simp)
  next
    assume "glob_with one p s \<or> (\<exists>t. s = t @ [CHR 0x0A] \<and> glob_with one p t)"
    then show "\<exists>j. at_eol s j \<and> j \<le> length s \<and> glob_with one p (take j s)"
    proof
      assume "glob_with one p s"
      then show ?thesis by (intro exI[of _ "length s"]) (simp add: at_eol_def)
    next
      assume "\<exists>t. s = t @ [CHR 0x0A] \<and> glob_with one p t"
      then obtain t where "s = t @ [CHR 0x0A]" "glob_with one p t" by blast
      then show ?thesis by (intro exI[of _ "length t"]) (simp add: at_eol_def)
    qed
  qed
  finally show ?thesis .
qed

lemma Pattern_match_glob:
  assumes "plain_pattern p"
  shows "Pattern_match p s = Inr (glob p s \<or> (\<exists>t. s = t @ [CHR 0x0A] \<and> glob p t))"
  using re_compile_glob[OF assms] by (simp add: Pattern_match_def re_compile_def re_match_glob del: not_None_eq)

lemma Pattern_match_line:
  "plain_pattern p \<Longrightarrow> CHR 0x0A \<notin> set s \<Longrightarrow> Pattern_match p s = Inr (glob p s)"
  by (auto simp: Pattern_match_glob)

lemma match_all_glob:
  "length ps \<le> length fs \<Longrightarrow> list_all plain_pattern ps \<Longrightarrow> list_all (\<lambda>f. CHR 0x0A \<notin> set f) fs \<Longrightarrow>
   match_all ps fs = Inr (list_all2 glob ps (take (length ps) fs))"
proof (induction ps fs rule: match_all.induct)
  case (3 p ps f fs)
  then show ?case by (simp add: Pattern_match_line)
qed simp_all

definition selects :: "string list \<Rightarrow> string list \<Rightarrow> bool" where
  "selects ps path \<longleftrightarrow> length ps \<le> length path \<and> list_all2 glob ps (take (length ps) path)"

lemma Contains_glob:
  "list_all plain_pattern ps \<Longrightarrow> list_all (\<lambda>f. CHR 0x0A \<notin> set f) fs \<Longrightarrow>
   Contains ps fs = Inr (selects ps fs)"
  by (simp add: Contains_def selects_def match_all_glob)

section \<open>Classification\<close>

lemma filterM_Inr:
  "filterM p xs = Inr ys \<Longrightarrow> ys = filter (\<lambda>x. p x = Inr True) xs \<and> (\<forall>x \<in> set xs. \<exists>b. p x = Inr b)"
proof (induction xs arbitrary: ys)
  case (Cons x xs)
  then obtain b zs where "p x = Inr b" "filterM p xs = Inr zs" "ys = (if b then x # zs else zs)"
    by (auto simp: rbind_Inr_iff rmap_Inr_iff)
  with Cons.IH show ?case by auto
qed simp

lemma filterM_total:
  "\<forall>x \<in> set xs. \<exists>b. p x = Inr b \<Longrightarrow> filterM p xs = Inr (filter (\<lambda>x. p x = Inr True) xs)"
  by (induction xs) auto

lemma apply_matches_Inr:
  "apply_matches n env defs ms os us = Inr (os', us') \<Longrightarrow>
     os' = os \<union> (\<Union>(k, r) \<in> set ms. case Rule_GetOutcomes n env defs r of Inr xs \<Rightarrow> set xs | Inl e \<Rightarrow> {}) \<and>
     us' = us - fst ` set ms \<and> (\<forall>(k, r) \<in> set ms. \<exists>xs. Rule_GetOutcomes n env defs r = Inr xs)"
proof (induction ms arbitrary: os us)
  case (Cons kr ms)
  obtain k r where kr: "kr = (k, r)" by (cases kr)
  with Cons.prems obtain xs where r: "Rule_GetOutcomes n env defs r = Inr xs"
    and ms: "apply_matches n env defs ms (os \<union> set xs) (us - {k}) = Inr (os', us')"
    by (auto simp: rbind_Inr_iff)
  from Cons.IH[OF ms] show ?case by (auto simp: kr r)
qed simp

text \<open>The rules that apply to a case, the outcomes they give it, and the final outcomes.\<close>

definition applicable :: "(rule_id \<times> rule) list \<Rightarrow> string list \<Rightarrow> (rule_id \<times> rule) set" where
  "applicable all_rules c = {kr \<in> set all_rules. Contains (rule_path (snd kr)) c = Inr True}"

definition rule_outcomes :: "nat \<Rightarrow> env \<Rightarrow> defs \<Rightarrow> rule \<Rightarrow> pystr set" where
  "rule_outcomes n env defs r =
     (case Rule_GetOutcomes n env defs r of Inr xs \<Rightarrow> set xs | Inl e \<Rightarrow> {})"

definition case_outcomes :: "nat \<Rightarrow> env \<Rightarrow> defs \<Rightarrow> (rule_id \<times> rule) list \<Rightarrow> string list \<Rightarrow> pystr set" where
  "case_outcomes n env defs all_rules c =
     (let os = (\<Union>kr \<in> applicable all_rules c. rule_outcomes n env defs (snd kr))
      in if os = {} then {PASS} else os)"

lemma classify_cases_Inr:
  "classify_cases n env defs all_rules cs res us ao = Inr (res', us', ao') \<Longrightarrow>
     res' = res @ map (\<lambda>c. (c, case_outcomes n env defs all_rules c)) cs \<and>
     us' = us - (\<Union>c \<in> set cs. fst ` applicable all_rules c) \<and>
     ao' = ao \<union> (\<Union>c \<in> set cs. case_outcomes n env defs all_rules c)"
proof (induction cs arbitrary: res us ao)
  case (Cons c cs)
  then obtain ms os us1 where f: "filterM (\<lambda>(k, r). Contains (rule_path r) c) all_rules = Inr ms"
    and a: "apply_matches n env defs ms {} us = Inr (os, us1)"
    and rec: "classify_cases n env defs all_rules cs (res @ [(c, if os = {} then {PASS} else os)]) us1
      (ao \<union> (if os = {} then {PASS} else os)) = Inr (res', us', ao')"
    by (auto simp: rbind_Inr_iff Let_def)
  have ms: "set ms = applicable all_rules c"
    using filterM_Inr[OF f] by (auto simp: applicable_def)
  from apply_matches_Inr[OF a] ms have os: "case_outcomes n env defs all_rules c = (if os = {} then {PASS} else os)"
    and us1: "us1 = us - fst ` applicable all_rules c"
    by (simp_all add: case_outcomes_def rule_outcomes_def case_prod_unfold Let_def)
  from Cons.IH[OF rec[folded os]] us1 show ?case by auto
qed simp

text \<open>
  The reference semantics of a configuration: the rules of the sections whose condition holds,
  the outcomes of a case, and the rules that no case uses.
\<close>

definition spec_rules :: "env \<Rightarrow> (string \<Rightarrow> pystr set) \<Rightarrow> test_section list \<Rightarrow> (rule_id \<times> rule) list" where
  "spec_rules env N secs = concat (map section_rules
     (filter (\<lambda>(i, s). \<exists>c. condition s = Some c \<and> holds env N c) (enumerate 0 secs)))"

definition spec_outcomes :: "env \<Rightarrow> (string \<Rightarrow> pystr set) \<Rightarrow> (rule_id \<times> rule) list \<Rightarrow> string list \<Rightarrow> pystr set" where
  "spec_outcomes env N rs c =
     (let os = (\<Union>(k, r) \<in> {(k, r) \<in> set rs. selects (rule_path r) c}. den env N (rule_value r))
      in if os = {} then {PASS} else os)"

definition spec_unused :: "(rule_id \<times> rule) list \<Rightarrow> string list list \<Rightarrow> rule_id set" where
  "spec_unused rs cases = {k. \<exists>r. (k, r) \<in> set rs \<and> (\<forall>c \<in> set cases. \<not> selects (rule_path r) c)}"

definition good_section :: "(string \<Rightarrow> nat) \<Rightarrow> nat \<Rightarrow> test_section \<Rightarrow> bool" where
  "good_section rank n s \<longleftrightarrow>
     (\<exists>c. condition s = Some c \<and> is_cond c \<and> (\<forall>y \<in> names c. rank y < n))"

definition good_rule :: "env \<Rightarrow> (string \<Rightarrow> pystr set) \<Rightarrow> (string \<Rightarrow> nat) \<Rightarrow> nat \<Rightarrow> rule \<Rightarrow> bool" where
  "good_rule env N rank n r \<longleftrightarrow>
     list_all plain_pattern (rule_path r) \<and> is_val (rule_value r) \<and>
     (\<forall>y \<in> names (rule_value r). rank y < n) \<and> den env N (rule_value r) \<noteq> {}"

lemma Union_not_Everything: "Union a b = Everything \<Longrightarrow> a = Everything \<or> b = Everything"
  by (cases a; cases b) auto

lemma Intersect_not_Everything: "Intersect a b = Everything \<Longrightarrow> a = Everything"
  by (cases a; cases b) auto

lemma GetOutcomes_not_Everything: "GetOutcomes n env defs e \<noteq> Inr Everything"
proof (induction n arbitrary: e rule: less_induct)
  case (less n)
  note outer = less.IH
  show ?case
  proof (induction e)
    case (Outcome x)
    then show ?case using outer by (auto split: option.splits nat.splits)
  next
    case (Operation l op r)
    then show ?case
      by (auto simp: rbind_Inr_iff rmap_Inr_iff split: if_splits
          dest!: sym[of Everything] Union_not_Everything Intersect_not_Everything)
  qed (auto split: option.splits)
qed

lemma good_rule_outcomes:
  assumes "good_defs rank defs" and "names_denote env defs N" and "good_rule env N rank n r"
  shows "\<exists>xs. Rule_GetOutcomes n env defs r = Inr xs \<and> set xs = den env N (rule_value r)"
proof -
  from assms(3) eval_correct[OF assms(1,2), of "rule_value r" n]
  obtain s where s: "GetOutcomes n env defs (rule_value r) = Inr s" "oset_elems s = den env N (rule_value r)"
    by (auto simp: good_rule_def)
  with assms(3) GetOutcomes_not_Everything[of n env defs "rule_value r"]
  show ?thesis by (cases s) (auto simp: Rule_GetOutcomes_def good_rule_def)
qed

lemma apply_matches_total:
  assumes "\<forall>(k, r) \<in> set ms. \<exists>xs. Rule_GetOutcomes n env defs r = Inr xs"
  shows "\<exists>res. apply_matches n env defs ms os us = Inr res"
  using assms by (induction ms arbitrary: os us) auto

lemma classify_cases_total:
  assumes "\<forall>(k, r) \<in> set all_rules. \<exists>xs. Rule_GetOutcomes n env defs r = Inr xs"
    and "\<forall>c \<in> set cs. \<forall>(k, r) \<in> set all_rules. \<exists>b. Contains (rule_path r) c = Inr b"
  shows "\<exists>res. classify_cases n env defs all_rules cs acc us ao = Inr res"
  using assms(2)
proof (induction cs arbitrary: acc us ao)
  case (Cons c cs)
  let ?p = "\<lambda>(k, r). Contains (rule_path r) c"
  from Cons.prems have f: "filterM ?p all_rules = Inr (filter (\<lambda>x. ?p x = Inr True) all_rules)"
    by (intro filterM_total) auto
  have "\<forall>(k, r) \<in> set (filter (\<lambda>x. ?p x = Inr True) all_rules). \<exists>xs. Rule_GetOutcomes n env defs r = Inr xs"
    using assms(1) by auto
  from apply_matches_total[OF this] obtain a where
    "apply_matches n env defs (filter (\<lambda>x. ?p x = Inr True) all_rules) {} us = Inr a" by blast
  with f Cons show ?case by (cases a) (auto simp: Let_def)
qed simp

lemma enabled_sections:
  assumes "good_defs rank defs" and "names_denote env defs N" and "list_all (good_section rank n) secs"
  shows "filterM (\<lambda>(i, s). section_enabled n env defs s) (enumerate 0 secs) =
    Inr (filter (\<lambda>(i, s). \<exists>c. condition s = Some c \<and> holds env N c) (enumerate 0 secs))"
proof -
  let ?p = "\<lambda>(i::nat, s). section_enabled n env defs s"
  have e: "section_enabled n env defs s = Inr (\<exists>c. condition s = Some c \<and> holds env N c)"
    if "s \<in> set secs" for s
    using that assms(3) eval_correct[OF assms(1,2)]
    by (fastforce simp: good_section_def list_all_iff section_enabled_def)
  have mem: "x \<in> set (enumerate 0 secs) \<Longrightarrow> snd x \<in> set secs" for x
    using nth_mem[of "fst x" secs] by (simp add: in_set_enumerate_eq)
  have p: "?p x = Inr (\<exists>c. condition (snd x) = Some c \<and> holds env N c)" if "x \<in> set (enumerate 0 secs)" for x
    using e[OF mem[OF that]] by (simp add: case_prod_unfold)
  have "filterM ?p (enumerate 0 secs) = Inr (filter (\<lambda>x. ?p x = Inr True) (enumerate 0 secs))"
    using p by (intro filterM_total) blast
  also have "filter (\<lambda>x. ?p x = Inr True) (enumerate 0 secs) =
      filter (\<lambda>(i, s). \<exists>c. condition s = Some c \<and> holds env N c) (enumerate 0 secs)"
    by (rule filter_cong) (simp_all add: e[OF mem] case_prod_unfold)
  finally show ?thesis .
qed

lemma section_rules_iff:
  "((i, j), r) \<in> set (section_rules (k, s)) \<longleftrightarrow> i = k \<and> j < length (rules s) \<and> r = rules s ! j"
  by (auto simp: section_rules_def in_set_enumerate_eq image_iff intro!: bexI[of _ "(j, rules s ! j)"])

lemma spec_rules_unique:
  assumes "(k, r) \<in> set (spec_rules env N secs)" and "(k, r') \<in> set (spec_rules env N secs)"
  shows "r = r'"
proof -
  obtain i j where k: "k = (i, j)" by (cases k)
  have "r = rules (secs ! i) ! j" if "(k, r) \<in> set (spec_rules env N secs)" for r
    using that unfolding k by (auto simp: spec_rules_def section_rules_iff in_set_enumerate_eq)
  from this[OF assms(1)] this[OF assms(2)] show ?thesis by simp
qed

lemma unused_rules:
  fixes secs env N
  defines "rs \<equiv> spec_rules env N secs"
  shows "fst ` set rs - (\<Union>c \<in> set cases. fst ` {kr \<in> set rs. selects (rule_path (snd kr)) c}) =
    spec_unused rs cases"
proof (intro set_eqI iffI)
  fix k assume k: "k \<in> fst ` set rs - (\<Union>c \<in> set cases. fst ` {kr \<in> set rs. selects (rule_path (snd kr)) c})"
  then obtain r where r: "(k, r) \<in> set rs" by auto
  moreover have "\<not> selects (rule_path r) c" if "c \<in> set cases" for c
    using k r that by force
  ultimately show "k \<in> spec_unused rs cases" by (auto simp: spec_unused_def)
next
  fix k assume "k \<in> spec_unused rs cases"
  then obtain r where r: "(k, r) \<in> set rs" "\<forall>c \<in> set cases. \<not> selects (rule_path r) c"
    unfolding spec_unused_def by blast
  have "r' = r" if "(k, r') \<in> set rs" for r'
    using that r(1) unfolding rs_def by (rule spec_rules_unique)
  with r(2) have "k \<notin> fst ` {kr \<in> set rs. selects (rule_path (snd kr)) c}" if "c \<in> set cases" for c
    using that by fastforce
  with r(1) show "k \<in> fst ` set rs - (\<Union>c \<in> set cases. fst ` {kr \<in> set rs. selects (rule_path (snd kr)) c})"
    by (metis (no_types, lifting) DiffI UN_iff fst_conv image_eqI)
qed

lemma classify_spec:
  assumes "good_defs rank (cdefs cfg)" and "names_denote env (cdefs cfg) N"
    and "list_all (good_section rank n) (sections cfg)"
    and rs: "rs = spec_rules env N (sections cfg)"
    and good: "list_all (\<lambda>(k, r). good_rule env N rank n r) rs"
    and cases: "list_all (list_all (\<lambda>f. CHR 0x0A \<notin> set f)) cases"
  shows "ClassifyTests n cfg cases env =
    Inr (map (\<lambda>c. (c, spec_outcomes env N rs c)) cases, spec_unused rs cases,
         (\<Union>c \<in> set cases. spec_outcomes env N rs c))"
proof -
  let ?defs = "cdefs cfg"
  have gr: "good_rule env N rank n (snd kr)" if "kr \<in> set rs" for kr
    using good that by (auto simp: list_all_iff)
  have val: "\<exists>xs. Rule_GetOutcomes n env ?defs (snd kr) = Inr xs \<and> set xs = den env N (rule_value (snd kr))"
    if "kr \<in> set rs" for kr
    by (rule good_rule_outcomes[OF assms(1,2) gr[OF that]])
  have con: "Contains (rule_path (snd kr)) c = Inr (selects (rule_path (snd kr)) c)"
    if "kr \<in> set rs" "c \<in> set cases" for kr c
  proof (rule Contains_glob)
    show "list_all plain_pattern (rule_path (snd kr))" using gr[OF that(1)] by (simp add: good_rule_def)
    show "list_all (\<lambda>f. CHR 0x0A \<notin> set f) c" using cases that(2) by (simp add: list_all_iff[of _ cases])
  qed
  have app: "applicable rs c = {kr \<in> set rs. selects (rule_path (snd kr)) c}" if "c \<in> set cases" for c
    using con[OF _ that] by (auto simp: applicable_def)
  have ro: "rule_outcomes n env ?defs (snd kr) = den env N (rule_value (snd kr))" if "kr \<in> set rs" for kr
  proof -
    from val[OF that] obtain xs where "Rule_GetOutcomes n env ?defs (snd kr) = Inr xs"
      "set xs = den env N (rule_value (snd kr))" by blast
    then show ?thesis by (simp add: rule_outcomes_def)
  qed
  have out: "case_outcomes n env ?defs rs c = spec_outcomes env N rs c" if c: "c \<in> set cases" for c
  proof -
    have "(\<Union>kr \<in> applicable rs c. rule_outcomes n env ?defs (snd kr)) =
        (\<Union>(k, r) \<in> {(k, r) \<in> set rs. selects (rule_path r) c}. den env N (rule_value r))"
      unfolding app[OF c] by (rule SUP_cong) (auto simp: ro[of "(_, _)", simplified])
    then show ?thesis unfolding case_outcomes_def spec_outcomes_def by (rule arg_cong)
  qed
  have "\<forall>(k, r) \<in> set rs. \<exists>xs. Rule_GetOutcomes n env ?defs r = Inr xs"
    by (clarify, drule val) (simp, blast)
  moreover have "\<forall>c \<in> set cases. \<forall>(k, r) \<in> set rs. \<exists>b. Contains (rule_path r) c = Inr b"
    by (clarify, drule (1) con[rotated]) (simp)
  ultimately obtain res us ao where
    c: "classify_cases n env ?defs rs cases [] (fst ` set rs) {} = Inr (res, us, ao)"
    using classify_cases_total[of rs n env ?defs cases "[]" "fst ` set rs" "{}"] by auto
  have ct: "ClassifyTests n cfg cases env = Inr (res, us, ao)"
    using c by (simp only: ClassifyTests_def enabled_sections[OF assms(1-3)] rbind_simps Let_def
        spec_rules_def[symmetric] rs[symmetric])
  have "us = spec_unused rs cases"
  proof -
    have "us = fst ` set rs - (\<Union>c \<in> set cases. fst ` applicable rs c)"
      by (rule classify_cases_Inr[OF c, THEN conjunct2, THEN conjunct1])
    also have "(\<Union>c \<in> set cases. fst ` applicable rs c) =
        (\<Union>c \<in> set cases. fst ` {kr \<in> set rs. selects (rule_path (snd kr)) c})"
      by (intro SUP_cong refl) (simp add: app)
    also have "fst ` set rs - \<dots> = spec_unused rs cases"
      unfolding rs by (rule unused_rules)
    finally show ?thesis .
  qed
  moreover have "res = map (\<lambda>c. (c, spec_outcomes env N rs c)) cases"
    "ao = (\<Union>c \<in> set cases. spec_outcomes env N rs c)"
    using classify_cases_Inr[OF c] out by (simp_all cong: SUP_cong_simp)
  ultimately show ?thesis unfolding ct by simp
qed

section \<open>Properties\<close>

text \<open>
  A path pattern of a status file is a shell pattern: on a component without a newline,
  \<open>Pattern.match\<close> of a pattern made of plain characters, dots and stars returns, and answers
  whether the component is an instance of the pattern.
\<close>

theorem pattern_is_glob:
  assumes "plain_pattern p" and "CHR 0x0A \<notin> set s"
  shows "Pattern_match p s = Inr (glob p s)"
  by (rule Pattern_match_line[OF assms])

theorem pattern_is_glob_witness: "Pattern_match ''t*x'' ''t-ax'' = Inr True"
proof -
  have "plain_pattern ''t*x''" by (simp add: plain_pattern_def re_special_def)
  moreover have "CHR 0x0A \<notin> set ''t-ax''" by simp
  moreover have "glob ''t*x'' ''t-ax''" by (auto simp: dot_or_self_def intro!: exI[of _ 2])
  ultimately show ?thesis using pattern_is_glob[of "''t*x''" "''t-ax''"] by simp
qed

text \<open>
  C32. Classification of the test cases is total and right. With conditions and values that are
  well formed, definitions that are not cyclic, plain path patterns and rules of the enabled
  sections that have an outcome in this environment, \<open>ClassifyTests\<close> raises no exception; every
  case gets the union of the outcomes of the enabled rules whose path selects it, and \<open>PASS\<close> when
  there is none; the unused rules are those that select no case; and the set of all outcomes is
  the union over the cases.
\<close>

theorem classify_tests_correct:
  assumes "good_defs rank (cdefs cfg)" and "names_denote env (cdefs cfg) N"
    and "list_all (good_section rank n) (sections cfg)"
    and "rs = spec_rules env N (sections cfg)" and "list_all (\<lambda>(k, r). good_rule env N rank n r) rs"
    and "list_all (list_all (\<lambda>f. CHR 0x0A \<notin> set f)) cases"
  shows "ClassifyTests n cfg cases env =
    Inr (map (\<lambda>c. (c, spec_outcomes env N rs c)) cases, spec_unused rs cases,
         (\<Union>c \<in> set cases. spec_outcomes env N rs c))"
  by (rule classify_spec[OF assms])

text \<open>One rule \<open>a*: fail\<close> that holds for the first of two cases.\<close>

theorem classify_tests_correct_witness:
  "ClassifyTests 1 \<lparr>sections = [\<lparr>condition = Some (Constant True),
       rules = [\<lparr>raw_path = ''a*'', rule_path = [''a*''], rule_value = Outcome ''fail''\<rparr>]\<rparr>],
     cdefs = Map.empty\<rparr> [[''ab''], [''b'']] Map.empty =
   Inr ([([''ab''], {FAIL}), ([''b''], {PASS})], {}, {FAIL, PASS})"
proof -
  let ?r = "\<lparr>raw_path = ''a*'', rule_path = [''a*''], rule_value = Outcome ''fail''\<rparr>"
  let ?cfg = "\<lparr>sections = [\<lparr>condition = Some (Constant True), rules = [?r]\<rparr>], cdefs = Map.empty\<rparr>"
  let ?N = "\<lambda>x::string. {Some x}"
  have 1: "good_defs (\<lambda>x. 0) (cdefs ?cfg)" by (simp add: good_defs_def)
  have 2: "names_denote Map.empty (cdefs ?cfg) ?N" by (simp add: names_denote_def)
  have 3: "list_all (good_section (\<lambda>x. 0) 1) (sections ?cfg)" by (simp add: good_section_def)
  have 4: "[((0, 0), ?r)] = spec_rules Map.empty ?N (sections ?cfg)"
    by (simp add: spec_rules_def section_rules_def)
  have 5: "list_all (\<lambda>(k, r). good_rule Map.empty ?N (\<lambda>x. 0) 1 r) [((0, 0), ?r)]"
    by (simp add: good_rule_def plain_pattern_def re_special_def)
  have 6: "list_all (list_all (\<lambda>f. CHR 0x0A \<notin> set f)) [[''ab''], [''b'']]" by simp
  have s: "selects [''a*''] [''ab'']" "\<not> selects [''a*''] [''b'']"
    by (auto simp: selects_def dot_or_self_def intro!: exI[of _ 1])
  have "spec_outcomes Map.empty ?N [((0, 0), ?r)] [''ab''] = {FAIL}"
    "spec_outcomes Map.empty ?N [((0, 0), ?r)] [''b''] = {PASS}"
    "spec_unused [((0, 0), ?r)] [[''ab''], [''b'']] = {}"
    using s by (auto simp add: spec_outcomes_def spec_unused_def Let_def FAIL_def)
  with classify_tests_correct[OF 1 2 3 4 5 6] show ?thesis by (simp add: insert_commute)
qed

text \<open>
  A rule whose value is guarded by a condition that does not hold, such as
  \<open>t: fail if $mode == debug\<close> in release mode, has no outcome set of the class \<open>ListSet\<close>: when it is
  the only rule of the file and a case matches it, classification raises an assertion error
  instead of leaving the case with the outcome \<open>PASS\<close>.
\<close>

theorem guarded_rule_asserts:
  assumes "Evaluate n env defs g = Inr False" and "Contains p c = Inr True"
  shows "ClassifyTests n \<lparr>sections = [\<lparr>condition = Some (Constant True), rules =
      [\<lparr>raw_path = raw, rule_path = p, rule_value = Operation e ''if'' g\<rparr>]\<rparr>], cdefs = defs\<rparr>
    (c # cases) env = Inl AssertionError"
  using assms by (simp add: ClassifyTests_def section_enabled_def Rule_GetOutcomes_def section_rules_def)

theorem guarded_rule_asserts_witness:
  "ClassifyTests 0 \<lparr>sections = [\<lparr>condition = Some (Constant True), rules =
      [\<lparr>raw_path = ''t'', rule_path = [''t''],
        rule_value = Operation (Outcome ''fail'') ''if'' (Operation (Variable ''mode'') ''=='' (Outcome ''debug''))\<rparr>]\<rparr>],
      cdefs = Map.empty\<rparr> [[''t'']] [''mode'' \<mapsto> Some ''release''] = Inl AssertionError"
proof -
  have "Contains [''t''] [''t''] = Inr True"
    by (subst Contains_glob) (simp_all add: plain_pattern_def re_special_def selects_def dot_or_self_def)
  moreover have "Evaluate 0 [''mode'' \<mapsto> Some ''release''] Map.empty
      (Operation (Variable ''mode'') ''=='' (Outcome ''debug'')) = Inr False" by simp
  ultimately show ?thesis by (intro guarded_rule_asserts)
qed

text \<open>
  A status file whose section header does not parse is accepted by the reader, and raises an
  attribute error when tests are classified: the header \<open>[&]\<close> leaves a section without a condition.
\<close>

theorem malformed_header_accepted:
  "ReadConfigurationInto ''[&]'' [] Map.empty =
     Inr (True, [\<lparr>condition = Some (Constant True), rules = []\<rparr>, \<lparr>condition = None, rules = []\<rparr>], Map.empty) \<and>
   ClassifyTests n \<lparr>sections = [\<lparr>condition = Some (Constant True), rules = []\<rparr>, \<lparr>condition = None, rules = []\<rparr>],
     cdefs = Map.empty\<rparr> cases env = Inl AttributeError"
proof
  have "ReadLinesFrom ''[&]'' = [''[&]'']" by code_simp
  moreover have "(case re_match HEADER_PATTERN ''[&]'' of Some m \<Rightarrow> py_strip (group_str ''[&]'' m 1) = ''&'' | None \<Rightarrow> False)"
    by code_simp
  moreover have "ParseCondition ''&'' = Inr None" by code_simp
  ultimately show "ReadConfigurationInto ''[&]'' [] Map.empty =
     Inr (True, [\<lparr>condition = Some (Constant True), rules = []\<rparr>, \<lparr>condition = None, rules = []\<rparr>], Map.empty)"
    by (auto simp: ReadConfigurationInto_def read_line_def split: option.splits)
qed (simp add: ClassifyTests_def section_enabled_def)

end
