(* ===== verification/Test_Run.thy ===== *)
theory Test_Run
  imports Complex_Main Test_Expr
begin

text \<open>
  Running test cases, \<^verbatim>\<open>src/tools/test.py\<close> lines 56 to 533: command outputs, test cases and the
  classification of their outputs, the process loop of \<open>RunProcess\<close>, the progress indicators and
  the threads of \<open>ProgressIndicator.Run\<close>.

  After the definitions: the verdict on an output, the process loop, and the invariants and the
  progress of the threaded run for every interleaving.
\<close>

unbundle bit_operations_syntax

section \<open>Definitions\<close>

subsection \<open>Commands, test cases and outputs\<close>

record command_output =
  exit_code :: int
  timed_out :: bool
  co_stdout :: string
  co_stderr :: string
  co_failed :: "bool option"

definition CommandOutput :: "int \<Rightarrow> bool \<Rightarrow> string \<Rightarrow> string \<Rightarrow> command_output" where
  "CommandOutput code timed out err =
     \<lparr>exit_code = code, timed_out = timed, co_stdout = out, co_stderr = err, co_failed = None\<rparr>"

text \<open>
  The test suites subclass \<open>TestCase\<close>: the methods they override are fields of the record.
  \<open>tc_BeforeRun\<close>, \<open>tc_AfterRun\<close>, \<open>tc_GetCommand\<close> and \<open>tc_GetSource\<close> may raise an exception.
\<close>

record test_case =
  tc_path :: "string list"
  tc_mode :: string
  tc_label :: string
  tc_IsNegative :: bool
  tc_IsFailureOutput :: "command_output \<Rightarrow> bool"
  tc_BeforeRun :: "unit result"
  tc_AfterRun :: "unit result"
  tc_GetCommand :: "string list result"
  tc_GetSource :: "string result"
  tc_variant_flags :: "string list"
  tc_outcomes :: "pystr set"

definition IsFailureOutput :: "command_output \<Rightarrow> bool" where
  "IsFailureOutput output = (exit_code output \<noteq> 0)"

text \<open>The methods of the class itself, before a suite overrides them.\<close>

definition TestCase :: "string list \<Rightarrow> string \<Rightarrow> test_case" where
  "TestCase path mode = \<lparr>tc_path = path, tc_mode = mode, tc_label = [], tc_IsNegative = False,
     tc_IsFailureOutput = IsFailureOutput, tc_BeforeRun = Inr (), tc_AfterRun = Inr (), tc_GetCommand = Inl AttributeError,
     tc_GetSource = Inr ''(no source available)'',
     tc_variant_flags = [], tc_outcomes = {}\<rparr>"

definition DidFail :: "test_case \<Rightarrow> command_output \<Rightarrow> bool \<times> command_output" where
  "DidFail test output =
     (let output' = (case co_failed output of
                       None \<Rightarrow> output\<lparr>co_failed := Some (tc_IsFailureOutput test output)\<rparr>
                     | Some f \<Rightarrow> output)
      in (the (co_failed output'), output'))"

record test_output =
  to_test :: test_case
  to_command :: "string list"
  to_output :: command_output
  store_unexpected_output :: bool

definition SIGABRT :: int where "SIGABRT = 6"

text \<open>\<open>HasCrashed\<close>; \<open>windows\<close> is the answer of \<open>utils.IsWindows()\<close>.\<close>

definition HasCrashed :: "bool \<Rightarrow> test_output \<Rightarrow> bool" where
  "HasCrashed windows t =
     (let code = exit_code (to_output t) in
      if windows then (0x80000000 AND code) \<noteq> 0 \<and> \<not> (0x3FFFFF00 AND code) \<noteq> 0
      else if timed_out (to_output t) then False
      else code < 0 \<and> code \<noteq> - SIGABRT)"

definition HasTimedOut :: "test_output \<Rightarrow> bool" where
  "HasTimedOut t = timed_out (to_output t)"

definition HasFailed :: "test_output \<Rightarrow> bool \<times> test_output" where
  "HasFailed t =
     (let (execution_failed, output') = DidFail (to_test t) (to_output t);
          t' = t\<lparr>to_output := output'\<rparr>
      in if tc_IsNegative (to_test t) then (\<not> execution_failed, t') else (execution_failed, t'))"

definition UnexpectedOutput :: "bool \<Rightarrow> test_output \<Rightarrow> bool \<times> test_output" where
  "UnexpectedOutput windows t =
     (let (outcome, t') =
        (if HasCrashed windows t then (CRASH, t)
         else if HasTimedOut t then (TIMEOUT, t)
         else (let (f, t1) = HasFailed t in (if f then FAIL else PASS, t1)))
      in (\<not> outcome \<in> tc_outcomes (to_test t'), t'))"

definition HasPreciousOutput :: "bool \<Rightarrow> test_output \<Rightarrow> bool \<times> test_output" where
  "HasPreciousOutput windows t =
     (let (u, t') = UnexpectedOutput windows t in (u \<and> store_unexpected_output t', t'))"

subsection \<open>Processes\<close>

text \<open>
  Sleep times are exact fractions of a second. The process and the clock are parameters: \<open>now k\<close>
  is the time read in round \<open>k\<close> of the loop, \<open>poll k\<close> the answer of \<open>process.poll()\<close> in that
  round, and \<open>killed\<close> the exit code that \<open>process.wait()\<close> returns after the process was killed.
  \<open>n\<close> bounds the number of rounds: \<open>None\<close> means that the loop is still running after \<open>n\<close> rounds.
\<close>

definition MAX_SLEEP_TIME :: rat where "MAX_SLEEP_TIME = 1 / 10"
definition INITIAL_SLEEP_TIME :: rat where "INITIAL_SLEEP_TIME = 1 / 10000"
definition SLEEP_TIME_FACTOR :: rat where "SLEEP_TIME_FACTOR = 5 / 4"

record proc_env =
  now :: "nat \<Rightarrow> rat"
  poll :: "nat \<Rightarrow> int option"
  killed :: int

definition next_sleep :: "rat \<Rightarrow> rat" where
  "next_sleep sleep_time =
     (let s = sleep_time * SLEEP_TIME_FACTOR in if s > MAX_SLEEP_TIME then MAX_SLEEP_TIME else s)"

text \<open>The loop returns the exit code, whether the process timed out, and the sleeps it made.\<close>

fun wait_loop :: "nat \<Rightarrow> proc_env \<Rightarrow> rat option \<Rightarrow> nat \<Rightarrow> rat \<Rightarrow> rat list \<Rightarrow> (int \<times> bool \<times> rat list) option" where
  "wait_loop 0 pe end_time k sleep_time slept = None"
| "wait_loop (Suc n) pe end_time k sleep_time slept =
     (if (\<exists>e \<in> set_option end_time. now pe k \<ge> e)
      then Some (killed pe, True, slept)
      else (case poll pe k of
              Some code \<Rightarrow> Some (code, False, slept @ [sleep_time])
            | None \<Rightarrow> wait_loop n pe end_time (Suc k) (next_sleep sleep_time) (slept @ [sleep_time])))"

definition RunProcess :: "nat \<Rightarrow> proc_env \<Rightarrow> rat option \<Rightarrow> rat \<Rightarrow> (int \<times> bool) option" where
  "RunProcess n pe timeout start =
     (let end_time = map_option (\<lambda>t. start + t) timeout in
      map_option (\<lambda>(code, timed, slept). (code, timed)) (wait_loop n pe end_time 0 INITIAL_SLEEP_TIME []))"

text \<open>What the process writes on its two descriptors is read back from the temporary files.\<close>

definition Execute :: "nat \<Rightarrow> proc_env \<Rightarrow> rat option \<Rightarrow> rat \<Rightarrow> string \<Rightarrow> string \<Rightarrow> command_output option" where
  "Execute n pe timeout start out err =
     map_option (\<lambda>(code, timed). CommandOutput code timed out err) (RunProcess n pe timeout start)"

definition ExecuteNoCapture :: "nat \<Rightarrow> proc_env \<Rightarrow> rat option \<Rightarrow> rat \<Rightarrow> command_output option" where
  "ExecuteNoCapture n pe timeout start =
     map_option (\<lambda>(code, timed). CommandOutput code False [] []) (RunProcess n pe timeout start)"

text \<open>
  \<open>TestCase.RunCommand\<close> and \<open>TestCase.Run\<close>; \<open>execute\<close> stands for the call of \<open>Execute\<close>, which may
  raise an exception (a temporary file or the process cannot be made). When \<open>RunCommand\<close> raises,
  the \<open>finally\<close> clause of \<open>Run\<close> reads the variable \<open>result\<close>, which has no value yet.
\<close>

definition RunCommand :: "(string list \<Rightarrow> string list) \<Rightarrow> bool \<Rightarrow> (string list \<Rightarrow> command_output result) \<Rightarrow>
    test_case \<Rightarrow> string list \<Rightarrow> test_output result" where
  "RunCommand processor store execute test command =
     (let full_command = processor command in
      rmap (\<lambda>output. \<lparr>to_test = test, to_command = full_command, to_output = output,
                      store_unexpected_output = store\<rparr>) (execute full_command))"

definition TestCase_Run :: "(string list \<Rightarrow> string list) \<Rightarrow> bool \<Rightarrow> (string list \<Rightarrow> command_output result) \<Rightarrow>
    test_case \<Rightarrow> test_output result" where
  "TestCase_Run processor store execute test =
     rbind (tc_BeforeRun test) (\<lambda>_.
       case rbind (tc_GetCommand test) (RunCommand processor store execute test) of
         Inl e \<Rightarrow> Inl UnboundLocalError
       | Inr result \<Rightarrow> rmap (\<lambda>_. result) (tc_AfterRun test))"

subsection \<open>Standard output\<close>

text \<open>
  Python 2's \<open>print\<close> statement keeps a flag on the stream: after \<open>print x,\<close> the next \<open>print\<close> writes
  a space first, unless \<open>x\<close> ended in a white space character other than a space. \<open>write\<close> and the
  end of a line clear the flag.
\<close>

record pystdout =
  out_text :: string
  softspace :: bool

definition py_print_item :: "string \<Rightarrow> pystdout \<Rightarrow> pystdout" where
  "py_print_item s out = \<lparr>out_text = out_text out @ (if softspace out then '' '' else []) @ s,
     softspace = (s = [] \<or> \<not> chr_isspace (last s) \<or> last s = CHR '' '')\<rparr>"

definition py_print_nl :: "pystdout \<Rightarrow> pystdout" where
  "py_print_nl out = \<lparr>out_text = out_text out @ [CHR 0x0A], softspace = False\<rparr>"

definition py_print :: "string \<Rightarrow> pystdout \<Rightarrow> pystdout" where
  "py_print s out = py_print_nl (py_print_item s out)"

definition py_write :: "string \<Rightarrow> pystdout \<Rightarrow> pystdout" where
  "py_write s out = \<lparr>out_text = out_text out @ s, softspace = False\<rparr>"

text \<open>The formats \<open>%0wi\<close>, \<open>% wd\<close> and \<open>%wd\<close>.\<close>

definition pad :: "char \<Rightarrow> nat \<Rightarrow> string \<Rightarrow> string" where
  "pad c w s = replicate (w - length s) c @ s"

definition fmt_zero :: "nat \<Rightarrow> int \<Rightarrow> string" where
  "fmt_zero w i = (if i < 0 then CHR ''-'' # pad (CHR ''0'') (w - 1) (str_nat (nat (- i)))
                   else pad (CHR ''0'') w (str_nat (nat i)))"

definition fmt_space :: "nat \<Rightarrow> int \<Rightarrow> string" where
  "fmt_space w i = pad (CHR '' '') w ((if i < 0 then [] else '' '') @ str_int i)"

definition fmt_d :: "nat \<Rightarrow> int \<Rightarrow> string" where
  "fmt_d w i = pad (CHR '' '') w (str_int i)"

text \<open>\<open>int(x)\<close> cuts towards zero.\<close>

definition py_int :: "rat \<Rightarrow> int" where
  "py_int x = (if x < 0 then - \<lfloor>- x\<rfloor> else \<lfloor>x\<rfloor>)"

subsection \<open>Progress indicators\<close>

definition EscapeCommand :: "string list \<Rightarrow> string" where
  "EscapeCommand command =
     py_join '' '' (map (\<lambda>part. if CHR '' '' \<in> set part then [CHR 0x22] @ part @ [CHR 0x22] else part) command)"

datatype indicator = Verbose | Dots | Color | Mono

definition PROGRESS_INDICATORS :: "string \<Rightarrow> indicator result" where
  "PROGRESS_INDICATORS name =
     (if name = ''verbose'' then Inr Verbose else if name = ''dots'' then Inr Dots
      else if name = ''color'' then Inr Color else if name = ''mono'' then Inr Mono
      else Inl KeyError)"

record progress =
  cases :: "test_case list"
  queue :: "test_case list"
  succeeded :: nat
  remaining :: int
  total :: nat
  failed :: "test_output list"
  crashed :: nat
  terminate :: bool
  lock :: "nat option"
  last_status_length :: nat
  start_time :: rat
  stdout :: pystdout

definition ProgressIndicator :: "test_case list \<Rightarrow> rat \<Rightarrow> pystdout \<Rightarrow> progress" where
  "ProgressIndicator cs t out = \<lparr>cases = cs, queue = cs, succeeded = 0, remaining = int (length cs),
     total = length cs, failed = [], crashed = 0, terminate = False, lock = None,
     last_status_length = 0, start_time = t, stdout = out\<rparr>"

definition pprint :: "string \<Rightarrow> progress \<Rightarrow> progress" where
  "pprint s p = p\<lparr>stdout := py_print s (stdout p)\<rparr>"

definition PrintFailureHeader :: "test_case \<Rightarrow> progress \<Rightarrow> progress" where
  "PrintFailureHeader test p =
     pprint (''Path: '' @ py_join ''/'' (tc_path test))
       (pprint (''=== '' @ tc_label test @ '' '' @ (if tc_IsNegative test then ''[negative] '' else []) @ ''==='') p)"

text \<open>\<open>SimpleProgressIndicator\<close>, the class of \<open>Verbose\<close> and \<open>Dots\<close>.\<close>

definition Simple_Starting :: "progress \<Rightarrow> progress" where
  "Simple_Starting p = pprint (''Running '' @ str_nat (length (cases p)) @ '' tests'') p"

definition do_if :: "bool \<Rightarrow> ('a \<Rightarrow> 'a) \<Rightarrow> 'a \<Rightarrow> 'a" where
  "do_if b f x = (if b then f x else x)"

definition Simple_Done_one :: "bool \<Rightarrow> test_output \<Rightarrow> progress \<Rightarrow> progress" where
  "Simple_Done_one windows t p =
     (let p1 = PrintFailureHeader (to_test t) p;
          p2 = do_if (co_stderr (to_output t) \<noteq> [])
                 (\<lambda>p. pprint (py_strip (co_stderr (to_output t))) (pprint ''--- stderr ---'' p)) p1;
          p3 = do_if (co_stdout (to_output t) \<noteq> [])
                 (\<lambda>p. pprint (py_strip (co_stdout (to_output t))) (pprint ''--- stdout ---'' p)) p2;
          p4 = pprint (''Command: '' @ EscapeCommand (to_command t)) p3;
          p5 = do_if (HasCrashed windows t) (pprint ''--- CRASHED ---'') p4
      in do_if (HasTimedOut t) (pprint ''--- TIMEOUT ---'') p5)"

definition Simple_Done :: "bool \<Rightarrow> progress \<Rightarrow> progress" where
  "Simple_Done windows p =
     (let p0 = p\<lparr>stdout := py_print_nl (stdout p)\<rparr>;
          p1 = fold (Simple_Done_one windows) (failed p) p0
      in if length (failed p) = 0
         then pprint ''==='' (pprint ''=== All tests succeeded'' (pprint ''==='' p1))
         else let p2 = p1\<lparr>stdout := py_print_nl (stdout p1)\<rparr>;
                  p3 = pprint (''=== '' @ str_nat (length (failed p)) @ '' tests failed'') (pprint ''==='' p2);
                  p4 = do_if (crashed p > 0) (pprint (''=== '' @ str_nat (crashed p) @ '' tests CRASHED'')) p3
              in pprint ''==='' p4)"

definition Verbose_HasRun :: "bool \<Rightarrow> test_output \<Rightarrow> progress \<Rightarrow> progress" where
  "Verbose_HasRun windows t p =
     pprint (''Done running '' @ tc_label (to_test t) @ '': '' @
       (if fst (UnexpectedOutput windows t)
        then if HasCrashed windows t then ''CRASH'' else ''FAIL''
        else ''pass'')) p"

definition Dots_HasRun :: "bool \<Rightarrow> test_output \<Rightarrow> progress \<Rightarrow> progress" where
  "Dots_HasRun windows t p =
     (let n = succeeded p + length (failed p);
          write = (\<lambda>s p. p\<lparr>stdout := py_write s (stdout p)\<rparr>);
          p1 = do_if (n > 1 \<and> n mod 50 = 1) (write [CHR 0x0A]) p
      in write (if fst (UnexpectedOutput windows t)
                then if HasCrashed windows t then ''C'' else if HasTimedOut t then ''T'' else ''F''
                else ''.'') p1)"

text \<open>\<open>CompactProgressIndicator\<close>, the class of \<open>Color\<close> and \<open>Mono\<close>, with their templates.\<close>

definition ESC :: string where "ESC = [CHR 0x1B]"

definition status_line :: "indicator \<Rightarrow> int \<Rightarrow> int \<Rightarrow> int \<Rightarrow> int \<Rightarrow> int \<Rightarrow> string \<Rightarrow> string" where
  "status_line ind mins secs rem passed fails test =
     (let esc = (\<lambda>code s. if ind = Color then ESC @ ''['' @ code @ ''m'' @ s @ ESC @ ''[0m'' else s) in
      ''['' @ fmt_zero 2 mins @ '':'' @ fmt_zero 2 secs @ ''|'' @ esc ''34'' (''%'' @ fmt_space 4 rem) @ ''|'' @
      esc ''32'' (''+'' @ fmt_space 4 passed) @ ''|'' @ esc ''31'' (''-'' @ fmt_space 4 fails) @ '']: '' @ test)"

definition stdout_template :: "indicator \<Rightarrow> string \<Rightarrow> string" where
  "stdout_template ind s = (if ind = Color then ESC @ ''[1m'' @ s @ ESC @ ''[0m'' else s)"

definition stderr_template :: "indicator \<Rightarrow> string \<Rightarrow> string" where
  "stderr_template ind s = (if ind = Color then ESC @ ''[31m'' @ s @ ESC @ ''[0m'' else s)"

definition ClearLine :: "indicator \<Rightarrow> nat \<Rightarrow> progress \<Rightarrow> progress" where
  "ClearLine ind last_line_length p =
     p\<lparr>stdout := py_print_item
         (if ind = Color then ESC @ ''[1K'' @ [CHR 0x0D]
          else [CHR 0x0D] @ replicate last_line_length (CHR '' '') @ [CHR 0x0D]) (stdout p)\<rparr>"

definition Truncate :: "string \<Rightarrow> nat \<Rightarrow> string" where
  "Truncate str len =
     (if len \<noteq> 0 \<and> int (length str) > int len - 3
      then (if len \<ge> 3 then take (len - 3) str else take (length str - (3 - len)) str) @ ''...''
      else str)"

definition PrintProgress :: "indicator \<Rightarrow> rat \<Rightarrow> string \<Rightarrow> progress \<Rightarrow> progress result" where
  "PrintProgress ind t name p =
     (let p1 = ClearLine ind (last_status_length p) p;
          elapsed = t - start_time p1
      in if total p1 = 0 then Inl ZeroDivisionError
         else let status = Truncate (status_line ind (py_int elapsed div 60) (py_int elapsed mod 60)
                    (((int (total p1) - remaining p1) * 100) div int (total p1))
                    (int (succeeded p1)) (int (length (failed p1))) name) 78
              in Inr (p1\<lparr>last_status_length := length status, stdout := py_print_item status (stdout p1)\<rparr>))"

definition Compact_HasRun :: "indicator \<Rightarrow> bool \<Rightarrow> test_output \<Rightarrow> progress \<Rightarrow> progress" where
  "Compact_HasRun ind windows t p =
     (if fst (UnexpectedOutput windows t)
      then let p1 = PrintFailureHeader (to_test t) (ClearLine ind (last_status_length p) p);
               out = py_strip (co_stdout (to_output t));
               p2 = do_if (length out > 0) (pprint (stdout_template ind out)) p1;
               err = py_strip (co_stderr (to_output t));
               p3 = do_if (length err > 0) (pprint (stderr_template ind err)) p2;
               p4 = pprint (''Command: '' @ EscapeCommand (to_command t)) p3;
               p5 = do_if (HasCrashed windows t) (pprint ''--- CRASHED ---'') p4
           in do_if (HasTimedOut t) (pprint ''--- TIMEOUT ---'') p5
      else p)"

text \<open>The methods a run calls, by class.\<close>

fun Starting :: "indicator \<Rightarrow> progress \<Rightarrow> progress" where
  "Starting Verbose p = Simple_Starting p"
| "Starting Dots p = Simple_Starting p"
| "Starting _ p = p"

fun AboutToRun :: "indicator \<Rightarrow> rat \<Rightarrow> test_case \<Rightarrow> progress \<Rightarrow> progress result" where
  "AboutToRun Verbose t c p = Inr (pprint (''Starting '' @ tc_label c @ ''...'') p)"
| "AboutToRun Dots t c p = Inr p"
| "AboutToRun ind t c p = PrintProgress ind t (tc_label c) p"

fun HasRun :: "indicator \<Rightarrow> bool \<Rightarrow> test_output \<Rightarrow> progress \<Rightarrow> progress" where
  "HasRun Verbose windows t p = Verbose_HasRun windows t p"
| "HasRun Dots windows t p = Dots_HasRun windows t p"
| "HasRun ind windows t p = Compact_HasRun ind windows t p"

fun Done :: "indicator \<Rightarrow> bool \<Rightarrow> rat \<Rightarrow> progress \<Rightarrow> progress result" where
  "Done Verbose windows t p = Inr (Simple_Done windows p)"
| "Done Dots windows t p = Inr (Simple_Done windows p)"
| "Done ind windows t p = PrintProgress ind t ''Done'' p"

subsection \<open>The threads of a run\<close>

text \<open>
  \<open>ProgressIndicator.Run\<close> with \<open>tasks\<close> threads. Thread 0 is the caller; it spawns the others, runs
  \<open>RunSingle\<close> itself, then joins them. A program counter names the next action of a thread:
  \<open>Top\<close> the test of \<open>self.terminate\<close>, \<open>Get\<close> the call of \<open>get_nowait\<close>, \<open>Got\<close> and \<open>Wait\<close> the acquisition
  of the lock, \<open>About\<close> and \<open>Crit\<close> the two critical sections (each ends with the release), \<open>Running\<close>
  the call of \<open>case.Run()\<close>, \<open>Ran\<close> the test of \<open>self.terminate\<close> after it. Each action is atomic, and
  the threads interleave freely. \<open>history\<close> lists the outputs that were counted; it is read by no
  action. The time limit of \<open>join\<close>, 115 days, is taken as no limit.
\<close>

datatype pc =
    NotStarted
  | Spawning nat
  | Top
  | Get
  | Got test_case
  | About test_case
  | Running test_case
  | Ran test_case test_output
  | Wait test_case test_output
  | Crit test_case test_output
  | Joining nat
  | Returned
  | Raised py_error
  | Finished bool

fun thread_ended :: "pc \<Rightarrow> bool" where
  "thread_ended Returned = True"
| "thread_ended (Raised e) = True"
| "thread_ended _ = False"

record run_state =
  prog :: progress
  pcs :: "pc list"
  history :: "(test_case \<times> test_output) list"

text \<open>What an action takes from outside: the result of \<open>case.Run()\<close> and the time.\<close>

record step_input =
  si_result :: "test_output result"
  si_now :: rat

definition goto :: "nat \<Rightarrow> pc \<Rightarrow> run_state \<Rightarrow> run_state" where
  "goto t c s = s\<lparr>pcs := (pcs s)[t := c]\<rparr>"

definition leave :: "nat \<Rightarrow> run_state \<Rightarrow> run_state" where
  "leave t s = goto t (if t = 0 then Joining 1 else Returned) s"

text \<open>An exception ends a worker; in the caller it also sets \<open>terminate\<close>.\<close>

definition throw :: "nat \<Rightarrow> py_error \<Rightarrow> run_state \<Rightarrow> run_state" where
  "throw t e s = goto t (Raised e)
     (if t = 0 then s\<lparr>prog := (prog s)\<lparr>terminate := True\<rparr>\<rparr> else s)"

definition count_output :: "bool \<Rightarrow> test_output \<Rightarrow> progress \<Rightarrow> test_output \<times> progress" where
  "count_output windows output p =
     (let (unexpected, output') = UnexpectedOutput windows output;
          p1 = (if unexpected
                then (let p2 = p\<lparr>failed := failed p @ [output']\<rparr>
                      in if HasCrashed windows output' then p2\<lparr>crashed := crashed p2 + 1\<rparr> else p2)
                else p\<lparr>succeeded := succeeded p + 1\<rparr>)
      in (output', p1\<lparr>remaining := remaining p1 - 1\<rparr>))"

fun thread_step :: "indicator \<Rightarrow> bool \<Rightarrow> nat \<Rightarrow> pc \<Rightarrow> step_input \<Rightarrow> run_state \<Rightarrow> run_state option" where
  "thread_step ind win t NotStarted inp s = None"
| "thread_step ind win t (Spawning i) inp s =
     Some (if Suc i < length (pcs s) then goto t (Spawning (Suc i)) (goto (Suc i) Top s) else goto t Top s)"
| "thread_step ind win t Top inp s = Some (if terminate (prog s) then leave t s else goto t Get s)"
| "thread_step ind win t Get inp s =
     Some (case queue (prog s) of
             [] \<Rightarrow> leave t s
           | c # q \<Rightarrow> goto t (Got c) (s\<lparr>prog := (prog s)\<lparr>queue := q\<rparr>\<rparr>))"
| "thread_step ind win t (Got c) inp s =
     (case lock (prog s) of
        Some _ \<Rightarrow> None
      | None \<Rightarrow> Some (goto t (About c) (s\<lparr>prog := (prog s)\<lparr>lock := Some t\<rparr>\<rparr>)))"
| "thread_step ind win t (About c) inp s =
     Some (case AboutToRun ind (si_now inp) c (prog s) of
             Inl e \<Rightarrow> throw t e s
           | Inr p \<Rightarrow> goto t (Running c) (s\<lparr>prog := p\<lparr>lock := None\<rparr>\<rparr>))"
| "thread_step ind win t (Running c) inp s =
     Some (case si_result inp of
             Inr output \<Rightarrow> goto t (Ran c output) s
           | Inl e \<Rightarrow> if e = IOError then (if terminate (prog s) then leave t s else throw t AssertionError s)
                      else throw t e s)"
| "thread_step ind win t (Ran c output) inp s =
     Some (if terminate (prog s) then leave t s else goto t (Wait c output) s)"
| "thread_step ind win t (Wait c output) inp s =
     (case lock (prog s) of
        Some _ \<Rightarrow> None
      | None \<Rightarrow> Some (goto t (Crit c output) (s\<lparr>prog := (prog s)\<lparr>lock := Some t\<rparr>\<rparr>)))"
| "thread_step ind win t (Crit c output) inp s =
     (let (output', p) = count_output win output (prog s);
          p' = HasRun ind win output' p
      in Some (goto t Top (s\<lparr>prog := p'\<lparr>lock := None\<rparr>, history := history s @ [(c, output')]\<rparr>)))"
| "thread_step ind win t (Joining i) inp s =
     (if i < length (pcs s)
      then (if thread_ended (pcs s ! i)
            then Some (goto t (Joining (Suc i)) s) else None)
      else Some (case Done ind win (si_now inp) (prog s) of
                   Inl e \<Rightarrow> goto t (Raised e) s
                 | Inr p \<Rightarrow> goto t (Finished (failed p = [])) (s\<lparr>prog := p\<rparr>)))"
| "thread_step ind win t Returned inp s = None"
| "thread_step ind win t (Raised e) inp s = None"
| "thread_step ind win t (Finished b) inp s = None"

definition run_init :: "indicator \<Rightarrow> test_case list \<Rightarrow> nat \<Rightarrow> rat \<Rightarrow> pystdout \<Rightarrow> run_state" where
  "run_init ind cs tasks t out =
     \<lparr>prog = Starting ind (ProgressIndicator cs t out),
      pcs = Spawning 0 # replicate (tasks - 1) NotStarted, history = []\<rparr>"

text \<open>
  \<open>runs c r\<close> says which results \<open>case.Run()\<close> may have. A step of the run is an action of any of
  its threads.
\<close>

definition input_ok :: "(test_case \<Rightarrow> test_output result \<Rightarrow> bool) \<Rightarrow> pc \<Rightarrow> step_input \<Rightarrow> bool" where
  "input_ok runs c inp = (case c of Running tc \<Rightarrow> runs tc (si_result inp) | _ \<Rightarrow> True)"

inductive run_step :: "(test_case \<Rightarrow> test_output result \<Rightarrow> bool) \<Rightarrow> indicator \<Rightarrow> bool \<Rightarrow> run_state \<Rightarrow> run_state \<Rightarrow> bool"
  for runs ind win where
  act: "t < length (pcs s) \<Longrightarrow> input_ok runs (pcs s ! t) inp \<Longrightarrow>
    thread_step ind win t (pcs s ! t) inp s = Some s' \<Longrightarrow> run_step runs ind win s s'"

inductive run_reach :: "(test_case \<Rightarrow> test_output result \<Rightarrow> bool) \<Rightarrow> indicator \<Rightarrow> bool \<Rightarrow> run_state \<Rightarrow> run_state \<Rightarrow> bool"
  for runs ind win s0 where
  reach_refl: "run_reach runs ind win s0 s0"
| reach_step: "run_reach runs ind win s0 s \<Longrightarrow> run_step runs ind win s s' \<Longrightarrow> run_reach runs ind win s0 s'"

text \<open>A run along a given schedule of threads and inputs.\<close>

fun run_sched :: "indicator \<Rightarrow> bool \<Rightarrow> (nat \<times> step_input) list \<Rightarrow> run_state \<Rightarrow> run_state option" where
  "run_sched ind win [] s = Some s"
| "run_sched ind win ((t, inp) # sched) s =
     (if t < length (pcs s)
      then (case thread_step ind win t (pcs s ! t) inp s of
              None \<Rightarrow> None | Some s' \<Rightarrow> run_sched ind win sched s')
      else None)"

definition RunTestCases :: "test_case list \<Rightarrow> string \<Rightarrow> nat \<Rightarrow> rat \<Rightarrow> pystdout \<Rightarrow> (indicator \<times> run_state) result" where
  "RunTestCases cs progress_name tasks t out =
     rmap (\<lambda>ind. (ind, run_init ind cs tasks t out)) (PROGRESS_INDICATORS progress_name)"

section \<open>The verdict on an output\<close>

lemma DidFail_memo: "DidFail c (snd (DidFail c o1)) = DidFail c o1"
  by (auto simp: DidFail_def Let_def split: option.splits)

lemma HasFailed_memo: "HasFailed (snd (HasFailed t)) = HasFailed t"
  using DidFail_memo[of "to_test t" "to_output t"]
  by (auto simp: HasFailed_def Let_def case_prod_unfold)

lemma HasFailed_output:
  "exit_code (to_output (snd (HasFailed t))) = exit_code (to_output t)"
  "timed_out (to_output (snd (HasFailed t))) = timed_out (to_output t)"
  "to_test (snd (HasFailed t)) = to_test t"
  by (auto simp: HasFailed_def DidFail_def Let_def case_prod_unfold split: option.splits)

lemma HasCrashed_HasFailed [simp]: "HasCrashed win (snd (HasFailed t)) = HasCrashed win t"
  by (simp add: HasCrashed_def HasFailed_output)

lemma UnexpectedOutput_memo: "UnexpectedOutput win (snd (UnexpectedOutput win t)) = UnexpectedOutput win t"
  by (auto simp: UnexpectedOutput_def Let_def case_prod_unfold HasTimedOut_def HasFailed_output HasFailed_memo)

lemma HasCrashed_UnexpectedOutput [simp]:
  "HasCrashed win (snd (UnexpectedOutput win t)) = HasCrashed win t"
  by (auto simp: UnexpectedOutput_def Let_def case_prod_unfold)

section \<open>Indicators change only what they print\<close>

definition core :: "progress \<Rightarrow> test_case list \<times> test_case list \<times> nat \<times> int \<times> nat \<times> test_output list \<times> nat \<times> bool \<times> nat option" where
  "core p = (cases p, queue p, succeeded p, remaining p, total p, failed p, crashed p, terminate p, lock p)"

lemma core_simps [simp]:
  "core (p\<lparr>stdout := x\<rparr>) = core p" "core (p\<lparr>last_status_length := n\<rparr>) = core p"
  by (simp_all add: core_def)

lemma core_pprint [simp]: "core (pprint s p) = core p"
  by (simp add: pprint_def)

lemma core_do_if: "(\<And>q. core (f q) = core q) \<Longrightarrow> core (do_if b f p) = core p"
  by (simp add: do_if_def)

lemma core_ClearLine [simp]: "core (ClearLine ind n p) = core p"
  by (simp add: ClearLine_def)

lemma core_PrintFailureHeader [simp]: "core (PrintFailureHeader c p) = core p"
  by (simp add: PrintFailureHeader_def)

lemmas core_print = core_do_if core_pprint core_ClearLine core_PrintFailureHeader core_simps

lemma core_Simple_Done_one [simp]: "core (Simple_Done_one win t p) = core p"
  by (simp add: Simple_Done_one_def Let_def core_print)

lemma core_fold: "(\<And>x q. core (f x q) = core q) \<Longrightarrow> core (fold f xs p) = core p"
  by (induction xs arbitrary: p) auto

lemma core_Simple_Done [simp]: "core (Simple_Done win p) = core p"
  by (simp add: Simple_Done_def Let_def core_print core_fold)

lemma core_Starting [simp]: "core (Starting ind p) = core p"
  by (cases ind) (simp_all add: Simple_Starting_def)

lemma core_PrintProgress: "PrintProgress ind t n p = Inr p' \<Longrightarrow> core p' = core p"
  by (auto simp: PrintProgress_def Let_def split: if_splits)

lemma core_AboutToRun: "AboutToRun ind t c p = Inr p' \<Longrightarrow> core p' = core p"
  by (cases ind) (auto dest: core_PrintProgress)

lemma core_HasRun [simp]: "core (HasRun ind win t p) = core p"
  by (cases ind) (simp_all add: Verbose_HasRun_def Dots_HasRun_def Compact_HasRun_def Let_def core_print)

lemma core_Done: "Done ind win t p = Inr p' \<Longrightarrow> core p' = core p"
  by (cases ind) (auto dest: core_PrintProgress)

lemma total_ClearLine [simp]: "total (ClearLine ind n p) = total p"
  by (simp add: ClearLine_def)

lemma PrintProgress_total: "total p \<noteq> 0 \<Longrightarrow> \<exists>p'. PrintProgress ind t n p = Inr p'"
  by (simp add: PrintProgress_def Let_def)

lemma AboutToRun_total: "total p \<noteq> 0 \<Longrightarrow> \<exists>p'. AboutToRun ind t c p = Inr p'"
  by (cases ind) (simp_all add: PrintProgress_total)

lemma Done_total: "total p \<noteq> 0 \<Longrightarrow> \<exists>p'. Done ind win t p = Inr p'"
  by (cases ind) (simp_all add: PrintProgress_total)

lemma core_count_output:
  "count_output win t p = (t', p') \<Longrightarrow>
     t' = snd (UnexpectedOutput win t) \<and> queue p' = queue p \<and> cases p' = cases p \<and> total p' = total p \<and>
     terminate p' = terminate p \<and> lock p' = lock p \<and> remaining p' = remaining p - 1 \<and>
     (if fst (UnexpectedOutput win t)
      then failed p' = failed p @ [t'] \<and> succeeded p' = succeeded p \<and>
           crashed p' = crashed p + (if HasCrashed win t then 1 else 0)
      else failed p' = failed p \<and> succeeded p' = succeeded p + 1 \<and> crashed p' = crashed p)"
  by (auto simp: count_output_def Let_def case_prod_unfold split: if_splits)

section \<open>Invariants of a run\<close>

fun in_flight :: "pc \<Rightarrow> test_case multiset" where
  "in_flight (Got c) = {#c#}"
| "in_flight (About c) = {#c#}"
| "in_flight (Running c) = {#c#}"
| "in_flight (Ran c t) = {#c#}"
| "in_flight (Wait c t) = {#c#}"
| "in_flight (Crit c t) = {#c#}"
| "in_flight _ = {#}"

definition flight :: "run_state \<Rightarrow> test_case multiset" where
  "flight s = sum_list (map in_flight (pcs s))"

lemma sum_list_map_update:
  fixes f :: "'a \<Rightarrow> 'b::comm_monoid_add"
  shows "t < length xs \<Longrightarrow> sum_list (map f (xs[t := c])) + f (xs ! t) = sum_list (map f xs) + f c"
proof (induction xs arbitrary: t)
  case (Cons x xs)
  then show ?case by (cases t) (simp_all add: add.assoc, simp add: ac_simps)
qed simp

lemma flight_goto:
  "t < length (pcs s) \<Longrightarrow> flight (goto t c s) + in_flight (pcs s ! t) = flight s + in_flight c"
  using sum_list_map_update[of t "pcs s" in_flight c] by (simp add: flight_def goto_def)

lemma goto_simps [simp]:
  "prog (goto t c s) = prog s" "history (goto t c s) = history s"
  "pcs (goto t c s) = (pcs s)[t := c]" "prog (leave t s) = prog s" "history (leave t s) = history s"
  "history (throw t e s) = history s" "length (pcs (leave t s)) = length (pcs s)"
  "length (pcs (throw t e s)) = length (pcs s)" "queue (prog (throw t e s)) = queue (prog s)"
  by (simp_all add: goto_def leave_def throw_def)

lemma flight_prog [simp]: "flight (s\<lparr>prog := p\<rparr>) = flight s" "flight (s\<lparr>history := h\<rparr>) = flight s"
  by (simp_all add: flight_def)

text \<open>The cases are in the queue, in a thread, counted, or lost.\<close>

definition accounted :: "run_state \<Rightarrow> test_case multiset" where
  "accounted s = mset (queue (prog s)) + flight s + mset (map fst (history s))"

lemma accounted_goto:
  "t < length (pcs s) \<Longrightarrow> accounted (goto t c s) + in_flight (pcs s ! t) = accounted s + in_flight c"
  using flight_goto[of t s c] by (simp add: accounted_def ac_simps)

lemma accounted_leave:
  assumes "t < length (pcs s)" shows "accounted (leave t s) + in_flight (pcs s ! t) = accounted s"
  using accounted_goto[OF assms, of "if t = 0 then Joining 1 else Returned"] by (auto simp: leave_def)

lemma accounted_throw:
  assumes "t < length (pcs s)" shows "accounted (throw t e s) + in_flight (pcs s ! t) = accounted s"
  using accounted_goto[of t "s\<lparr>prog := (prog s)\<lparr>terminate := True\<rparr>\<rparr>" "Raised e"]
    accounted_goto[of t s "Raised e"] assms
  by (auto simp: throw_def accounted_def)

lemma core_eq:
  "core p = core q \<longleftrightarrow> cases p = cases q \<and> queue p = queue q \<and> succeeded p = succeeded q \<and>
    remaining p = remaining q \<and> total p = total q \<and> failed p = failed q \<and> crashed p = crashed q \<and>
    terminate p = terminate q \<and> lock p = lock q"
  by (simp add: core_def)

lemmas HasRun_fields [simp] = core_HasRun[unfolded core_eq]
lemmas Starting_fields [simp] = core_Starting[unfolded core_eq]

text \<open>What a step does to the accounted cases: nothing, or it loses the case of the thread.\<close>

lemma accounted_step:
  assumes t: "t < length (pcs s)" and st: "thread_step ind win t (pcs s ! t) inp s = Some s'"
    and spawn: "\<And>i. pcs s ! t = Spawning i \<Longrightarrow> t = 0 \<and> (Suc i < length (pcs s) \<longrightarrow> pcs s ! Suc i = NotStarted)"
  shows "accounted s' = accounted s \<or>
    accounted s' + in_flight (pcs s ! t) = accounted s \<and>
      (terminate (prog s) \<or> (\<exists>c. pcs s ! t = About c \<or> pcs s ! t = Running c \<and> (\<exists>e. si_result inp = Inl e)))"
proof (cases "pcs s ! t")
  case (Spawning i)
  then show ?thesis using st spawn[OF Spawning] t accounted_goto[of "Suc i" s Top]
      accounted_goto[of t "goto (Suc i) Top s" "Spawning (Suc i)"] accounted_goto[of t s Top]
    by (auto split: if_splits)
next
  case Top
  then show ?thesis using st t accounted_goto[of t s Get] accounted_leave[of t s]
    by (auto split: if_splits)
next
  case Get
  show ?thesis
  proof (cases "queue (prog s)")
    case (Cons c q)
    let ?s = "s\<lparr>prog := (prog s)\<lparr>queue := q\<rparr>\<rparr>"
    have "accounted ?s + {#c#} = accounted s" using Cons by (simp add: accounted_def)
    then show ?thesis using st Get t Cons accounted_goto[of t ?s "Got c"] by simp
  qed (use st Get t accounted_leave[of t s] in auto)
next
  case (Got c)
  let ?s = "s\<lparr>prog := (prog s)\<lparr>lock := Some t\<rparr>\<rparr>"
  have "accounted ?s = accounted s" by (simp add: accounted_def)
  then show ?thesis using st Got t accounted_goto[of t ?s "About c"] by (auto split: option.splits)
next
  case (About c)
  show ?thesis
  proof (cases "AboutToRun ind (si_now inp) c (prog s)")
    case (Inl e)
    then show ?thesis using st About t accounted_throw[of t s e] by auto
  next
    case (Inr p)
    let ?s = "s\<lparr>prog := p\<lparr>lock := None\<rparr>\<rparr>"
    have "accounted ?s = accounted s" using core_AboutToRun[OF Inr] by (simp add: accounted_def core_eq)
    then show ?thesis using st About Inr t accounted_goto[of t ?s "Running c"] by auto
  qed
next
  case (Running c)
  show ?thesis
  proof (cases "si_result inp")
    case (Inl e)
    have "s' = leave t s \<or> (\<exists>e. s' = throw t e s)" using st Running Inl by (auto split: if_splits)
    then have "accounted s' + in_flight (pcs s ! t) = accounted s"
      using accounted_leave[OF t] accounted_throw[OF t] by blast
    then show ?thesis using Running Inl by blast
  next
    case (Inr out)
    then show ?thesis using st Running t accounted_goto[of t s "Ran c out"] by simp
  qed
next
  case (Ran c out)
  then show ?thesis using st t accounted_leave[of t s] accounted_goto[of t s "Wait c out"]
    by (auto split: if_splits)
next
  case (Wait c out)
  let ?s = "s\<lparr>prog := (prog s)\<lparr>lock := Some t\<rparr>\<rparr>"
  have "accounted ?s = accounted s" by (simp add: accounted_def)
  then show ?thesis using st Wait t accounted_goto[of t ?s "Crit c out"] by (auto split: option.splits)
next
  case (Crit c out)
  obtain out' p where co: "count_output win out (prog s) = (out', p)" by (cases "count_output win out (prog s)")
  let ?s = "s\<lparr>prog := (HasRun ind win out' p)\<lparr>lock := None\<rparr>, history := history s @ [(c, out')]\<rparr>"
  have "queue (HasRun ind win out' p) = queue (prog s)"
    using core_count_output[OF co] by simp
  then have "accounted ?s = accounted s + {#c#}" by (simp add: accounted_def)
  then show ?thesis using st Crit t co accounted_goto[of t ?s Top] by simp
next
  case (Joining i)
  show ?thesis
  proof (cases "i < length (pcs s)")
    case True
    then show ?thesis using st Joining t accounted_goto[of t s "Joining (Suc i)"] by (auto split: if_splits)
  next
    case out: False
    show ?thesis
    proof (cases "Done ind win (si_now inp) (prog s)")
      case (Inl e)
      then show ?thesis using st Joining out t accounted_goto[of t s "Raised e"] by simp
    next
      case (Inr p)
      have "accounted (s\<lparr>prog := p\<rparr>) = accounted s" using core_Done[OF Inr] by (simp add: accounted_def core_eq)
      then show ?thesis using st Joining out Inr t accounted_goto[of t "s\<lparr>prog := p\<rparr>" "Finished (failed p = [])"]
        by auto
    qed
  qed
qed (use st in simp_all)

text \<open>The lock is held exactly by the thread that is in a critical section.\<close>

fun in_crit :: "pc \<Rightarrow> bool" where
  "in_crit (About c) = True"
| "in_crit (Crit c out) = True"
| "in_crit _ = False"

definition lock_ok :: "run_state \<Rightarrow> bool" where
  "lock_ok s \<longleftrightarrow> (\<forall>t. lock (prog s) = Some t \<longleftrightarrow> t < length (pcs s) \<and> in_crit (pcs s ! t))"

text \<open>
  The shape of the program counters: a worker waits to be spawned, runs or has ended; the caller
  has spawned the workers below its counter, and joined those below its other counter.
\<close>

fun worker_pc :: "pc \<Rightarrow> bool" where
  "worker_pc (Spawning i) = False"
| "worker_pc (Joining i) = False"
| "worker_pc (Finished b) = False"
| "worker_pc _ = True"

definition spawned :: "pc \<Rightarrow> nat \<Rightarrow> bool" where
  "spawned c t = (case c of Spawning i \<Rightarrow> t \<le> i | _ \<Rightarrow> True)"

definition joined :: "pc \<Rightarrow> nat \<Rightarrow> bool" where
  "joined c t = (case c of Joining i \<Rightarrow> t < i | Finished b \<Rightarrow> True | _ \<Rightarrow> False)"

definition threads_ok :: "run_state \<Rightarrow> bool" where
  "threads_ok s \<longleftrightarrow> pcs s \<noteq> [] \<and> pcs s ! 0 \<noteq> NotStarted \<and> pcs s ! 0 \<noteq> Returned \<and> pcs s ! 0 \<noteq> Joining 0 \<and>
     (\<forall>t. 0 < t \<longrightarrow> t < length (pcs s) \<longrightarrow> worker_pc (pcs s ! t) \<and>
        (pcs s ! t = NotStarted \<longleftrightarrow> \<not> spawned (pcs s ! 0) t) \<and>
        (joined (pcs s ! 0) t \<longrightarrow> thread_ended (pcs s ! t)))"

definition left_pc :: "nat \<Rightarrow> pc" where
  "left_pc t = (if t = 0 then Joining 1 else Returned)"

lemma pcs_leave [simp]: "pcs (leave t s) = (pcs s)[t := left_pc t]"
  by (simp add: leave_def left_pc_def)

lemma pcs_throw [simp]: "pcs (throw t e s) = (pcs s)[t := Raised e]"
  by (simp add: throw_def)

lemma lock_throw [simp]: "lock (prog (throw t e s)) = lock (prog s)"
  by (simp add: throw_def)

fun can_leave :: "pc \<Rightarrow> bool" where
  "can_leave Top = True"
| "can_leave Get = True"
| "can_leave (Running c) = True"
| "can_leave (Ran c out) = True"
| "can_leave _ = False"

lemma can_leaveE:
  "can_leave c \<Longrightarrow> c \<noteq> NotStarted \<and> \<not> thread_ended c \<and> spawned c t \<and> \<not> joined c t"
  by (cases c) (simp_all add: spawned_def joined_def)

text \<open>The steps by their effect on the program counters.\<close>

inductive pc_step :: "run_state \<Rightarrow> nat \<Rightarrow> pc \<Rightarrow> pc list \<Rightarrow> bool" for s t where
  p_spawn: "Suc i < length (pcs s) \<Longrightarrow> pc_step s t (Spawning i) ((pcs s)[Suc i := Top, t := Spawning (Suc i)])"
| p_spawned: "\<not> Suc i < length (pcs s) \<Longrightarrow> pc_step s t (Spawning i) ((pcs s)[t := Top])"
| p_leave: "can_leave c \<Longrightarrow> pc_step s t c ((pcs s)[t := left_pc t])"
| p_top: "pc_step s t Top ((pcs s)[t := Get])"
| p_get: "pc_step s t Get ((pcs s)[t := Got tc])"
| p_about: "pc_step s t (Got tc) ((pcs s)[t := About tc])"
| p_run: "pc_step s t (About tc) ((pcs s)[t := Running tc])"
| p_raise: "c = About tc \<or> c = Running tc \<Longrightarrow> pc_step s t c ((pcs s)[t := Raised e])"
| p_ran: "pc_step s t (Running tc) ((pcs s)[t := Ran tc out])"
| p_wait: "pc_step s t (Ran tc out) ((pcs s)[t := Wait tc out])"
| p_crit: "pc_step s t (Wait tc out) ((pcs s)[t := Crit tc out])"
| p_loop: "pc_step s t (Crit tc out) ((pcs s)[t := Top])"
| p_join: "i < length (pcs s) \<Longrightarrow> thread_ended (pcs s ! i) \<Longrightarrow>
    pc_step s t (Joining i) ((pcs s)[t := Joining (Suc i)])"
| p_fail: "\<not> i < length (pcs s) \<Longrightarrow> pc_step s t (Joining i) ((pcs s)[t := Raised e])"
| p_done: "\<not> i < length (pcs s) \<Longrightarrow> pc_step s t (Joining i) ((pcs s)[t := Finished b])"

lemma thread_step_pcs:
  "thread_step ind win t c inp s = Some s' \<Longrightarrow> pc_step s t c (pcs s')"
  by (cases c)
    (auto simp: Let_def case_prod_unfold p_leave intro: pc_step.intros split: if_splits option.splits list.splits sum.splits)

lemma threads_ok_update:
  assumes ok: "threads_ok s" and t: "t < length (pcs s)" and p: "pcs s' = (pcs s)[t := c']"
    and worker: "t \<noteq> 0 \<Longrightarrow> worker_pc c' \<and> c' \<noteq> NotStarted \<and> pcs s ! t \<noteq> NotStarted \<and> \<not> thread_ended (pcs s ! t)"
    and main: "t = 0 \<Longrightarrow> c' \<notin> {NotStarted, Returned, Joining 0} \<and>
      (\<forall>u. 0 < u \<longrightarrow> u < length (pcs s) \<longrightarrow> spawned c' u = spawned (pcs s ! 0) u \<and>
        (joined c' u \<longrightarrow> joined (pcs s ! 0) u \<or> thread_ended (pcs s ! u)))"
  shows "threads_ok s'"
proof (cases "t = 0")
  case True
  then have n: "pcs s' ! 0 = c'" "0 < u \<Longrightarrow> pcs s' ! u = pcs s ! u" for u
    using t p by simp_all
  have "worker_pc (pcs s' ! u) \<and> (pcs s' ! u = NotStarted \<longleftrightarrow> \<not> spawned (pcs s' ! 0) u) \<and>
      (joined (pcs s' ! 0) u \<longrightarrow> thread_ended (pcs s' ! u))" if u: "0 < u" "u < length (pcs s')" for u
  proof -
    have "u < length (pcs s)" using u p by simp
    with ok main[OF True] u(1) show ?thesis unfolding threads_ok_def n(1) n(2)[OF u(1)] by blast
  qed
  moreover have "pcs s' \<noteq> []" using p t by auto
  ultimately show ?thesis using main[OF True] by (simp add: threads_ok_def n(1))
next
  case False
  then have n: "pcs s' ! 0 = pcs s ! 0" "pcs s' ! t = c'" "u \<noteq> t \<Longrightarrow> pcs s' ! u = pcs s ! u" for u
    using t p by simp_all
  have "worker_pc (pcs s' ! u) \<and> (pcs s' ! u = NotStarted \<longleftrightarrow> \<not> spawned (pcs s' ! 0) u) \<and>
      (joined (pcs s' ! 0) u \<longrightarrow> thread_ended (pcs s' ! u))" if u: "0 < u" "u < length (pcs s')" for u
  proof (cases "u = t")
    case True
    then show ?thesis using ok worker[OF False] t u(1) unfolding threads_ok_def True n by blast
  next
    case ne: False
    have "u < length (pcs s)" using u p by simp
    then show ?thesis using ok u(1) unfolding threads_ok_def n(1) n(3)[OF ne] by blast
  qed
  moreover have "pcs s' \<noteq> []" using p t by auto
  ultimately show ?thesis using ok by (simp add: threads_ok_def n(1))
qed

lemma spawned_simps [simp]:
  "spawned (Spawning i) t = (t \<le> i)" "spawned Top t" "spawned Get t" "spawned (Got c) t" "spawned (About c) t"
  "spawned (Running c) t" "spawned (Ran c out) t" "spawned (Wait c out) t" "spawned (Crit c out) t"
  "spawned (Joining i) t" "spawned (Raised e) t" "spawned (Finished b) t"
  by (simp_all add: spawned_def)

lemma joined_simps [simp]:
  "\<not> joined (Spawning i) t" "\<not> joined Top t" "\<not> joined Get t" "\<not> joined (Got c) t" "\<not> joined (About c) t"
  "\<not> joined (Running c) t" "\<not> joined (Ran c out) t" "\<not> joined (Wait c out) t" "\<not> joined (Crit c out) t"
  "joined (Joining i) t = (t < i)" "\<not> joined (Raised e) t" "joined (Finished b) t"
  by (simp_all add: joined_def)

lemma main_only:
  assumes "threads_ok s" and "t < length (pcs s)" and "\<not> worker_pc (pcs s ! t)"
  shows "t = 0"
  using assms by (cases t) (auto simp: threads_ok_def)

lemma threads_ok_step:
  assumes ok: "threads_ok s" and t: "t < length (pcs s)" and st: "pc_step s t (pcs s ! t) (pcs s')"
  shows "threads_ok s'"
  using st
proof cases
  case (p_spawn i)
  have t0: "t = 0" using main_only[OF ok t] p_spawn by simp
  have n: "pcs s' ! 0 = Spawning (Suc i)" "pcs s' ! Suc i = Top"
    "0 < u \<Longrightarrow> u \<noteq> Suc i \<Longrightarrow> pcs s' ! u = pcs s ! u" for u
    using p_spawn t0 t by (simp_all add: nth_list_update)
  have "worker_pc (pcs s' ! u) \<and> (pcs s' ! u = NotStarted \<longleftrightarrow> \<not> u \<le> Suc i)"
    if u: "0 < u" "u < length (pcs s')" for u
  proof (cases "u = Suc i")
    case False
    have "worker_pc (pcs s ! u) \<and> (pcs s ! u = NotStarted \<longleftrightarrow> \<not> u \<le> i)"
      using ok u p_spawn t0 by (simp add: threads_ok_def)
    then show ?thesis using False u(1) by (simp add: n le_Suc_eq)
  qed (simp add: n)
  moreover have "pcs s' \<noteq> []" using p_spawn t by auto
  ultimately show ?thesis by (simp add: threads_ok_def n(1))
next
  case (p_spawned i)
  have t0: "t = 0" using main_only[OF ok t] p_spawned by simp
  show ?thesis by (rule threads_ok_update[OF ok t p_spawned(2)]) (use p_spawned t0 in auto)
next
  case p_leave
  show ?thesis
    by (rule threads_ok_update[OF ok t p_leave(1)]) (use can_leaveE[OF p_leave(2)] in \<open>auto simp: left_pc_def\<close>)
next
  case (p_join i)
  have t0: "t = 0" using main_only[OF ok t] p_join by simp
  show ?thesis
    by (rule threads_ok_update[OF ok t p_join(2)]) (use p_join t0 in \<open>auto simp: less_Suc_eq\<close>)
next
  case (p_fail i e)
  have t0: "t = 0" using main_only[OF ok t] p_fail by simp
  show ?thesis by (rule threads_ok_update[OF ok t p_fail(2)]) (use p_fail t0 in auto)
next
  case (p_done i b)
  have t0: "t = 0" using main_only[OF ok t] p_done by simp
  show ?thesis by (rule threads_ok_update[OF ok t p_done(2)]) (use p_done t0 in auto)
next
  case (p_raise tc e)
  show ?thesis by (rule threads_ok_update[OF ok t p_raise(1)]) (use p_raise in auto)
qed (rule threads_ok_update[OF ok t], assumption, auto)+

lemma step_length: "thread_step ind win t c inp s = Some s' \<Longrightarrow> length (pcs s') = length (pcs s)"
  by (cases c)
    (auto simp: Let_def case_prod_unfold split: if_splits option.splits list.splits sum.splits)

lemma lock_ok_set:
  assumes "lock_ok s" and "t < length (pcs s)" and "pcs s' = (pcs s)[t := c']"
    and "lock (prog s') = (if in_crit c' then Some t else if in_crit (pcs s ! t) then None else lock (prog s))"
    and "in_crit c' \<Longrightarrow> lock (prog s) = None \<or> in_crit (pcs s ! t)"
  shows "lock_ok s'"
  unfolding lock_ok_def
proof
  fix u
  have old: "lock (prog s) = Some u \<longleftrightarrow> u < length (pcs s) \<and> in_crit (pcs s ! u)"
    "lock (prog s) = Some t \<longleftrightarrow> in_crit (pcs s ! t)"
    using assms(1,2) by (auto simp: lock_ok_def)
  have only: "u = t" if "in_crit (pcs s ! t)" "u < length (pcs s)" "in_crit (pcs s ! u)"
    using assms(1,2) that unfolding lock_ok_def by (metis option.inject)
  show "lock (prog s') = Some u \<longleftrightarrow> u < length (pcs s') \<and> in_crit (pcs s' ! u)"
    using assms(2-) old only by (cases "u = t") auto
qed

lemma lock_ok_keep:
  assumes "lock_ok s" and "t < length (pcs s)" and "\<not> in_crit (pcs s ! t)"
    and "pcs s' = (pcs s)[t := pcs s' ! t] \<and> lock (prog s') = lock (prog s) \<and> \<not> in_crit (pcs s' ! t)"
  shows "lock_ok s'"
  by (rule lock_ok_set[OF assms(1,2), of s' "pcs s' ! t"]) (use assms(3,4) in simp_all)

lemma in_crit_left_pc [simp]: "\<not> in_crit (left_pc t)"
  by (simp add: left_pc_def)

lemma lock_ok_step:
  assumes ok: "threads_ok s" "lock_ok s" and t: "t < length (pcs s)"
    and st: "thread_step ind win t (pcs s ! t) inp s = Some s'" and tot: "total (prog s) \<noteq> 0"
  shows "lock_ok s'"
proof (cases "pcs s ! t")
  case (Spawning i)
  have t0: "t = 0" using main_only[OF ok(1) t] Spawning by simp
  have sp: "spawned (pcs s ! 0) (Suc i) = False" using Spawning t0 by simp
  let ?s = "goto (Suc i) Top s"
  have "lock_ok ?s" if "Suc i < length (pcs s)"
  proof (rule lock_ok_set[OF ok(2) that, of _ Top])
    have "pcs s ! Suc i = NotStarted" using ok(1) that sp by (auto simp: threads_ok_def)
    then show "lock (prog ?s) = (if in_crit Top then Some (Suc i) else if in_crit (pcs s ! Suc i) then None else lock (prog s))"
      by simp
  qed simp_all
  then have "lock_ok (goto t (Spawning (Suc i)) ?s)" if "Suc i < length (pcs s)"
    by (rule lock_ok_set[of ?s t _ "Spawning (Suc i)"]) (use that Spawning t t0 in simp_all)
  moreover have "lock_ok (goto t Top s)"
    by (rule lock_ok_set[OF ok(2) t, of _ Top]) (use Spawning in simp_all)
  ultimately show ?thesis using st Spawning by (auto split: if_splits)
next
  case (About c)
  obtain p where p: "AboutToRun ind (si_now inp) c (prog s) = Inr p"
    using AboutToRun_total[OF tot] by blast
  show ?thesis
    by (rule lock_ok_set[OF ok(2) t, of _ "Running c"]) (use st About p in auto)
next
  case (Running c)
  have "pcs s' = (pcs s)[t := pcs s' ! t] \<and> lock (prog s') = lock (prog s) \<and> \<not> in_crit (pcs s' ! t)"
    using st t Running by (auto split: sum.splits if_splits)
  then show ?thesis by (intro lock_ok_keep[OF ok(2) t]) (use Running in simp_all)
next
  case (Joining i)
  have "pcs s' = (pcs s)[t := pcs s' ! t] \<and> lock (prog s') = lock (prog s) \<and> \<not> in_crit (pcs s' ! t)"
    using st t Joining by (auto simp: core_eq dest!: core_Done split: sum.splits if_splits)
  then show ?thesis by (intro lock_ok_keep[OF ok(2) t]) (use Joining in simp_all)
next
  case (Crit c out)
  show ?thesis
    by (rule lock_ok_set[OF ok(2) t, of _ Top]) (use st Crit in \<open>auto simp: Let_def case_prod_unfold\<close>)
next
  case (Got c)
  show ?thesis
    by (rule lock_ok_set[OF ok(2) t, of _ "About c"]) (use st Got in \<open>auto split: option.splits\<close>)
next
  case (Wait c out)
  show ?thesis
    by (rule lock_ok_set[OF ok(2) t, of _ "Crit c out"]) (use st Wait in \<open>auto split: option.splits\<close>)
next
  case Top
  have "pcs s' = (pcs s)[t := pcs s' ! t] \<and> lock (prog s') = lock (prog s) \<and> \<not> in_crit (pcs s' ! t)"
    using st t Top by (auto split: if_splits)
  then show ?thesis by (intro lock_ok_keep[OF ok(2) t]) (use Top in simp_all)
next
  case Get
  have "pcs s' = (pcs s)[t := pcs s' ! t] \<and> lock (prog s') = lock (prog s) \<and> \<not> in_crit (pcs s' ! t)"
    using st t Get by (auto split: list.splits)
  then show ?thesis by (intro lock_ok_keep[OF ok(2) t]) (use Get in simp_all)
next
  case (Ran c out)
  have "pcs s' = (pcs s)[t := pcs s' ! t] \<and> lock (prog s') = lock (prog s) \<and> \<not> in_crit (pcs s' ! t)"
    using st t Ran by (auto split: if_splits)
  then show ?thesis by (intro lock_ok_keep[OF ok(2) t]) (use Ran in simp_all)
qed (use st in simp_all)

text \<open>The counters agree with the outputs counted so far.\<close>

fun pc_runs :: "(test_case \<Rightarrow> test_output result \<Rightarrow> bool) \<Rightarrow> pc \<Rightarrow> bool" where
  "pc_runs runs (Ran c out) = runs c (Inr out)"
| "pc_runs runs (Wait c out) = runs c (Inr out)"
| "pc_runs runs (Crit c out) = runs c (Inr out)"
| "pc_runs runs _ = True"

definition counted :: "bool \<Rightarrow> test_case list \<Rightarrow> run_state \<Rightarrow> bool" where
  "counted win cs s \<longleftrightarrow>
     total (prog s) = length cs \<and> remaining (prog s) = int (length cs) - int (length (history s)) \<and>
     failed (prog s) = filter (\<lambda>out. fst (UnexpectedOutput win out)) (map snd (history s)) \<and>
     succeeded (prog s) = length (filter (\<lambda>out. \<not> fst (UnexpectedOutput win out)) (map snd (history s))) \<and>
     crashed (prog s) = length (filter (HasCrashed win) (failed (prog s)))"

definition tally :: "run_state \<Rightarrow> nat \<times> int \<times> test_output list \<times> nat \<times> nat \<times> (test_case \<times> test_output) list" where
  "tally s = (total (prog s), remaining (prog s), failed (prog s), succeeded (prog s), crashed (prog s), history s)"

lemma tally_goto [simp]:
  "tally (goto t c s) = tally s" "tally (leave t s) = tally s" "tally (throw t e s) = tally s"
  by (simp_all add: tally_def throw_def)

lemma tally_core: "core p = core (prog s) \<Longrightarrow> tally (s\<lparr>prog := p\<lparr>lock := l\<rparr>\<rparr>) = tally s"
  "core p = core (prog s) \<Longrightarrow> tally (s\<lparr>prog := p\<rparr>) = tally s"
  "tally (s\<lparr>prog := (prog s)\<lparr>queue := q\<rparr>\<rparr>) = tally s"
  by (simp_all add: tally_def core_eq)

lemma tally_step:
  assumes st: "thread_step ind win t c inp s = Some s'" and nc: "\<And>tc out. c \<noteq> Crit tc out"
  shows "tally s' = tally s"
proof (cases c)
  case (About tc)
  with st show ?thesis by (auto simp: tally_core dest!: core_AboutToRun split: sum.splits)
next
  case (Joining i)
  with st show ?thesis by (auto simp: tally_core dest!: core_Done split: sum.splits if_splits)
qed (use st nc in \<open>auto simp: tally_core split: if_splits option.splits list.splits sum.splits\<close>)

lemma counted_step:
  assumes c: "counted win cs s" and st: "thread_step ind win t (pcs s ! t) inp s = Some s'"
  shows "counted win cs s'"
proof (cases "\<exists>tc out. pcs s ! t = Crit tc out")
  case False
  then have "tally s' = tally s" using tally_step[OF st] by blast
  with c show ?thesis by (simp add: counted_def tally_def)
next
  case True
  then obtain tc out where cr: "pcs s ! t = Crit tc out" by blast
  obtain out' p where co: "count_output win out (prog s) = (out', p)" by (cases "count_output win out (prog s)")
  have s': "s' = goto t Top (s\<lparr>prog := (HasRun ind win out' p)\<lparr>lock := None\<rparr>, history := history s @ [(tc, out')]\<rparr>)"
    using st cr co by simp
  have u: "UnexpectedOutput win out' = UnexpectedOutput win out" "HasCrashed win out' = HasCrashed win out"
    using core_count_output[OF co] by (simp_all add: UnexpectedOutput_memo)
  note f = core_count_output[OF co]
  have h: "history s' = history s @ [(tc, out')]" "prog s' = (HasRun ind win out' p)\<lparr>lock := None\<rparr>"
    by (simp_all add: s')
  show ?thesis
  proof (cases "fst (UnexpectedOutput win out)")
    case True
    have "failed p = failed (prog s) @ [out']" "succeeded p = succeeded (prog s)"
      "crashed p = crashed (prog s) + (if HasCrashed win out then 1 else 0)" "total p = total (prog s)"
      "remaining p = remaining (prog s) - 1"
      using f True by simp_all
    then show ?thesis using c True u by (simp add: counted_def h)
  next
    case False
    have "failed p = failed (prog s)" "succeeded p = succeeded (prog s) + 1"
      "crashed p = crashed (prog s)" "total p = total (prog s)" "remaining p = remaining (prog s) - 1"
      using f False by simp_all
    then show ?thesis using c False u by (simp add: counted_def h)
  qed
qed

text \<open>The outputs in the threads and in the history are results of the cases.\<close>

definition results_ok :: "(test_case \<Rightarrow> test_output result \<Rightarrow> bool) \<Rightarrow> bool \<Rightarrow> run_state \<Rightarrow> bool" where
  "results_ok runs win s \<longleftrightarrow> list_all (pc_runs runs) (pcs s) \<and>
     list_all (\<lambda>(c, out). \<exists>r. runs c (Inr r) \<and> out = snd (UnexpectedOutput win r)) (history s)"

lemma list_all_update: "list_all P xs \<Longrightarrow> P x \<Longrightarrow> list_all P (xs[t := x])"
  by (cases "t < length xs") (simp_all add: list_all_length nth_list_update)

lemma pc_runs_left_pc [simp]: "pc_runs runs (left_pc t)"
  by (simp add: left_pc_def)

lemma results_ok_step:
  assumes r: "results_ok runs win s" and t: "t < length (pcs s)" and inp: "input_ok runs (pcs s ! t) inp"
    and st: "thread_step ind win t (pcs s ! t) inp s = Some s'"
  shows "results_ok runs win s'"
proof -
  have p: "pc_runs runs (pcs s ! t)" using r t by (simp add: results_ok_def list_all_length)
  show ?thesis
  proof (cases "\<exists>tc out. pcs s ! t = Crit tc out")
    case False
    then show ?thesis using st r inp p by (cases "pcs s ! t")
      (auto simp: results_ok_def input_ok_def intro!: list_all_update split: if_splits option.splits list.splits sum.splits)
  next
    case True
    then obtain tc out where cr: "pcs s ! t = Crit tc out" by blast
    obtain out' q where co: "count_output win out (prog s) = (out', q)" by (cases "count_output win out (prog s)")
    have "out' = snd (UnexpectedOutput win out)" using core_count_output[OF co] by simp
    then show ?thesis using st cr co r p by (auto simp: results_ok_def intro!: list_all_update)
  qed
qed

text \<open>A run in which no test case raises an exception: no thread dies, and none leaves while cases are queued.\<close>

fun leaver :: "pc \<Rightarrow> bool" where
  "leaver (Joining i) = True"
| "leaver Returned = True"
| "leaver (Finished b) = True"
| "leaver _ = False"

definition quiet :: "run_state \<Rightarrow> bool" where
  "quiet s \<longleftrightarrow> \<not> terminate (prog s) \<and> (\<forall>c \<in> set (pcs s). \<forall>e. c \<noteq> Raised e) \<and>
     ((\<exists>c \<in> set (pcs s). leaver c) \<longrightarrow> queue (prog s) = []) \<and>
     (\<forall>b. Finished b \<in> set (pcs s) \<longrightarrow> b = (failed (prog s) = []))"

lemma leaver_left_pc [simp]: "leaver (left_pc t)" "left_pc t \<noteq> Raised e" "left_pc t \<noteq> Finished b"
  by (simp_all add: left_pc_def)

definition no_raise :: "(test_case \<Rightarrow> test_output result \<Rightarrow> bool) \<Rightarrow> bool" where
  "no_raise runs \<longleftrightarrow> (\<forall>c e. \<not> runs c (Inl e))"

lemma quiet_update:
  assumes q: "quiet s" and t: "t < length (pcs s)" and p: "pcs s' = (pcs s)[t := c']"
    and "\<not> terminate (prog s')" and "\<And>e. c' \<noteq> Raised e"
    and "leaver c' \<Longrightarrow> queue (prog s') = []" and "queue (prog s) = [] \<Longrightarrow> queue (prog s') = []"
    and fail: "failed (prog s') = failed (prog s) \<or> (\<forall>b. Finished b \<notin> set (pcs s))"
    and "\<And>b. c' = Finished b \<Longrightarrow> b = (failed (prog s') = [])"
  shows "quiet s'"
proof -
  have sub: "set (pcs s') \<subseteq> insert c' (set (pcs s))" unfolding p by (rule set_update_subset_insert)
  have "c \<noteq> Raised e" if "c \<in> set (pcs s')" for c e
    using that sub q assms(5) by (auto simp: quiet_def)
  moreover have "queue (prog s') = []" if "c \<in> set (pcs s')" "leaver c" for c
    using that sub q assms(6,7) by (auto simp: quiet_def)
  moreover have "b = (failed (prog s') = [])" if b: "Finished b \<in> set (pcs s')" for b
  proof (cases "Finished b \<in> set (pcs s)")
    case True
    then have "b = (failed (prog s) = [])" using q by (auto simp: quiet_def)
    moreover have "failed (prog s') = failed (prog s)" using fail True by blast
    ultimately show ?thesis by simp
  next
    case False
    then have "c' = Finished b" using b sub by auto
    then show ?thesis by (rule assms(9))
  qed
  ultimately show ?thesis using assms(4) unfolding quiet_def by blast
qed

lemma not_finished:
  assumes "threads_ok s" and "t < length (pcs s)" and "pcs s ! t \<noteq> NotStarted" and "\<not> thread_ended (pcs s ! t)"
    and "\<And>b. pcs s ! t \<noteq> Finished b"
  shows "Finished b \<notin> set (pcs s)"
proof
  assume "Finished b \<in> set (pcs s)"
  then obtain u where u: "u < length (pcs s)" "pcs s ! u = Finished b" by (auto simp: in_set_conv_nth)
  then have u0: "u = 0" using main_only[OF assms(1) u(1)] by simp
  have "t \<noteq> 0" using u(2) u0 assms(5)[of b] by metis
  with assms(1,2) u u0 have "thread_ended (pcs s ! t)" by (simp add: threads_ok_def)
  with assms(4) show False by simp
qed

lemma quiet_step:
  assumes ok: "threads_ok s" and q: "quiet s" and t: "t < length (pcs s)" and r: "no_raise runs"
    and inp: "input_ok runs (pcs s ! t) inp" and tot: "total (prog s) \<noteq> 0"
    and st: "thread_step ind win t (pcs s ! t) inp s = Some s'"
  shows "quiet s'"
proof -
  have nt: "\<not> terminate (prog s)" using q by (simp add: quiet_def)
  have keep: "quiet s2" if "pcs s2 = (pcs s)[t := c']" "\<not> terminate (prog s2)" "\<And>e. c' \<noteq> Raised e" "\<not> leaver c'"
    "queue (prog s) = [] \<Longrightarrow> queue (prog s2) = []" "failed (prog s2) = failed (prog s)" "\<And>b. c' \<noteq> Finished b" for s2 c'
    by (rule quiet_update[OF q t that(1)]) (use that in auto)
  show ?thesis
  proof (cases "pcs s ! t")
    case (Spawning i)
    have sub: "set (pcs s') \<subseteq> {Top, Spawning (Suc i)} \<union> set (pcs s)"
      using st Spawning set_update_subset_insert[of "pcs s" "Suc i" Top] set_update_subset_insert[of "pcs s" t Top]
        set_update_subset_insert[of "(pcs s)[Suc i := Top]" t "Spawning (Suc i)"]
      by (auto split: if_splits)
    have "prog s' = prog s" using st Spawning by (auto split: if_splits)
    with q sub show ?thesis unfolding quiet_def by (auto dest!: subsetD[OF sub])
  next
    case Top
    with st nt show ?thesis by (intro keep[of s' Get]) (auto simp: nt)
  next
    case Get
    show ?thesis
    proof (cases "queue (prog s)")
      case Nil
      with st Get show ?thesis by (intro quiet_update[OF q t, of s' "left_pc t"]) (auto simp: nt)
    next
      case (Cons c qs)
      with st Get show ?thesis by (intro keep[of s' "Got c"]) (auto simp: nt)
    qed
  next
    case (Got c)
    with st show ?thesis by (intro keep[of s' "About c"]) (auto simp: nt split: option.splits)
  next
    case (About c)
    obtain p where p: "AboutToRun ind (si_now inp) c (prog s) = Inr p"
      using AboutToRun_total[OF tot] by blast
    with st About core_AboutToRun[OF p] show ?thesis
      by (intro keep[of s' "Running c"]) (auto simp: nt core_eq)
  next
    case (Running c)
    with inp r obtain out where "si_result inp = Inr out"
      by (cases "si_result inp") (auto simp: input_ok_def no_raise_def)
    with st Running show ?thesis by (intro keep[of s' "Ran c out"]) (auto simp: nt)
  next
    case (Ran c out)
    with st show ?thesis by (intro keep[of s' "Wait c out"]) (auto simp: nt)
  next
    case (Wait c out)
    with st show ?thesis by (intro keep[of s' "Crit c out"]) (auto simp: nt split: option.splits)
  next
    case (Crit c out)
    obtain out' p where co: "count_output win out (prog s) = (out', p)" by (cases "count_output win out (prog s)")
    have "terminate p = terminate (prog s)" "queue p = queue (prog s)" using core_count_output[OF co] by simp_all
    moreover have "Finished b \<notin> set (pcs s)" for b
      by (rule not_finished[OF ok t]) (use Crit in simp_all)
    ultimately show ?thesis using st Crit co
      by (intro quiet_update[OF q t, of s' Top]) (auto simp: nt)
  next
    case (Joining i)
    have e: "queue (prog s) = []" using q t Joining unfolding quiet_def by (metis leaver.simps(1) nth_mem)
    obtain p where p: "Done ind win (si_now inp) (prog s) = Inr p" using Done_total[OF tot] by blast
    then have c: "core p = core (prog s)" by (rule core_Done)
    show ?thesis
    proof (cases "i < length (pcs s)")
      case True
      with st Joining e show ?thesis
        by (intro quiet_update[OF q t, of s' "Joining (Suc i)"]) (auto simp: nt split: if_splits)
    next
      case False
      with st Joining e p c show ?thesis
        by (intro quiet_update[OF q t, of s' "Finished (failed p = [])"]) (auto simp: nt core_eq)
    qed
  qed (use st in simp_all)
qed

text \<open>All invariants of a run on the cases \<open>cs\<close>.\<close>

definition run_inv :: "(test_case \<Rightarrow> test_output result \<Rightarrow> bool) \<Rightarrow> bool \<Rightarrow> test_case list \<Rightarrow> nat \<Rightarrow> run_state \<Rightarrow> bool" where
  "run_inv runs win cs n s \<longleftrightarrow> length (pcs s) = n \<and> threads_ok s \<and> lock_ok s \<and> counted win cs s \<and>
     results_ok runs win s \<and> accounted s \<subseteq># mset cs \<and> (no_raise runs \<longrightarrow> quiet s \<and> accounted s = mset cs)"

lemma spawn_ok:
  assumes "threads_ok s" and "t < length (pcs s)" and "pcs s ! t = Spawning i"
  shows "t = 0 \<and> (Suc i < length (pcs s) \<longrightarrow> pcs s ! Suc i = NotStarted)"
proof -
  have "t = 0" using main_only[OF assms(1,2)] assms(3) by simp
  moreover have "\<not> spawned (pcs s ! 0) (Suc i)" using assms(3) \<open>t = 0\<close> by simp
  ultimately show ?thesis using assms(1) by (auto simp: threads_ok_def)
qed

lemma run_inv_step:
  assumes inv: "run_inv runs win cs n s" and cs: "cs \<noteq> []" and step: "run_step runs ind win s s'"
  shows "run_inv runs win cs n s'"
  using step
proof cases
  case (act t inp)
  have i: "length (pcs s) = n" "threads_ok s" "lock_ok s" "counted win cs s" "results_ok runs win s"
    "accounted s \<subseteq># mset cs" "no_raise runs \<Longrightarrow> quiet s \<and> accounted s = mset cs"
    using inv by (auto simp: run_inv_def)
  have tot: "total (prog s) \<noteq> 0" using i(4) cs by (simp add: counted_def)
  have acc: "accounted s' = accounted s \<or> accounted s' + in_flight (pcs s ! t) = accounted s \<and>
      (terminate (prog s) \<or> (\<exists>c. pcs s ! t = About c \<or> pcs s ! t = Running c \<and> (\<exists>e. si_result inp = Inl e)))"
    using accounted_step[OF act(1,3)] spawn_ok[OF i(2) act(1)] by blast
  have sub: "accounted s' \<subseteq># mset cs"
    using acc i(6) by (metis mset_subset_eq_add_left subset_mset.order_trans)
  have q: "quiet s' \<and> accounted s' = mset cs" if nr: "no_raise runs"
  proof
    show "quiet s'" using quiet_step[OF i(2) _ act(1) nr act(2) tot act(3)] i(7)[OF nr] by blast
    have nl: "\<not> terminate (prog s)" using i(7)[OF nr] by (simp add: quiet_def)
    have ni: "si_result inp \<noteq> Inl e" if "pcs s ! t = Running c" for c e
      using act(2) nr that by (auto simp: input_ok_def no_raise_def)
    have na: "accounted s' = accounted s" if a: "pcs s ! t = About c" for c
    proof -
      obtain p where p: "AboutToRun ind (si_now inp) c (prog s) = Inr p" using AboutToRun_total[OF tot] by blast
      let ?s = "s\<lparr>prog := p\<lparr>lock := None\<rparr>\<rparr>"
      have "accounted ?s = accounted s" using core_AboutToRun[OF p] by (simp add: accounted_def core_eq)
      then show ?thesis using act a p accounted_goto[of t ?s "Running c"] by auto
    qed
    show "accounted s' = mset cs" using acc na nl ni i(7)[OF nr] by auto
  qed
  show ?thesis
    using step_length[OF act(3)] i(1) threads_ok_step[OF i(2) act(1) thread_step_pcs[OF act(3)]]
      lock_ok_step[OF i(2,3) act(1,3) tot] counted_step[OF i(4) act(3)] results_ok_step[OF i(5) act(1,2,3)] sub q
    unfolding run_inv_def by blast
qed

lemma run_inv_init: "run_inv runs win cs (Suc (tasks - 1)) (run_init ind cs tasks t0 out)"
proof -
  have n: "(Spawning 0 # replicate m NotStarted) ! u = (if u = 0 then Spawning 0 else NotStarted)"
    if "u < Suc m" for u m using that by (cases u) auto
  have z: "in_flight NotStarted = {#}" by simp
  have s: "sum_list (replicate m {#}) = ({#} :: test_case multiset)" for m by (induction m) auto
  show ?thesis
    by (auto simp: run_inv_def run_init_def ProgressIndicator_def threads_ok_def lock_ok_def counted_def results_ok_def
        quiet_def accounted_def flight_def n s list_all_iff)
qed

lemma run_inv_reach:
  assumes "run_reach runs ind win (run_init ind cs tasks t0 out) s" and "cs \<noteq> []"
  shows "run_inv runs win cs (Suc (tasks - 1)) s"
  using assms(1)
proof induction
  case reach_refl
  show ?case by (rule run_inv_init)
next
  case (reach_step s s')
  show ?case by (rule run_inv_step[OF reach_step.IH assms(2) reach_step.hyps(2)])
qed

section \<open>Progress and termination of a run\<close>

lemma thread_enabled:
  assumes "lock (prog s) = None \<or> in_crit c" and "c \<noteq> NotStarted" and "\<not> thread_ended c"
    and "\<And>b. c \<noteq> Finished b" and "\<And>i. c = Joining i \<Longrightarrow> i < length (pcs s) \<Longrightarrow> thread_ended (pcs s ! i)"
  shows "\<exists>s'. thread_step ind win t c inp s = Some s'"
  using assms by (cases c) (auto simp: Let_def case_prod_unfold)

lemma run_not_stuck:
  assumes inv: "run_inv runs win cs n s" and nr: "no_raise runs"
    and live: "\<forall>c. \<exists>out. runs c (Inr out)" and nf: "\<And>b. pcs s ! 0 \<noteq> Finished b"
  shows "\<exists>s'. run_step runs ind win s s'"
proof -
  have ok: "threads_ok s" "lock_ok s" and q: "quiet s" using inv nr by (simp_all add: run_inv_def)
  have act: "\<exists>s'. run_step runs ind win s s'" if t: "t < length (pcs s)"
    and e: "\<And>inp. \<exists>s'. thread_step ind win t (pcs s ! t) inp s = Some s'" for t
  proof -
    obtain r where r: "input_ok runs (pcs s ! t) \<lparr>si_result = r, si_now = 0\<rparr>"
      using live by (cases "pcs s ! t") (auto simp: input_ok_def)
    from e[of "\<lparr>si_result = r, si_now = 0\<rparr>"] run_step.act[OF t r] show ?thesis by blast
  qed
  show ?thesis
  proof (cases "lock (prog s)")
    case (Some t)
    then have t: "t < length (pcs s)" "in_crit (pcs s ! t)" using ok(2) by (auto simp: lock_ok_def)
    then show ?thesis by (intro act[OF t(1)] thread_enabled) (auto elim: in_crit.elims)
  next
    case None
    have len: "0 < length (pcs s)" using ok(1) by (auto simp: threads_ok_def)
    have nr0: "\<not> thread_ended (pcs s ! t)" if "t < length (pcs s)" "pcs s ! t \<noteq> Returned" for t
      using q that nth_mem[OF that(1)] by (cases "pcs s ! t") (auto simp: quiet_def)
    have main: "pcs s ! 0 \<noteq> NotStarted" "pcs s ! 0 \<noteq> Returned" using ok(1) by (simp_all add: threads_ok_def)
    show ?thesis
    proof (cases "\<exists>i < length (pcs s). pcs s ! 0 = Joining i \<and> \<not> thread_ended (pcs s ! i)")
      case False
      then show ?thesis
        using None main nf nr0[OF len] by (intro act[OF len] thread_enabled) auto
    next
      case True
      then obtain i where i: "i < length (pcs s)" "pcs s ! 0 = Joining i" "\<not> thread_ended (pcs s ! i)" by blast
      have "i \<noteq> 0" using i(2) ok(1) by (auto simp: threads_ok_def)
      then have w: "worker_pc (pcs s ! i)" "pcs s ! i \<noteq> NotStarted"
        using ok(1) i by (auto simp: threads_ok_def)
      then show ?thesis using None i(3) by (intro act[OF i(1)] thread_enabled) auto
    qed
  qed
qed

text \<open>A bound on the length of every run: each step makes this number smaller.\<close>

fun pc_rank :: "nat \<Rightarrow> pc \<Rightarrow> nat" where
  "pc_rank n NotStarted = n + 3"
| "pc_rank n (Spawning i) = n + 3 + (n - i)"
| "pc_rank n Top = n + 2"
| "pc_rank n Get = n + 1"
| "pc_rank n (Got c) = n + 8"
| "pc_rank n (About c) = n + 7"
| "pc_rank n (Running c) = n + 6"
| "pc_rank n (Ran c out) = n + 5"
| "pc_rank n (Wait c out) = n + 4"
| "pc_rank n (Crit c out) = n + 3"
| "pc_rank n (Joining i) = Suc (n - i)"
| "pc_rank n Returned = 0"
| "pc_rank n (Raised e) = 0"
| "pc_rank n (Finished b) = 0"

definition run_rank :: "run_state \<Rightarrow> nat" where
  "run_rank s = 8 * length (queue (prog s)) + sum_list (map (pc_rank (length (pcs s))) (pcs s))"

lemma run_rank_goto:
  assumes "t < length (pcs s)" and "pcs s' = (pcs s)[t := c']"
    and "8 * length (queue (prog s')) + pc_rank (length (pcs s)) c' <
      8 * length (queue (prog s)) + pc_rank (length (pcs s)) (pcs s ! t)"
  shows "run_rank s' < run_rank s"
  using sum_list_map_update[OF assms(1), of "pc_rank (length (pcs s))" c'] assms(2,3)
  by (simp add: run_rank_def)

lemma pc_rank_left_pc: "t < n \<Longrightarrow> pc_rank n (left_pc t) \<le> n"
  by (simp add: left_pc_def)

lemma run_rank_step:
  assumes ok: "threads_ok s" and t: "t < length (pcs s)"
    and st: "thread_step ind win t (pcs s ! t) inp s = Some s'"
  shows "run_rank s' < run_rank s"
proof -
  note r = run_rank_goto[OF t]
  note l = pc_rank_left_pc[OF t]
  show ?thesis
  proof (cases "pcs s ! t")
    case (Spawning i)
    note sp = spawn_ok[OF ok t Spawning]
    show ?thesis
    proof (cases "Suc i < length (pcs s)")
      case True
      let ?s = "goto (Suc i) Top s"
      have "run_rank ?s < run_rank s"
        by (rule run_rank_goto[OF True, of _ Top]) (use sp True in simp_all)
      moreover have "run_rank (goto t (Spawning (Suc i)) ?s) < run_rank ?s"
        by (rule run_rank_goto[of t ?s _ "Spawning (Suc i)"]) (use sp True Spawning t in auto)
      moreover have "s' = goto t (Spawning (Suc i)) ?s" using st Spawning True by simp
      ultimately show ?thesis by simp
    next
      case False
      with st Spawning show ?thesis by (intro r[of s' Top]) auto
    qed
  next
    case Top
    show ?thesis
    proof (cases "terminate (prog s)")
      case True
      with st Top l show ?thesis by (intro r[of s' "left_pc t"]) auto
    next
      case False
      with st Top show ?thesis by (intro r[of s' Get]) auto
    qed
  next
    case Get
    show ?thesis
    proof (cases "queue (prog s)")
      case Nil
      then show ?thesis using st Get l by (intro r[of s' "left_pc t"]) auto
    next
      case (Cons c q)
      then show ?thesis using st Get by (intro r[of s' "Got c"]) auto
    qed
  next
    case (Got c)
    with st show ?thesis by (intro r[of s' "About c"]) (auto split: option.splits)
  next
    case (About c)
    show ?thesis
    proof (cases "AboutToRun ind (si_now inp) c (prog s)")
      case (Inl e)
      then show ?thesis using st About by (intro r[of s' "Raised e"]) auto
    next
      case (Inr p)
      then show ?thesis using st About core_AboutToRun[OF Inr] by (intro r[of s' "Running c"]) (auto simp: core_eq)
    qed
  next
    case (Running c)
    have "\<exists>c'. pcs s' = (pcs s)[t := c'] \<and> pc_rank (length (pcs s)) c' < pc_rank (length (pcs s)) (pcs s ! t) \<and>
        queue (prog s') = queue (prog s)"
      using st Running l by (fastforce split: sum.splits if_splits)
    then obtain c' where "pcs s' = (pcs s)[t := c']" "queue (prog s') = queue (prog s)"
      "pc_rank (length (pcs s)) c' < pc_rank (length (pcs s)) (pcs s ! t)" by blast
    then show ?thesis by (intro r[of s' c']) auto
  next
    case (Ran c out)
    show ?thesis
    proof (cases "terminate (prog s)")
      case True
      with st Ran l show ?thesis by (intro r[of s' "left_pc t"]) auto
    next
      case False
      with st Ran show ?thesis by (intro r[of s' "Wait c out"]) auto
    qed
  next
    case (Wait c out)
    with st show ?thesis by (intro r[of s' "Crit c out"]) (auto split: option.splits)
  next
    case (Crit c out)
    obtain out' p where co: "count_output win out (prog s) = (out', p)" by (cases "count_output win out (prog s)")
    then show ?thesis using st Crit core_count_output[OF co] by (intro r[of s' Top]) auto
  next
    case (Joining i)
    show ?thesis
    proof (cases "i < length (pcs s)")
      case True
      then show ?thesis using st Joining by (intro r[of s' "Joining (Suc i)"]) (auto split: if_splits)
    next
      case False
      show ?thesis
      proof (cases "Done ind win (si_now inp) (prog s)")
        case (Inl e)
        then show ?thesis using st Joining False by (intro r[of s' "Raised e"]) auto
      next
        case (Inr p)
        then show ?thesis using st Joining False core_Done[OF Inr]
          by (intro r[of s' "Finished (failed p = [])"]) (auto simp: core_eq)
      qed
    qed
  qed (use st in simp_all)
qed

lemma run_sched_bound:
  "run_sched ind win sched s = Some s' \<Longrightarrow> threads_ok s \<Longrightarrow> length sched + run_rank s' \<le> run_rank s"
proof (induction sched arbitrary: s)
  case (Cons x sched)
  obtain t inp where x: "x = (t, inp)" by (cases x)
  with Cons.prems obtain s1 where t: "t < length (pcs s)" and st: "thread_step ind win t (pcs s ! t) inp s = Some s1"
    and rest: "run_sched ind win sched s1 = Some s'" by (auto split: if_splits option.splits)
  have "threads_ok s1" by (rule threads_ok_step[OF Cons.prems(2) t thread_step_pcs[OF st]])
  from Cons.IH[OF rest this] run_rank_step[OF Cons.prems(2) t st] show ?case by simp
qed simp

lemma run_rank_init:
  "run_rank (run_init ind cs tasks t0 out) = 8 * length cs + (tasks - 1) * (tasks - 1) + 6 * (tasks - 1) + 5"
proof -
  have "sum_list (replicate m x) = m * x" for m x :: nat by (induction m) auto
  then show ?thesis
    by (simp add: run_rank_def run_init_def ProgressIndicator_def map_replicate algebra_simps)
qed

lemma sum_list_in_flight: "(\<And>c. c \<in> set xs \<Longrightarrow> in_flight c = {#}) \<Longrightarrow> sum_list (map in_flight xs) = {#}"
  by (induction xs) auto

lemma finished_flight:
  assumes ok: "threads_ok s" and q: "quiet s" and f: "pcs s ! 0 = Finished b"
  shows "flight s = {#}" and "queue (prog s) = []"
proof -
  have len: "0 < length (pcs s)" using ok by (auto simp: threads_ok_def)
  have "in_flight c = {#}" if c: "c \<in> set (pcs s)" for c
  proof -
    obtain t where t: "t < length (pcs s)" "c = pcs s ! t" using c by (auto simp: in_set_conv_nth)
    show ?thesis
    proof (cases "t = 0")
      case False
      then have "thread_ended c" using ok t f by (simp add: threads_ok_def)
      then show ?thesis by (cases c) simp_all
    qed (use t f in simp)
  qed
  then show "flight s = {#}" unfolding flight_def by (rule sum_list_in_flight)
  show "queue (prog s) = []" using q f nth_mem[OF len] unfolding quiet_def by (metis leaver.simps(3))
qed

lemma finished_run:
  assumes "run_reach runs ind win (run_init ind cs tasks t0 out) s" and "no_raise runs" and "cs \<noteq> []"
    and "pcs s ! 0 = Finished b"
  shows "mset (map fst (history s)) = mset cs \<and>
    (\<forall>(c, r') \<in> set (history s). \<exists>r. runs c (Inr r) \<and> r' = snd (UnexpectedOutput win r)) \<and>
    remaining (prog s) = 0 \<and> succeeded (prog s) + length (failed (prog s)) = length cs \<and>
    crashed (prog s) = length (filter (HasCrashed win) (failed (prog s))) \<and>
    (b \<longleftrightarrow> (\<forall>(c, r) \<in> set (history s). \<not> fst (UnexpectedOutput win r)))"
proof -
  have inv: "run_inv runs win cs (Suc (tasks - 1)) s" by (rule run_inv_reach[OF assms(1,3)])
  then have ok: "threads_ok s" and q: "quiet s" and c: "counted win cs s" and r: "results_ok runs win s"
    and a: "accounted s = mset cs" using assms(2) by (auto simp: run_inv_def)
  have m: "mset (map fst (history s)) = mset cs"
    using a finished_flight[OF ok q assms(4)] by (simp add: accounted_def)
  then have len: "length (history s) = length cs" by (metis length_map size_mset)
  have "0 < length (pcs s)" using ok by (auto simp: threads_ok_def)
  then have b: "b = (failed (prog s) = [])" using q assms(4) unfolding quiet_def by (metis nth_mem)
  let ?u = "\<lambda>r. fst (UnexpectedOutput win r)"
  have "length (filter (\<lambda>r. \<not> ?u r) (map snd (history s))) + length (filter ?u (map snd (history s))) = length cs"
    using sum_length_filter_compl[of ?u "map snd (history s)"] len by simp
  moreover have "(failed (prog s) = []) \<longleftrightarrow> (\<forall>(c, r) \<in> set (history s). \<not> ?u r)"
    using c by (auto simp: counted_def filter_empty_conv)
  ultimately show ?thesis using m len b c r
    by (simp add: counted_def results_ok_def list_all_iff)
qed

section \<open>The process loop\<close>

definition expired :: "proc_env \<Rightarrow> rat option \<Rightarrow> nat \<Rightarrow> bool" where
  "expired pe end_time k \<longleftrightarrow> (\<exists>e \<in> set_option end_time. now pe k \<ge> e)"

lemma wait_loop_Suc:
  "wait_loop (Suc n) pe end_time k sleep_time slept =
     (if expired pe end_time k then Some (killed pe, True, slept)
      else (case poll pe k of
              Some code \<Rightarrow> Some (code, False, slept @ [sleep_time])
            | None \<Rightarrow> wait_loop n pe end_time (Suc k) (next_sleep sleep_time) (slept @ [sleep_time])))"
  by (simp add: expired_def)

declare wait_loop.simps(2) [simp del]
declare wait_loop_Suc [simp]

lemma wait_loop_ends:
  "(\<forall>j < d. \<not> expired pe e (k + j) \<and> poll pe (k + j) = None) \<Longrightarrow>
   expired pe e (k + d) \<or> poll pe (k + d) \<noteq> None \<Longrightarrow> d < n \<Longrightarrow>
   \<exists>slept'. wait_loop n pe e k st slept =
     Some (if expired pe e (k + d) then (killed pe, True, slept')
           else (the (poll pe (k + d)), False, slept'))"
proof (induction d arbitrary: n k st slept)
  case 0
  then obtain m where "n = Suc m" by (cases n) auto
  with 0 show ?case by auto
next
  case (Suc d)
  then obtain m where m: "n = Suc m" "d < m" by (cases n) auto
  have now: "\<not> expired pe e k" "poll pe k = None" using Suc.prems(1) by (metis add_0_right zero_less_Suc)+
  have "\<forall>j < d. \<not> expired pe e (Suc k + j) \<and> poll pe (Suc k + j) = None"
    using Suc.prems(1) by (metis Suc_mono add_Suc_shift)
  from Suc.IH[OF this _ m(2), of "next_sleep st" "slept @ [st]"] Suc.prems(2) now m(1) show ?case
    by (cases "expired pe e (Suc (k + d))") simp_all
qed

lemma wait_loop_runs:
  "(\<forall>j < n. \<not> expired pe e (k + j) \<and> poll pe (k + j) = None) \<Longrightarrow> wait_loop n pe e k st slept = None"
proof (induction n arbitrary: k st slept)
  case (Suc n)
  have "\<not> expired pe e k" "poll pe k = None" using Suc.prems by (metis add_0_right zero_less_Suc)+
  moreover have "\<forall>j < n. \<not> expired pe e (Suc k + j) \<and> poll pe (Suc k + j) = None"
    using Suc.prems by (metis Suc_mono add_Suc_shift)
  ultimately show ?case using Suc.IH by simp
qed simp

lemma next_sleep_bounds:
  "INITIAL_SLEEP_TIME \<le> x \<Longrightarrow> x \<le> MAX_SLEEP_TIME \<Longrightarrow>
   INITIAL_SLEEP_TIME \<le> next_sleep x \<and> next_sleep x \<le> MAX_SLEEP_TIME"
  by (auto simp: next_sleep_def Let_def INITIAL_SLEEP_TIME_def MAX_SLEEP_TIME_def SLEEP_TIME_FACTOR_def)

definition sleep_ok :: "rat \<Rightarrow> bool" where
  "sleep_ok x \<longleftrightarrow> INITIAL_SLEEP_TIME \<le> x \<and> x \<le> MAX_SLEEP_TIME"

lemma wait_loop_sleeps:
  "wait_loop n pe e k st slept = Some (code, timed, slept') \<Longrightarrow> sleep_ok st \<Longrightarrow> list_all sleep_ok slept \<Longrightarrow>
   list_all sleep_ok slept'"
proof (induction n arbitrary: k st slept)
  case (Suc n)
  have "sleep_ok (next_sleep st)" using Suc.prems(2) next_sleep_bounds by (simp add: sleep_ok_def)
  then show ?case using Suc.prems Suc.IH[of "Suc k" "next_sleep st" "slept @ [st]"]
    by (auto split: if_splits option.splits)
qed simp

section \<open>Exit codes on Windows\<close>

lemma and_bit31: "(0x80000000 AND code) \<noteq> (0::int) \<longleftrightarrow> odd (code div 2 ^ 31)"
proof -
  have "(0x80000000 :: int) = 2 ^ 31" by simp
  then have "0x80000000 AND code = code AND 2 ^ 31" by (simp only: and.commute)
  then show ?thesis by (simp only: and_exp_eq_0_iff_not_bit bit_iff_odd) simp
qed

lemma and_bits_8_29: "(0x3FFFFF00 AND code) = (0::int) \<longleftrightarrow> code div 2 ^ 8 mod 2 ^ 22 = 0"
proof -
  have "(0x3FFFFF00 :: int) = push_bit 8 (mask 22)" by (simp add: mask_eq_exp_minus_1 push_bit_eq_mult)
  moreover have "push_bit 8 (mask 22) AND code = push_bit 8 (take_bit 22 (drop_bit 8 code))"
    by (rule bit_eqI) (auto simp: bit_simps)
  ultimately have "(0x3FFFFF00 AND code) = push_bit 8 (take_bit 22 (drop_bit 8 code))" by simp
  then show ?thesis by (simp add: push_bit_eq_mult take_bit_eq_mod drop_bit_eq_div)
qed

text \<open>With cases that always give an output, a run can be completed.\<close>

definition any_output :: "test_case \<Rightarrow> test_output result \<Rightarrow> bool" where
  "any_output c r \<longleftrightarrow> (\<exists>out. r = Inr out)"

lemma any_output_props: "no_raise any_output" "\<forall>c. \<exists>r. any_output c (Inr r)"
  by (auto simp: no_raise_def any_output_def)

lemma run_reach_trans:
  "run_reach runs ind win s1 s2 \<Longrightarrow> run_reach runs ind win s0 s1 \<Longrightarrow> run_reach runs ind win s0 s2"
  by (induction rule: run_reach.induct) (auto intro: run_reach.intros)

lemma run_completes_from:
  assumes "run_inv runs win cs n s" and "cs \<noteq> []" and "no_raise runs" and "\<forall>c. \<exists>r. runs c (Inr r)"
  shows "\<exists>s' b. run_reach runs ind win s s' \<and> pcs s' ! 0 = Finished b"
  using assms(1)
proof (induction "run_rank s" arbitrary: s rule: less_induct)
  case less
  show ?case
  proof (cases "\<exists>b. pcs s ! 0 = Finished b")
    case False
    with run_not_stuck[OF less.prems assms(3,4)] obtain s1 where st: "run_step runs ind win s s1" by blast
    have "threads_ok s" using less.prems by (simp add: run_inv_def)
    with st have "run_rank s1 < run_rank s" by (auto elim!: run_step.cases intro: run_rank_step)
    from less.hyps[OF this run_inv_step[OF less.prems assms(2) st]]
    obtain s' b where "run_reach runs ind win s1 s'" "pcs s' ! 0 = Finished b" by blast
    moreover have "run_reach runs ind win s s1" by (rule reach_step[OF reach_refl st])
    ultimately show ?thesis using run_reach_trans by blast
  qed (use reach_refl in blast)
qed

lemma run_completes:
  assumes "cs \<noteq> []" and "no_raise runs" and "\<forall>c. \<exists>r. runs c (Inr r)"
  shows "\<exists>s b. run_reach runs ind win (run_init ind cs tasks t0 out) s \<and> pcs s ! 0 = Finished b"
  by (rule run_completes_from[OF run_inv_init assms])

lemmas Simple_Done_fields [simp] = core_Simple_Done[unfolded core_eq]
lemmas Simple_Starting_fields [simp] = core_Starting[of Dots, simplified, unfolded core_eq]

text \<open>A schedule of two threads in which the worker takes the only case and dies of an exception.\<close>

definition ex_raise :: step_input where
  "ex_raise = \<lparr>si_result = Inl UnboundLocalError, si_now = 0\<rparr>"

definition ex_lost :: "(nat \<times> step_input) list" where
  "ex_lost = map (\<lambda>t. (t, ex_raise)) [0, 0, 1, 1, 1, 1, 1, 0, 0, 0, 0]"

lemma lost_case:
  "\<exists>s. run_sched Dots win ex_lost (run_init Dots [c] 2 t0 out) = Some s \<and> pcs s = [Finished True, Raised UnboundLocalError] \<and>
     history s = []"
  by (simp add: eval_nat_numeral ex_lost_def ex_raise_def run_init_def ProgressIndicator_def goto_def leave_def throw_def)

lemma crash_ranges:
  assumes "0 \<le> c" and "c < (2 :: int) ^ 32"
  shows "odd (c div 2 ^ 31) \<and> c div 2 ^ 8 mod 2 ^ 22 = 0 \<longleftrightarrow>
    c \<in> {0x80000000..0x800000FF} \<union> {0xC0000000..0xC00000FF}"
proof -
  define q r where "q = c div 256" and "r = c mod 256"
  define k m where "k = q div 4194304" and "m = q mod 4194304"
  have c: "c = 256 * q + r" "0 \<le> r" "r < 256" by (simp_all add: q_def r_def)
  have q: "q = 4194304 * k + m" "0 \<le> m" "m < 4194304" by (simp_all add: k_def m_def)
  have bit31: "c div 2 ^ 31 = (if c < 2 ^ 31 then 0 else 1)"
  proof (cases "c < 2 ^ 31")
    case True
    then show ?thesis using assms(1) by (simp add: div_pos_pos_trivial)
  next
    case False
    then have "c div 2 ^ 31 = 1" using assms(2) by (intro int_div_pos_eq[of _ _ _ "c - 2 ^ 31"]) simp_all
    then show ?thesis using False by simp
  qed
  have "c div 2 ^ 8 mod 2 ^ 22 = m" by (simp add: q_def m_def)
  moreover have "odd (c div 2 ^ 31) \<longleftrightarrow> 2 ^ 31 \<le> c" unfolding bit31 by simp
  moreover have "2 ^ 31 \<le> c \<and> m = 0 \<longleftrightarrow> c \<in> {0x80000000..0x800000FF} \<union> {0xC0000000..0xC00000FF}"
  proof -
    have "0 \<le> k" "k < 4" using assms c q by simp_all
    then consider "k = 0" | "k = 1" | "k = 2" | "k = 3" by linarith
    then show ?thesis using c q by cases auto
  qed
  ultimately show ?thesis by simp
qed

section \<open>Properties\<close>

text \<open>
  C8. However the threads of a run interleave, when \<open>ProgressIndicator.Run\<close> returns and no test
  case raised an exception, every case was run and counted exactly once: the counted outputs are
  results of the cases, nothing remains, the successes and failures add up to the number of cases,
  the crashes are the crashed failures, and the answer is \<open>True\<close> exactly when no output was
  unexpected.
\<close>

theorem run_counts_every_case:
  assumes "run_reach runs ind win (run_init ind cs tasks t0 out) s" and "no_raise runs" and "cs \<noteq> []"
    and "pcs s ! 0 = Finished b"
  shows "mset (map fst (history s)) = mset cs \<and>
    (\<forall>(c, r') \<in> set (history s). \<exists>r. runs c (Inr r) \<and> r' = snd (UnexpectedOutput win r)) \<and>
    remaining (prog s) = 0 \<and> succeeded (prog s) + length (failed (prog s)) = length cs \<and>
    crashed (prog s) = length (filter (HasCrashed win) (failed (prog s))) \<and>
    (b \<longleftrightarrow> (\<forall>(c, r) \<in> set (history s). \<not> fst (UnexpectedOutput win r)))"
  by (rule finished_run[OF assms])

theorem run_counts_every_case_witness:
  "\<exists>s b. run_reach any_output Dots False (run_init Dots [TestCase [''a''] ''release''] 2 0 \<lparr>out_text = [], softspace = False\<rparr>) s \<and>
    pcs s ! 0 = Finished b \<and> mset (map fst (history s)) = {#TestCase [''a''] ''release''#} \<and> remaining (prog s) = 0"
proof -
  obtain s b where s: "run_reach any_output Dots False (run_init Dots [TestCase [''a''] ''release''] 2 0 \<lparr>out_text = [], softspace = False\<rparr>) s"
    "pcs s ! 0 = Finished b" using run_completes[OF _ any_output_props] by blast
  from run_counts_every_case[OF s(1) any_output_props(1) _ s(2)]
  have "mset (map fst (history s)) = {#TestCase [''a''] ''release''#}" "remaining (prog s) = 0" by simp_all
  with s show ?thesis by (intro exI conjI)
qed

text \<open>
  C38. A run in which no test case raises an exception is never stuck: as long as
  \<open>ProgressIndicator.Run\<close> has not returned, some thread can act. In particular the lock is never
  held for ever and \<open>join\<close> never waits for a thread that was not started.
\<close>

theorem run_never_stuck:
  assumes "run_reach runs ind win (run_init ind cs tasks t0 out) s" and "no_raise runs" and "cs \<noteq> []"
    and "\<forall>c. \<exists>r. runs c (Inr r)"
  shows "(\<exists>b. pcs s ! 0 = Finished b) \<or> (\<exists>s'. run_step runs ind win s s')"
  using run_not_stuck[OF run_inv_reach[OF assms(1,3)] assms(2,4)] by blast

theorem run_never_stuck_witness:
  "\<exists>s. run_step any_output Mono False (run_init Mono [TestCase [''a''] ''release''] 3 0 \<lparr>out_text = [], softspace = False\<rparr>) s"
proof -
  let ?s = "run_init Mono [TestCase [''a''] ''release''] 3 0 \<lparr>out_text = [], softspace = False\<rparr>"
  have "pcs ?s ! 0 \<noteq> Finished b" for b by (simp add: run_init_def)
  with run_never_stuck[OF reach_refl any_output_props(1) _ any_output_props(2), of "[TestCase [''a''] ''release'']"]
  show ?thesis by blast
qed



text \<open>
  C37. In every reachable state of a run, exceptions included, at most one thread is in a critical
  section, and no case is run twice: the cases that are queued, held by a thread or counted are
  among the given ones, with their multiplicities.
\<close>

theorem run_safe:
  assumes "run_reach runs ind win (run_init ind cs tasks t0 out) s" and "cs \<noteq> []"
  shows "(\<forall>t u. t < length (pcs s) \<longrightarrow> u < length (pcs s) \<longrightarrow> in_crit (pcs s ! t) \<longrightarrow> in_crit (pcs s ! u) \<longrightarrow> t = u) \<and>
    mset (queue (prog s)) + flight s + mset (map fst (history s)) \<subseteq># mset cs"
  using run_inv_reach[OF assms] unfolding run_inv_def lock_ok_def accounted_def
  by (metis option.inject)

theorem run_safe_witness:
  "\<exists>s. run_reach any_output Dots False (run_init Dots [TestCase [''a''] ''release''] 2 0 \<lparr>out_text = [], softspace = False\<rparr>) s \<and>
    pcs s ! 0 \<in> {Finished True, Finished False} \<and>
    mset (queue (prog s)) + flight s + mset (map fst (history s)) \<subseteq># {#TestCase [''a''] ''release''#}"
proof -
  obtain s b where s: "run_reach any_output Dots False (run_init Dots [TestCase [''a''] ''release''] 2 0 \<lparr>out_text = [], softspace = False\<rparr>) s"
    "pcs s ! 0 = Finished b" using run_completes[OF _ any_output_props] by blast
  from run_safe[OF s(1)] s show ?thesis by (cases b) auto
qed

text \<open>
  An exception in a worker loses its test case without a trace: with two threads there is an
  interleaving in which the only case of the run dies of an exception in the worker, and the
  caller returns \<open>True\<close>, with no output counted.
\<close>

theorem worker_exception_lost:
  "\<exists>sched s. run_sched Dots win sched (run_init Dots [c] 2 t0 out) = Some s \<and>
     pcs s = [Finished True, Raised UnboundLocalError] \<and> history s = [] \<and>
     list_all (\<lambda>(t, inp). si_result inp = Inl UnboundLocalError) sched"
proof -
  have "list_all (\<lambda>(t, inp). si_result inp = Inl UnboundLocalError) ex_lost"
    by (auto simp: ex_lost_def ex_raise_def)
  then show ?thesis using lost_case[of win c t0 out] by blast
qed

text \<open>
  An exception of \<open>GetCommand\<close> or of \<open>Execute\<close> never leaves \<open>TestCase.Run\<close>: the clause
  \<open>finally\<close> reads the unset variable \<open>result\<close> and replaces it by \<open>UnboundLocalError\<close>, so that the
  handler of \<open>IOError\<close> in \<open>RunSingle\<close> does not see an \<open>IOError\<close> of the process.
\<close>

theorem run_masks_exception:
  assumes "tc_BeforeRun test = Inr ()" and "tc_AfterRun test = Inr ()"
  shows "TestCase_Run processor store execute test \<noteq> Inl IOError \<and>
    (tc_GetCommand test = Inr command \<longrightarrow> execute (processor command) = Inl e \<longrightarrow>
      TestCase_Run processor store execute test = Inl UnboundLocalError) \<and>
    (tc_GetCommand test = Inr command \<longrightarrow> execute (processor command) = Inr output \<longrightarrow>
      TestCase_Run processor store execute test = Inr \<lparr>to_test = test, to_command = processor command,
        to_output = output, store_unexpected_output = store\<rparr>)"
  using assms by (auto simp: TestCase_Run_def RunCommand_def split: sum.splits)

theorem run_masks_exception_witness:
  "TestCase_Run id True (\<lambda>_. Inl IOError) ((TestCase [''a''] ''release'')\<lparr>tc_GetCommand := Inr [''node'']\<rparr>) =
     Inl UnboundLocalError"
proof -
  have "tc_BeforeRun ((TestCase [''a''] ''release'')\<lparr>tc_GetCommand := Inr [''node'']\<rparr>) = Inr ()"
    "tc_AfterRun ((TestCase [''a''] ''release'')\<lparr>tc_GetCommand := Inr [''node'']\<rparr>) = Inr ()"
    by (simp_all add: TestCase_def)
  from run_masks_exception[OF this, of id True "\<lambda>_. Inl IOError" "[''node'']"] show ?thesis by simp
qed

text \<open>
  The process loop of \<open>RunProcess\<close> ends in the first round in which the time limit has passed or
  the process has ended, and not before. It reports a time-out exactly in the first case, even if
  the process has ended meanwhile, and then the exit code is the one after the kill; every sleep
  lies between the initial and the maximal sleep time.
\<close>

theorem run_process_result:
  assumes "\<forall>j < k. \<not> expired pe (map_option (\<lambda>t. start + t) timeout) j \<and> poll pe j = None"
    and "expired pe (map_option (\<lambda>t. start + t) timeout) k \<or> poll pe k \<noteq> None"
  shows "RunProcess n pe timeout start =
      (if n \<le> k then None
       else if expired pe (map_option (\<lambda>t. start + t) timeout) k then Some (killed pe, True)
       else Some (the (poll pe k), False)) \<and>
    (\<forall>code timed slept. wait_loop n pe (map_option (\<lambda>t. start + t) timeout) 0 INITIAL_SLEEP_TIME [] =
       Some (code, timed, slept) \<longrightarrow> list_all sleep_ok slept)"
proof
  let ?e = "map_option (\<lambda>t. start + t) timeout"
  show "RunProcess n pe timeout start =
      (if n \<le> k then None else if expired pe ?e k then Some (killed pe, True) else Some (the (poll pe k), False))"
  proof (cases "n \<le> k")
    case True
    then have "wait_loop n pe ?e 0 INITIAL_SLEEP_TIME [] = None"
      using assms(1) by (intro wait_loop_runs) simp
    then show ?thesis using True by (simp add: RunProcess_def Let_def)
  next
    case False
    then show ?thesis using wait_loop_ends[of k pe ?e 0 n INITIAL_SLEEP_TIME "[]"] assms
      by (auto simp: RunProcess_def Let_def)
  qed
  have "sleep_ok INITIAL_SLEEP_TIME" by (simp add: sleep_ok_def INITIAL_SLEEP_TIME_def MAX_SLEEP_TIME_def)
  then show "\<forall>code timed slept. wait_loop n pe ?e 0 INITIAL_SLEEP_TIME [] = Some (code, timed, slept) \<longrightarrow>
      list_all sleep_ok slept" using wait_loop_sleeps by auto
qed

text \<open>A process that ends in the third round, without a time limit.\<close>

theorem run_process_result_witness:
  "RunProcess 5 \<lparr>now = (\<lambda>k. 0), poll = (\<lambda>k. if k < 2 then None else Some 7), killed = -15\<rparr> None 0 = Some (7, False)"
proof -
  let ?pe = "\<lparr>now = (\<lambda>k. 0), poll = (\<lambda>k. if k < 2 then None else Some 7), killed = -15\<rparr>"
  have "\<forall>j < 2. \<not> expired ?pe (map_option (\<lambda>t. 0 + t) None) j \<and> poll ?pe j = None" by (simp add: expired_def)
  moreover have "expired ?pe (map_option (\<lambda>t. 0 + t) None) 2 \<or> poll ?pe 2 \<noteq> None" by simp
  ultimately have "RunProcess 5 ?pe None 0 = (if (5::nat) \<le> 2 then None
       else if expired ?pe (map_option (\<lambda>t. 0 + t) None) 2 then Some (killed ?pe, True)
       else Some (the (poll ?pe 2), False))"
    by (rule run_process_result[THEN conjunct1])
  then show ?thesis by (simp add: expired_def)
qed

text \<open>
  On Windows, where exit codes are 32-bit numbers, \<open>HasCrashed\<close> holds exactly for the codes
  from \<open>0x80000000\<close> to \<open>0x800000FF\<close> and from \<open>0xC0000000\<close> to \<open>0xC00000FF\<close>. Elsewhere it holds exactly
  for a process that was ended by a signal other than \<open>SIGABRT\<close> and did not time out.
\<close>

theorem has_crashed_codes:
  assumes "0 \<le> exit_code (to_output t)" and "exit_code (to_output t) < 2 ^ 32"
  shows "HasCrashed True t = (exit_code (to_output t) \<in> {0x80000000..0x800000FF} \<union> {0xC0000000..0xC00000FF}) \<and>
    HasCrashed False t' =
      (\<not> timed_out (to_output t') \<and> exit_code (to_output t') < 0 \<and> exit_code (to_output t') \<noteq> -6)"
proof
  let ?c = "exit_code (to_output t)"
  have "HasCrashed True t \<longleftrightarrow> odd (?c div 2 ^ 31) \<and> ?c div 2 ^ 8 mod 2 ^ 22 = 0"
    by (simp only: HasCrashed_def Let_def if_True and_bit31 and_bits_8_29 not_not)
  also have "\<dots> \<longleftrightarrow> ?c \<in> {0x80000000..0x800000FF} \<union> {0xC0000000..0xC00000FF}"
    by (rule crash_ranges[OF assms])
  finally show "HasCrashed True t \<longleftrightarrow> ?c \<in> {0x80000000..0x800000FF} \<union> {0xC0000000..0xC00000FF}" .
qed (simp add: HasCrashed_def SIGABRT_def Let_def)

theorem has_crashed_codes_witness:
  "HasCrashed True \<lparr>to_test = TestCase [] [], to_command = [], to_output = CommandOutput 0xC0000005 False [] [],
     store_unexpected_output = False\<rparr>"
proof -
  let ?t = "\<lparr>to_test = TestCase [] [], to_command = [], to_output = CommandOutput 0xC0000005 False [] [],
     store_unexpected_output = False\<rparr>"
  have "0 \<le> exit_code (to_output ?t)" "exit_code (to_output ?t) < 2 ^ 32" by (simp_all add: CommandOutput_def)
  from has_crashed_codes[OF this] show ?thesis by (simp add: CommandOutput_def)
qed

end
