(* ===== verification/Test_Main.thy ===== *)
theory Test_Main
  imports Test_Config Test_Run
begin

text \<open>
  The main program of the test runner, \<^verbatim>\<open>src/tools/test.py\<close> lines 641 to 693 and 1120 to 1415, with the
  platform guesses of \<^verbatim>\<open>src/deps/v8/tools/utils.py\<close>: options, the context of a run, reports, and \<open>Main\<close>
  from the options to the exit code.

  After the definitions: which options are accepted, which tests are run and what the exit code
  says about them.
\<close>

section \<open>Definitions\<close>

subsection \<open>Platform\<close>

text \<open>The argument is the answer of \<open>platform.system()\<close> or \<open>platform.machine()\<close>.\<close>

definition GuessOS :: "string \<Rightarrow> pystr" where
  "GuessOS i =
     (if i = ''Linux'' then Some ''linux''
      else if i = ''Darwin'' then Some ''macos''
      else if py_find i ''CYGWIN'' 0 \<noteq> None then Some ''cygwin''
      else if i = ''Windows'' \<or> i = ''Microsoft'' then Some ''win32''
      else if i = ''FreeBSD'' then Some ''freebsd''
      else if i = ''OpenBSD'' then Some ''openbsd''
      else if i = ''SunOS'' then Some ''solaris''
      else None)"

definition ARCH_86 :: re where
  "ARCH_86 = rseq [RAlt (RLit (CHR ''x'')) (RSeq (RLit (CHR ''i'')) (RChr (\<lambda>c. c \<in> set ''3456''))),
     rstr ''86'', REol]"

definition GuessArchitecture :: "string \<Rightarrow> pystr" where
  "GuessArchitecture machine =
     (let i = py_lower machine in
      if py_startswith i ''arm'' then Some ''arm''
      else if i = [] \<or> re_match ARCH_86 i \<noteq> None then Some ''ia32''
      else if i = ''i86pc'' then Some ''ia32''
      else if i = ''x86_64'' then Some ''ia32''
      else if i = ''amd64'' then Some ''ia32''
      else None)"

definition GuessWordsize :: "string \<Rightarrow> string" where
  "GuessWordsize machine = (if py_find machine ''64'' 0 \<noteq> None then ''64'' else ''32'')"

definition IsWindows :: "string \<Rightarrow> bool" where
  "IsWindows i = (GuessOS i = Some ''win32'')"

subsection \<open>Options\<close>

text \<open>The options as \<open>optparse\<close> stores them; \<open>opt_modes\<close> is \<open>options.mode\<close> after the split.\<close>

record options =
  opt_mode :: string
  opt_modes :: "string list"
  opt_verbose :: bool
  scons_flags :: "string list"
  opt_progress :: string
  no_build :: bool
  build_only :: bool
  opt_report :: bool
  opt_suite :: "string list"
  opt_timeout :: int
  arch :: pystr
  snapshot :: bool
  simulator :: string
  special_command :: pystr
  valgrind :: bool
  opt_cat :: bool
  warn_unused :: bool
  opt_j :: int
  opt_time :: bool
  suppress_dialogs :: bool
  opt_shell :: string
  opt_store_unexpected_output :: bool

text \<open>The defaults of \<open>BuildOptions\<close>.\<close>

definition BuildOptions :: options where
  "BuildOptions = \<lparr>opt_mode = ''release'', opt_modes = [], opt_verbose = False, scons_flags = [],
     opt_progress = ''mono'', no_build = True, build_only = False, opt_report = False, opt_suite = [],
     opt_timeout = 60, arch = Some ''none'', snapshot = False, simulator = ''none'', special_command = None,
     valgrind = False, opt_cat = False, warn_unused = False, opt_j = 1, opt_time = False,
     suppress_dialogs = True, opt_shell = ''shell'', opt_store_unexpected_output = True\<rparr>"

text \<open>
  One option of the command line, as the parser stores it: \<open>append\<close> and \<open>store_true\<close> or \<open>store_false\<close>
  for flags. The choice of the progress style is checked by the parser.
\<close>

datatype opt_arg =
    O_mode string | O_verbose | O_S string | O_progress string | O_no_build | O_build_only | O_report
  | O_suite string | O_timeout int | O_arch string | O_snapshot | O_simulator string
  | O_special_command string | O_valgrind | O_cat | O_warn_unused | O_j int | O_time
  | O_suppress_dialogs | O_no_suppress_dialogs | O_shell string | O_store_unexpected_output
  | O_no_store_unexpected_output

fun store_option :: "opt_arg \<Rightarrow> options \<Rightarrow> options result" where
  "store_option (O_mode s) opt = Inr (opt\<lparr>opt_mode := s\<rparr>)"
| "store_option O_verbose opt = Inr (opt\<lparr>opt_verbose := True\<rparr>)"
| "store_option (O_S s) opt = Inr (opt\<lparr>scons_flags := scons_flags opt @ [s]\<rparr>)"
| "store_option (O_progress s) opt =
     (if s \<in> set [''verbose'', ''dots'', ''color'', ''mono''] then Inr (opt\<lparr>opt_progress := s\<rparr>) else Inl (SystemExit 2))"
| "store_option O_no_build opt = Inr (opt\<lparr>no_build := True\<rparr>)"
| "store_option O_build_only opt = Inr (opt\<lparr>build_only := True\<rparr>)"
| "store_option O_report opt = Inr (opt\<lparr>opt_report := True\<rparr>)"
| "store_option (O_suite s) opt = Inr (opt\<lparr>opt_suite := opt_suite opt @ [s]\<rparr>)"
| "store_option (O_timeout i) opt = Inr (opt\<lparr>opt_timeout := i\<rparr>)"
| "store_option (O_arch s) opt = Inr (opt\<lparr>arch := Some s\<rparr>)"
| "store_option O_snapshot opt = Inr (opt\<lparr>snapshot := True\<rparr>)"
| "store_option (O_simulator s) opt = Inr (opt\<lparr>simulator := s\<rparr>)"
| "store_option (O_special_command s) opt = Inr (opt\<lparr>special_command := Some s\<rparr>)"
| "store_option O_valgrind opt = Inr (opt\<lparr>valgrind := True\<rparr>)"
| "store_option O_cat opt = Inr (opt\<lparr>opt_cat := True\<rparr>)"
| "store_option O_warn_unused opt = Inr (opt\<lparr>warn_unused := True\<rparr>)"
| "store_option (O_j i) opt = Inr (opt\<lparr>opt_j := i\<rparr>)"
| "store_option O_time opt = Inr (opt\<lparr>opt_time := True\<rparr>)"
| "store_option O_suppress_dialogs opt = Inr (opt\<lparr>suppress_dialogs := True\<rparr>)"
| "store_option O_no_suppress_dialogs opt = Inr (opt\<lparr>suppress_dialogs := False\<rparr>)"
| "store_option (O_shell s) opt = Inr (opt\<lparr>opt_shell := s\<rparr>)"
| "store_option O_store_unexpected_output opt = Inr (opt\<lparr>opt_store_unexpected_output := True\<rparr>)"
| "store_option O_no_store_unexpected_output opt = Inr (opt\<lparr>opt_store_unexpected_output := False\<rparr>)"

fun parse_args :: "opt_arg list \<Rightarrow> options \<Rightarrow> options result" where
  "parse_args [] opt = Inr opt"
| "parse_args (a # as) opt = rbind (store_option a opt) (parse_args as)"

text \<open>
  \<open>ProcessOptions\<close>; \<open>guess\<close> is the value of \<open>ARCH_GUESS\<close>, which is \<open>None\<close> on an unknown machine. The
  answer is \<open>False\<close>, with the line that is printed, or \<open>True\<close> with the options.
\<close>

definition ProcessOptions :: "pystr \<Rightarrow> options \<Rightarrow> (string + options) result" where
  "ProcessOptions guess opt =
     (let modes = py_split_chr (CHR '','') (opt_mode opt);
          o1 = opt\<lparr>opt_modes := modes\<rparr>
      in case find (\<lambda>m. m \<notin> set [''debug'', ''release'']) modes of
           Some m \<Rightarrow> Inr (Inl (''Unknown mode '' @ m))
         | None \<Rightarrow>
             let with_snapshot = (\<lambda>opt. if snapshot opt then opt\<lparr>scons_flags := scons_flags opt @ [''snapshot=on'']\<rparr> else opt) in
             if simulator o1 \<noteq> ''none''
             then (let o2 = o1\<lparr>arch := Some (simulator o1)\<rparr>;
                       push = (\<lambda>opt. opt\<lparr>scons_flags := scons_flags opt @ [''simulator='' @ simulator opt]\<rparr>)
                   in if Some (simulator o1) \<noteq> arch o1
                      then (if arch o1 = Some ''none'' then Inr (Inr (with_snapshot (push o2)))
                            else Inr (Inl (''Architecture '' @ (case arch o1 of Some a \<Rightarrow> a | None \<Rightarrow> ''None'') @
                                   '' does not match sim '' @ simulator o1)))
                      else Inr (Inr (with_snapshot (push o1))))
             else (let o2 = (if arch o1 = Some ''none'' then o1\<lparr>arch := guess\<rparr> else o1)
                   in case arch o2 of
                        None \<Rightarrow> Inl TypeError
                      | Some a \<Rightarrow> Inr (Inr (with_snapshot (o2\<lparr>scons_flags := scons_flags o2 @ [''arch='' @ a]\<rparr>)))))"

subsection \<open>The context of a run\<close>

definition FLAGS :: "string \<Rightarrow> string list result" where
  "FLAGS mode = (if mode = ''debug'' then Inr [''--enable-slow-asserts'', ''--debug-code'', ''--verify-heap'']
                 else if mode = ''release'' then Inr [] else Inl KeyError)"

definition TIMEOUT_SCALEFACTOR :: "string \<Rightarrow> int result" where
  "TIMEOUT_SCALEFACTOR mode = (if mode = ''debug'' then Inr 4 else if mode = ''release'' then Inr 1 else Inl KeyError)"

record context_obj =
  workspace :: string
  buildspace :: string
  ctx_verbose :: bool
  vm_root :: string
  ctx_timeout :: int
  processor :: "string list \<Rightarrow> string list"
  ctx_suppress_dialogs :: bool
  ctx_store_unexpected_output :: bool

text \<open>\<open>abspath\<close> is a parameter: on Windows it is applied to the name of the executable.\<close>

definition GetVm :: "(string \<Rightarrow> string) \<Rightarrow> bool \<Rightarrow> string \<Rightarrow> string" where
  "GetVm abspath windows mode =
     (let name = (if mode = ''debug'' then ''build/debug/node_g'' else ''build/default/node'')
      in if windows \<and> \<not> py_endswith name ''.exe'' then abspath (name @ ''.exe'') else name)"

definition GetVmFlags :: "test_case \<Rightarrow> string \<Rightarrow> string list result" where
  "GetVmFlags testcase mode = rmap (\<lambda>fs. tc_variant_flags testcase @ fs) (FLAGS mode)"

definition GetVmCommand :: "(string \<Rightarrow> string) \<Rightarrow> bool \<Rightarrow> test_case \<Rightarrow> string \<Rightarrow> string list result" where
  "GetVmCommand abspath windows testcase mode = rmap (\<lambda>fs. GetVm abspath windows mode # fs) (GetVmFlags testcase mode)"

definition GetTimeout :: "context_obj \<Rightarrow> string \<Rightarrow> int result" where
  "GetTimeout ctx mode = rmap (\<lambda>k. ctx_timeout ctx * k) (TIMEOUT_SCALEFACTOR mode)"

definition BuildRequirements_command :: "context_obj \<Rightarrow> string list \<Rightarrow> string list \<Rightarrow> string list \<Rightarrow> string list" where
  "BuildRequirements_command ctx requirements modes flags =
     [''scons'', ''-Y'', workspace ctx, ''mode='' @ py_join '','' modes] @ requirements @ flags"

definition BuildRequirements :: "(string list \<Rightarrow> command_output result) \<Rightarrow> context_obj \<Rightarrow> string list \<Rightarrow> string list \<Rightarrow>
    string list \<Rightarrow> bool result" where
  "BuildRequirements execute ctx requirements modes flags =
     rmap (\<lambda>output. exit_code output = 0) (execute (BuildRequirements_command ctx requirements modes flags))"

text \<open>\<open>urllib.unquote\<close>: \<open>%xy\<close> with two hexadecimal digits is a character, any other \<open>%\<close> stays.\<close>

definition hex_value :: "char \<Rightarrow> nat option" where
  "hex_value c =
     (if chr_isdigit c then Some (ord c - 48)
      else if c \<in> set ''abcdef'' then Some (ord c - 87)
      else if c \<in> set ''ABCDEF'' then Some (ord c - 55) else None)"

fun unquote :: "string \<Rightarrow> string" where
  "unquote [] = []"
| "unquote (c # s) =
     (if c = CHR ''%''
      then (case s of
              x # y # s' \<Rightarrow>
                (case (hex_value x, hex_value y) of
                   (Some a, Some b) \<Rightarrow> char_of (16 * a + b) # unquote s'
                 | _ \<Rightarrow> c # unquote s)
            | _ \<Rightarrow> c # unquote s)
      else c # unquote s)"

definition GetSpecialCommandProcessor :: "pystr \<Rightarrow> string list \<Rightarrow> string list" where
  "GetSpecialCommandProcessor value args =
     (case value of
        None \<Rightarrow> args
      | Some v \<Rightarrow>
          (if v = [] then args
           else case py_find v ''@'' 0 of
                  None \<Rightarrow> args
                | Some pos \<Rightarrow> py_split_ws (unquote (take pos v)) @ args @ py_split_ws (unquote (drop (pos + 1) v))))"

definition BUILT_IN_TESTS :: "string list" where
  "BUILT_IN_TESTS = [''simple'', ''pummel'', ''message'', ''internet'']"

text \<open>\<open>GetSuites\<close>: the file system is a parameter, the entries of the directory and the test \<open>IsSuite\<close>.\<close>

definition GetSuites :: "string list \<Rightarrow> (string \<Rightarrow> bool) \<Rightarrow> string list" where
  "GetSuites entries IsSuite = filter IsSuite entries"

text \<open>\<open>FormatTime\<close>, with \<open>round\<close> half away from zero, of a time in seconds that is not negative.\<close>

definition py_round :: "rat \<Rightarrow> int" where
  "py_round x = (if x < 0 then - \<lfloor>- x + 1 / 2\<rfloor> else \<lfloor>x + 1 / 2\<rfloor>)"

definition FormatTime :: "rat \<Rightarrow> string" where
  "FormatTime d =
     (let millis = py_round (d * 1000) mod 1000; secs = py_int d
      in fmt_zero 2 (secs div 60 mod 60) @ '':'' @ fmt_zero 2 (secs mod 60) @ ''.'' @ fmt_zero 3 millis)"

subsection \<open>The report\<close>

definition IsFlaky :: "pystr set \<Rightarrow> bool" where
  "IsFlaky os = (PASS \<in> os \<and> FAIL \<in> os \<and> \<not> CRASH \<in> os \<and> \<not> OKAY \<in> os)"

definition IsFailOk :: "pystr set \<Rightarrow> bool" where
  "IsFailOk os = (card os = 2 \<and> FAIL \<in> os \<and> OKAY \<in> os)"

record report =
  rep_total :: nat
  rep_skipped :: nat
  rep_nocrash :: nat
  rep_pass :: nat
  rep_fail_ok :: nat
  rep_fail :: nat

definition report_counts :: "pystr set list \<Rightarrow> report" where
  "report_counts cs =
     (let unskipped = filter (\<lambda>os. \<not> SKIP \<in> os) cs in
      \<lparr>rep_total = length cs, rep_skipped = length cs - length unskipped,
       rep_nocrash = length (filter IsFlaky unskipped),
       rep_pass = length (filter (\<lambda>os. os = {PASS}) unskipped),
       rep_fail_ok = length (filter IsFailOk unskipped),
       rep_fail = length (filter (\<lambda>os. os = {FAIL}) unskipped)\<rparr>)"

definition PrintReport :: "pystr set list \<Rightarrow> string list" where
  "PrintReport cs =
     (let r = report_counts cs; line = (\<lambda>n s. '' * '' @ fmt_d 4 (int n) @ '' tests '' @ s) in
      [''Total: '' @ str_nat (rep_total r) @ '' tests'',
       line (rep_skipped r) ''will be skipped'',
       line (rep_nocrash r) ''are expected to be flaky but not crash'',
       line (rep_pass r) ''are expected to pass'',
       line (rep_fail_ok r) (''are expected to fail that we won'' @ [CHR 0x27] @ ''t fix''),
       line (rep_fail r) ''are expected to fail that we should fix''])"

subsection \<open>The main program\<close>

text \<open>
  What \<open>Main\<close> takes from its surroundings: the platform, the file system, the module of a test
  suite by its path, the command that builds, and the run of the cases by \<open>RunTestCases\<close>.
\<close>

record sys_env =
  se_system :: string
  se_machine :: string
  se_workspace :: string
  se_entries :: "string list"
  se_is_suite :: "string \<Rightarrow> bool"
  se_repository :: "string \<Rightarrow> test_case repository"
  se_exists :: "string \<Rightarrow> bool"
  se_abspath :: "string \<Rightarrow> string"
  se_dirname :: "string \<Rightarrow> string"
  se_execute :: "string list \<Rightarrow> command_output result"
  se_run :: "test_case list \<Rightarrow> string \<Rightarrow> int \<Rightarrow> bool result"

definition repositories :: "sys_env \<Rightarrow> options \<Rightarrow> test_case repository list" where
  "repositories se opt =
     map (\<lambda>name. se_repository se (path_join (path_join (se_workspace se) ''test'') name))
       (GetSuites (se_entries se) (se_is_suite se)) @
     map (se_repository se) (opt_suite opt)"

definition test_paths :: "string list \<Rightarrow> string list list" where
  "test_paths args = (if length args = 0 then map SplitPath BUILT_IN_TESTS else map SplitPath args)"

definition with_valgrind :: "sys_env \<Rightarrow> options \<Rightarrow> options" where
  "with_valgrind se opt =
     (if valgrind opt
      then opt\<lparr>special_command := Some (''python -u '' @
             path_join (path_join (se_workspace se) ''tools'') ''run-valgrind.py'' @ '' @'')\<rparr>
      else opt)"

definition make_context :: "sys_env \<Rightarrow> options \<Rightarrow> context_obj" where
  "make_context se opt =
     (let shell = se_abspath se (opt_shell opt) in
      \<lparr>workspace = se_workspace se, buildspace = se_dirname se shell, ctx_verbose = opt_verbose opt,
       vm_root = shell, ctx_timeout = opt_timeout opt,
       processor = GetSpecialCommandProcessor (special_command opt),
       ctx_suppress_dialogs = suppress_dialogs opt,
       ctx_store_unexpected_output = opt_store_unexpected_output opt\<rparr>)"

text \<open>
  The build of the requirements: whether \<open>Main\<close> goes on. Python removes the duplicates of the
  requirements with a set, whose order is not specified; here the first occurrences are kept.
\<close>

definition build_targets :: "sys_env \<Rightarrow> options \<Rightarrow> context_obj \<Rightarrow> test_case repository list \<Rightarrow>
    string list list \<Rightarrow> bool result" where
  "build_targets se opt ctx repos paths =
     (if no_build opt then Inr True
      else rbind (mapM (LiteralTestSuite_GetBuildRequirements repos) paths) (\<lambda>rss.
        let reqs = remdups (concat rss);
            flags = (if opt_j opt \<noteq> 1 then scons_flags opt @ [''-j'', str_int (opt_j opt)] else scons_flags opt)
        in if length reqs > 0 then BuildRequirements (se_execute se) ctx reqs (opt_modes opt) flags
           else Inr True))"

record listing =
  all_cases :: "test_case list"
  unclassified_tests :: "test_case list"
  globally_unused_rules :: "rule_id set option"
  printed :: "string list"

definition main_env :: "sys_env \<Rightarrow> options \<Rightarrow> string \<Rightarrow> env" where
  "main_env se opt mode = [''mode'' \<mapsto> Some mode, ''system'' \<mapsto> GuessOS (se_system se),
     ''arch'' \<mapsto> arch opt, ''simulator'' \<mapsto> Some (simulator opt)]"

definition list_mode :: "nat \<Rightarrow> sys_env \<Rightarrow> options \<Rightarrow> configuration \<Rightarrow> test_case repository list \<Rightarrow>
    string list \<times> string \<Rightarrow> listing \<Rightarrow> listing result" where
  "list_mode n se opt cfg repos = (\<lambda>(path, mode) l.
     (let vm = GetVm (se_abspath se) (IsWindows (se_system se)) mode in
      if \<not> se_exists se vm
      then Inr (l\<lparr>printed := printed l @ [''Can'' @ [CHR 0x27] @ ''t find shell executable: '' @ [CHR 0x27] @ vm @ [CHR 0x27]]\<rparr>)
      else rbind (LiteralTestSuite_ListTests repos [] path mode) (\<lambda>listed.
        let test_list = map (\<lambda>(c, v). c\<lparr>tc_variant_flags := v\<rparr>) listed in
        rbind (ClassifyTests n cfg (map tc_path test_list) (main_env se opt mode)) (\<lambda>(res, unused, all_outcomes).
          Inr (l\<lparr>unclassified_tests := unclassified_tests l @ test_list,
                 globally_unused_rules := Some (case globally_unused_rules l of
                    None \<Rightarrow> unused | Some us \<Rightarrow> us \<inter> unused),
                 all_cases := all_cases l @ map2 (\<lambda>c r. c\<lparr>tc_outcomes := snd r\<rparr>) test_list res\<rparr>)))))"

definition list_tests :: "nat \<Rightarrow> sys_env \<Rightarrow> options \<Rightarrow> configuration \<Rightarrow> test_case repository list \<Rightarrow>
    string list list \<Rightarrow> listing result" where
  "list_tests n se opt cfg repos paths =
     foldM (list_mode n se opt cfg repos) (List.product paths (opt_modes opt))
       \<lparr>all_cases = [], unclassified_tests = [], globally_unused_rules = None, printed = []\<rparr>"

fun cat_sources :: "test_case list \<Rightarrow> string list set \<Rightarrow> string list result" where
  "cat_sources [] visited = Inr []"
| "cat_sources (t # ts) visited =
     (if tc_path t \<in> visited then cat_sources ts visited
      else rbind (tc_GetSource t) (\<lambda>source.
        rmap (\<lambda>out. [''--- begin source: '' @ tc_label t @ '' ---'', py_strip source,
                     ''--- end source: '' @ tc_label t @ '' ---''] @ out)
          (cat_sources ts (insert (tc_path t) visited))))"

text \<open>
  The unused rules are printed from a set, whose order is not specified; here they come in the
  order of the configuration.
\<close>

definition warn_lines :: "configuration \<Rightarrow> rule_id set option \<Rightarrow> string list result" where
  "warn_lines cfg unused =
     (case unused of
        None \<Rightarrow> Inl TypeError
      | Some ks \<Rightarrow> Inr (map (\<lambda>(k, r). ''Rule for '' @ [CHR 0x27] @ py_join ''/'' (rule_path r) @ [CHR 0x27] @ '' was not used.'')
          (filter (\<lambda>(k, r). k \<in> ks) (concat (map section_rules (enumerate 0 (sections cfg)))))))"

definition DoSkip :: "test_case \<Rightarrow> bool" where
  "DoSkip c = (SKIP \<in> tc_outcomes c \<or> SLOW \<in> tc_outcomes c)"

definition cases_to_run :: "listing \<Rightarrow> test_case list" where
  "cases_to_run l = filter (\<lambda>c. \<not> DoSkip c) (all_cases l)"

text \<open>From the listing to the exit code; the times that \<open>--time\<close> prints after the run are left out.\<close>

definition finish_main :: "sys_env \<Rightarrow> options \<Rightarrow> configuration \<Rightarrow> listing \<Rightarrow> (int \<times> string list) result" where
  "finish_main se opt cfg l =
     (if opt_cat opt then rmap (\<lambda>out. (0, printed l @ out)) (cat_sources (unclassified_tests l) {})
      else rbind (if warn_unused opt then warn_lines cfg (globally_unused_rules l) else Inr []) (\<lambda>warned.
        let out = printed l @ warned @ (if opt_report opt then PrintReport (map tc_outcomes (all_cases l)) else []);
            cs = cases_to_run l
        in if length cs = 0 then Inr (0, out @ [''No tests to run.''])
           else rbind (se_run se cs (opt_progress opt) (opt_j opt)) (\<lambda>ok.
             Inr (if ok then 0 else 1, out))))"

definition Main_from :: "nat \<Rightarrow> sys_env \<Rightarrow> options \<Rightarrow> string list \<Rightarrow> (int \<times> string list) result" where
  "Main_from n se opt args =
     (let repos = repositories se opt;
          paths = test_paths args;
          ctx = make_context se (with_valgrind se opt)
      in rbind (build_targets se opt ctx repos paths) (\<lambda>built.
        if \<not> built then Inr (1, [])
        else if build_only opt then Inr (0, [])
        else rbind (LiteralTestSuite_GetTestStatus repos ([], Map.empty)) (\<lambda>(secs, ds).
          let cfg = \<lparr>sections = secs, cdefs = ds\<rparr> in
          rbind (list_tests n se opt cfg repos paths) (finish_main se opt cfg))))"

definition Main :: "nat \<Rightarrow> sys_env \<Rightarrow> opt_arg list \<Rightarrow> string list \<Rightarrow> (int \<times> string list) result" where
  "Main n se opts args =
     rbind (parse_args opts BuildOptions) (\<lambda>opt.
       rbind (ProcessOptions (GuessArchitecture (se_machine se)) opt) (\<lambda>r.
         case r of Inl line \<Rightarrow> Inr (1, [line]) | Inr opt' \<Rightarrow> Main_from n se opt' args))"

section \<open>Options\<close>

lemma store_option_no_build: "store_option a opt = Inr opt' \<Longrightarrow> no_build opt \<Longrightarrow> no_build opt'"
  by (cases a) (auto split: if_splits)

lemma parse_args_no_build: "parse_args opts opt = Inr opt' \<Longrightarrow> no_build opt \<Longrightarrow> no_build opt'"
  by (induction opts arbitrary: opt) (auto simp: rbind_Inr_iff dest: store_option_no_build)

lemma ProcessOptions_no_build: "ProcessOptions guess opt = Inr (Inr opt') \<Longrightarrow> no_build opt' = no_build opt"
  by (auto simp: ProcessOptions_def Let_def split: option.splits if_splits)

lemma Main_from_no_build: "no_build opt \<Longrightarrow> Main_from n (se\<lparr>se_execute := e\<rparr>) opt args = Main_from n se opt args"
proof -
  assume nb: "no_build opt"
  have me: "main_env (se\<lparr>se_execute := e\<rparr>) = main_env se" by (simp add: main_env_def fun_eq_iff)
  have lm: "list_mode n (se\<lparr>se_execute := e\<rparr>) = list_mode n se"
    unfolding list_mode_def me by simp
  have fm: "finish_main (se\<lparr>se_execute := e\<rparr>) = finish_main se"
    by (simp add: finish_main_def Let_def fun_eq_iff cong: if_cong)
  show ?thesis using nb
    by (simp add: Main_from_def build_targets_def repositories_def list_tests_def lm fm Let_def)
qed

definition known_mode :: "string \<Rightarrow> bool" where
  "known_mode m \<longleftrightarrow> m = ''debug'' \<or> m = ''release''"

text \<open>What \<open>ProcessOptions\<close> promises of options it accepts.\<close>

definition options_ok :: "options \<Rightarrow> bool" where
  "options_ok opt \<longleftrightarrow> list_all known_mode (opt_modes opt) \<and> opt_modes opt \<noteq> [] \<and> arch opt \<noteq> None \<and>
     (simulator opt \<noteq> ''none'' \<longrightarrow> arch opt = Some (simulator opt))"

lemma find_mode_None: "find (\<lambda>m. m \<notin> set [''debug'', ''release'']) ms = None \<longleftrightarrow> list_all known_mode ms"
  by (auto simp: find_None_iff list_all_iff known_mode_def)

section \<open>Listing\<close>

text \<open>The classified tests of one path and mode, and the rules it leaves unused.\<close>

definition mode_cases :: "nat \<Rightarrow> sys_env \<Rightarrow> options \<Rightarrow> configuration \<Rightarrow> test_case repository list \<Rightarrow>
    string list \<times> string \<Rightarrow> test_case list \<Rightarrow> rule_id set \<Rightarrow> bool" where
  "mode_cases n se opt cfg repos = (\<lambda>(path, mode) cs unused.
     \<exists>listed res all_outcomes.
       LiteralTestSuite_ListTests repos [] path mode = Inr listed \<and>
       ClassifyTests n cfg (map (tc_path \<circ> fst) listed) (main_env se opt mode) = Inr (res, unused, all_outcomes) \<and>
       cs = map2 (\<lambda>(c, v) r. c\<lparr>tc_variant_flags := v, tc_outcomes := snd r\<rparr>) listed res)"

definition vm_exists :: "sys_env \<Rightarrow> string list \<times> string \<Rightarrow> bool" where
  "vm_exists se pm \<longleftrightarrow> se_exists se (GetVm (se_abspath se) (IsWindows (se_system se)) (snd pm))"

lemma list_mode_skip: "\<not> vm_exists se pm \<Longrightarrow> \<exists>out. list_mode n se opt cfg repos pm l = Inr (l\<lparr>printed := out\<rparr>)"
  by (cases pm) (auto simp: list_mode_def vm_exists_def Let_def)

lemma map2_map_left: "map2 f (map g xs) ys = map2 (f \<circ> g) xs ys"
  by (induction xs ys rule: list_induct2') auto

lemma list_mode_cases:
  assumes "vm_exists se pm" and "list_mode n se opt cfg repos pm l = Inr l'"
  shows "\<exists>cs us. mode_cases n se opt cfg repos pm cs us \<and> all_cases l' = all_cases l @ cs \<and>
    globally_unused_rules l' = Some (case globally_unused_rules l of None \<Rightarrow> us | Some vs \<Rightarrow> vs \<inter> us)"
proof -
  obtain path mode where pm: "pm = (path, mode)" by (cases pm)
  from assms obtain listed res us ao where 1: "LiteralTestSuite_ListTests repos [] path mode = Inr listed"
    and 2: "ClassifyTests n cfg (map tc_path (map (\<lambda>(c, v). c\<lparr>tc_variant_flags := v\<rparr>) listed)) (main_env se opt mode) =
      Inr (res, us, ao)"
    and l': "all_cases l' = all_cases l @ map2 (\<lambda>c r. c\<lparr>tc_outcomes := snd r\<rparr>)
        (map (\<lambda>(c, v). c\<lparr>tc_variant_flags := v\<rparr>) listed) res"
      "globally_unused_rules l' = Some (case globally_unused_rules l of None \<Rightarrow> us | Some vs \<Rightarrow> vs \<inter> us)"
    unfolding pm by (auto simp: list_mode_def vm_exists_def Let_def rbind_Inr_iff)
  have p: "map tc_path (map (\<lambda>(c, v). c\<lparr>tc_variant_flags := v\<rparr>) listed) = map (tc_path \<circ> fst) listed"
    by (simp add: case_prod_unfold)
  have m: "map2 (\<lambda>c r. c\<lparr>tc_outcomes := snd r\<rparr>) (map (\<lambda>(c, v). c\<lparr>tc_variant_flags := v\<rparr>) listed) res =
      map2 (\<lambda>(c, v) r. c\<lparr>tc_variant_flags := v, tc_outcomes := snd r\<rparr>) listed res"
    unfolding map2_map_left by (rule map_cong) auto
  show ?thesis using 1 2 l' unfolding p m mode_cases_def pm by auto
qed

text \<open>
  The whole listing: one batch of cases and of unused rules for every pair of a path and a mode
  whose executable exists, in order.
\<close>

lemma list_tests_batches:
  assumes "foldM (list_mode n se opt cfg repos) pms l0 = Inr l"
    and l0: "all_cases l0 = []" "globally_unused_rules l0 = None"
  shows "\<exists>batches. list_all2 (\<lambda>pm (cs, us). mode_cases n se opt cfg repos pm cs us) (filter (vm_exists se) pms) batches \<and>
    all_cases l = concat (map fst batches) \<and>
    globally_unused_rules l = (if batches = [] then None else Some (\<Inter>(set (map snd batches))))"
  using assms(1)
proof (induction pms arbitrary: l rule: rev_induct)
  case Nil
  then show ?case using l0 by auto
next
  case (snoc pm pms)
  then obtain l1 where l1: "foldM (list_mode n se opt cfg repos) pms l0 = Inr l1"
    and step: "list_mode n se opt cfg repos pm l1 = Inr l" by (auto simp: foldM_snoc rbind_Inr_iff)
  from snoc.IH[OF l1] obtain batches where b:
    "list_all2 (\<lambda>pm (cs, us). mode_cases n se opt cfg repos pm cs us) (filter (vm_exists se) pms) batches"
    "all_cases l1 = concat (map fst batches)"
    "globally_unused_rules l1 = (if batches = [] then None else Some (\<Inter>(set (map snd batches))))" by blast
  show ?case
  proof (cases "vm_exists se pm")
    case False
    from list_mode_skip[OF False, of n opt cfg repos l1] step obtain out where "l = l1\<lparr>printed := out\<rparr>" by auto
    with b False show ?thesis by auto
  next
    case True
    from list_mode_cases[OF True step] obtain cs us where c: "mode_cases n se opt cfg repos pm cs us"
      "all_cases l = all_cases l1 @ cs"
      "globally_unused_rules l = Some (case globally_unused_rules l1 of None \<Rightarrow> us | Some vs \<Rightarrow> vs \<inter> us)" by blast
    have "list_all2 (\<lambda>pm (cs, us). mode_cases n se opt cfg repos pm cs us) (filter (vm_exists se) (pms @ [pm])) (batches @ [(cs, us)])"
      using b(1) c(1) True by (simp add: list_all2_appendI)
    moreover have "all_cases l = concat (map fst (batches @ [(cs, us)]))" using b c by simp
    moreover have "globally_unused_rules l = Some (\<Inter>(set (map snd (batches @ [(cs, us)]))))"
      using b(3) c(3) by (auto simp: Int_commute)
    ultimately show ?thesis by (intro exI[of _ "batches @ [(cs, us)]"]) simp
  qed
qed

section \<open>The report\<close>

lemma filter_disjoint_length:
  "(\<And>x. P x \<Longrightarrow> \<not> Q x) \<Longrightarrow> length (filter P xs) + length (filter Q xs) = length (filter (\<lambda>x. P x \<or> Q x) xs)"
  by (induction xs) auto

lemma card_two: "card A = 2 \<Longrightarrow> x \<in> A \<Longrightarrow> y \<in> A \<Longrightarrow> x \<noteq> y \<Longrightarrow> A = {x, y}"
  by (auto simp: card_2_iff)

lemma report_classes_disjoint:
  "IsFlaky s \<Longrightarrow> s \<noteq> {PASS} \<and> \<not> IsFailOk s \<and> s \<noteq> {FAIL}"
  "IsFailOk s \<Longrightarrow> s \<noteq> {PASS} \<and> s \<noteq> {FAIL}"
  by (auto simp: IsFlaky_def IsFailOk_def py_simps)

section \<open>Properties\<close>

text \<open>
  Which tests \<open>Main\<close> classifies and runs: one batch for every given path and mode whose executable
  exists, in order; each batch holds the tests that the suites list for the path, with the outcomes
  that \<open>ClassifyTests\<close> gives them in the environment of the mode; and a rule is globally unused
  when it is unused in every batch.
\<close>

theorem main_listing:
  assumes "list_tests n se opt cfg repos paths = Inr l"
  shows "\<exists>batches. list_all2 (\<lambda>pm (cs, us). mode_cases n se opt cfg repos pm cs us)
      (filter (vm_exists se) (List.product paths (opt_modes opt))) batches \<and>
    all_cases l = concat (map fst batches) \<and>
    globally_unused_rules l = (if batches = [] then None else Some (\<Inter>(set (map snd batches))))"
  using list_tests_batches[OF assms[unfolded list_tests_def]] by simp

text \<open>A suite with no tests, one path and one mode: one batch, without cases.\<close>

definition no_suite :: sys_env where
  "no_suite = \<lparr>se_system = ''Linux'', se_machine = ''x86_64'', se_workspace = [], se_entries = [],
     se_is_suite = (\<lambda>_. True), se_repository = (\<lambda>p. \<lparr>repo_name = p, repo_ListTests = (\<lambda>_ _ _. Inr []),
       repo_requirements = [], repo_GetTestStatus = Inr\<rparr>), se_exists = (\<lambda>_. True), se_abspath = id, se_dirname = id,
     se_execute = (\<lambda>_. Inl OSError), se_run = (\<lambda>_ _ _. Inr True)\<rparr>"

theorem main_listing_witness:
  "\<exists>l. list_tests 0 no_suite (BuildOptions\<lparr>opt_modes := [''release'']\<rparr>) \<lparr>sections = [], cdefs = Map.empty\<rparr> [] [[]] = Inr l \<and>
     all_cases l = [] \<and> globally_unused_rules l = Some {}"
proof -
  let ?opt = "BuildOptions\<lparr>opt_modes := [''release'']\<rparr>" and ?cfg = "\<lparr>sections = [], cdefs = Map.empty\<rparr> :: configuration"
  have cl: "ClassifyTests 0 ?cfg [] env = Inr ([], {}, {})" for env by (simp add: ClassifyTests_def)
  obtain l where l: "list_tests 0 no_suite ?opt ?cfg [] [[]] = Inr l"
    by (simp add: list_tests_def list_mode_def no_suite_def Let_def cl)
  from main_listing[OF this] obtain batches where b:
    "list_all2 (\<lambda>pm (cs, us). mode_cases 0 no_suite ?opt ?cfg [] pm cs us)
      (filter (vm_exists no_suite) (List.product [[]] (opt_modes ?opt))) batches"
    "all_cases l = concat (map fst batches)"
    "globally_unused_rules l = (if batches = [] then None else Some (\<Inter>(set (map snd batches))))" by blast
  have f: "filter (vm_exists no_suite) (List.product [[]] (opt_modes ?opt)) = [([], ''release'')]"
    by (simp add: vm_exists_def no_suite_def)
  from b(1) have "batches = [([], {})]" unfolding f
    by (auto simp: list_all2_Cons1 mode_cases_def cl)
  with b(2,3) l show ?thesis by simp
qed

text \<open>
  \<open>ProcessOptions\<close> accepts options exactly when every mode is known and a simulator does not
  contradict the architecture; the options it accepts have known modes, an architecture, and the
  simulator as the architecture if there is one. The only exception is a type error, on a machine
  whose architecture cannot be guessed when neither an architecture nor a simulator is given.
\<close>

theorem process_options_correct:
  "(\<forall>opt'. ProcessOptions guess opt = Inr (Inr opt') \<longrightarrow> options_ok opt' \<or> arch opt = None) \<and>
   (ProcessOptions guess opt = Inl e \<longrightarrow> e = TypeError \<and> simulator opt = ''none'' \<and>
      (arch opt = None \<or> arch opt = Some ''none'' \<and> guess = None)) \<and>
   ((\<exists>line. ProcessOptions guess opt = Inr (Inl line)) \<longleftrightarrow>
      \<not> list_all known_mode (py_split_chr (CHR '','') (opt_mode opt)) \<or>
      simulator opt \<noteq> ''none'' \<and> arch opt \<noteq> Some (simulator opt) \<and> arch opt \<noteq> Some ''none'')"
proof (cases "list_all known_mode (py_split_chr (CHR '','') (opt_mode opt))")
  case True
  then have f: "find (\<lambda>m. m \<notin> set [''debug'', ''release'']) (py_split_chr (CHR '','') (opt_mode opt)) = None"
    using find_mode_None by blast
  show ?thesis using True unfolding ProcessOptions_def Let_def f
    by (auto simp: options_ok_def split: option.splits if_splits)
next
  case False
  then obtain m where f: "find (\<lambda>m. m \<notin> set [''debug'', ''release'']) (py_split_chr (CHR '','') (opt_mode opt)) = Some m"
    using find_mode_None by blast
  show ?thesis using False unfolding ProcessOptions_def Let_def f by simp
qed

theorem process_options_correct_witness:
  "ProcessOptions None BuildOptions = Inl TypeError \<and>
   \<not> (\<exists>line. ProcessOptions None BuildOptions = Inr (Inl line))"
proof -
  have "ProcessOptions None BuildOptions = Inl TypeError"
    by (simp add: ProcessOptions_def BuildOptions_def Let_def)
  with process_options_correct[of None BuildOptions TypeError] show ?thesis by simp
qed

text \<open>
  No option makes \<open>Main\<close> build the requirements of the tests: the option \<open>--no-build\<close> is on by
  default and nothing turns it off, so that the result does not depend on what the build command
  would do.
\<close>

theorem main_never_builds:
  "Main n (se\<lparr>se_execute := build\<rparr>) opts args = Main n se opts args"
proof (cases "parse_args opts BuildOptions")
  case (Inr opt)
  have nb: "no_build opt" by (rule parse_args_no_build[OF Inr]) (simp add: BuildOptions_def)
  show ?thesis
  proof (cases "ProcessOptions (GuessArchitecture (se_machine se)) opt")
    case (Inr r)
    show ?thesis
    proof (cases r)
      case (Inr opt')
      then have "no_build opt'" using ProcessOptions_no_build nb \<open>ProcessOptions _ _ = Inr r\<close> by blast
      with Inr \<open>parse_args _ _ = _\<close> \<open>ProcessOptions _ _ = Inr r\<close> show ?thesis
        by (simp add: Main_def Main_from_no_build)
    qed (simp add: Main_def \<open>parse_args _ _ = _\<close> \<open>ProcessOptions _ _ = Inr r\<close>)
  qed (simp add: Main_def Inr)
qed (simp add: Main_def)

text \<open>
  The classes of the report do not overlap: the skipped, flaky, passing, failing and accepted
  failing tests together are at most the number of tests.
\<close>

theorem report_classes:
  "rep_skipped (report_counts cs) + rep_nocrash (report_counts cs) + rep_pass (report_counts cs) +
     rep_fail_ok (report_counts cs) + rep_fail (report_counts cs) \<le> rep_total (report_counts cs)"
proof -
  let ?u = "filter (\<lambda>os. \<not> SKIP \<in> os) cs"
  have pf: "{PASS} \<noteq> {FAIL}" by (simp add: py_simps)
  have "length (filter IsFlaky ?u) + length (filter (\<lambda>os. os = {PASS}) ?u) =
      length (filter (\<lambda>os. IsFlaky os \<or> os = {PASS}) ?u)"
    by (rule filter_disjoint_length) (use report_classes_disjoint in blast)
  moreover have "length (filter (\<lambda>os. IsFlaky os \<or> os = {PASS}) ?u) + length (filter IsFailOk ?u) =
      length (filter (\<lambda>os. (IsFlaky os \<or> os = {PASS}) \<or> IsFailOk os) ?u)"
    by (rule filter_disjoint_length) (use report_classes_disjoint in blast)
  moreover have "length (filter (\<lambda>os. (IsFlaky os \<or> os = {PASS}) \<or> IsFailOk os) ?u) + length (filter (\<lambda>os. os = {FAIL}) ?u) =
      length (filter (\<lambda>os. ((IsFlaky os \<or> os = {PASS}) \<or> IsFailOk os) \<or> os = {FAIL}) ?u)"
    by (rule filter_disjoint_length) (use report_classes_disjoint pf in metis)
  moreover have "length (filter (\<lambda>os. ((IsFlaky os \<or> os = {PASS}) \<or> IsFailOk os) \<or> os = {FAIL}) ?u) \<le> length ?u"
    by (rule length_filter_le)
  moreover have "length ?u \<le> length cs" by (rule length_filter_le)
  ultimately show ?thesis unfolding report_counts_def Let_def report.select_convs by linarith
qed

text \<open>
  \<open>FormatTime\<close> rounds the milliseconds without carrying into the seconds: 59.9996 seconds are
  shown as 59 seconds and no milliseconds.
\<close>

theorem format_time_no_carry: "FormatTime (599996 / 10000) = ''00:59.000''"
proof -
  have "\<lfloor>599996 / 10 + 1 / 2 :: rat\<rfloor> = 60000" "\<lfloor>599996 / 10000 :: rat\<rfloor> = 59"
    by (simp_all add: floor_eq_iff)
  moreover have "fmt_zero 2 0 = ''00''" "fmt_zero 2 59 = ''59''" "fmt_zero 3 0 = ''000''" by code_simp+
  ultimately show ?thesis by (simp add: FormatTime_def py_round_def py_int_def Let_def)
qed

end
