(* ===== verification/Test_Suites.thy ===== *)
theory Test_Suites
  imports Test_Main
begin

text \<open>
  The test suites of the repository, the modules \<^verbatim>\<open>testcfg.py\<close> under \<^verbatim>\<open>src/test/simple\<close>,
  \<^verbatim>\<open>src/test/pummel\<close>, \<^verbatim>\<open>src/test/message\<close> and \<^verbatim>\<open>src/test/internet\<close>: which tests a suite lists, the command of a test, the
  handling of the temporary directory, and the comparison of an output with the expected one. The
  runner reaches them through the records \<open>repository\<close> and \<open>test_case\<close>.

  After the definitions: a suite lists exactly the files that the path pattern selects, with the
  command that runs them; the comparison accepts exactly the outputs whose lines match the
  expected patterns; the temporary directory exists before a test starts.
\<close>

section \<open>Definitions\<close>

subsection \<open>What the suites take from outside\<close>

text \<open>
  \<open>su_read\<close> is \<open>open(f).read()\<close>, \<open>su_vm\<close> is \<open>context.GetVm\<close>. \<open>su_removed\<close> tells whether \<open>rmtree\<close>
  removes the temporary directory, \<open>su_mkdir k\<close> whether the \<open>k\<close>-th attempt of \<open>mkdir\<close> succeeds on a
  directory that does not exist; \<open>su_fuel\<close> bounds the attempts.
\<close>

record suite_env =
  su_listdir :: "string \<Rightarrow> string list result"
  su_isdir :: "string \<Rightarrow> bool"
  su_exists :: "string \<Rightarrow> bool"
  su_read :: "string \<Rightarrow> string result"
  su_vm :: "string \<Rightarrow> string"
  su_tmp_exists :: bool
  su_removed :: bool
  su_mkdir :: "nat \<Rightarrow> bool"
  su_fuel :: nat

subsection \<open>The temporary directory\<close>

text \<open>Exceptions of \<open>rmtree\<close> are swallowed; the value is whether the directory exists afterwards.\<close>

definition try_rmtree :: "suite_env \<Rightarrow> bool" where
  "try_rmtree su = (su_tmp_exists su \<and> \<not> su_removed su)"

text \<open>\<open>mkdir\<close> raises \<open>OSError\<close> when the directory exists.\<close>

definition os_mkdir :: "suite_env \<Rightarrow> nat \<Rightarrow> bool \<Rightarrow> bool result" where
  "os_mkdir su k present = (if present \<or> \<not> su_mkdir su k then Inl OSError else Inr True)"

text \<open>The loop of \<open>SimpleTestCase.BeforeRun\<close>, which keeps trying.\<close>

fun mkdir_loop :: "nat \<Rightarrow> suite_env \<Rightarrow> nat \<Rightarrow> bool \<Rightarrow> bool result" where
  "mkdir_loop n su k True = Inr True"
| "mkdir_loop 0 su k False = Inl RuntimeError"
| "mkdir_loop (Suc n) su k False =
     mkdir_loop n su (k + 1) (case os_mkdir su k False of Inl e \<Rightarrow> False | Inr b \<Rightarrow> b)"

definition Simple_BeforeRun :: "suite_env \<Rightarrow> bool result" where
  "Simple_BeforeRun su = mkdir_loop (su_fuel su) su 0 (try_rmtree su)"

definition Simple_AfterRun :: "suite_env \<Rightarrow> bool result" where
  "Simple_AfterRun su =
     (let present = try_rmtree su
      in Inr (case os_mkdir su 0 present of Inl e \<Rightarrow> present | Inr b \<Rightarrow> b))"

definition Pummel_BeforeRun :: "suite_env \<Rightarrow> bool result" where
  "Pummel_BeforeRun su = os_mkdir su 0 (try_rmtree su)"

definition Pummel_AfterRun :: "suite_env \<Rightarrow> bool result" where
  "Pummel_AfterRun su = os_mkdir su 0 (try_rmtree su)"

subsection \<open>Commands\<close>

definition FLAGS_PATTERN :: re where
  "FLAGS_PATTERN = rseq [rstr ''//'', RPlus RSpace, rstr ''Flags:'', RGroup 1 (RStar RAny)]"

definition FILES_PATTERN :: re where
  "FILES_PATTERN = rseq [rstr ''//'', RPlus RSpace, rstr ''Files:'', RGroup 1 (RStar RAny)]"

definition marked_words :: "re \<Rightarrow> string \<Rightarrow> string list" where
  "marked_words pat source =
     (case re_search pat source 0 of
        None \<Rightarrow> []
      | Some m \<Rightarrow> py_split_ws (py_strip (group_str source m 1)))"

text \<open>\<open>GetCommand\<close> of the suites \<open>simple\<close>, \<open>pummel\<close> and \<open>internet\<close>, and of \<open>message\<close>.\<close>

definition Simple_GetCommand :: "suite_env \<Rightarrow> string \<Rightarrow> string \<Rightarrow> string \<Rightarrow> string list result" where
  "Simple_GetCommand su rdir mode file =
     rmap (\<lambda>source.
       [su_vm su mode] @ marked_words FLAGS_PATTERN source @
       map (\<lambda>a_file. path_join (path_join (dirname rdir) ''..'') a_file) (marked_words FILES_PATTERN source) @
       [file]) (su_read su file)"

definition Message_GetCommand :: "suite_env \<Rightarrow> string \<Rightarrow> string \<Rightarrow> string list result" where
  "Message_GetCommand su mode file =
     rmap (\<lambda>source. [su_vm su mode] @ marked_words FLAGS_PATTERN source @ [file]) (su_read su file)"

definition Message_GetSource :: "suite_env \<Rightarrow> string \<Rightarrow> string \<Rightarrow> string result" where
  "Message_GetSource su file expected =
     rbind (su_read su file) (\<lambda>a. rmap (\<lambda>b. a @ [CHR 0x0A] @ ''--- expected output ---'' @ [CHR 0x0A] @ b)
       (su_read su expected))"

subsection \<open>The comparison of outputs\<close>

text \<open>
  The operator \<open>%\<close> of a text and a dictionary, for \<open>%%\<close> and for \<open>%(key)s\<close>; other conversions are
  \<open>Unsupported\<close>.
\<close>

function py_format :: "(string \<times> string) list \<Rightarrow> string \<Rightarrow> string result" where
  "py_format env [] = Inr []"
| "py_format env (c # cs) =
     (if c \<noteq> CHR ''%'' then rmap ((#) c) (py_format env cs)
      else case cs of
        [] \<Rightarrow> Inl ValueError
      | d # ds \<Rightarrow>
          if d = CHR ''%'' then rmap ((#) d) (py_format env ds)
          else if d \<noteq> CHR ''('' \<or> CHR ''('' \<in> set (takeWhile (\<lambda>c. c \<noteq> CHR '')'') ds) then Inl Unsupported
          else case dropWhile (\<lambda>c. c \<noteq> CHR '')'') ds of
                 [] \<Rightarrow> Inl ValueError
               | _ # after \<Rightarrow>
                   (case map_of env (takeWhile (\<lambda>c. c \<noteq> CHR '')'') ds) of
                      None \<Rightarrow> Inl KeyError
                    | Some v \<Rightarrow>
                        (case after of
                           [] \<Rightarrow> Inl ValueError
                         | e # after' \<Rightarrow>
                             if e = CHR ''s'' then rmap ((@) v) (py_format env after') else Inl Unsupported)))"
  by pat_completeness auto
termination
proof (relation "measure (length \<circ> snd)")
  fix env :: "(string \<times> string) list" and c cs d ds x after v e after'
  assume "dropWhile (\<lambda>c. c \<noteq> CHR '')'') ds = x # after" and "after = e # after'" and "cs = d # ds"
  moreover have "length (dropWhile (\<lambda>c. c \<noteq> CHR '')'') ds) \<le> length ds" by (rule length_dropWhile_le)
  ultimately show "((env, after'), env, c # cs) \<in> measure (length \<circ> snd)" by simp
qed auto

text \<open>\<open>re.escape\<close>, and the compiler for what the comparison makes of an escaped text.\<close>

definition backslash :: char where "backslash = CHR 0x5C"

definition re_escape :: "string \<Rightarrow> string" where
  "re_escape s = concat (map (\<lambda>c.
     if chr_isalpha c \<or> chr_isdigit c then [c] else if c = CHR 0x00 then backslash # ''000'' else [backslash, c]) s)"

fun compile_escaped :: "string \<Rightarrow> re result" where
  "compile_escaped [] = Inr REps"
| "compile_escaped (c # s) =
     (if c = backslash
      then (case s of
              [] \<Rightarrow> Inl Unsupported
            | d # s' \<Rightarrow>
                if chr_isalpha d then Inl Unsupported
                else if chr_isdigit d
                then (case s' of
                        e # f # s'' \<Rightarrow> if d = CHR ''0'' \<and> e = CHR ''0'' \<and> f = CHR ''0''
                          then rmap (RSeq (RLit (CHR 0x00))) (compile_escaped s'') else Inl Unsupported
                      | _ \<Rightarrow> Inl Unsupported)
                else rmap (RSeq (RLit d)) (compile_escaped s'))
      else if c = CHR ''.''
      then (case s of
              d # s' \<Rightarrow> if d = CHR ''*'' then rmap (RSeq (RStar RAny)) (compile_escaped s') else Inl Unsupported
            | [] \<Rightarrow> Inl Unsupported)
      else if chr_isalpha c \<or> chr_isdigit c then rmap (RSeq (RLit c)) (compile_escaped s)
      else Inl Unsupported)"

definition expected_pattern :: "(string \<times> string) list \<Rightarrow> string \<Rightarrow> re result" where
  "expected_pattern env line =
     rbind (py_format env (py_rstrip line)) (\<lambda>text.
       rmap (\<lambda>r. rseq [RBol, r, REol]) (compile_escaped (py_replace (re_escape text) [backslash, CHR ''*''] ''.*'')))"

definition IgnoreLine :: "string \<Rightarrow> bool" where
  "IgnoreLine str = (if str = [] then True else py_startswith str ''=='' \<or> py_startswith str ''**'')"

definition Message_IsFailureOutput :: "suite_env \<Rightarrow> string \<Rightarrow> string \<Rightarrow> command_output \<Rightarrow> bool result" where
  "Message_IsFailureOutput su file expected output =
     rbind (su_read su expected) (\<lambda>contents.
       rbind (mapM (expected_pattern [(''basename'', basename file)])
                (filter (\<lambda>line. py_strip line \<noteq> []) (py_split_chr (CHR 0x0A) contents))) (\<lambda>patterns.
         let raw_lines = py_split_chr (CHR 0x0A) (co_stdout output @ co_stderr output);
             outlines = filter (\<lambda>s. \<not> IgnoreLine s) raw_lines
         in if length outlines \<noteq> length patterns then Inr True
            else Inr (\<not> list_all2 (\<lambda>p l. re_match p l \<noteq> None) patterns outlines)))"

subsection \<open>Test cases\<close>

text \<open>The class attributes and overridden methods of each suite.\<close>

definition GetLabel :: "string \<Rightarrow> string list \<Rightarrow> string" where
  "GetLabel mode path = mode @ '' '' @ last path"

definition SimpleTestCase :: "suite_env \<Rightarrow> string \<Rightarrow> string list \<Rightarrow> string \<Rightarrow> string \<Rightarrow> test_case" where
  "SimpleTestCase su rdir path file mode = (TestCase path mode)\<lparr>
     tc_label := GetLabel mode path,
     tc_BeforeRun := rmap (\<lambda>_. ()) (Simple_BeforeRun su),
     tc_AfterRun := rmap (\<lambda>_. ()) (Simple_AfterRun su),
     tc_GetCommand := Simple_GetCommand su rdir mode file,
     tc_GetSource := su_read su file\<rparr>"

definition PummelTestCase :: "suite_env \<Rightarrow> string \<Rightarrow> string list \<Rightarrow> string \<Rightarrow> string \<Rightarrow> test_case" where
  "PummelTestCase su rdir path file mode = (TestCase path mode)\<lparr>
     tc_label := GetLabel mode path,
     tc_BeforeRun := rmap (\<lambda>_. ()) (Pummel_BeforeRun su),
     tc_AfterRun := rmap (\<lambda>_. ()) (Pummel_AfterRun su),
     tc_GetCommand := Simple_GetCommand su rdir mode file,
     tc_GetSource := su_read su file\<rparr>"

text \<open>The constructor of the suite \<open>internet\<close> calls the one of \<open>TestCase\<close> without the mode.\<close>

definition InternetTestCase :: "suite_env \<Rightarrow> string \<Rightarrow> string list \<Rightarrow> string \<Rightarrow> string \<Rightarrow> test_case result" where
  "InternetTestCase su rdir path file mode = Inl TypeError"

text \<open>
  An exception of the comparison (a missing or malformed file of expected output) has no place in
  the record of a test case; it counts as a failure there.
\<close>

definition MessageTestCase :: "suite_env \<Rightarrow> string list \<Rightarrow> string \<Rightarrow> string \<Rightarrow> string \<Rightarrow> test_case" where
  "MessageTestCase su path file expected mode = (TestCase path mode)\<lparr>
     tc_label := GetLabel mode path,
     tc_IsFailureOutput := (\<lambda>output. case Message_IsFailureOutput su file expected output of Inl e \<Rightarrow> True | Inr b \<Rightarrow> b),
     tc_GetCommand := Message_GetCommand su mode file,
     tc_GetSource := Message_GetSource su file expected\<rparr>"

subsection \<open>Configurations\<close>

definition SelectTest :: "string \<Rightarrow> bool" where
  "SelectTest name = (py_startswith name ''test-'' \<and> py_endswith name ''.js'')"

definition Simple_Ls :: "suite_env \<Rightarrow> string \<Rightarrow> string list result" where
  "Simple_Ls su path = rmap (\<lambda>fs. map (\<lambda>f. take (length f - 3) f) (filter SelectTest fs)) (su_listdir su path)"

definition Message_Ls :: "suite_env \<Rightarrow> string \<Rightarrow> string list result" where
  "Message_Ls su path =
     (if su_isdir su path
      then rmap (\<lambda>fs. map (\<lambda>f. take (length f - 3) f) (filter (\<lambda>f. py_endswith f ''.js'') fs)) (su_listdir su path)
      else Inr [])"

text \<open>The loop of \<open>ListTests\<close> over all tests; \<open>mk\<close> is what it does with a test that is selected.\<close>

fun select_tests :: "string list \<Rightarrow> (string list \<Rightarrow> 'c list result) \<Rightarrow> string list list \<Rightarrow> 'c list result" where
  "select_tests path mk [] = Inr []"
| "select_tests path mk (t # ts) =
     rbind (Contains path t) (\<lambda>b.
       rbind (if b then mk t else Inr []) (\<lambda>cs. rmap ((@) cs) (select_tests path mk ts)))"

definition test_prefix :: "string \<Rightarrow> string list \<Rightarrow> string" where
  "test_prefix rdir test = path_join rdir (foldl path_join [] (tl test))"

definition file_path :: "string \<Rightarrow> string list \<Rightarrow> string" where
  "file_path rdir test = path_join rdir (foldl path_join [] (tl test) @ ''.js'')"

definition Simple_ListTests :: "suite_env \<Rightarrow> string \<Rightarrow> string list \<Rightarrow> string list \<Rightarrow> string \<Rightarrow> test_case list result" where
  "Simple_ListTests su rdir current path mode =
     rbind (Simple_Ls su rdir) (\<lambda>names.
       select_tests path (\<lambda>test. Inr [SimpleTestCase su rdir test (file_path rdir test) mode])
         (map (\<lambda>t. current @ [t]) names))"

definition Pummel_ListTests :: "suite_env \<Rightarrow> string \<Rightarrow> string list \<Rightarrow> string list \<Rightarrow> string \<Rightarrow> test_case list result" where
  "Pummel_ListTests su rdir current path mode =
     rbind (Simple_Ls su rdir) (\<lambda>names.
       select_tests path (\<lambda>test. Inr [PummelTestCase su rdir test (file_path rdir test) mode])
         (map (\<lambda>t. current @ [t]) names))"

definition Internet_ListTests :: "suite_env \<Rightarrow> string \<Rightarrow> string list \<Rightarrow> string list \<Rightarrow> string \<Rightarrow> test_case list result" where
  "Internet_ListTests su rdir current path mode =
     rbind (Simple_Ls su rdir) (\<lambda>names.
       select_tests path (\<lambda>test. rmap (\<lambda>c. [c]) (InternetTestCase su rdir test (file_path rdir test) mode))
         (map (\<lambda>t. current @ [t]) names))"

text \<open>A test of the suite \<open>message\<close>, or the line printed when its expected output is missing.\<close>

definition message_entry :: "suite_env \<Rightarrow> string \<Rightarrow> string \<Rightarrow> string list \<Rightarrow> string + test_case" where
  "message_entry su rdir mode test =
     (let file_prefix = test_prefix rdir test;
          output_path = file_prefix @ ''.out''
      in if \<not> su_exists su output_path then Inl (''Could not find '' @ output_path)
         else Inr (MessageTestCase su test (file_prefix @ ''.js'') output_path mode))"

definition Message_entries :: "suite_env \<Rightarrow> string \<Rightarrow> string list \<Rightarrow> string list \<Rightarrow> string \<Rightarrow> (string + test_case) list result" where
  "Message_entries su rdir current path mode =
     rbind (Message_Ls su rdir) (\<lambda>names.
       select_tests path (\<lambda>test. Inr [message_entry su rdir mode test]) (map (\<lambda>t. current @ [t]) names))"

definition Message_ListTests :: "suite_env \<Rightarrow> string \<Rightarrow> string list \<Rightarrow> string list \<Rightarrow> string \<Rightarrow> test_case list result" where
  "Message_ListTests su rdir current path mode =
     rmap (\<lambda>es. concat (map (\<lambda>e. case e of Inl msg \<Rightarrow> [] | Inr c \<Rightarrow> [c]) es)) (Message_entries su rdir current path mode)"

definition suite_status :: "suite_env \<Rightarrow> string \<Rightarrow> string \<Rightarrow> test_section list \<times> defs \<Rightarrow> (test_section list \<times> defs) result" where
  "suite_status su rdir name = (\<lambda>(secs, defs).
     let status_file = path_join rdir name in
     if su_exists su status_file
     then rbind (su_read su status_file) (\<lambda>contents. rmap snd (ReadConfigurationInto contents secs defs))
     else Inr (secs, defs))"

text \<open>
  The configurations, as the runner sees them. The suites \<open>pummel\<close> and \<open>internet\<close> look for
  \<open>simple.status\<close>, as the suite they were copied from does.
\<close>

definition GetBuildRequirements :: "string list" where
  "GetBuildRequirements = [''sample'', ''sample=shell'']"

definition simple_GetConfiguration :: "suite_env \<Rightarrow> string \<Rightarrow> test_case repository" where
  "simple_GetConfiguration su rdir = \<lparr>repo_name = basename rdir, repo_ListTests = Simple_ListTests su rdir,
     repo_requirements = GetBuildRequirements, repo_GetTestStatus = suite_status su rdir ''simple.status''\<rparr>"

definition pummel_GetConfiguration :: "suite_env \<Rightarrow> string \<Rightarrow> test_case repository" where
  "pummel_GetConfiguration su rdir = \<lparr>repo_name = basename rdir, repo_ListTests = Pummel_ListTests su rdir,
     repo_requirements = GetBuildRequirements, repo_GetTestStatus = suite_status su rdir ''simple.status''\<rparr>"

definition internet_GetConfiguration :: "suite_env \<Rightarrow> string \<Rightarrow> test_case repository" where
  "internet_GetConfiguration su rdir = \<lparr>repo_name = basename rdir, repo_ListTests = Internet_ListTests su rdir,
     repo_requirements = GetBuildRequirements, repo_GetTestStatus = suite_status su rdir ''simple.status''\<rparr>"

definition message_GetConfiguration :: "suite_env \<Rightarrow> string \<Rightarrow> test_case repository" where
  "message_GetConfiguration su rdir = \<lparr>repo_name = basename rdir, repo_ListTests = Message_ListTests su rdir,
     repo_requirements = GetBuildRequirements, repo_GetTestStatus = suite_status su rdir ''message.status''\<rparr>"

section \<open>Listing\<close>

lemma select_tests_map:
  assumes "list_all plain_pattern path" and "list_all (\<lambda>t. list_all (\<lambda>f. CHR 0x0A \<notin> set f) t) ts"
  shows "select_tests path (\<lambda>t. Inr [mk t]) ts = Inr (map mk (filter (selects path) ts))"
  using assms(2)
proof (induction ts)
  case (Cons t ts)
  then show ?case using Contains_glob[OF assms(1), of t] by simp
qed simp

lemma select_tests_raise:
  assumes "list_all plain_pattern path" and "list_all (\<lambda>t. list_all (\<lambda>f. CHR 0x0A \<notin> set f) t) ts"
  shows "select_tests path (\<lambda>t. Inl e) ts = (if list_ex (selects path) ts then Inl e else Inr ([] :: 'a list))"
  using assms(2)
proof (induction ts)
  case (Cons t ts)
  then show ?case using Contains_glob[OF assms(1), of t] by simp
qed simp

text \<open>The name of a test file without its extension, and the files of a suite that are selected.\<close>

definition stem :: "string \<Rightarrow> string" where
  "stem f = take (length f - 3) f"

lemma stem_js: "py_endswith f ''.js'' \<Longrightarrow> stem f @ ''.js'' = f"
  by (auto simp: stem_def py_endswith_iff_suffix suffix_def)

definition one_line :: "string \<Rightarrow> bool" where
  "one_line s \<longleftrightarrow> CHR 0x0A \<notin> set s"

definition selected_files :: "string \<Rightarrow> string list \<Rightarrow> string list \<Rightarrow> string list" where
  "selected_files name path fs = filter (\<lambda>f. SelectTest f \<and> selects path [name, stem f]) fs"

lemma file_path_stem: "SelectTest f \<Longrightarrow> file_path rdir [name, stem f] = path_join rdir f"
  by (simp add: file_path_def path_join_def SelectTest_def stem_js)

lemma one_line_stem: "one_line f \<Longrightarrow> one_line (stem f)"
  by (auto simp: one_line_def stem_def dest: in_set_takeD)

lemma Simple_Ls_stem: "su_listdir su rdir = Inr fs \<Longrightarrow> Simple_Ls su rdir = Inr (map stem (filter SelectTest fs))"
  by (simp add: Simple_Ls_def stem_def)

lemma names_one_line:
  "one_line name \<Longrightarrow> list_all one_line fs \<Longrightarrow>
    list_all (\<lambda>t. list_all (\<lambda>f. CHR 0x0A \<notin> set f) t) (map (\<lambda>t. [name] @ [t]) (map stem (filter SelectTest fs)))"
  using one_line_stem by (auto simp: list_all_iff one_line_def)

lemma selected_map:
  "map (\<lambda>t. mk t (file_path rdir t)) (filter (selects path) (map (\<lambda>t. [name] @ [t]) (map stem (filter SelectTest fs)))) =
    map (\<lambda>f. mk [name, stem f] (path_join rdir f)) (selected_files name path fs)"
  unfolding selected_files_def by (induction fs) (auto simp: file_path_stem)

section \<open>The comparison of outputs\<close>

abbreviation self :: "char \<Rightarrow> char \<Rightarrow> bool" where
  "self \<equiv> \<lambda>p c. c = p"

lemma escape_no_star: "\<not> py_startswith (re_escape s) ''*''"
proof (cases s)
  case (Cons c s')
  have "\<not> chr_isalpha (CHR ''*'')" "\<not> chr_isdigit (CHR ''*'')" by code_simp+
  then show ?thesis by (auto simp: Cons re_escape_def backslash_def)
qed (simp add: re_escape_def)

text \<open>One character of the pattern, after \<open>re.escape\<close> and the replacement of stars.\<close>

definition pat_chr :: "char \<Rightarrow> string" where
  "pat_chr c = (if c = CHR ''*'' then ''.*'' else re_escape [c])"

lemma escape_classes: "\<not> chr_isalpha backslash" "\<not> chr_isdigit backslash" "\<not> chr_isalpha (CHR ''*'')" "\<not> chr_isdigit (CHR ''*'')"
  "\<not> chr_isalpha (CHR 0x00)" "\<not> chr_isdigit (CHR 0x00)" "\<not> chr_isalpha (CHR ''.'')" "\<not> chr_isdigit (CHR ''.'')"
  by code_simp+

lemma replace_escaped:
  "py_replace_ne 0 [backslash, CHR ''*''] ''.*'' (re_escape s) = concat (map pat_chr s)"
proof (induction s)
  case (Cons c s)
  let ?t = "re_escape s"
  have split: "re_escape (c # s) = re_escape [c] @ ?t" by (simp add: re_escape_def)
  have ns: "\<not> py_startswith ?t ''*''" by (rule escape_no_star)
  have bs: "backslash \<noteq> CHR ''*''" by (simp add: backslash_def)
  consider "c = CHR ''*''" | "chr_isalpha c \<or> chr_isdigit c" "c \<noteq> CHR ''*''" "c \<noteq> backslash" | "c = CHR 0x00" |
    "\<not> (chr_isalpha c \<or> chr_isdigit c)" "c \<noteq> CHR 0x00" "c \<noteq> CHR ''*''"
    using escape_classes by blast
  then show ?case
  proof cases
    case 1
    then have "re_escape [c] = [backslash, CHR ''*'']" by (simp add: re_escape_def escape_classes)
    then show ?thesis using Cons 1 unfolding split by (simp add: pat_chr_def eval_nat_numeral)
  next
    case 2
    then have "re_escape [c] = [c]" by (simp add: re_escape_def)
    then show ?thesis using Cons 2 unfolding split by (simp add: pat_chr_def)
  next
    case 3
    then have "re_escape [c] = backslash # ''000''" by (simp add: re_escape_def escape_classes)
    then show ?thesis using Cons 3 unfolding split by (simp add: pat_chr_def backslash_def)
  next
    case 4
    then have "re_escape [c] = [backslash, c]" by (simp add: re_escape_def)
    then show ?thesis using Cons 4 ns unfolding split by (simp add: pat_chr_def)
  qed
qed (simp add: re_escape_def)

lemma compile_pattern: "compile_escaped (concat (map pat_chr s)) = Inr (glob_re self s)"
proof (induction s)
  case (Cons c s)
  consider "c = CHR ''*''" | "chr_isalpha c \<or> chr_isdigit c" "c \<noteq> CHR ''*''" "c \<noteq> backslash" "c \<noteq> CHR ''.''" | "c = CHR 0x00" |
    "\<not> (chr_isalpha c \<or> chr_isdigit c)" "c \<noteq> CHR 0x00" "c \<noteq> CHR ''*''"
    using escape_classes by blast
  then show ?case
  proof cases
    case 1
    then show ?thesis using Cons by (simp add: pat_chr_def backslash_def)
  next
    case 2
    then show ?thesis using Cons by (auto simp: pat_chr_def re_escape_def)
  next
    case 3
    have "chr_isdigit (CHR ''0'')" "\<not> chr_isalpha (CHR ''0'')" by code_simp+
    then show ?thesis using Cons 3 by (simp add: pat_chr_def re_escape_def escape_classes)
  next
    case 4
    then show ?thesis using Cons by (simp add: pat_chr_def re_escape_def)
  qed
qed simp

lemma expected_pattern_glob:
  "expected_pattern env line = rmap (\<lambda>text. rseq [RBol, glob_re self text, REol]) (py_format env (py_rstrip line))"
  by (cases "py_format env (py_rstrip line)")
    (simp_all add: expected_pattern_def py_replace_def replace_escaped compile_pattern)

lemma split_one_line: "l \<in> set (py_split_chr (CHR 0x0A) s) \<Longrightarrow> one_line l"
  by (induction s arbitrary: l) (auto simp: one_line_def split: list.splits if_splits)

lemma match_line: "one_line l \<Longrightarrow> re_match (rseq [RBol, glob_re one p, REol]) l \<noteq> None \<longleftrightarrow> glob_with one p l"
  by (auto simp: re_match_glob one_line_def simp del: not_None_eq)

text \<open>The texts of expected lines, and the lines of an output that count.\<close>

definition expected_lines :: "string \<Rightarrow> string \<Rightarrow> string list result" where
  "expected_lines file contents =
     mapM (\<lambda>l. py_format [(''basename'', basename file)] (py_rstrip l))
       (filter (\<lambda>l. py_strip l \<noteq> []) (py_split_chr (CHR 0x0A) contents))"

definition output_lines :: "command_output \<Rightarrow> string list" where
  "output_lines out = filter (\<lambda>l. \<not> IgnoreLine l) (py_split_chr (CHR 0x0A) (co_stdout out @ co_stderr out))"

lemma mapM_rmap: "mapM (\<lambda>x. rmap g (f x)) xs = rmap (map g) (mapM f xs)"
proof (induction xs)
  case (Cons x xs)
  then show ?case by (cases "f x"; cases "mapM f xs") auto
qed simp

lemma Message_IsFailureOutput_eq:
  assumes "su_read su expected = Inr contents" and "expected_lines file contents = Inr ts"
  shows "Message_IsFailureOutput su file expected out = Inr (\<not> list_all2 (glob_with self) ts (output_lines out))"
proof -
  let ?ps = "map (\<lambda>text. rseq [RBol, glob_re self text, REol]) ts"
  have ps: "mapM (expected_pattern [(''basename'', basename file)])
      (filter (\<lambda>l. py_strip l \<noteq> []) (py_split_chr (CHR 0x0A) contents)) = Inr ?ps"
    using assms(2) unfolding expected_pattern_glob mapM_rmap by (simp add: expected_lines_def)
  have ol: "list_all one_line (output_lines out)"
    using split_one_line by (auto simp: output_lines_def list_all_iff)
  have "list_all2 (\<lambda>p l. re_match p l \<noteq> None) ?ps (output_lines out) \<longleftrightarrow> list_all2 (glob_with self) ts (output_lines out)"
    unfolding list_all2_map1 using ol
    by (intro list.rel_cong refl match_line) (auto simp: list_all_iff)
  then show ?thesis
    using list_all2_lengthD[of "glob_with self" ts "output_lines out"]
    by (auto simp: Message_IsFailureOutput_def assms(1) ps output_lines_def[symmetric] Let_def simp del: not_None_eq)
qed

section \<open>The temporary directory\<close>

lemma mkdir_loop_eq:
  "mkdir_loop n su k False = (if \<exists>j<n. su_mkdir su (k + j) then Inr True else Inl RuntimeError)"
proof (induction n arbitrary: k)
  case (Suc n)
  have "(\<exists>j<Suc n. su_mkdir su (k + j)) \<longleftrightarrow> su_mkdir su k \<or> (\<exists>j<n. su_mkdir su (Suc k + j))"
    by (subst Ex_less_Suc2) simp
  with Suc show ?case by (simp add: os_mkdir_def)
qed simp

section \<open>Properties\<close>

text \<open>
  What the suites \<open>simple\<close> and \<open>pummel\<close> list: for a directory with the files \<open>fs\<close> and a plain path
  pattern, exactly one case for each file whose name is of the form \<open>test-*.js\<close> and whose path is
  selected by the pattern, in the order of the directory; and the file that the command of the case runs
  is the one that was found.
\<close>

theorem suite_lists_selected_files:
  assumes "su_listdir su rdir = Inr fs" and "list_all plain_pattern path" and "one_line name" and "list_all one_line fs"
  shows "Simple_ListTests su rdir [name] path mode =
      Inr (map (\<lambda>f. SimpleTestCase su rdir [name, stem f] (path_join rdir f) mode) (selected_files name path fs)) \<and>
    Pummel_ListTests su rdir [name] path mode =
      Inr (map (\<lambda>f. PummelTestCase su rdir [name, stem f] (path_join rdir f) mode) (selected_files name path fs))"
  unfolding Simple_ListTests_def Pummel_ListTests_def Simple_Ls_stem[OF assms(1)]
  using selected_map[where mk = "\<lambda>t f. SimpleTestCase su rdir t f mode"]
    selected_map[where mk = "\<lambda>t f. PummelTestCase su rdir t f mode"]
  by (simp only: rbind_simps select_tests_map[OF assms(2) names_one_line[OF assms(3,4)]])

definition ex_suite :: suite_env where
  "ex_suite = \<lparr>su_listdir = (\<lambda>_. Inr [''test-a.js'', ''path.js'', ''test-b.js'']), su_isdir = (\<lambda>_. True), su_exists = (\<lambda>_. False),
     su_read = (\<lambda>_. Inr ''hello''), su_vm = (\<lambda>_. ''node''), su_tmp_exists = True, su_removed = False,
     su_mkdir = (\<lambda>_. True), su_fuel = 1\<rparr>"

theorem suite_lists_selected_files_witness:
  "Simple_ListTests ex_suite ''t/simple'' [''simple''] [''simple'', ''test-a''] ''release'' =
     Inr [SimpleTestCase ex_suite ''t/simple'' [''simple'', ''test-a''] ''t/simple/test-a.js'' ''release'']"
proof -
  let ?fs = "[''test-a.js'', ''path.js'', ''test-b.js'']"
  have l: "su_listdir ex_suite ''t/simple'' = Inr ?fs" by (simp add: ex_suite_def)
  have p: "list_all plain_pattern [''simple'', ''test-a'']" by code_simp
  have n: "one_line ''simple''" "list_all one_line ?fs" by (simp_all add: one_line_def)
  have s: "selects [''simple'', ''test-a''] [''simple'', stem ''test-a.js'']" "\<not> selects [''simple'', ''test-a''] [''simple'', stem ''test-b.js'']"
    by (simp_all add: selects_def stem_def dot_or_self_def eval_nat_numeral)
  have "\<not> SelectTest ''path.js''" "SelectTest ''test-a.js''" by code_simp+
  with s have f: "selected_files ''simple'' [''simple'', ''test-a''] ?fs = [''test-a.js'']"
    by (simp add: selected_files_def)
  have "path_join ''t/simple'' ''test-a.js'' = ''t/simple/test-a.js''" "stem ''test-a.js'' = ''test-a''" by code_simp+
  with suite_lists_selected_files[OF l p n, of "''release''"] show ?thesis unfolding f by simp
qed

text \<open>
  The suite \<open>internet\<close> cannot run: as soon as one of its files is selected, \<open>ListTests\<close> raises
  \<open>TypeError\<close>, since the constructor of its test case leaves out the mode.
\<close>

theorem internet_suite_raises:
  assumes "su_listdir su rdir = Inr fs" and "list_all plain_pattern path" and "one_line name" and "list_all one_line fs"
  shows "Internet_ListTests su rdir [name] path mode = (if selected_files name path fs = [] then Inr [] else Inl TypeError)"
proof -
  let ?ts = "map (\<lambda>t. [name] @ [t]) (map stem (filter SelectTest fs))"
  have "list_ex (selects path) ?ts \<longleftrightarrow> selected_files name path fs \<noteq> []"
    by (auto simp: selected_files_def list_ex_iff filter_empty_conv)
  then show ?thesis
    using select_tests_raise[OF assms(2) names_one_line[OF assms(3,4)], of TypeError, where 'a = test_case]
    by (simp add: Internet_ListTests_def Simple_Ls_stem[OF assms(1)] InternetTestCase_def)
qed

theorem internet_suite_raises_witness:
  "Internet_ListTests ex_suite ''t/internet'' [''internet''] [] ''release'' = Inl TypeError"
proof -
  let ?fs = "[''test-a.js'', ''path.js'', ''test-b.js'']"
  have l: "su_listdir ex_suite ''t/internet'' = Inr ?fs" by (simp add: ex_suite_def)
  have n: "one_line ''internet''" "list_all one_line ?fs" by (simp_all add: one_line_def)
  have "SelectTest ''test-a.js''" by code_simp
  then have "selected_files ''internet'' [] ?fs \<noteq> []" by (simp add: selected_files_def selects_def)
  with internet_suite_raises[OF l _ n, of "[]" "''release''"] show ?thesis by simp
qed

text \<open>
  C39. A test of the suite \<open>message\<close> fails exactly when its output does not match the expected one:
  leaving out empty lines and the lines of valgrind, the output must have as many lines as the
  expected text has non-blank lines, and each must match the expected line, in which \<open>*\<close> stands
  for any text and every other character, also those special in regular expressions, for itself.
\<close>

theorem message_comparison:
  assumes "su_read su expected = Inr contents" and "expected_lines file contents = Inr ts"
  shows "Message_IsFailureOutput su file expected out = Inr (\<not> list_all2 (glob_with self) ts (output_lines out))"
  by (rule Message_IsFailureOutput_eq[OF assms])

theorem message_comparison_witness:
  "Message_IsFailureOutput ex_suite ''a.js'' ''a.out'' (CommandOutput 0 False (''hello'' @ [CHR 0x0A]) []) = Inr False"
proof -
  have r: "su_read ex_suite ''a.out'' = Inr ''hello''" by (simp add: ex_suite_def)
  have e: "expected_lines ''a.js'' ''hello'' = Inr [''hello'']" by code_simp
  have o: "output_lines (CommandOutput 0 False (''hello'' @ [CHR 0x0A]) []) = [''hello'']" by code_simp
  show ?thesis unfolding message_comparison[OF r e] o by simp
qed

text \<open>
  The temporary directory. Before a test of the suite \<open>simple\<close>, the loop ends with the directory
  present when the old one could not be removed or one of the attempts to make it succeeds, and
  goes on for ever otherwise; afterwards nothing is raised. A test of the suite \<open>pummel\<close> is not
  run, with \<open>OSError\<close>, when the old directory cannot be removed.
\<close>

theorem temporary_directory:
  "Simple_BeforeRun su =
      (if try_rmtree su \<or> (\<exists>k<su_fuel su. su_mkdir su k) then Inr True else Inl RuntimeError) \<and>
    (\<exists>present. Simple_AfterRun su = Inr present) \<and>
    TestCase_Run prc store execute (PummelTestCase (su\<lparr>su_tmp_exists := True, su_removed := False\<rparr>) rdir path file mode) =
      Inl OSError"
proof (intro conjI)
  show "Simple_BeforeRun su =
      (if try_rmtree su \<or> (\<exists>k<su_fuel su. su_mkdir su k) then Inr True else Inl RuntimeError)"
    by (cases "try_rmtree su") (simp_all add: Simple_BeforeRun_def mkdir_loop_eq)
qed (simp_all add: Simple_AfterRun_def Let_def TestCase_Run_def PummelTestCase_def TestCase_def Pummel_BeforeRun_def
    os_mkdir_def try_rmtree_def)

end
