(* ===== verification/JS2C.thy ===== *)
theory JS2C
  imports Py_Re
begin

text \<open>
  The packer of JavaScript sources into a C header, \<^verbatim>\<open>src/tools/js2c.py\<close>: reading of the macro file,
  expansion of constants and macros, encoding of a text as a C array, and the emission of the
  header.

  After the definitions: the array decodes to the text, what expansion does to one invocation, and
  which invocations and macros it gets wrong; what the header holds.
\<close>

section \<open>Definitions\<close>

subsection \<open>Encoding\<close>

text \<open>\<open>ToCArray\<close>: the loop carries the result, the row and the column of its error message.\<close>

fun to_c_loop :: "string \<Rightarrow> string \<Rightarrow> nat \<Rightarrow> nat \<Rightarrow> string list \<Rightarrow> (string \<times> string list) result" where
  "to_c_loop filename [] row col acc = Inr ([], acc)"
| "to_c_loop filename (c # cs) row col acc =
     (let col1 = col + 1;
          nl = (c = CHR 0x0A \<or> c = CHR 0x0D);
          row2 = (if nl then row + 1 else row);
          col2 = (if nl then 0 else col1)
      in if ord c \<ge> 128
         then Inr (''non-ascii value '' @ filename @ '':'' @ str_nat row2 @ '':'' @ str_nat col2, acc)
         else to_c_loop filename cs row2 col2 (acc @ [str_nat (ord c)]))"

text \<open>A message means that the line is printed and the script exits with the code 1.\<close>

definition ToCArray :: "string \<Rightarrow> string \<Rightarrow> string result" where
  "ToCArray filename lines =
     rbind (to_c_loop filename lines 1 0 []) (\<lambda>(msg, values).
       if msg \<noteq> [] then Inl (SystemExit 1) else Inr (py_join '', '' (values @ [''0''])))"

text \<open>The name \<open>JavaScriptMinifier\<close> is not imported.\<close>

definition CompressScript :: "string \<Rightarrow> bool \<Rightarrow> string result" where
  "CompressScript lines do_jsmin = (if do_jsmin then Inl NameError else Inr lines)"

definition ReadLines :: "string \<Rightarrow> string list" where
  "ReadLines contents =
     filter (\<lambda>l. length l > 0)
       (map (\<lambda>line. py_strip (case py_find line ''#'' 0 of None \<Rightarrow> line | Some h \<Rightarrow> take h line))
         (py_split_chr (CHR 0x0A) contents))"

datatype config_value = ConfigList "string list" | ConfigString string

definition lstrip_chr :: "char \<Rightarrow> string \<Rightarrow> string" where
  "lstrip_chr c s = dropWhile (\<lambda>d. d = c) s"

definition rstrip_chr :: "char \<Rightarrow> string \<Rightarrow> string" where
  "rstrip_chr c s = rev (dropWhile (\<lambda>d. d = c) (rev s))"

definition ParseValue :: "string \<Rightarrow> config_value" where
  "ParseValue str =
     (let s = py_strip str in
      if py_startswith s ''['' \<and> py_endswith s '']''
      then ConfigList (py_split_ws (rstrip_chr (CHR '']'') (lstrip_chr (CHR ''['') s)))
      else ConfigString s)"

subsection \<open>Constants and macros\<close>

text \<open>
  A dictionary is the list of its items in the order in which Python iterates over them. A Python
  macro holds the function that \<open>eval\<close> made of its body.
\<close>

datatype macro =
    TextMacro "string list" string
  | PythonMacro "string list" "string list \<Rightarrow> string result"

fun macro_args :: "macro \<Rightarrow> string list" where
  "macro_args (TextMacro args body) = args"
| "macro_args (PythonMacro args f) = args"

definition ExpandConstants :: "string \<Rightarrow> (string \<times> string) list \<Rightarrow> string" where
  "ExpandConstants lines constants = fold (\<lambda>(key, v) ls. py_replace ls key v) constants lines"

definition dict_get :: "(string \<times> 'v) list \<Rightarrow> string \<Rightarrow> 'v result" where
  "dict_get d k = (case map_of d k of None \<Rightarrow> Inl KeyError | Some v \<Rightarrow> Inr v)"

fun macro_expand :: "macro \<Rightarrow> (string \<times> string) list \<Rightarrow> string result" where
  "macro_expand (TextMacro args body) mapping =
     Inr (fold (\<lambda>(key, v) r. py_replace r key v) mapping body)"
| "macro_expand (PythonMacro args f) mapping = rbind (mapM (dict_get mapping) args) f"

text \<open>
  The scan over the arguments of an invocation: the texts given to \<open>add_arg\<close> inside the loop, the
  start of the last one, and the end. \<open>rest\<close> is the text from \<open>fin\<close> on.
\<close>

fun scan_args :: "string \<Rightarrow> string \<Rightarrow> nat \<Rightarrow> nat \<Rightarrow> nat \<Rightarrow> string list \<times> nat \<times> nat" where
  "scan_args lines [] fin last_match height = ([], last_match, fin)"
| "scan_args lines (c # rest) fin last_match height =
     (if height = 0 then ([], last_match, fin)
      else if c = CHR '','' \<and> height = 1
      then (let (args, lm, e) = scan_args lines rest (fin + 1) (fin + 1) height
            in (py_slice lines last_match fin # args, lm, e))
      else scan_args lines rest (fin + 1) last_match
        (if c \<in> set ''({['' then height + 1 else if c \<in> set '')}]'' then height - 1 else height))"

definition call_args :: "string \<Rightarrow> nat \<Rightarrow> string list \<times> nat" where
  "call_args lines fin =
     (let (args, lm, e) = scan_args lines (drop fin lines) fin fin 1
      in (args @ [py_slice lines lm (e - 1)], e))"

text \<open>
  \<open>add_arg\<close> stores every argument under \<open>macro.args[arg_index]\<close>, and \<open>arg_index\<close> is always 0.
\<close>

definition add_arg :: "macro \<Rightarrow> nat \<Rightarrow> string \<Rightarrow> (string \<times> string) list \<Rightarrow> (string \<times> string) list result" where
  "add_arg m arg_index replacement mapping =
     (if arg_index < length (macro_args m)
      then Inr (dict_set (macro_args m ! arg_index) replacement mapping) else Inl IndexError)"

fun add_args :: "(string \<Rightarrow> string result) \<Rightarrow> macro \<Rightarrow> string list \<Rightarrow> (string \<times> string) list \<Rightarrow>
    (string \<times> string) list result" where
  "add_args rec m [] mapping = Inr mapping"
| "add_args rec m (a # as) mapping =
     rbind (rec (py_strip a)) (\<lambda>replacement. rbind (add_arg m 0 replacement mapping) (add_args rec m as))"

text \<open>
  The loop over the invocations of one macro, from the position of the next one; \<open>rec\<close> is the
  recursive call on an argument. \<open>n\<close> bounds the rounds: a macro whose expansion calls it again may
  run for ever, and \<open>RuntimeError\<close> stands for that.
\<close>

fun expand_while :: "nat \<Rightarrow> (string \<Rightarrow> string result) \<Rightarrow> string \<Rightarrow> macro \<Rightarrow> string \<Rightarrow> nat option \<Rightarrow> string result" where
  "expand_while n rec name m lines None = Inr lines"
| "expand_while 0 rec name m lines (Some start) = Inl RuntimeError"
| "expand_while (Suc n) rec name m lines (Some start) =
     (let (args, fin) = call_args lines (start + length name + 1) in
      rbind (add_args rec m args []) (\<lambda>mapping.
        rbind (macro_expand m mapping) (\<lambda>res.
          let lines' = take start lines @ res @ drop fin lines in
          expand_while n rec name m lines' (py_find lines' (name @ ''('') fin))))"

fun ExpandMacros :: "nat \<Rightarrow> string \<Rightarrow> (string \<times> macro) list \<Rightarrow> string result" where
  "ExpandMacros 0 lines macros = Inl RuntimeError"
| "ExpandMacros (Suc n) lines macros =
     foldM (\<lambda>(name, m) ls. expand_while n (\<lambda>a. ExpandMacros n a macros) name m ls (py_find ls (name @ ''('') 0))
       macros lines"

subsection \<open>The macro file\<close>

definition macro_chr :: "char \<Rightarrow> bool" where
  "macro_chr c = (chr_isalpha c \<or> chr_isdigit c \<or> c = CHR ''_'')"

definition CONST_PATTERN :: re where
  "CONST_PATTERN = rseq [RBol, rstr ''const'', RPlus RSpace, RGroup 1 (RPlus (RChr macro_chr)), RStar RSpace,
     RLit (CHR ''=''), RStar RSpace, RGroup 2 (RStar (RChr (\<lambda>c. c \<noteq> CHR '';''))), RLit (CHR '';''), REol]"

definition MACRO_TAIL :: "re list" where
  "MACRO_TAIL = [RPlus RSpace, RGroup 1 (RPlus (RChr macro_chr)), RStar RSpace, RLit (CHR ''(''),
     RGroup 2 (RStar (RChr (\<lambda>c. c \<noteq> CHR '')''))), RLit (CHR '')''), RStar RSpace, RLit (CHR ''=''), RStar RSpace,
     RGroup 3 (RStar (RChr (\<lambda>c. c \<noteq> CHR '';''))), RLit (CHR '';''), REol]"

definition MACRO_PATTERN :: re where
  "MACRO_PATTERN = rseq ([RBol, rstr ''macro''] @ MACRO_TAIL)"

definition PYTHON_MACRO_PATTERN :: re where
  "PYTHON_MACRO_PATTERN = rseq ([RBol, rstr ''python'', RPlus RSpace, rstr ''macro''] @ MACRO_TAIL)"

definition grp :: "string \<Rightarrow> rmatch_obj \<Rightarrow> nat \<Rightarrow> string" where
  "grp s m k = (case re_group s m k of None \<Rightarrow> [] | Some w \<Rightarrow> w)"

text \<open>
  One line of the macro file; \<open>py_eval\<close> is \<open>eval\<close> on the arguments and the body of a lambda. A line
  that matches nothing raises a string, which Python 2.6 turns into a type error.
\<close>

definition read_macro_line :: "(string list \<Rightarrow> string \<Rightarrow> (string list \<Rightarrow> string result) result) \<Rightarrow> string \<Rightarrow>
    (string \<times> string) list \<times> (string \<times> macro) list \<Rightarrow> ((string \<times> string) list \<times> (string \<times> macro) list) result" where
  "read_macro_line py_eval line0 = (\<lambda>(constants, macros).
     (let line = py_strip (case py_find line0 ''#'' 0 of None \<Rightarrow> line0 | Some h \<Rightarrow> take h line0) in
      if length line = 0 then Inr (constants, macros)
      else case re_match CONST_PATTERN line of
        Some m \<Rightarrow> Inr (dict_set (grp line m 1) (py_strip (grp line m 2)) constants, macros)
      | None \<Rightarrow> (case re_match MACRO_PATTERN line of
          Some m \<Rightarrow> Inr (constants, dict_set (grp line m 1)
            (TextMacro (map py_strip (py_split_chr (CHR '','') (grp line m 2))) (py_strip (grp line m 3))) macros)
        | None \<Rightarrow> (case re_match PYTHON_MACRO_PATTERN line of
            Some m \<Rightarrow>
              (let args = map py_strip (py_split_chr (CHR '','') (grp line m 2)) in
               rmap (\<lambda>f. (constants, dict_set (grp line m 1) (PythonMacro args f) macros))
                 (py_eval args (py_strip (grp line m 3))))
          | None \<Rightarrow> Inl TypeError))))"

definition ReadMacros :: "(string list \<Rightarrow> string \<Rightarrow> (string list \<Rightarrow> string result) result) \<Rightarrow> string list \<Rightarrow>
    ((string \<times> string) list \<times> (string \<times> macro) list) result" where
  "ReadMacros py_eval lines = foldM (read_macro_line py_eval) lines ([], [])"

subsection \<open>The header\<close>

definition nl :: string where "nl = [CHR 0x0A]"
definition dq :: string where "dq = [CHR 0x22]"

definition HEADER_TEMPLATE :: "string \<Rightarrow> string \<Rightarrow> string" where
  "HEADER_TEMPLATE source_lines native_lines =
     ''#ifndef node_natives_h'' @ nl @ ''#define node_natives_h'' @ nl @ ''namespace node {'' @ nl @ nl @
     source_lines @ nl @
     ''struct _native {'' @ nl @ ''  const char* name;'' @ nl @ ''  const char* source;'' @ nl @
     ''  size_t source_len;'' @ nl @ ''};'' @ nl @ nl @
     ''static const struct _native natives[] = {'' @ nl @ nl @ native_lines @ nl @
     ''  { NULL, NULL } /* sentinel */'' @ nl @ nl @ ''};'' @ nl @ nl @ ''}'' @ nl @ ''#endif'' @ nl"

definition NATIVE_DECLARATION :: "string \<Rightarrow> string" where
  "NATIVE_DECLARATION i = ''  { '' @ dq @ i @ dq @ '', '' @ i @ ''_native, sizeof('' @ i @ ''_native)-1 },'' @ nl"

definition SOURCE_DECLARATION :: "string \<Rightarrow> string \<Rightarrow> string" where
  "SOURCE_DECLARATION i data = ''  const char '' @ i @ ''_native[] = { '' @ data @ '' };'' @ nl"

definition GET_DELAY_INDEX_CASE :: "string \<Rightarrow> nat \<Rightarrow> string" where
  "GET_DELAY_INDEX_CASE i k = ''    if (strcmp(name, '' @ dq @ i @ dq @ '') == 0) return '' @ str_nat k @ '';'' @ nl"

definition GET_DELAY_SCRIPT_SOURCE_CASE :: "string \<Rightarrow> nat \<Rightarrow> nat \<Rightarrow> string" where
  "GET_DELAY_SCRIPT_SOURCE_CASE i len k =
     ''    if (index == '' @ str_nat k @ '') return Vector<const char>('' @ i @ '', '' @ str_nat len @ '');'' @ nl"

definition GET_DELAY_SCRIPT_NAME_CASE :: "string \<Rightarrow> nat \<Rightarrow> nat \<Rightarrow> string" where
  "GET_DELAY_SCRIPT_NAME_CASE name len k =
     ''    if (index == '' @ str_nat k @ '') return Vector<const char>('' @ dq @ name @ dq @ '', '' @ str_nat len @ '');'' @ nl"

text \<open>The last component of a path, and \<open>s[:-k]\<close>.\<close>

definition path_tail :: "string \<Rightarrow> string" where
  "path_tail s = last (py_split_chr (CHR ''/'') s)"

definition drop_last :: "nat \<Rightarrow> 'a list \<Rightarrow> 'a list" where
  "drop_last k s = take (length s - k) s"

definition module_id :: "string \<Rightarrow> string" where
  "module_id s =
     (let i = drop_last 3 (path_tail s) in if py_endswith s ''-delay.js'' then drop_last 6 i else i)"

text \<open>
  What the packer takes from outside: the files, \<open>eval\<close>, and the order in which the two
  dictionaries are iterated.
\<close>

record js2c_env =
  je_file :: "string \<Rightarrow> string result"
  je_eval :: "string list \<Rightarrow> string \<Rightarrow> (string list \<Rightarrow> string result) result"
  je_const_items :: "(string \<times> string) list \<Rightarrow> (string \<times> string) list"
  je_macro_items :: "(string \<times> macro) list \<Rightarrow> (string \<times> macro) list"

record js2c_state =
  ids :: "(string \<times> nat) list"
  delay_ids :: "(string \<times> nat) list"
  source_lines :: "string list"
  source_lines_empty :: "string list"
  native_lines :: "string list"

fun find_macros :: "js2c_env \<Rightarrow> string list \<Rightarrow> (string \<times> string) list \<times> (string \<times> macro) list \<Rightarrow>
    ((string \<times> string) list \<times> (string \<times> macro) list) result" where
  "find_macros je [] cm = Inr cm"
| "find_macros je (s # ss) cm =
     (if path_tail s = ''macros.py''
      then rbind (je_file je s) (\<lambda>text. rbind (ReadMacros (je_eval je) (ReadLines text)) (find_macros je ss))
      else find_macros je ss cm)"

definition jsmin_marker :: string where
  "jsmin_marker = ''// jsminify this file, js2c: jsmin''"

text \<open>The text of a module that is packed.\<close>

definition module_text :: "nat \<Rightarrow> js2c_env \<Rightarrow> (string \<times> string) list \<Rightarrow> (string \<times> macro) list \<Rightarrow> string \<Rightarrow> string result" where
  "module_text n je consts macros s =
     rbind (je_file je s) (\<lambda>lines.
       let do_jsmin = (py_find lines jsmin_marker 0 \<noteq> None) in
       rbind (ExpandMacros n (ExpandConstants lines (je_const_items je consts)) (je_macro_items je macros)) (\<lambda>lines'.
         CompressScript lines' do_jsmin))"

definition pack_module :: "nat \<Rightarrow> js2c_env \<Rightarrow> (string \<times> string) list \<Rightarrow> (string \<times> macro) list \<Rightarrow> string \<Rightarrow> js2c_state \<Rightarrow>
    js2c_state result" where
  "pack_module n je consts macros s st =
     rbind (module_text n je consts macros s) (\<lambda>lines.
       rbind (ToCArray s lines) (\<lambda>data.
         let i = module_id s;
             st1 = (if py_endswith s ''-delay.js'' then st\<lparr>delay_ids := delay_ids st @ [(i, length lines)]\<rparr>
                    else st\<lparr>ids := ids st @ [(i, length lines)]\<rparr>)
         in Inr (st1\<lparr>source_lines := source_lines st1 @ [SOURCE_DECLARATION i data],
                     source_lines_empty := source_lines_empty st1 @ [SOURCE_DECLARATION i ''0''],
                     native_lines := native_lines st1 @ [NATIVE_DECLARATION i]\<rparr>)))"

text \<open>The support cases for delayed scripts; the header of this repository does not use them.\<close>

definition delay_cases :: "js2c_state \<Rightarrow> (string \<times> string \<times> string) list" where
  "delay_cases st =
     map (\<lambda>(k, i, len). (GET_DELAY_INDEX_CASE i k, GET_DELAY_SCRIPT_SOURCE_CASE i len k,
          let native_name = ''native '' @ i @ ''.js'' in GET_DELAY_SCRIPT_NAME_CASE native_name (length native_name) k))
       (enumerate 0 (delay_ids st @ ids st))"

text \<open>
  \<open>JS2C\<close>: the files written, and how it ends. The second target is opened, which empties it, and the
  template for its text lacks the value of \<open>native_lines\<close>.
\<close>

definition JS2C :: "nat \<Rightarrow> js2c_env \<Rightarrow> string list \<Rightarrow> string list \<Rightarrow> (string \<times> string) list \<times> unit result" where
  "JS2C n je source target =
     (case rbind (find_macros je source ([], [])) (\<lambda>(consts, macros).
             foldM (pack_module n je consts macros) (filter (\<lambda>s. path_tail s \<noteq> ''macros.py'') source)
               \<lparr>ids = [], delay_ids = [], source_lines = [], source_lines_empty = [], native_lines = []\<rparr>) of
        Inl e \<Rightarrow> ([], Inl e)
      | Inr st \<Rightarrow>
          (case target of
             [] \<Rightarrow> ([], Inl IndexError)
           | t # ts \<Rightarrow>
               ((t, HEADER_TEMPLATE (py_join nl (source_lines st)) (py_join nl (native_lines st))) #
                  (case ts of [] \<Rightarrow> [] | t2 # _ \<Rightarrow> [(t2, [])]),
                if ts = [] then Inr () else Inl KeyError)))"

definition js2c_main :: "nat \<Rightarrow> js2c_env \<Rightarrow> string list \<Rightarrow> (string \<times> string) list \<times> unit result" where
  "js2c_main n je argv = (case argv of
     prog # natives # source_files \<Rightarrow> JS2C n je source_files [natives]
   | _ \<Rightarrow> ([], Inl IndexError))"

section \<open>Encoding\<close>

text \<open>Reading the array back: its values, in order.\<close>

definition c_values :: "string \<Rightarrow> nat list" where
  "c_values a = map (\<lambda>w. nat_of_str (py_strip w)) (py_split_chr (CHR '','') a)"

definition ascii :: "string \<Rightarrow> bool" where
  "ascii s \<longleftrightarrow> list_all (\<lambda>c. ord c < 128) s"

definition c_array :: "string \<Rightarrow> string" where
  "c_array s = py_join '', '' (map (\<lambda>c. str_nat (ord c)) s @ [''0''])"

lemma to_c_loop_ascii: "ascii s \<Longrightarrow> to_c_loop f s row col acc = Inr ([], acc @ map (\<lambda>c. str_nat (ord c)) s)"
  by (induction s arbitrary: row col acc) (auto simp: ascii_def Let_def)

lemma to_c_loop_bad: "\<not> ascii s \<Longrightarrow> \<exists>msg vs. msg \<noteq> [] \<and> to_c_loop f s row col acc = Inr (msg, vs)"
  by (induction s arbitrary: row col acc) (auto simp: ascii_def Let_def)

lemma ToCArray_eq: "ToCArray f s = (if ascii s then Inr (c_array s) else Inl (SystemExit 1))"
proof (cases "ascii s")
  case True
  then show ?thesis by (simp add: ToCArray_def to_c_loop_ascii c_array_def)
next
  case False
  with to_c_loop_bad[OF False, of f 1 0 "[]"] show ?thesis by (auto simp: ToCArray_def)
qed

lemma str_nat_nonempty [simp]: "str_nat n \<noteq> []"
  by (subst str_nat.simps) simp

lemma digit_not_special: "chr_isdigit c \<Longrightarrow> c \<noteq> CHR '','' \<and> \<not> chr_isspace c"
  by (auto simp: py_simps)

lemma str_nat_clean: "CHR '','' \<notin> set (str_nat n)" "py_strip (str_nat n) = str_nat n"
proof -
  show "CHR '','' \<notin> set (str_nat n)" using set_str_nat digit_not_special by blast
  have "\<not> chr_isspace (hd (str_nat n))" "\<not> chr_isspace (last (str_nat n))"
    using set_str_nat digit_not_special hd_in_set[OF str_nat_nonempty] last_in_set[OF str_nat_nonempty] by blast+
  then show "py_strip (str_nat n) = str_nat n" by (intro py_strip_id) simp_all
qed

lemma split_join_comma_space:
  "list_all (\<lambda>w. CHR '','' \<notin> set w) (w # ws) \<Longrightarrow>
   py_split_chr (CHR '','') (py_join '', '' (w # ws)) = w # map (\<lambda>v. CHR '' '' # v) ws"
proof (induction ws arbitrary: w)
  case Nil
  then show ?case by (simp add: py_split_chr_no_sep)
next
  case (Cons v ws)
  then have IH: "py_split_chr (CHR '','') (py_join '', '' (v # ws)) = v # map (\<lambda>v. CHR '' '' # v) ws" by simp
  have "py_join '', '' (w # v # ws) = w @ CHR '','' # (CHR '' '' # py_join '', '' (v # ws))" by simp
  then show ?case using Cons.prems IH by (simp only: list.pred_inject py_split_chr_sep) (simp add: py_split_chr_sep)
qed

lemma py_strip_space: "py_strip (CHR '' '' # s) = py_strip s"
  by (simp add: py_strip_def py_lstrip_def chr_isspace_def)

lemma c_values_c_array: "c_values (c_array s) = map ord s @ [0]"
proof -
  have z: "''0'' = str_nat 0" by code_simp
  have c: "c_array s = py_join '', '' (map str_nat (map ord s @ [0]))" by (simp add: c_array_def z o_def)
  obtain n ns where ns: "map ord s @ [0] = n # ns" by (cases s) simp_all
  have "list_all (\<lambda>w. CHR '','' \<notin> set w) (map str_nat (n # ns))" by (simp add: list_all_iff str_nat_clean)
  then have "py_split_chr (CHR '','') (c_array s) = str_nat n # map (\<lambda>v. CHR '' '' # v) (map str_nat ns)"
    unfolding c ns list.map by (rule split_join_comma_space)
  then show ?thesis unfolding ns by (simp add: c_values_def str_nat_clean py_strip_space o_def)
qed

section \<open>Macros\<close>

text \<open>An argument without commas and brackets.\<close>

definition flat :: "string \<Rightarrow> bool" where
  "flat s \<longleftrightarrow> list_all (\<lambda>c. c \<notin> set '',({[)}]'') s"

lemma scan_args_flat:
  "flat a \<Longrightarrow> scan_args lines (a @ CHR '')'' # rest) fin lm 1 = ([], lm, fin + length a + 1)"
proof (induction a arbitrary: fin)
  case Nil
  show ?case by (cases rest) simp_all
next
  case (Cons c a)
  then have "c \<notin> set '',({[)}]''" "flat a" by (simp_all add: flat_def)
  with Cons.IH[of "fin + 1"] show ?case by simp
qed

lemma call_args_flat:
  assumes "flat a"
  shows "call_args (pre @ a @ CHR '')'' # post) (length pre) = ([a], length pre + length a + 1)"
  using scan_args_flat[OF assms, of "pre @ a @ CHR '')'' # post" post "length pre" "length pre"]
  by (simp add: call_args_def py_slice_def)

definition invocation :: "string \<Rightarrow> string \<Rightarrow> string" where
  "invocation name a = name @ ''('' @ a @ '')''"

lemma expand_while_one:
  assumes "flat a" and "rec (py_strip a) = Inr r"
  shows "expand_while (Suc n) rec name (TextMacro (x # xs) body) (pre @ invocation name a @ post) (Some (length pre)) =
    (let lines' = pre @ py_replace body x r @ post in
     expand_while n rec name (TextMacro (x # xs) body) lines'
       (py_find lines' (name @ ''('') (length pre + length (invocation name a))))"
proof -
  let ?lines = "pre @ invocation name a @ post"
  have "?lines = (pre @ name @ ''('') @ a @ CHR '')'' # post" by (simp add: invocation_def)
  from call_args_flat[OF assms(1), of "pre @ name @ ''(''" post]
  have "call_args ?lines (length pre + length name + 1) = ([a], length pre + length (invocation name a))"
    by (simp add: invocation_def)
  then show ?thesis using assms(2) by (simp add: add_arg_def Let_def)
qed

lemma find_prefix: "py_find (w @ s) w 0 = Some 0"
proof (cases "w @ s")
  case (Cons c t)
  have "py_startswith (w @ s) w" by (simp add: py_startswith_def)
  then show ?thesis using Cons by (simp add: py_find_def)
qed (simp add: py_find_def)

lemma ExpandMacros_absent:
  "py_find s (name @ ''('') 0 = None \<Longrightarrow> ExpandMacros (Suc n) s [(name, m)] = Inr s"
  by simp

lemma expand_single:
  assumes "py_find (pre @ invocation name a @ post) (name @ ''('') 0 = Some (length pre)" and "flat a"
    and "py_find (py_strip a) (name @ ''('') 0 = None"
    and "py_find (pre @ py_replace body x (py_strip a) @ post) (name @ ''('') (length pre + length (invocation name a)) = None"
  shows "ExpandMacros (Suc (Suc n)) (pre @ invocation name a @ post) [(name, TextMacro (x # xs) body)] =
    Inr (pre @ py_replace body x (py_strip a) @ post)"
proof -
  let ?ms = "[(name, TextMacro (x # xs) body)]"
  have r: "ExpandMacros (Suc n) (py_strip a) ?ms = Inr (py_strip a)" by (rule ExpandMacros_absent[OF assms(3)])
  note one = expand_while_one[where rec = "\<lambda>a. ExpandMacros (Suc n) a ?ms" and n = n and name = name and x = x and
      xs = xs and body = body and pre = pre and post = post, OF assms(2) r]
  have "expand_while (Suc n) (\<lambda>a. ExpandMacros (Suc n) a ?ms) name (TextMacro (x # xs) body)
      (pre @ invocation name a @ post) (py_find (pre @ invocation name a @ post) (name @ ''('') 0) =
    Inr (pre @ py_replace body x (py_strip a) @ post)"
    unfolding assms(1) one Let_def assms(4) by simp
  then show ?thesis by (subst ExpandMacros.simps) simp
qed

text \<open>A macro whose body calls itself past the place where the search goes on.\<close>

definition loop_macro :: macro where
  "loop_macro = TextMacro [''x''] ''zzzz M(x)''"

fun loop_text :: "nat \<Rightarrow> string" where
  "loop_text 0 = []"
| "loop_text (Suc k) = ''zzzz '' @ loop_text k"

lemma loop_text_length: "length (loop_text k) = 5 * k"
  by (induction k) simp_all

lemma loop_text_snoc: "loop_text (Suc k) = loop_text k @ ''zzzz ''"
  by (induction k) simp_all

lemma loop_expand:
  assumes "rec ''a'' = Inr ''a'' \<or> rec ''a'' = Inl RuntimeError"
  shows "expand_while n rec ''M'' loop_macro (loop_text k @ ''M(a)'') (Some (5 * k)) = Inl RuntimeError"
proof (induction n arbitrary: k)
  case (Suc n)
  let ?pre = "loop_text k"
  have inv: "''M(a)'' = invocation ''M'' ''a''" by (simp add: invocation_def)
  have fl: "flat ''a''" by (simp add: flat_def)
  have st: "py_strip ''a'' = ''a''" by code_simp
  have rep: "py_replace ''zzzz M(x)'' ''x'' ''a'' = ''zzzz M(a)''" by code_simp
  show ?case
  proof (cases "rec ''a''")
    case (Inl e)
    have "call_args (?pre @ ''M(a)'') (length ?pre + 2) = ([''a''], length ?pre + 4)"
      using call_args_flat[OF fl, of "?pre @ ''M(''" "[]"] by simp
    with Inl assms show ?thesis by (simp add: loop_text_length st)
  next
    case (Inr r)
    with assms have r: "rec (py_strip ''a'') = Inr ''a''" by (simp add: st)
    have find: "py_find (?pre @ ''zzzz M(a)'') ''M('' (Suc (Suc (Suc (Suc (5 * k))))) = Some (5 * Suc k)"
      by (simp add: py_find_def loop_text_length)
    have "loop_text k @ ''zzzz M(a)'' = loop_text (Suc k) @ ''M(a)''" unfolding loop_text_snoc by simp
    with expand_while_one[where rec = rec and a = "''a''" and r = "''a''" and n = n and name = "''M''" and x = "''x''" and
        xs = "[]" and body = "''zzzz M(x)''" and pre = ?pre and post = "[]", OF fl r] Suc.IH[of "Suc k"] find
    show ?thesis by (simp add: loop_macro_def[symmetric] loop_text_length rep Let_def invocation_def del: loop_text.simps)
  qed
qed simp

lemma macro_keys:
  assumes "add_args rec m as mapping = Inr mapping'" and "fst ` set mapping \<subseteq> {macro_args m ! 0}"
  shows "fst ` set mapping' \<subseteq> {macro_args m ! 0}"
  using assms
proof (induction as arbitrary: mapping)
  case (Cons a as)
  then obtain r mapping1 where "rec (py_strip a) = Inr r" and m1: "add_arg m 0 r mapping = Inr mapping1"
    and rest: "add_args rec m as mapping1 = Inr mapping'" by (auto simp: rbind_Inr_iff)
  from m1 Cons.prems(2) have "fst ` set mapping1 \<subseteq> {macro_args m ! 0}"
    using keys_dict_set[of "macro_args m ! 0" r mapping] by (simp add: add_arg_def split: if_splits)
  from Cons.IH[OF rest this] show ?case .
qed simp

lemma python_macro_expand_fails:
  assumes "fst ` set mapping \<subseteq> {a}" and "b \<noteq> a" and "b \<in> set args"
  shows "macro_expand (PythonMacro args f) mapping = Inl KeyError"
proof -
  have b: "dict_get mapping b = Inl KeyError"
    using assms(1,2) by (auto simp: dict_get_def map_of_eq_None_iff split: option.splits dest: map_of_SomeD)
  have k: "dict_get mapping x = Inl e \<Longrightarrow> e = KeyError" for x e by (auto simp: dict_get_def split: option.splits)
  have "mapM (dict_get mapping) args = Inl KeyError" using assms(3)
  proof (induction args)
    case (Cons x xs)
    then show ?case
      by (cases "dict_get mapping x") (use b k in \<open>auto simp: rmap_def\<close>)
  qed simp
  then show ?thesis by simp
qed

section \<open>The header\<close>

definition empty_state :: js2c_state where
  "empty_state = \<lparr>ids = [], delay_ids = [], source_lines = [], source_lines_empty = [], native_lines = []\<rparr>"

lemma pack_modules:
  assumes "\<forall>s \<in> set ms. module_text n je cons macros s = Inr (txt s) \<and> ascii (txt s)"
  shows "\<exists>st'. foldM (pack_module n je cons macros) ms st = Inr st' \<and>
    source_lines st' = source_lines st @ map (\<lambda>s. SOURCE_DECLARATION (module_id s) (c_array (txt s))) ms \<and>
    native_lines st' = native_lines st @ map (\<lambda>s. NATIVE_DECLARATION (module_id s)) ms"
  using assms
proof (induction ms arbitrary: st)
  case (Cons s ms)
  have s: "module_text n je cons macros s = Inr (txt s)" "ascii (txt s)" using Cons.prems by auto
  obtain st1 where st1: "pack_module n je cons macros s st = Inr st1"
    "source_lines st1 = source_lines st @ [SOURCE_DECLARATION (module_id s) (c_array (txt s))]"
    "native_lines st1 = native_lines st @ [NATIVE_DECLARATION (module_id s)]"
    using s by (auto simp: pack_module_def ToCArray_eq Let_def)
  have "\<forall>s \<in> set ms. module_text n je cons macros s = Inr (txt s) \<and> ascii (txt s)" using Cons.prems by simp
  from Cons.IH[OF this, of st1] st1 show ?case by auto
qed simp

lemma pack_modules_fail:
  assumes "foldM (pack_module n je cons macros) ms st = Inr st'" and "s \<in> set ms"
  shows "\<exists>txt. module_text n je cons macros s = Inr txt \<and> ascii txt"
  using assms
proof (induction ms arbitrary: st)
  case (Cons x ms)
  then obtain st1 where x: "pack_module n je cons macros x st = Inr st1"
    and rest: "foldM (pack_module n je cons macros) ms st1 = Inr st'" by (auto simp: rbind_Inr_iff)
  from x have "\<exists>txt. module_text n je cons macros x = Inr txt \<and> ascii txt"
    by (auto simp: pack_module_def rbind_Inr_iff ToCArray_eq split: if_splits)
  with Cons.IH[OF rest] Cons.prems(2) show ?case by auto
qed simp

definition js_modules :: "string list \<Rightarrow> string list" where
  "js_modules source = filter (\<lambda>s. path_tail s \<noteq> ''macros.py'') source"

section \<open>Properties\<close>

text \<open>
  Encoding a text as a C array and reading the values back gives the codes of its characters
  and a final 0, for every text of ASCII characters; any other text ends the script with the exit
  code 1 and no array.
\<close>

theorem to_c_array_roundtrip:
  "(if ascii s then \<exists>a. ToCArray f s = Inr a \<and> c_values a = map ord s @ [0] else ToCArray f s = Inl (SystemExit 1))"
  by (simp add: ToCArray_eq c_values_c_array)

text \<open>
  C27. The header holds every module: when the texts of all modules can be made and are ASCII, \<open>JS2C\<close>
  with one target writes that target and nothing else, with one array declaration for each module,
  in the order of the sources, whose array is the encoding of the expanded text, and one entry of
  the table of natives for each.
\<close>

theorem js2c_packs_modules:
  assumes "find_macros je source ([], []) = Inr (cons, macros)"
    and "\<forall>s \<in> set (js_modules source). module_text n je cons macros s = Inr (txt s) \<and> ascii (txt s)"
  shows "JS2C n je source [t] =
    ([(t, HEADER_TEMPLATE
        (py_join nl (map (\<lambda>s. SOURCE_DECLARATION (module_id s) (c_array (txt s))) (js_modules source)))
        (py_join nl (map (\<lambda>s. NATIVE_DECLARATION (module_id s)) (js_modules source))))], Inr ())"
proof -
  from pack_modules[OF assms(2), of empty_state] obtain st' where
    "foldM (pack_module n je cons macros) (js_modules source) empty_state = Inr st'"
    "source_lines st' = map (\<lambda>s. SOURCE_DECLARATION (module_id s) (c_array (txt s))) (js_modules source)"
    "native_lines st' = map (\<lambda>s. NATIVE_DECLARATION (module_id s)) (js_modules source)"
    by (auto simp: empty_state_def)
  then show ?thesis by (simp add: JS2C_def assms(1) js_modules_def empty_state_def)
qed

theorem js2c_packs_modules_witness:
  "snd (JS2C 1 \<lparr>je_file = (\<lambda>f. Inr ''ab''), je_eval = (\<lambda>_ _. Inl TypeError), je_const_items = id, je_macro_items = id\<rparr>
     [''lib/m.js''] [''out.h'']) = Inr ()"
proof -
  let ?je = "\<lparr>je_file = (\<lambda>f. Inr ''ab''), je_eval = (\<lambda>_ _. Inl TypeError), je_const_items = id, je_macro_items = id\<rparr>"
  have pt: "path_tail ''lib/m.js'' = ''m.js''" by code_simp
  have f: "find_macros ?je [''lib/m.js''] ([], []) = Inr ([], [])" by (simp add: pt)
  have m: "js_modules [''lib/m.js''] = [''lib/m.js'']" by (simp add: js_modules_def pt)
  have "py_find ''ab'' jsmin_marker 0 = None" by code_simp
  then have "\<forall>s \<in> set (js_modules [''lib/m.js'']). module_text 1 ?je [] [] s = Inr ''ab'' \<and> ascii ''ab''"
    by (simp add: m module_text_def ExpandConstants_def CompressScript_def ascii_def Let_def)
  from js2c_packs_modules[OF f this] show ?thesis by simp
qed

text \<open>
  When \<open>JS2C\<close> ends without an exception, the text of every module was expanded and is ASCII, and
  exactly one file was written. With two targets it always ends in an exception: the template
  for the second one lacks the value of \<open>native_lines\<close>.
\<close>

theorem js2c_success:
  assumes "JS2C n je source target = (writes, Inr ())"
  shows "(\<exists>t text. target = [t] \<and> writes = [(t, text)]) \<and>
    (\<exists>cons macros. find_macros je source ([], []) = Inr (cons, macros) \<and>
      list_all (\<lambda>s. \<exists>txt. module_text n je cons macros s = Inr txt \<and> ascii txt) (js_modules source))"
proof -
  obtain st cons macros where f: "find_macros je source ([], []) = Inr (cons, macros)"
    and p: "foldM (pack_module n je cons macros) (js_modules source) empty_state = Inr st"
    and t: "\<exists>t text. target = [t] \<and> writes = [(t, text)]"
    using assms unfolding JS2C_def js_modules_def empty_state_def
    by (auto simp: rbind_Inr_iff split: sum.splits list.splits if_splits)
  with pack_modules_fail[OF p] show ?thesis by (auto simp: list_all_iff)
qed

theorem js2c_success_witness:
  "\<exists>w. JS2C 0 \<lparr>je_file = (\<lambda>f. Inl IOError), je_eval = (\<lambda>_ _. Inl TypeError), je_const_items = id, je_macro_items = id\<rparr>
     [] [''out.h''] = (w, Inr ()) \<and> length w = 1"
proof -
  let ?je = "\<lparr>je_file = (\<lambda>f. Inl IOError), je_eval = (\<lambda>_ _. Inl TypeError), je_const_items = id, je_macro_items = id\<rparr>"
  obtain w where w: "JS2C 0 ?je [] [''out.h''] = (w, Inr ())" by (simp add: JS2C_def)
  from js2c_success[OF this] w show ?thesis by auto
qed

text \<open>
  Expansion of a text macro with one invocation: when the argument has no commas or brackets
  and calls no macro, and the search from the old end of the invocation finds no other, the
  invocation is replaced by the body in which the first parameter is replaced by the stripped
  argument; the text around it stays.
\<close>

theorem expand_single_invocation:
  assumes "py_find (pre @ invocation name a @ post) (name @ ''('') 0 = Some (length pre)" and "flat a"
    and "py_find (py_strip a) (name @ ''('') 0 = None"
    and "py_find (pre @ py_replace body x (py_strip a) @ post) (name @ ''('') (length pre + length (invocation name a)) = None"
  shows "ExpandMacros (Suc (Suc n)) (pre @ invocation name a @ post) [(name, TextMacro (x # xs) body)] =
    Inr (pre @ py_replace body x (py_strip a) @ post)"
  by (rule expand_single[OF assms])

theorem expand_single_invocation_witness:
  "ExpandMacros 2 ''i(N(4))'' [(''N'', TextMacro [''x''] ''x+1'')] = Inr ''i(4+1)''"
proof -
  have i: "''i('' @ invocation ''N'' ''4'' @ '')'' = ''i(N(4))''" by (simp add: invocation_def)
  have "py_find (''i('' @ invocation ''N'' ''4'' @ '')'') (''N'' @ ''('') 0 = Some (length ''i('')" by code_simp
  moreover have "flat ''4''" by (simp add: flat_def)
  moreover have "py_find (py_strip ''4'') (''N'' @ ''('') 0 = None" by code_simp
  moreover have "py_find (''i('' @ py_replace ''x+1'' ''x'' (py_strip ''4'') @ '')'') (''N'' @ ''('')
      (length ''i('' + length (invocation ''N'' ''4'')) = None" by code_simp
  ultimately have "ExpandMacros (Suc (Suc 0)) (''i('' @ invocation ''N'' ''4'' @ '')'') [(''N'', TextMacro [''x''] ''x+1'')] =
      Inr (''i('' @ py_replace ''x+1'' ''x'' (py_strip ''4'') @ '')'')"
    by (rule expand_single_invocation)
  moreover have "py_replace ''x+1'' ''x'' (py_strip ''4'') = ''4+1''" by code_simp
  ultimately show ?thesis unfolding i by (simp add: eval_nat_numeral)
qed

text \<open>
  Two invocations in a row: the search for the next invocation starts at the end of the old one
  in the new text, so that with a macro whose body is empty, as the build makes for every probe, the
  second of two adjacent invocations is left in the text when its argument is not longer.
\<close>

theorem adjacent_invocation_skipped:
  assumes "flat a" and "py_find (py_strip a) (name @ ''('') 0 = None" and "length b \<le> length a" and "x \<noteq> []"
  shows "ExpandMacros (Suc (Suc n)) (invocation name a @ invocation name b) [(name, TextMacro [x] [])] =
    Inr (invocation name b)"
proof -
  have "py_find ([] @ invocation name a @ invocation name b) (name @ ''('') 0 = Some (length [])"
    using find_prefix[of "name @ ''(''"] by (simp add: invocation_def)
  moreover have "py_find ([] @ py_replace [] x (py_strip a) @ invocation name b) (name @ ''('')
      (length [] + length (invocation name a)) = None"
    using assms(3,4) by (auto simp: py_replace_def py_find_def invocation_def)
  ultimately show ?thesis
    using expand_single[of "[]"] assms(1,2,4) by (simp add: py_replace_def)
qed

theorem adjacent_invocation_skipped_witness:
  "ExpandMacros 2 ''P(a)P(b)'' [(''P'', TextMacro [''x''] [])] = Inr ''P(b)''"
proof -
  have "flat ''a''" by (simp add: flat_def)
  moreover have "py_find (py_strip ''a'') (''P'' @ ''('') 0 = None" by code_simp
  ultimately have "ExpandMacros (Suc (Suc 0)) (invocation ''P'' ''a'' @ invocation ''P'' ''b'') [(''P'', TextMacro [''x''] [])] =
      Inr (invocation ''P'' ''b'')"
    by (rule adjacent_invocation_skipped) simp_all
  then show ?thesis by (simp add: invocation_def eval_nat_numeral)
qed

text \<open>
  A Python macro with two parameters of different names cannot be used: every invocation ends in
  a key error or in an exception of its arguments, because all arguments are stored under the
  first parameter.
\<close>

theorem python_macro_two_args_fails:
  assumes "a \<noteq> b"
  shows "\<exists>e. expand_while (Suc n) rec name (PythonMacro [a, b] f) lines (Some start) = Inl e"
proof -
  let ?m = "PythonMacro [a, b] f"
  obtain args fin where c: "call_args lines (start + length name + 1) = (args, fin)"
    by (cases "call_args lines (start + length name + 1)")
  show ?thesis
  proof (cases "add_args rec ?m args []")
    case (Inr mapping)
    have "fst ` set mapping \<subseteq> {a}" using macro_keys[OF Inr] by simp
    then have "macro_expand ?m mapping = Inl KeyError"
      by (rule python_macro_expand_fails[where b = b]) (use assms in auto)
    then show ?thesis unfolding expand_while.simps c Let_def by (simp only: prod.case Inr rbind_simps) blast
  next
    case (Inl e)
    then show ?thesis unfolding expand_while.simps c Let_def by (simp only: prod.case rbind_simps) blast
  qed
qed

theorem python_macro_two_args_fails_witness:
  "\<exists>e. expand_while 1 (\<lambda>a. Inr a) ''N'' (PythonMacro [''x'', ''y''] (\<lambda>_. Inr [])) ''N(1,2)'' (Some 0) = Inl e"
proof -
  have "''x'' \<noteq> ''y''" by simp
  from python_macro_two_args_fails[OF this, of 0 "\<lambda>a. Inr a" "''N''" "\<lambda>_. Inr []" "''N(1,2)''" 0]
  show ?thesis by (simp del: expand_while.simps)
qed

text \<open>
  Expansion need not end: with the macro \<open>M(x) = zzzz M(x)\<close>, no number of rounds is enough for
  the source \<open>M(a)\<close>.
\<close>

theorem recursive_macro_diverges: "ExpandMacros n ''M(a)'' [(''M'', loop_macro)] = Inl RuntimeError"
proof (cases n)
  case (Suc k)
  let ?rec = "\<lambda>a. ExpandMacros k a [(''M'', loop_macro)]"
  have "?rec ''a'' = Inr ''a'' \<or> ?rec ''a'' = Inl RuntimeError"
  proof (cases k)
    case (Suc j)
    have "py_find ''a'' (''M'' @ ''('') 0 = None" by code_simp
    then show ?thesis unfolding Suc by (intro disjI1 ExpandMacros_absent)
  qed simp
  from loop_expand[where rec = ?rec, OF this, of k 0]
  have e: "expand_while k ?rec ''M'' loop_macro ''M(a)'' (Some 0) = Inl RuntimeError" by simp
  have "py_find ''M(a)'' (''M'' @ ''('') 0 = Some 0" by code_simp
  then show ?thesis unfolding Suc using e by (subst ExpandMacros.simps) simp
qed simp

end
