(* ===== verification/Waf_Environment.thy ===== *)
theory Waf_Environment
  imports Py_Base
begin

text \<open>
  The environments of the build system, \<^verbatim>\<open>src/tools/wafadmin/Environment.py\<close>: tables of variables with
  a parent, derived by \<open>copy\<close>. Python lists are shared objects, so the model has a heap of
  environments and lists.

  After the definitions: the reads of an environment are those of a chain of maps (an
  interface and its instance), and the operations that modify a list change what the environment
  itself reads, as on plain values, and nothing that its parents or unrelated environments read.
\<close>

section \<open>Definitions\<close>

subsection \<open>Values and the heap\<close>

text \<open>
  A variable holds a string, a list, \<open>None\<close>, or some other value that is not iterable (a number);
  the members of a list are not lists.
\<close>

datatype atom = AStr string | ANone | AOther nat

datatype val = Atom atom | VList nat

text \<open>\<open>parent\<close> is \<open>None\<close> when the slot of that name is not set.\<close>

record env_obj =
  table :: "(string \<times> val) list"
  parent :: "nat option"

record heap =
  envs :: "nat \<rightharpoonup> env_obj"
  lists :: "nat \<rightharpoonup> atom list"
  next_env :: nat
  next_list :: nat

definition new_list :: "atom list \<Rightarrow> heap \<Rightarrow> nat \<times> heap" where
  "new_list xs h = (next_list h, h\<lparr>lists := (lists h)(next_list h \<mapsto> xs), next_list := next_list h + 1\<rparr>)"

definition Environment :: "heap \<Rightarrow> nat \<times> heap" where
  "Environment h = (next_env h, h\<lparr>envs := (envs h)(next_env h \<mapsto> \<lparr>table = [], parent = None\<rparr>), next_env := next_env h + 1\<rparr>)"

definition env_table :: "heap \<Rightarrow> nat \<Rightarrow> (string \<times> val) list" where
  "env_table h e = (case envs h e of None \<Rightarrow> [] | Some ob \<Rightarrow> table ob)"

definition env_parent :: "heap \<Rightarrow> nat \<Rightarrow> nat option" where
  "env_parent h e = (case envs h e of None \<Rightarrow> None | Some ob \<Rightarrow> parent ob)"

definition set_table :: "nat \<Rightarrow> (string \<times> val) list \<Rightarrow> heap \<Rightarrow> heap" where
  "set_table e t h = (case envs h e of None \<Rightarrow> h | Some ob \<Rightarrow> h\<lparr>envs := (envs h)(e \<mapsto> ob\<lparr>table := t\<rparr>)\<rparr>)"

definition list_at :: "heap \<Rightarrow> nat \<Rightarrow> atom list" where
  "list_at h l = (case lists h l of None \<Rightarrow> [] | Some xs \<Rightarrow> xs)"

definition set_list :: "nat \<Rightarrow> atom list \<Rightarrow> heap \<Rightarrow> heap" where
  "set_list l xs h = h\<lparr>lists := (lists h)(l \<mapsto> xs)\<rparr>"

subsection \<open>Reading\<close>

text \<open>
  The loops over the parents take a bound; \<open>RuntimeError\<close> stands for a chain that does not end.
  \<open>env_fuel\<close> is enough for every heap in which parents are older than their children.
\<close>

definition env_fuel :: "nat \<Rightarrow> nat" where
  "env_fuel e = Suc e"

text \<open>A variable that holds \<open>None\<close> counts as absent, as in the loop of \<open>__getitem__\<close>.\<close>

fun find_var :: "nat \<Rightarrow> heap \<Rightarrow> nat \<Rightarrow> string \<Rightarrow> val option result" where
  "find_var 0 h e key = Inl RuntimeError"
| "find_var (Suc n) h e key =
     (case map_of (env_table h e) key of
        Some v \<Rightarrow> if v = Atom ANone
                   then (case env_parent h e of None \<Rightarrow> Inr None | Some p \<Rightarrow> find_var n h p key)
                   else Inr (Some v)
      | None \<Rightarrow> (case env_parent h e of None \<Rightarrow> Inr None | Some p \<Rightarrow> find_var n h p key))"

definition getitem :: "heap \<Rightarrow> nat \<Rightarrow> string \<Rightarrow> (val \<times> heap) result" where
  "getitem h e key =
     rmap (\<lambda>r. case r of Some v \<Rightarrow> (v, h) | None \<Rightarrow> (let (l, h') = new_list [] h in (VList l, h')))
       (find_var (env_fuel e) h e key)"

fun contains_loop :: "nat \<Rightarrow> heap \<Rightarrow> nat \<Rightarrow> string \<Rightarrow> bool result" where
  "contains_loop 0 h e key = Inl RuntimeError"
| "contains_loop (Suc n) h e key =
     (if map_of (env_table h e) key \<noteq> None then Inr True
      else case env_parent h e of None \<Rightarrow> Inr False | Some p \<Rightarrow> contains_loop n h p key)"

definition contains :: "heap \<Rightarrow> nat \<Rightarrow> string \<Rightarrow> bool result" where
  "contains h e key = contains_loop (env_fuel e) h e key"

definition VARIANT :: string where "VARIANT = ''_VARIANT_''"
definition DEFAULT :: string where "DEFAULT = ''default''"

definition variant :: "heap \<Rightarrow> nat \<Rightarrow> val result" where
  "variant h e = rmap (\<lambda>r. case r of Some v \<Rightarrow> v | None \<Rightarrow> Atom (AStr DEFAULT)) (find_var (env_fuel e) h e VARIANT)"

fun atom_str :: "atom \<Rightarrow> string result" where
  "atom_str (AStr s) = Inr s"
| "atom_str _ = Inl TypeError"

definition get_flat :: "heap \<Rightarrow> nat \<Rightarrow> string \<Rightarrow> (string \<times> heap) result" where
  "get_flat h e key =
     rbind (getitem h e key) (\<lambda>(v, h').
       case v of
         Atom (AStr s) \<Rightarrow> Inr (s, h')
       | Atom _ \<Rightarrow> Inl TypeError
       | VList l \<Rightarrow> rmap (\<lambda>ws. (py_join '' '' ws, h')) (mapM atom_str (list_at h' l)))"

fun truthy :: "heap \<Rightarrow> val \<Rightarrow> bool" where
  "truthy h (Atom (AStr s)) = (s \<noteq> [])"
| "truthy h (Atom ANone) = False"
| "truthy h (Atom (AOther n)) = (n \<noteq> 0)"
| "truthy h (VList l) = (list_at h l \<noteq> [])"

definition get_destdir :: "heap \<Rightarrow> nat \<Rightarrow> string \<Rightarrow> (string \<times> heap) result" where
  "get_destdir h e destdir =
     rmap (\<lambda>(v, h'). (if truthy h' v then [] else destdir, h')) (getitem h e ''NOINSTALL'')"

subsection \<open>Writing\<close>

definition setitem :: "nat \<Rightarrow> string \<Rightarrow> val \<Rightarrow> heap \<Rightarrow> heap" where
  "setitem e key v h = set_table e (dict_set key v (env_table h e)) h"

definition delitem :: "nat \<Rightarrow> string \<Rightarrow> heap \<Rightarrow> heap result" where
  "delitem e key h =
     (if map_of (env_table h e) key = None then Inl KeyError
      else Inr (set_table e (dict_del key (env_table h e)) h))"

definition env_pop :: "nat \<Rightarrow> string \<Rightarrow> val option \<Rightarrow> heap \<Rightarrow> (val \<times> heap) result" where
  "env_pop e key dflt h =
     (case map_of (env_table h e) key of
        Some v \<Rightarrow> Inr (v, set_table e (dict_del key (env_table h e)) h)
      | None \<Rightarrow> (case dflt of Some d \<Rightarrow> Inr (d, h) | None \<Rightarrow> Inl KeyError))"

definition set_variant :: "nat \<Rightarrow> string \<Rightarrow> heap \<Rightarrow> heap" where
  "set_variant e name h = setitem e VARIANT (Atom (AStr name)) h"

text \<open>\<open>copy\<close> makes a child.\<close>

definition env_copy :: "nat \<Rightarrow> heap \<Rightarrow> nat \<times> heap" where
  "env_copy e h = (let (c, h') = Environment h in
     (c, h'\<lparr>envs := (envs h')(c \<mapsto> \<lparr>table = [], parent = Some e\<rparr>)\<rparr>))"

text \<open>The tables from the root to the environment, merged.\<close>

fun merge_loop :: "nat \<Rightarrow> heap \<Rightarrow> nat \<Rightarrow> (string \<times> val) list result" where
  "merge_loop 0 h e = Inl RuntimeError"
| "merge_loop (Suc n) h e =
     rmap (\<lambda>t. fold (\<lambda>(k, v) d. dict_set k v d) (env_table h e) t)
       (case env_parent h e of None \<Rightarrow> Inr [] | Some p \<Rightarrow> merge_loop n h p)"

definition get_merged_dict :: "heap \<Rightarrow> nat \<Rightarrow> (string \<times> val) list result" where
  "get_merged_dict h e = merge_loop (env_fuel e) h e"

text \<open>\<open>copy.deepcopy\<close> of a value: a list is a new list with the same members.\<close>

definition deepcopy :: "val \<Rightarrow> heap \<Rightarrow> val \<times> heap" where
  "deepcopy v h = (case v of Atom a \<Rightarrow> (v, h) | VList l \<Rightarrow> (let (l', h') = new_list (list_at h l) h in (VList l', h')))"

fun deepcopy_table :: "(string \<times> val) list \<Rightarrow> heap \<Rightarrow> (string \<times> val) list \<times> heap" where
  "deepcopy_table [] h = ([], h)"
| "deepcopy_table ((k, v) # t) h =
     (let (v', h1) = deepcopy v h; (t', h2) = deepcopy_table t h1 in ((k, v') # t', h2))"

definition detach :: "nat \<Rightarrow> heap \<Rightarrow> heap result" where
  "detach e h =
     rbind (get_merged_dict h e) (\<lambda>tbl.
       case env_parent h e of
         None \<Rightarrow> Inr h
       | Some p \<Rightarrow>
           (let (tbl', h1) = deepcopy_table tbl h
            in Inr (h1\<lparr>envs := (envs h1)(e \<mapsto> \<lparr>table = tbl', parent = None\<rparr>)\<rparr>)))"

text \<open>
  \<open>_get_list_value_for_modification\<close>: the address of a list that belongs to this environment. A
  value of the table that is a list is used as it is, an inherited one is copied, and anything
  else is put into a new list.
\<close>

definition get_list_value_for_modification :: "nat \<Rightarrow> string \<Rightarrow> heap \<Rightarrow> (nat \<times> heap) result" where
  "get_list_value_for_modification e key h =
     (case map_of (env_table h e) key of
        Some (VList l) \<Rightarrow> Inr (l, setitem e key (VList l) h)
      | Some (Atom a) \<Rightarrow> (let (l, h') = new_list [a] h in Inr (l, setitem e key (VList l) h'))
      | None \<Rightarrow>
          rbind (case env_parent h e of
                   None \<Rightarrow> (let (l, h') = new_list [] h in Inr (VList l, h'))
                 | Some p \<Rightarrow> getitem h p key) (\<lambda>(v, h1).
            let (l, h2) = (case v of VList l0 \<Rightarrow> new_list (list_at h1 l0) h1 | Atom a \<Rightarrow> new_list [a] h1)
            in Inr (l, setitem e key (VList l) h2)))"

definition append_value :: "nat \<Rightarrow> string \<Rightarrow> val \<Rightarrow> heap \<Rightarrow> heap result" where
  "append_value e var v h =
     rmap (\<lambda>(l, h1). set_list l (list_at h1 l @ (case v of VList l' \<Rightarrow> list_at h1 l' | Atom a \<Rightarrow> [a])) h1)
       (get_list_value_for_modification e var h)"

definition prepend_value :: "nat \<Rightarrow> string \<Rightarrow> val \<Rightarrow> heap \<Rightarrow> heap result" where
  "prepend_value e var v h =
     rmap (\<lambda>(l, h1). case v of
         VList l' \<Rightarrow> (let (l2, h2) = new_list (list_at h1 l' @ list_at h1 l) h1 in setitem e var (VList l2) h2)
       | Atom a \<Rightarrow> set_list l (a # list_at h1 l) h1)
       (get_list_value_for_modification e var h)"

definition add_unique :: "atom list \<Rightarrow> atom list \<Rightarrow> atom list" where
  "add_unique xs ys = fold (\<lambda>y acc. if y \<in> set acc then acc else acc @ [y]) ys xs"

definition append_unique :: "nat \<Rightarrow> string \<Rightarrow> val \<Rightarrow> heap \<Rightarrow> heap result" where
  "append_unique e var v h =
     rmap (\<lambda>(l, h1). set_list l (add_unique (list_at h1 l) (case v of VList l' \<Rightarrow> list_at h1 l' | Atom a \<Rightarrow> [a])) h1)
       (get_list_value_for_modification e var h)"

definition env_update :: "nat \<Rightarrow> (string \<times> val) list \<Rightarrow> heap \<Rightarrow> heap" where
  "env_update e d h = fold (\<lambda>(k, v). setitem e k v) d h"

section \<open>Chains of maps\<close>

text \<open>
  The interface that the readers of an environment rely on: a lookup consults the local table,
  then the parent, and a parent is older than its child.
\<close>

locale scoped_store =
  fixes inv :: "'s \<Rightarrow> bool"
    and loc :: "'s \<Rightarrow> nat \<Rightarrow> string \<Rightarrow> 'v option"
    and par :: "'s \<Rightarrow> nat \<Rightarrow> nat option"
    and look :: "'s \<Rightarrow> nat \<Rightarrow> string \<Rightarrow> 'v option"
  assumes older: "inv s \<Longrightarrow> par s e = Some p \<Longrightarrow> p < e"
    and look_unfold: "inv s \<Longrightarrow> look s e k =
      (case loc s e k of Some v \<Rightarrow> Some v | None \<Rightarrow> (case par s e of None \<Rightarrow> None | Some p \<Rightarrow> look s p k))"
begin

inductive ancestor :: "'s \<Rightarrow> nat \<Rightarrow> nat \<Rightarrow> bool" for s where
  anc_refl: "ancestor s e e"
| anc_step: "par s e = Some p \<Longrightarrow> ancestor s p a \<Longrightarrow> ancestor s e a"

lemma look_local: "inv s \<Longrightarrow> loc s e k = Some v \<Longrightarrow> look s e k = Some v"
  by (subst look_unfold) auto

lemma look_inherit: "inv s \<Longrightarrow> loc s e k = None \<Longrightarrow> par s e = Some p \<Longrightarrow> look s e k = look s p k"
  by (subst look_unfold) auto

lemma look_frame:
  assumes "inv s" and "inv s'" and par: "par s' = par s"
    and loc: "\<And>a. ancestor s e a \<Longrightarrow> loc s' a k = loc s a k"
  shows "look s' e k = look s e k"
  using loc
proof (induction e rule: less_induct)
  case (less e)
  have l: "loc s' e k = loc s e k" by (rule less.prems[OF anc_refl])
  have "look s' p k = look s p k" if p: "par s e = Some p" for p
    using older[OF assms(1) p] less.prems anc_step[OF p] by (intro less.IH) auto
  then show ?case
    by (subst look_unfold[OF assms(2)], subst look_unfold[OF assms(1)]) (auto simp: l par split: option.splits)
qed

end

section \<open>Well-formed heaps\<close>

text \<open>
  Parents are older than their children, tables hold addresses of lists that exist, and no two
  variables share a list.
\<close>

definition wf_heap :: "heap \<Rightarrow> bool" where
  "wf_heap h \<longleftrightarrow>
     (\<forall>e ob. envs h e = Some ob \<longrightarrow> e < next_env h) \<and>
     (\<forall>e p. env_parent h e = Some p \<longrightarrow> p < e \<and> envs h p \<noteq> None) \<and>
     (\<forall>l. lists h l \<noteq> None \<longrightarrow> l < next_list h) \<and>
     (\<forall>e k l. map_of (env_table h e) k = Some (VList l) \<longrightarrow> lists h l \<noteq> None)"

definition unshared :: "heap \<Rightarrow> bool" where
  "unshared h \<longleftrightarrow>
     (\<forall>e1 k1 e2 k2 l. map_of (env_table h e1) k1 = Some (VList l) \<longrightarrow>
        map_of (env_table h e2) k2 = Some (VList l) \<longrightarrow> e1 = e2 \<and> k1 = k2)"

text \<open>Values with their lists.\<close>

datatype cval = CAtom atom | CList "atom list"

definition contents :: "heap \<Rightarrow> val \<Rightarrow> cval" where
  "contents h v = (case v of Atom a \<Rightarrow> CAtom a | VList l \<Rightarrow> CList (list_at h l))"

definition local_read :: "heap \<Rightarrow> nat \<Rightarrow> string \<Rightarrow> cval option" where
  "local_read h e k =
     (case map_of (env_table h e) k of
        Some v \<Rightarrow> if v = Atom ANone then None else Some (contents h v) | None \<Rightarrow> None)"

definition read :: "heap \<Rightarrow> nat \<Rightarrow> string \<Rightarrow> cval option" where
  "read h e k = (case find_var (env_fuel e) h e k of Inr (Some v) \<Rightarrow> Some (contents h v) | _ \<Rightarrow> None)"

lemma find_var_total:
  "wf_heap h \<Longrightarrow> e < n \<Longrightarrow> \<exists>r. find_var n h e k = Inr r"
proof (induction n arbitrary: e)
  case (Suc n)
  have "p < n" if "env_parent h e = Some p" for p
  proof -
    have "p < e" using Suc.prems(1) that by (simp add: wf_heap_def)
    with Suc.prems(2) show ?thesis by simp
  qed
  with Suc show ?case by (auto split: option.splits)
qed simp

lemma find_var_mono: "find_var n h e k = Inr r \<Longrightarrow> n \<le> m \<Longrightarrow> find_var m h e k = Inr r"
proof (induction n arbitrary: e m)
  case (Suc n)
  then obtain m' where "m = Suc m'" "n \<le> m'" by (cases m) auto
  with Suc show ?case by (auto split: option.splits if_splits)
qed simp

lemma find_var_fuel:
  assumes "wf_heap h" and "e < n"
  shows "find_var n h e k = find_var (env_fuel e) h e k"
proof -
  obtain r where "find_var (env_fuel e) h e k = Inr r"
    using find_var_total[OF assms(1), of e "env_fuel e"] by (auto simp: env_fuel_def)
  moreover from this find_var_mono[of "env_fuel e" h e k r n] assms(2) have "find_var n h e k = Inr r"
    by (simp add: env_fuel_def)
  ultimately show ?thesis by simp
qed

lemma read_unfold:
  assumes "wf_heap h"
  shows "read h e k = (case local_read h e k of Some v \<Rightarrow> Some v
    | None \<Rightarrow> (case env_parent h e of None \<Rightarrow> None | Some p \<Rightarrow> read h p k))"
proof -
  have "find_var e h p k = find_var (env_fuel p) h p k" if "env_parent h e = Some p" for p
    by (rule find_var_fuel[OF assms]) (use assms that in \<open>simp add: wf_heap_def\<close>)
  then show ?thesis
    by (auto simp: read_def env_fuel_def local_read_def split: option.splits)
qed

interpretation ev: scoped_store wf_heap local_read env_parent read
proof
  fix h e p assume "wf_heap h" "env_parent h e = Some p"
  then show "p < e" by (simp add: wf_heap_def)
qed (rule read_unfold)

lemmas env_ancestor_intros = ev.ancestor.intros

section \<open>Heap updates\<close>

lemma new_list_simps [simp]:
  "envs (snd (new_list xs h)) = envs h" "next_env (snd (new_list xs h)) = next_env h"
  "fst (new_list xs h) = next_list h" "list_at (snd (new_list xs h)) (next_list h) = xs"
  "env_table (snd (new_list xs h)) = env_table h" "env_parent (snd (new_list xs h)) = env_parent h"
  by (simp_all add: new_list_def list_at_def env_table_def env_parent_def fun_eq_iff)

lemma list_at_new_list: "l \<noteq> next_list h \<Longrightarrow> list_at (snd (new_list xs h)) l = list_at h l"
  by (simp add: new_list_def list_at_def)

lemma env_table_set_table:
  "env_table (set_table e t h) e2 = (if e2 = e \<and> envs h e \<noteq> None then t else env_table h e2)"
  by (auto simp: set_table_def env_table_def split: option.splits)

lemma env_parent_set_table [simp]: "env_parent (set_table e t h) = env_parent h"
  by (auto simp: set_table_def env_parent_def fun_eq_iff split: option.splits)

lemma set_table_simps [simp]:
  "lists (set_table e t h) = lists h" "next_list (set_table e t h) = next_list h"
  "next_env (set_table e t h) = next_env h" "(envs (set_table e t h) x = None) = (envs h x = None)"
  by (auto simp: set_table_def split: option.splits)

lemma list_at_set_table [simp]: "list_at (set_table e t h) = list_at h"
  by (simp add: list_at_def fun_eq_iff)

lemma list_at_setitem [simp]: "list_at (setitem e k v h) = list_at h"
  by (simp add: setitem_def)

lemma env_parent_setitem [simp]: "env_parent (setitem e k v h) = env_parent h"
  by (simp add: setitem_def)

lemma map_of_setitem:
  "envs h e \<noteq> None \<Longrightarrow> map_of (env_table (setitem e k v h) e2) k2 =
     (if e2 = e \<and> k2 = k then Some v else map_of (env_table h e2) k2)"
  by (auto simp: setitem_def env_table_set_table map_of_dict_set)

lemma set_list_simps [simp]:
  "envs (set_list l xs h) = envs h" "env_table (set_list l xs h) = env_table h"
  "env_parent (set_list l xs h) = env_parent h" "next_env (set_list l xs h) = next_env h"
  "next_list (set_list l xs h) = next_list h"
  by (simp_all add: set_list_def env_table_def env_parent_def fun_eq_iff)

lemma list_at_set_list: "list_at (set_list l xs h) l2 = (if l2 = l then xs else list_at h l2)"
  by (simp add: set_list_def list_at_def)

lemma wf_new_list: "wf_heap h \<Longrightarrow> wf_heap (snd (new_list xs h))"
  unfolding wf_heap_def new_list_simps by (auto simp: new_list_def less_Suc_eq)

lemma unshared_new_list: "unshared h \<Longrightarrow> unshared (snd (new_list xs h))"
  by (simp add: unshared_def)

lemma wf_set_list: "wf_heap h \<Longrightarrow> lists h l \<noteq> None \<Longrightarrow> wf_heap (set_list l xs h)"
  unfolding wf_heap_def set_list_simps by (auto simp: set_list_def)

lemma wf_setitem:
  assumes "wf_heap h" and "envs h e \<noteq> None" and "\<And>l. v = VList l \<Longrightarrow> lists h l \<noteq> None"
  shows "wf_heap (setitem e k v h)"
proof -
  have "lists (setitem e k v h) = lists h" "next_list (setitem e k v h) = next_list h"
    "next_env (setitem e k v h) = next_env h" "\<And>x. (envs (setitem e k v h) x = None) = (envs h x = None)"
    by (simp_all add: setitem_def)
  with assms show ?thesis unfolding wf_heap_def
    by (auto simp: map_of_setitem[OF assms(2)] split: if_splits) (metis option.exhaust)+
qed

section \<open>Operations on list variables\<close>

text \<open>The list that a variable stands for when it is modified.\<close>

fun as_list :: "cval \<Rightarrow> atom list" where
  "as_list (CAtom a) = [a]"
| "as_list (CList xs) = xs"

definition old_list :: "heap \<Rightarrow> nat \<Rightarrow> string \<Rightarrow> atom list" where
  "old_list h e k =
     (case map_of (env_table h e) k of
        Some v \<Rightarrow> as_list (contents h v)
      | None \<Rightarrow> (case env_parent h e of None \<Rightarrow> []
          | Some p \<Rightarrow> (case read h p k of None \<Rightarrow> [] | Some c \<Rightarrow> as_list c)))"

text \<open>A heap after an operation on the variable \<open>k\<close> of \<open>e\<close> that is now the list \<open>xs\<close>.\<close>

definition modified :: "heap \<Rightarrow> nat \<Rightarrow> string \<Rightarrow> atom list \<Rightarrow> heap \<Rightarrow> bool" where
  "modified h e k xs h' \<longleftrightarrow> wf_heap h' \<and> unshared h' \<and> env_parent h' = env_parent h \<and>
     (\<forall>x. (envs h' x = None) = (envs h x = None)) \<and> (\<forall>l. lists h l \<noteq> None \<longrightarrow> lists h' l \<noteq> None) \<and>
     local_read h' e k = Some (CList xs) \<and>
     (\<forall>e2 k2. (e2, k2) \<noteq> (e, k) \<longrightarrow> local_read h' e2 k2 = local_read h e2 k2)"

lemma list_lt: "wf_heap h \<Longrightarrow> map_of (env_table h e) k = Some (VList l) \<Longrightarrow> l < next_list h"
  by (auto simp: wf_heap_def)

lemma local_read_new_list:
  assumes "wf_heap h"
  shows "local_read (snd (new_list xs h)) e k = local_read h e k"
proof (cases "map_of (env_table h e) k")
  case (Some v)
  show ?thesis
  proof (cases v)
    case (VList l)
    then have "l \<noteq> next_list h" using list_lt[OF assms] Some by blast
    then show ?thesis by (simp add: local_read_def Some VList contents_def list_at_new_list)
  qed (simp add: local_read_def Some contents_def)
qed (simp add: local_read_def)

lemma contents_setitem [simp]: "contents (setitem e k v h) = contents h"
  by (simp add: contents_def fun_eq_iff split: val.splits)

lemma local_read_setitem:
  assumes "envs h e \<noteq> None"
  shows "local_read (setitem e k v h) e2 k2 =
    (if e2 = e \<and> k2 = k then (if v = Atom ANone then None else Some (contents h v)) else local_read h e2 k2)"
  by (simp add: local_read_def map_of_setitem[OF assms] split: option.splits)

text \<open>Putting a new list into a variable.\<close>

lemma modified_new:
  assumes wf: "wf_heap h" "unshared h" and e: "envs h e \<noteq> None"
  shows "modified h e k xs (setitem e k (VList (next_list h)) (snd (new_list xs h)))"
proof -
  let ?h1 = "snd (new_list xs h)" and ?l = "next_list h"
  let ?h2 = "setitem e k (VList ?l) ?h1"
  have e1: "envs ?h1 e \<noteq> None" using e by simp
  note m = map_of_setitem[OF e1, of k "VList ?l"]
  have w: "wf_heap ?h2"
    by (rule wf_setitem[OF wf_new_list[OF wf(1)] e1]) (simp add: new_list_def)
  have fresh: "map_of (env_table h e2) k2 \<noteq> Some (VList ?l)" for e2 k2
    using list_lt[OF wf(1)] by blast
  have u: "unshared ?h2"
    using wf(2) fresh unfolding unshared_def m by (auto split: if_splits)
  have r: "local_read ?h2 e2 k2 = (if e2 = e \<and> k2 = k then Some (CList xs) else local_read h e2 k2)" for e2 k2
    by (simp add: local_read_setitem[OF e1] local_read_new_list[OF wf(1)] contents_def)
  have "envs ?h2 x = None \<longleftrightarrow> envs h x = None" for x by (simp add: setitem_def)
  moreover have "lists h l \<noteq> None \<Longrightarrow> lists ?h2 l \<noteq> None" for l by (simp add: setitem_def new_list_def)
  ultimately show ?thesis using w u by (simp add: modified_def r)
qed

lemma modified_trans:
  assumes "modified h e k xs h1" and "modified h1 e k ys h2"
  shows "modified h e k ys h2"
  using assms by (simp add: modified_def)

text \<open>Changing the list of a variable in place.\<close>

lemma modified_in_place:
  assumes wf: "wf_heap h" "unshared h" and l: "map_of (env_table h e) k = Some (VList l)"
  shows "modified h e k xs (set_list l xs h)"
proof -
  have ex: "lists h l \<noteq> None" using wf(1) l by (auto simp: wf_heap_def)
  have "local_read (set_list l xs h) e2 k2 = local_read h e2 k2" if ne: "(e2, k2) \<noteq> (e, k)" for e2 k2
  proof (cases "map_of (env_table h e2) k2")
    case (Some v)
    have "v \<noteq> VList l" using wf(2) l Some ne by (auto simp: unshared_def)
    then have "contents (set_list l xs h) v = contents h v"
      by (cases v) (auto simp: contents_def list_at_set_list)
    then show ?thesis by (simp add: local_read_def Some)
  qed (simp add: local_read_def)
  moreover have "local_read (set_list l xs h) e k = Some (CList xs)"
    by (simp add: local_read_def l contents_def list_at_set_list)
  moreover have "unshared (set_list l xs h)" using wf(2) by (simp add: unshared_def)
  ultimately show ?thesis using wf_set_list[OF wf(1) ex] by (simp add: modified_def) (simp add: set_list_def)
qed

lemma getitem_contents:
  assumes "wf_heap h"
  shows "\<exists>v h1. getitem h e k = Inr (v, h1) \<and>
    contents h1 v = (case read h e k of None \<Rightarrow> CList [] | Some c \<Rightarrow> c) \<and>
    (h1 = h \<or> h1 = snd (new_list [] h))"
proof -
  obtain r where r: "find_var (env_fuel e) h e k = Inr r"
    using find_var_total[OF assms, of e "env_fuel e"] by (auto simp: env_fuel_def)
  show ?thesis
  proof (cases r)
    case None
    have "new_list [] h = (next_list h, snd (new_list [] h))" by (simp add: new_list_def)
    then show ?thesis using None r
      by (simp add: getitem_def read_def) (simp add: contents_def new_list_def list_at_def)
  next
    case (Some v)
    then show ?thesis using r by (simp add: getitem_def read_def)
  qed
qed

lemma modified_shift:
  assumes "wf_heap h" and "modified (snd (new_list ys h)) e k xs h'"
  shows "modified h e k xs h'"
  using assms(2) unfolding modified_def local_read_new_list[OF assms(1)] new_list_simps
  by (auto simp: new_list_def)

lemma list_value_for_modification:
  assumes wf: "wf_heap h" "unshared h" and e: "envs h e \<noteq> None"
  shows "\<exists>l h1. get_list_value_for_modification e k h = Inr (l, h1) \<and> modified h e k (old_list h e k) h1 \<and>
    map_of (env_table h1 e) k = Some (VList l) \<and> (\<forall>l2. lists h l2 \<noteq> None \<longrightarrow> list_at h1 l2 = list_at h l2)"
proof (cases "map_of (env_table h e) k")
  case (Some v)
  show ?thesis
  proof (cases v)
    case (Atom a)
    let ?h1 = "setitem e k (VList (next_list h)) (snd (new_list [a] h))"
    have "modified h e k [a] ?h1" by (rule modified_new[OF wf e])
    moreover have "map_of (env_table ?h1 e) k = Some (VList (next_list h))" using e by (simp add: map_of_setitem)
    moreover have "list_at ?h1 l2 = list_at h l2" if "lists h l2 \<noteq> None" for l2
    proof -
      have "l2 \<noteq> next_list h" using wf(1) that unfolding wf_heap_def by blast
      then show ?thesis by (simp add: list_at_new_list)
    qed
    ultimately show ?thesis using Some Atom
      by (simp add: get_list_value_for_modification_def old_list_def contents_def Let_def case_prod_unfold)
  next
    case (VList l)
    have same: "local_read (setitem e k (VList l) h) = local_read h"
      by (intro ext) (subst local_read_setitem[OF e], simp add: local_read_def Some VList)
    have "modified h e k (list_at h l) (setitem e k (VList l) h)"
    proof -
      have "wf_heap (setitem e k (VList l) h)"
        by (rule wf_setitem[OF wf(1) e]) (use wf(1) Some VList in \<open>auto simp: wf_heap_def\<close>)
      moreover have "unshared (setitem e k (VList l) h)"
        using wf(2) Some VList unfolding unshared_def map_of_setitem[OF e] by (auto split: if_splits)
      moreover have "local_read h e k = Some (CList (list_at h l))" by (simp add: local_read_def Some VList contents_def)
      ultimately show ?thesis by (simp add: modified_def same) (simp add: setitem_def)
    qed
    then show ?thesis using Some VList e
      by (simp add: get_list_value_for_modification_def old_list_def contents_def map_of_setitem)
  qed
next
  case None
  let ?start = "case env_parent h e of None \<Rightarrow> (let (l, h') = new_list [] h in Inr (VList l, h')) | Some p \<Rightarrow> getitem h p k"
  have "\<exists>v h1. ?start = Inr (v, h1) \<and> as_list (contents h1 v) = old_list h e k \<and> (h1 = h \<or> h1 = snd (new_list [] h))"
  proof (cases "env_parent h e")
    case None
    then show ?thesis using \<open>map_of (env_table h e) k = None\<close>
      by (simp add: old_list_def case_prod_unfold Let_def contents_def)
  next
    case (Some p)
    with getitem_contents[OF wf(1), of p k] \<open>map_of (env_table h e) k = None\<close> show ?thesis
      by (auto simp: old_list_def split: option.splits)
  qed
  then obtain v h1 where v: "?start = Inr (v, h1)" "as_list (contents h1 v) = old_list h e k"
    "h1 = h \<or> h1 = snd (new_list [] h)" by blast
  let ?xs = "old_list h e k"
  let ?h2 = "setitem e k (VList (next_list h1)) (snd (new_list ?xs h1))"
  have wf1: "wf_heap h1" "unshared h1" "envs h1 e \<noteq> None"
    using v(3) wf e wf_new_list unshared_new_list by auto
  have c: "(case v of VList l0 \<Rightarrow> new_list (list_at h1 l0) h1 | Atom a \<Rightarrow> new_list [a] h1) = new_list ?xs h1"
    using v(2) by (cases v) (simp_all add: contents_def)
  have g: "get_list_value_for_modification e k h = Inr (next_list h1, ?h2)"
    unfolding get_list_value_for_modification_def None option.case v(1) rbind_simps prod.case c
    by (simp add: case_prod_unfold Let_def)
  have "modified h1 e k ?xs ?h2" by (rule modified_new[OF wf1])
  then have m: "modified h e k ?xs ?h2" using v(3) modified_shift[OF wf(1)] by blast
  have l: "list_at ?h2 l2 = list_at h l2" if "lists h l2 \<noteq> None" for l2
  proof -
    have lt: "l2 < next_list h" using wf(1) that unfolding wf_heap_def by blast
    moreover have "next_list h \<le> next_list h1" using v(3) by (auto simp: new_list_def)
    moreover have "list_at h1 l2 = list_at h l2" using v(3) lt list_at_new_list by auto
    ultimately show ?thesis by (simp add: list_at_new_list)
  qed
  have "map_of (env_table ?h2 e) k = Some (VList (next_list h1))" using wf1(3) by (simp add: map_of_setitem)
  with g m l show ?thesis by auto
qed

section \<open>Merging and detaching\<close>

definition good_value :: "heap \<Rightarrow> val \<Rightarrow> bool" where
  "good_value h v \<longleftrightarrow> (\<forall>l. v = VList l \<longrightarrow> lists h l \<noteq> None)"

definition keys_ok :: "heap \<Rightarrow> bool" where
  "keys_ok h \<longleftrightarrow> (\<forall>e. distinct (map fst (env_table h e)))"

definition no_none :: "heap \<Rightarrow> bool" where
  "no_none h \<longleftrightarrow> (\<forall>e k. map_of (env_table h e) k \<noteq> Some (Atom ANone))"

lemma map_of_fold_dict_set:
  "distinct (map fst t) \<Longrightarrow> map_of (fold (\<lambda>(k, v) d. dict_set k v d) t d) = map_of d ++ map_of t"
proof (induction t arbitrary: d)
  case (Cons x t)
  obtain k v where x: "x = (k, v)" by (cases x)
  with Cons have "k \<notin> dom (map_of t)" "distinct (map fst t)" by (auto simp: dom_map_of_conv_image_fst)
  with Cons.IH[of "dict_set k v d"] show ?case
    by (auto simp: x map_of_dict_set fun_eq_iff map_add_def dom_def split: option.splits)
qed simp

lemma merge_loop_find:
  assumes "wf_heap h" and "keys_ok h" and "no_none h"
  shows "e < n \<Longrightarrow> \<exists>t. merge_loop n h e = Inr t \<and> (\<forall>k. find_var n h e k = Inr (map_of t k))"
proof (induction n arbitrary: e)
  case (Suc n)
  have d: "distinct (map fst (env_table h e))" using assms(2) by (simp add: keys_ok_def)
  have nn: "map_of (env_table h e) k \<noteq> Some (Atom ANone)" for k using assms(3) by (simp add: no_none_def)
  show ?case
  proof (cases "env_parent h e")
    case None
    then show ?thesis using nn by (auto simp: map_of_fold_dict_set[OF d] split: option.splits)
  next
    case (Some p)
    have "p < n" using assms(1) Some Suc.prems by (force simp: wf_heap_def)
    from Suc.IH[OF this] obtain t where t: "merge_loop n h p = Inr t" "\<forall>k. find_var n h p k = Inr (map_of t k)"
      by blast
    let ?t = "fold (\<lambda>(k, v) d. dict_set k v d) (env_table h e) t"
    have "find_var (Suc n) h e k = Inr (map_of ?t k)" for k
      using t(2) Some nn[of k] by (simp add: map_of_fold_dict_set[OF d] map_add_def split: option.splits)
    moreover have "merge_loop (Suc n) h e = Inr ?t" using Some t(1) by simp
    ultimately show ?thesis by blast
  qed
qed simp

lemma deepcopy_table_ok:
  assumes "\<forall>(k, v) \<in> set t. good_value h v" and "wf_heap h" and "deepcopy_table t h = (t', h')"
  shows "envs h' = envs h \<and> (\<forall>l. lists h l \<noteq> None \<longrightarrow> list_at h' l = list_at h l \<and> lists h' l \<noteq> None) \<and>
    wf_heap h' \<and> (\<forall>(k, v) \<in> set t'. good_value h' v) \<and> (\<forall>k. map_option (contents h') (map_of t' k) = map_option (contents h) (map_of t k))"
  using assms
proof (induction t arbitrary: h t' h')
  case (Cons x t)
  obtain k v where x: "x = (k, v)" by (cases x)
  obtain v1 h1 where c: "deepcopy v h = (v1, h1)" by (cases "deepcopy v h")
  obtain t2 h2 where d: "deepcopy_table t h1 = (t2, h2)" by (cases "deepcopy_table t h1")
  have r: "t' = (k, v1) # t2" "h' = h2" using Cons.prems(3) by (simp_all add: x c d)
  have h1: "h1 = h \<or> (\<exists>xs. h1 = snd (new_list xs h))"
    using c by (cases v) (auto simp: deepcopy_def case_prod_unfold Let_def)
  have keep: "list_at h1 l = list_at h l \<and> lists h1 l \<noteq> None" if "lists h l \<noteq> None" for l
  proof -
    have "l \<noteq> next_list h" using Cons.prems(2) that unfolding wf_heap_def by blast
    with h1 that show ?thesis by (auto simp: list_at_new_list) (auto simp: new_list_def)
  qed
  have wf1: "wf_heap h1" "envs h1 = envs h" using h1 Cons.prems(2) wf_new_list by auto
  have cv: "contents h1 v1 = contents h v"
    using c by (cases v) (auto simp: deepcopy_def contents_def case_prod_unfold Let_def)
  have gv: "good_value h1 v1"
  proof (cases v)
    case (VList l)
    then have "v1 = VList (next_list h)" "h1 = snd (new_list (list_at h l) h)"
      using c by (auto simp: deepcopy_def new_list_def)
    then show ?thesis by (simp add: good_value_def new_list_def)
  qed (use c in \<open>auto simp: deepcopy_def good_value_def\<close>)
  have "\<forall>(k, v) \<in> set t. good_value h1 v" using Cons.prems(1) keep by (auto simp: x good_value_def)
  note IH = Cons.IH[OF this wf1(1) d]
  have same: "contents h1 w = contents h w" if "good_value h w" for w
    using that keep by (cases w) (auto simp: contents_def good_value_def)
  have "good_value h2 v1" using IH gv by (auto simp: good_value_def)
  moreover have c2: "contents h2 v1 = contents h v"
    using IH cv gv by (cases v1) (auto simp: contents_def good_value_def)
  moreover have "map_option (contents h') (map_of t' j) = map_option (contents h) (map_of (x # t) j)" for j
  proof (cases "j = k")
    case False
    have "map_option (contents h2) (map_of t2 j) = map_option (contents h1) (map_of t j)" using IH by blast
    also have "\<dots> = map_option (contents h) (map_of t j)"
    proof (cases "map_of t j")
      case (Some w)
      then have "good_value h w" using Cons.prems(1) map_of_SomeD by fastforce
      then show ?thesis using Some same by simp
    qed simp
    finally show ?thesis using False by (simp add: r x)
  qed (simp add: r x c2)
  moreover have "list_at h' l = list_at h l \<and> lists h' l \<noteq> None" if "lists h l \<noteq> None" for l
    using IH keep[OF that] by (simp add: r)
  ultimately show ?case using IH wf1 by (simp add: r)
qed simp

section \<open>Properties\<close>

definition given :: "heap \<Rightarrow> val \<Rightarrow> atom list" where
  "given h v = as_list (contents h v)"

lemma given_cases: "(case v of VList l' \<Rightarrow> list_at h l' | Atom a \<Rightarrow> [a]) = given h v"
  by (cases v) (simp_all add: given_def contents_def)

lemma given_same: "good_value h v \<Longrightarrow> (\<forall>l. lists h l \<noteq> None \<longrightarrow> list_at h1 l = list_at h l) \<Longrightarrow> given h1 v = given h v"
  by (cases v) (auto simp: given_def contents_def good_value_def)

lemma update_list_variable:
  assumes wf: "wf_heap h" "unshared h" and e: "envs h e \<noteq> None" and v: "good_value h v"
  shows "\<exists>h'. append_value e k v h = Inr h' \<and> modified h e k (old_list h e k @ given h v) h'"
    and "\<exists>h'. append_unique e k v h = Inr h' \<and> modified h e k (add_unique (old_list h e k) (given h v)) h'"
    and "\<exists>h'. prepend_value e k v h = Inr h' \<and> modified h e k (given h v @ old_list h e k) h'"
proof -
  obtain l h1 where g: "get_list_value_for_modification e k h = Inr (l, h1)"
    and m: "modified h e k (old_list h e k) h1" and t: "map_of (env_table h1 e) k = Some (VList l)"
    and same: "\<forall>l2. lists h l2 \<noteq> None \<longrightarrow> list_at h1 l2 = list_at h l2"
    using list_value_for_modification[OF wf e] by blast
  have wf1: "wf_heap h1" "unshared h1" "envs h1 e \<noteq> None" using m e by (simp_all add: modified_def)
  have old: "list_at h1 l = old_list h e k" using m t by (simp add: modified_def local_read_def contents_def)
  have gv: "given h1 v = given h v" by (rule given_same[OF v same])
  have inp: "modified h e k xs (set_list l xs h1)" for xs
    by (rule modified_trans[OF m modified_in_place[OF wf1(1,2) t]])
  show "\<exists>h'. append_value e k v h = Inr h' \<and> modified h e k (old_list h e k @ given h v) h'"
    using inp[of "old_list h e k @ given h v"] by (simp add: append_value_def g given_cases old gv)
  show "\<exists>h'. append_unique e k v h = Inr h' \<and> modified h e k (add_unique (old_list h e k) (given h v)) h'"
    using inp[of "add_unique (old_list h e k) (given h v)"] by (simp add: append_unique_def g given_cases old gv)
  show "\<exists>h'. prepend_value e k v h = Inr h' \<and> modified h e k (given h v @ old_list h e k) h'"
  proof (cases v)
    case (Atom a)
    then show ?thesis using inp[of "a # old_list h e k"] old gv
      by (simp add: prepend_value_def g given_def contents_def)
  next
    case (VList l')
    have lv: "list_at h1 l' = given h v" using gv by (simp add: VList given_def contents_def)
    let ?xs = "given h v @ old_list h e k"
    have "modified h e k ?xs (setitem e k (VList (next_list h1)) (snd (new_list ?xs h1)))"
      by (rule modified_trans[OF m modified_new[OF wf1]])
    then show ?thesis by (simp add: prepend_value_def g VList lv old case_prod_unfold Let_def)
  qed
qed

lemma modified_reads:
  assumes wf: "wf_heap h" and m: "modified h e k xs h'"
  shows "read h' e k = Some (CList xs)"
    and "k2 \<noteq> k \<Longrightarrow> read h' e2 k2 = read h e2 k2"
    and "\<not> ev.ancestor h e2 e \<Longrightarrow> read h' e2 k2 = read h e2 k2"
proof -
  have wf': "wf_heap h'" and p: "env_parent h' = env_parent h" and l: "local_read h' e k = Some (CList xs)"
    and o: "\<And>e2 k2. (e2, k2) \<noteq> (e, k) \<Longrightarrow> local_read h' e2 k2 = local_read h e2 k2"
    using m by (auto simp: modified_def)
  show "read h' e k = Some (CList xs)" by (rule ev.look_local[OF wf' l])
  show "read h' e2 k2 = read h e2 k2" if "k2 \<noteq> k"
    by (rule ev.look_frame[OF wf wf' p]) (use that o in auto)
  show "read h' e2 k2 = read h e2 k2" if "\<not> ev.ancestor h e2 e"
  proof (rule ev.look_frame[OF wf wf' p])
    fix a assume "ev.ancestor h e2 a"
    with that have "a \<noteq> e" by blast
    then show "local_read h' a k2 = local_read h a k2" by (intro o) simp
  qed
qed

text \<open>
  C23. Modifying a list variable of an environment. On a well-formed heap in which no two variables
  share a list, \<open>append_value\<close>, \<open>append_unique\<close> and \<open>prepend_value\<close> raise nothing; afterwards the
  environment reads the old value of the variable, taken as a list (inherited values included),
  extended at the right end, without duplicates, or at the left end; every other variable, and
  every variable of an environment that does not inherit from this one, its parents among them,
  reads as before; and the heap is again well formed and without sharing.
\<close>

theorem list_variable_operations:
  assumes "wf_heap h" and "unshared h" and "envs h e \<noteq> None" and "good_value h v"
    and "(f, xs) \<in> {(append_value e k v, old_list h e k @ given h v),
      (append_unique e k v, add_unique (old_list h e k) (given h v)),
      (prepend_value e k v, given h v @ old_list h e k)}"
  shows "\<exists>h'. f h = Inr h' \<and> read h' e k = Some (CList xs) \<and> wf_heap h' \<and> unshared h' \<and>
    (\<forall>e2 k2. k2 \<noteq> k \<or> \<not> ev.ancestor h e2 e \<longrightarrow> read h' e2 k2 = read h e2 k2)"
proof -
  obtain h' where f: "f h = Inr h'" and m: "modified h e k xs h'"
    using update_list_variable[OF assms(1-4), of k] assms(5) by auto
  with modified_reads[OF assms(1) m] show ?thesis by (auto simp: modified_def)
qed

text \<open>A parent that holds the string \<open>-g\<close> for \<open>F\<close>, and a child that appends \<open>-O2\<close>.\<close>

definition ex_heap :: heap where
  "ex_heap = \<lparr>envs = [0 \<mapsto> \<lparr>table = [(''F'', Atom (AStr ''-g''))], parent = None\<rparr>, 1 \<mapsto> \<lparr>table = [], parent = Some 0\<rparr>],
     lists = Map.empty, next_env = 2, next_list = 0\<rparr>"

lemma ex_heap_parent: "env_parent ex_heap e = (if e = 1 then Some 0 else None)"
  by (simp add: ex_heap_def env_parent_def)

lemma ex_heap_table: "env_table ex_heap e = (if e = 0 then [(''F'', Atom (AStr ''-g''))] else [])"
  by (simp add: ex_heap_def env_table_def)

lemma wf_ex_heap: "wf_heap ex_heap"
  unfolding wf_heap_def ex_heap_parent ex_heap_table by (auto simp: ex_heap_def split: if_splits)

theorem list_variable_operations_witness:
  "\<exists>h'. append_value 1 ''F'' (Atom (AStr ''-O2'')) ex_heap = Inr h' \<and>
     read h' 1 ''F'' = Some (CList [AStr ''-g'', AStr ''-O2'']) \<and> read h' 0 ''F'' = Some (CAtom (AStr ''-g''))"
proof -
  note p = ex_heap_parent and t = ex_heap_table and wf = wf_ex_heap
  have un: "unshared ex_heap" unfolding unshared_def t by (auto split: if_splits)
  have e: "envs ex_heap 1 \<noteq> None" by (simp add: ex_heap_def)
  have gv: "good_value ex_heap (Atom (AStr ''-O2''))" by (simp add: good_value_def)
  have r0: "read ex_heap 0 ''F'' = Some (CAtom (AStr ''-g''))"
    by (simp add: read_def env_fuel_def t contents_def)
  have old: "old_list ex_heap 1 ''F'' = [AStr ''-g'']" by (simp add: old_list_def t p r0)
  have na: "\<not> ev.ancestor ex_heap 0 1" by (auto simp: p elim: ev.ancestor.cases)
  have "(append_value 1 ''F'' (Atom (AStr ''-O2'')), old_list ex_heap 1 ''F'' @ given ex_heap (Atom (AStr ''-O2''))) \<in>
    {(append_value 1 ''F'' (Atom (AStr ''-O2'')), old_list ex_heap 1 ''F'' @ given ex_heap (Atom (AStr ''-O2''))),
      (append_unique 1 ''F'' (Atom (AStr ''-O2'')), add_unique (old_list ex_heap 1 ''F'') (given ex_heap (Atom (AStr ''-O2'')))),
      (prepend_value 1 ''F'' (Atom (AStr ''-O2'')), given ex_heap (Atom (AStr ''-O2'')) @ old_list ex_heap 1 ''F'')}" by simp
  from list_variable_operations[OF wf un e gv this] na r0 show ?thesis
    by (auto simp: old[unfolded One_nat_def] given_def contents_def)
qed

subsection \<open>Detaching\<close>

lemma set_fold_dict_set:
  "x \<in> set (fold (\<lambda>(k, v) d. dict_set k v d) t d) \<Longrightarrow> x \<in> set t \<or> x \<in> set d"
proof (induction t arbitrary: d)
  case (Cons y t)
  obtain k v where y: "y = (k, v)" by (cases y)
  have "set (dict_set k v d) \<subseteq> insert (k, v) (set d)" by (induction d) (auto split: if_splits)
  with Cons.IH[of "dict_set k v d"] Cons.prems show ?case by (auto simp: y)
qed simp

lemma merge_loop_good:
  assumes "wf_heap h" and "keys_ok h"
  shows "merge_loop n h e = Inr t \<Longrightarrow> (k, v) \<in> set t \<Longrightarrow> good_value h v"
proof (induction n arbitrary: e t)
  case (Suc n)
  have here: "good_value h w" if "(j, w) \<in> set (env_table h e)" for j w
  proof -
    have "map_of (env_table h e) j = Some w" using that assms(2) by (simp add: keys_ok_def)
    then show ?thesis using assms(1) by (auto simp: good_value_def wf_heap_def)
  qed
  from Suc.prems(1) obtain t0 where
    t: "t = fold (\<lambda>(k, v) d. dict_set k v d) (env_table h e) t0"
    and t0: "(case env_parent h e of None \<Rightarrow> Inr [] | Some p \<Rightarrow> merge_loop n h p) = Inr t0"
    by (cases "case env_parent h e of None \<Rightarrow> Inr [] | Some p \<Rightarrow> merge_loop n h p") auto
  from set_fold_dict_set[OF Suc.prems(2)[unfolded t]] show ?case
  proof
    assume "(k, v) \<in> set t0"
    with t0 Suc.IH show ?thesis by (auto split: option.splits)
  qed (rule here)
qed simp

lemma find_var_not_none: "find_var n h e k \<noteq> Inr (Some (Atom ANone))"
  by (induction n arbitrary: e) (auto split: option.splits)

lemma detach_ok:
  assumes wf: "wf_heap h" and ok: "keys_ok h" "no_none h" and e: "envs h e \<noteq> None"
  obtains h' where "detach e h = Inr h'" "wf_heap h'" "env_parent h' e = None"
    "\<And>k. local_read h' e k = read h e k"
    "\<And>e2 k. e2 \<noteq> e \<Longrightarrow> local_read h' e2 k = local_read h e2 k \<and> env_parent h' e2 = env_parent h e2"
proof -
  obtain t where t: "get_merged_dict h e = Inr t" "\<And>k. find_var (env_fuel e) h e k = Inr (map_of t k)"
    using merge_loop_find[OF wf ok, of e "env_fuel e"] by (auto simp: get_merged_dict_def env_fuel_def)
  have rd: "read h e k = map_option (contents h) (map_of t k)" for k
    using t(2)[of k] by (simp add: read_def split: option.splits)
  show thesis
  proof (cases "env_parent h e")
    case None
    have "local_read h e k = read h e k" for k
      using read_unfold[OF wf, of e k] None by (simp split: option.splits)
    with None t(1) wf show thesis by (intro that[of h]) (auto simp: detach_def)
  next
    case (Some p)
    obtain t' h1 where c: "deepcopy_table t h = (t', h1)" by (cases "deepcopy_table t h")
    have "\<forall>(k, v) \<in> set t. good_value h v"
      using merge_loop_good[OF wf ok(1) t(1)[unfolded get_merged_dict_def]] by auto
    note d = deepcopy_table_ok[OF this wf c]
    let ?h = "h1\<lparr>envs := (envs h1)(e \<mapsto> \<lparr>table = t', parent = None\<rparr>)\<rparr>"
    have tb: "env_table ?h e2 = (if e2 = e then t' else env_table h e2)"
      and pa: "env_parent ?h e2 = (if e2 = e then None else env_parent h e2)"
      and li: "list_at ?h = list_at h1" for e2
      using d by (auto simp: env_table_def env_parent_def list_at_def)
    have co: "contents ?h = contents h1" by (simp add: contents_def li fun_eq_iff split: val.splits)
    have nn: "map_of t k \<noteq> Some (Atom ANone)" for k
      using find_var_not_none[of "env_fuel e" h e k] t(2)[of k] by auto
    have mk: "map_option (contents h1) (map_of t' k) = map_option (contents h) (map_of t k)" for k
      using d by blast
    have "local_read ?h e k = read h e k" for k
    proof (cases "map_of t k")
      case None
      then show ?thesis using mk[of k] by (simp add: local_read_def tb rd)
    next
      case (Some v)
      then obtain v' where v': "map_of t' k = Some v'" "contents h1 v' = contents h v" using mk[of k] by auto
      with nn[of k] Some have "v' \<noteq> Atom ANone" by (cases v) (auto simp: contents_def)
      with v' Some show ?thesis by (simp add: local_read_def tb rd co)
    qed
    moreover have "local_read ?h e2 k = local_read h e2 k" if "e2 \<noteq> e" for e2 k
    proof -
      have "contents h1 v = contents h v" if "map_of (env_table h e2) k = Some v" for v
        using that wf d by (cases v) (auto simp: contents_def wf_heap_def)
      then show ?thesis using that unfolding local_read_def tb co by (auto split: option.splits)
    qed
    moreover have "wf_heap ?h"
    proof -
      have "lists h1 l \<noteq> None" if "map_of (env_table ?h e2) k = Some (VList l)" for e2 k l
      proof (cases "e2 = e")
        case True
        with that have "(k, VList l) \<in> set t'" unfolding tb by (auto dest: map_of_SomeD)
        with d have "good_value h1 (VList l)" by blast
        then show ?thesis by (simp add: good_value_def)
      next
        case False
        with that have "map_of (env_table h e2) k = Some (VList l)" unfolding tb by simp
        then have "lists h l \<noteq> None" using wf unfolding wf_heap_def by blast
        with d show ?thesis by blast
      qed
      moreover have "e < next_env h1" using d e by (auto simp: wf_heap_def)
      ultimately show ?thesis using d unfolding wf_heap_def pa
        by (auto simp: env_parent_def)
    qed
    moreover have "detach e h = Inr ?h" using t(1) Some c by (simp add: detach_def)
    ultimately show thesis using pa by (intro that[of ?h]) auto
  qed
qed
text \<open>
  Detaching. On a well-formed heap without \<open>None\<close> values, \<open>detach\<close> raises nothing and leaves the
  environment without a parent, while every environment, this one and those derived from it
  included, still reads the same value of every variable.
\<close>

theorem detach_preserves_reads:
  assumes "wf_heap h" and "keys_ok h" and "no_none h" and "envs h e \<noteq> None"
  shows "\<exists>h'. detach e h = Inr h' \<and> env_parent h' e = None \<and> wf_heap h' \<and>
    (\<forall>e2 k. read h' e2 k = read h e2 k)"
proof -
  obtain h' where h': "detach e h = Inr h'" "wf_heap h'" "env_parent h' e = None"
    and r: "\<And>k. local_read h' e k = read h e k"
    and o: "\<And>e2 k. e2 \<noteq> e \<Longrightarrow> local_read h' e2 k = local_read h e2 k \<and> env_parent h' e2 = env_parent h e2"
    using detach_ok[OF assms] by blast
  have "read h' e2 k = read h e2 k" for e2 k
  proof (induction e2 rule: less_induct)
    case (less e2)
    show ?case
    proof (cases "e2 = e")
      case True
      then show ?thesis using read_unfold[OF h'(2), of e k] h'(3) r by (simp split: option.splits)
    next
      case False
      have "read h' p k = read h p k" if "env_parent h e2 = Some p" for p
        using less that assms(1) by (auto simp: wf_heap_def)
      then show ?thesis using o[OF False, of k]
        by (subst read_unfold[OF h'(2)], subst read_unfold[OF assms(1)]) (auto split: option.splits)
    qed
  qed
  with h' show ?thesis by blast
qed

theorem detach_preserves_reads_witness:
  "\<exists>h'. detach 1 ex_heap = Inr h' \<and> env_parent h' 1 = None \<and> read h' 1 ''F'' = Some (CAtom (AStr ''-g''))"
proof -
  have "wf_heap ex_heap" by (rule wf_ex_heap)
  moreover have "keys_ok ex_heap" "no_none ex_heap" by (simp_all add: keys_ok_def no_none_def ex_heap_def env_table_def)
  moreover have "envs ex_heap 1 \<noteq> None" by (simp add: ex_heap_def)
  moreover have "read ex_heap 1 ''F'' = Some (CAtom (AStr ''-g''))"
    by (simp add: ex_heap_def read_def env_fuel_def env_table_def env_parent_def contents_def)
  ultimately show ?thesis using detach_preserves_reads[of ex_heap 1] by auto
qed

end
