(* ===== verification/Waf_Task.thy ===== *)
theory Waf_Task
  imports Py_Base "HOL-Library.Multiset"
begin

text \<open>
  The scheduling constraints of the build system, the classes \<open>TaskManager\<close> and \<open>TaskGroup\<close> of
  \<^verbatim>\<open>src/tools/wafadmin/Task.py\<close>: a manager holds groups that run one after the other; a group
  unites its tasks by their constraints (\<open>cstr_groups\<close>), orders these classes (\<open>cstr_order\<close>), and
  hands out sets of tasks that may run in parallel.

  After the definitions: handing out sets until none is left returns every task exactly once, in
  an order that respects the constraints, exactly when these are acyclic, and ends with an error
  otherwise.
\<close>

section \<open>Definitions\<close>

subsection \<open>Tasks\<close>

text \<open>
  An attribute such as \<open>before\<close> holds a string or a list of strings; \<open>None\<close> stands for an attribute
  that is not set. A task is known by a number; the record has what the scheduler reads of it.
\<close>

datatype attrv = AttrStr string | AttrList "string list"

record task =
  tk_class :: string
  tk_before :: "attrv option"
  tk_after :: "attrv option"
  tk_ext_in :: "attrv option"
  tk_ext_out :: "attrv option"
  tk_class_maxjobs :: nat
  tk_maxjobs :: nat

text \<open>\<open>Utils.to_list\<close>, with the default \<open>()\<close>; iteration over an attribute, and membership in it.\<close>

definition to_list :: "attrv option \<Rightarrow> string list" where
  "to_list a = (case a of None \<Rightarrow> [] | Some (AttrStr s) \<Rightarrow> py_split_ws s | Some (AttrList xs) \<Rightarrow> xs)"

definition attr_iter :: "attrv option \<Rightarrow> string list" where
  "attr_iter a = (case a of None \<Rightarrow> [] | Some (AttrStr s) \<Rightarrow> map (\<lambda>c. [c]) s | Some (AttrList xs) \<Rightarrow> xs)"

definition attr_in :: "string \<Rightarrow> attrv option \<Rightarrow> bool" where
  "attr_in k a = (case a of None \<Rightarrow> False | Some (AttrStr s) \<Rightarrow> py_find s k 0 \<noteq> None | Some (AttrList xs) \<Rightarrow> k \<in> set xs)"

type_synonym cstr_tuple = "string \<times> attrv option \<times> attrv option \<times> attrv option \<times> attrv option \<times> nat"

text \<open>\<open>hash_constraints\<close>; the parameter \<open>hash\<close> is Python's function on the tuple.\<close>

definition hash_constraints :: "(cstr_tuple \<Rightarrow> int) \<Rightarrow> task \<Rightarrow> int" where
  "hash_constraints hash t =
     hash (tk_class t, tk_before t, tk_after t, tk_ext_in t, tk_ext_out t, tk_class_maxjobs t)"

definition MAXJOBS :: nat where "MAXJOBS = 99999999"

subsection \<open>Groups\<close>

text \<open>
  The dictionaries are association lists in their iteration order, the sets of \<open>cstr_order\<close> lists
  without duplicates. \<open>finished\<close> is the attribute \<open>done\<close>.
\<close>

record task_group =
  tasks :: "nat list"
  tasks_gen :: "nat list"
  cstr_groups :: "(int \<times> nat list) list"
  cstr_order :: "(int \<times> int list) list"
  temp_tasks :: "nat list"
  ready :: bool
  post_funs :: "nat list"
  finished :: bool

definition TaskGroup :: task_group where
  "TaskGroup = \<lparr>tasks = [], tasks_gen = [], cstr_groups = [], cstr_order = [], temp_tasks = [], ready = False,
     post_funs = [], finished = False\<rparr>"

definition reset :: "task_group \<Rightarrow> task_group" where
  "reset g = g\<lparr>tasks := temp_tasks g @ tasks g @ concat (map snd (cstr_groups g)), temp_tasks := [],
     cstr_groups := [], cstr_order := [], ready := False\<rparr>"

text \<open>Reading a \<open>DefaultDict(list)\<close>.\<close>

definition ddget :: "('k \<times> 'v list) list \<Rightarrow> 'k \<Rightarrow> 'v list" where
  "ddget d k = (case map_of d k of None \<Rightarrow> [] | Some vs \<Rightarrow> vs)"

definition make_cstr_groups :: "(nat \<Rightarrow> int) \<Rightarrow> task_group \<Rightarrow> task_group" where
  "make_cstr_groups key g =
     g\<lparr>cstr_groups := fold (\<lambda>x d. dict_set (key x) (ddget d (key x) @ [x]) d) (tasks g) []\<rparr>"

definition set_order :: "int \<Rightarrow> int \<Rightarrow> task_group \<Rightarrow> task_group" where
  "set_order a b g =
     g\<lparr>cstr_order := (let bs = ddget (cstr_order g) a
                      in dict_set a (if b \<in> set bs then bs else bs @ [b]) (cstr_order g))\<rparr>"

definition compare_exts :: "task \<Rightarrow> task \<Rightarrow> int" where
  "compare_exts t1 t2 =
     (if list_ex (\<lambda>k. attr_in k (tk_ext_out t2)) (attr_iter (tk_ext_in t1)) then - 1
      else if list_ex (\<lambda>k. attr_in k (tk_ext_out t1)) (attr_iter (tk_ext_in t2)) then 1
      else 0)"

definition compare_partial :: "task \<Rightarrow> task \<Rightarrow> int" where
  "compare_partial t1 t2 =
     (if tk_class t2 \<in> set (to_list (tk_after t1)) then - 1
      else if tk_class t2 \<in> set (to_list (tk_before t1)) then 1
      else if tk_class t1 \<in> set (to_list (tk_after t2)) then 1
      else if tk_class t1 \<in> set (to_list (tk_before t2)) then - 1
      else 0)"

definition compare_tasks :: "task \<Rightarrow> task \<Rightarrow> int" where
  "compare_tasks t1 t2 = (let c = compare_exts t1 t2 in if c \<noteq> 0 then c else compare_partial t1 t2)"

text \<open>
  \<open>extract_constraints\<close>: the first task of each class is compared with those of the later classes.
  \<open>tk\<close> gives the record of a task.
\<close>

fun constrain_with :: "(nat \<Rightarrow> task) \<Rightarrow> int \<times> nat list \<Rightarrow> (int \<times> nat list) list \<Rightarrow> task_group \<Rightarrow> task_group" where
  "constrain_with tk (k1, ts1) [] g = g"
| "constrain_with tk (k1, ts1) ((k2, ts2) # rest) g =
     (let val = compare_tasks (tk (hd ts1)) (tk (hd ts2));
          g' = (if val > 0 then set_order k1 k2 g else if val < 0 then set_order k2 k1 g else g)
      in constrain_with tk (k1, ts1) rest g')"

fun constrain_all :: "(nat \<Rightarrow> task) \<Rightarrow> (int \<times> nat list) list \<Rightarrow> task_group \<Rightarrow> task_group" where
  "constrain_all tk [] g = g"
| "constrain_all tk (kt # rest) g = constrain_all tk rest (constrain_with tk kt rest g)"

definition extract_constraints :: "(nat \<Rightarrow> task) \<Rightarrow> task_group \<Rightarrow> task_group" where
  "extract_constraints tk g = constrain_all tk (cstr_groups g) g"

text \<open>
  What the scheduler takes from outside: the tasks, Python's \<open>hash\<close>, and the hook \<open>file_deps\<close>, which
  may add to the lists \<open>run_after\<close> of the tasks (by default it does nothing).
\<close>

type_synonym after = "nat \<Rightarrow> nat list"

record sched_env =
  sc_task :: "nat \<Rightarrow> task"
  sc_hash :: "cstr_tuple \<Rightarrow> int"
  sc_file_deps :: "nat list \<Rightarrow> after \<Rightarrow> after"

definition task_key :: "sched_env \<Rightarrow> nat \<Rightarrow> int" where
  "task_key sc x = hash_constraints (sc_hash sc) (sc_task sc x)"

definition prepare :: "sched_env \<Rightarrow> task_group \<times> after \<Rightarrow> task_group \<times> after" where
  "prepare sc = (\<lambda>(g, ra).
     (extract_constraints (sc_task sc) (make_cstr_groups (task_key sc) (g\<lparr>ready := True\<rparr>)), sc_file_deps sc (tasks g) ra))"

definition prepared :: "sched_env \<Rightarrow> task_group \<times> after \<Rightarrow> task_group \<times> after" where
  "prepared sc = (\<lambda>(g, ra). if ready g then (g, ra) else prepare sc (g, ra))"

text \<open>The classes on which no other class is waiting to be done, and the others.\<close>

definition connected :: "task_group \<Rightarrow> int \<Rightarrow> bool" where
  "connected g u = list_ex (\<lambda>(a, bs). u \<in> set bs) (cstr_order g)"

definition tasks_in_parallel :: "sched_env \<Rightarrow> task_group \<times> after \<Rightarrow> (nat list \<times> task_group \<times> after) result" where
  "tasks_in_parallel sc st =
     (let (g, ra) = prepared sc st;
          ks = map fst (cstr_groups g);
          unconnected = filter (\<lambda>u. \<not> connected g u) ks;
          remainder = filter (connected g) ks;
          toreturn = concat (map (ddget (cstr_groups g)) unconnected);
          g' = g\<lparr>cstr_order := fold dict_del unconnected (cstr_order g),
                 cstr_groups := fold dict_del unconnected (cstr_groups g)\<rparr>
      in if toreturn = [] \<and> remainder \<noteq> [] then Inl (WafError ''circular order constraint detected'')
         else Inr (toreturn, g', ra))"

text \<open>\<open>tasks_by_max_jobs\<close>: the loop over the tasks carries \<open>maxjobs\<close>, \<open>ret\<close> and \<open>remaining\<close>.\<close>

definition max_jobs_step :: "(nat \<Rightarrow> nat) \<Rightarrow> nat \<Rightarrow> nat \<times> nat list \<times> nat list \<Rightarrow> nat \<times> nat list \<times> nat list" where
  "max_jobs_step mj t = (\<lambda>(maxjobs, ret, remaining).
     if mj t > maxjobs then (maxjobs, ret, remaining @ [t])
     else if mj t < maxjobs then (mj t, [t], remaining @ ret)
     else (maxjobs, ret @ [t], remaining))"

definition tasks_by_max_jobs :: "sched_env \<Rightarrow> task_group \<times> after \<Rightarrow>
    ((nat option \<times> nat list option) \<times> task_group \<times> after) result" where
  "tasks_by_max_jobs sc st0 =
     (let (g, ra) = prepared sc st0 in
      rbind (if temp_tasks g = []
             then rmap (\<lambda>(ts, g', ra'). (g'\<lparr>temp_tasks := ts\<rparr>, ra')) (tasks_in_parallel sc (g, ra))
             else Inr (g, ra)) (\<lambda>(g1, ra1).
        if temp_tasks g1 = [] then Inr ((None, None), g1, ra1)
        else let (maxjobs, ret, remaining) =
                   fold (max_jobs_step (\<lambda>t. tk_maxjobs (sc_task sc t))) (temp_tasks g1) (MAXJOBS, [], [])
             in Inr ((Some maxjobs, Some ret), g1\<lparr>temp_tasks := remaining\<rparr>, ra1)))"

text \<open>\<open>tasks_with_inner_constraints\<close>: every task of a class runs after those of the classes before it.\<close>

definition run_after_pairs :: "task_group \<Rightarrow> (nat \<times> nat) list" where
  "run_after_pairs g =
     concat (map (\<lambda>(p, vs). concat (map (\<lambda>v. concat (map (\<lambda>m. map (\<lambda>n. (n, m)) (ddget (cstr_groups g) v))
        (ddget (cstr_groups g) p))) vs)) (cstr_order g))"

definition set_run_after :: "nat \<Rightarrow> nat \<Rightarrow> after \<Rightarrow> after" where
  "set_run_after n m ra = ra(n := ra n @ [m])"

definition tasks_with_inner_constraints :: "sched_env \<Rightarrow> task_group \<times> after \<Rightarrow> nat list option \<times> task_group \<times> after" where
  "tasks_with_inner_constraints sc st =
     (let (g, ra) = prepared sc st in
      if finished g then (None, g, ra)
      else (Some (tasks g), g\<lparr>cstr_order := [], cstr_groups := [], finished := True\<rparr>,
            fold (\<lambda>(n, m). set_run_after n m) (run_after_pairs g) ra))"

datatype algotype = NORMAL | JOBCONTROL | MAXPARALLEL | OtherAlgo

text \<open>\<open>TaskGroup.get_next_set\<close>; \<open>None\<close> is the empty tuple.\<close>

definition group_next_set :: "algotype \<Rightarrow> sched_env \<Rightarrow> task_group \<times> after \<Rightarrow>
    ((nat \<times> nat list) option \<times> task_group \<times> after) result" where
  "group_next_set al sc st =
     (case al of
        NORMAL \<Rightarrow> rmap (\<lambda>(ts, st'). (if ts = [] then None else Some (MAXJOBS, ts), st')) (tasks_in_parallel sc st)
      | JOBCONTROL \<Rightarrow>
          rmap (\<lambda>((mj, ts), st'). (case (mj, ts) of (Some m, Some (t # ts')) \<Rightarrow> Some (m, t # ts') | _ \<Rightarrow> None, st'))
            (tasks_by_max_jobs sc st)
      | MAXPARALLEL \<Rightarrow>
          (let (ts, st') = tasks_with_inner_constraints sc st
           in Inr (case ts of Some (t # ts') \<Rightarrow> Some (MAXJOBS, t # ts') | _ \<Rightarrow> None, st'))
      | OtherAlgo \<Rightarrow> Inl (WafError ''unknown algorithm type''))"

subsection \<open>The manager\<close>

text \<open>
  A group is known by its place in the list. \<open>installed\<close> records the functions that
  \<open>process_install\<close> called and \<open>tasks_installed\<close> the tasks that \<open>add_finished\<close> installed.
\<close>

record task_manager =
  groups :: "task_group list"
  tasks_done :: "nat list"
  current_group :: nat
  groups_names :: "(string option \<times> nat) list"
  after_of :: after
  installed :: "nat list"
  tasks_installed :: "nat list"

definition TaskManager :: task_manager where
  "TaskManager = \<lparr>groups = [], tasks_done = [], current_group = 0, groups_names = [], after_of = (\<lambda>_. []),
     installed = [], tasks_installed = []\<rparr>"

definition process_install :: "task_group \<Rightarrow> task_manager \<Rightarrow> task_manager" where
  "process_install g m = m\<lparr>installed := installed m @ post_funs g\<rparr>"

text \<open>\<open>get_next_set\<close> of the manager: the loop ends because \<open>current_group\<close> grows.\<close>

function get_next_set :: "algotype \<Rightarrow> sched_env \<Rightarrow> task_manager \<Rightarrow> ((nat \<times> nat list) option \<times> task_manager) result" where
  "get_next_set al sc m =
     (if current_group m < length (groups m)
      then case group_next_set al sc (groups m ! current_group m, after_of m) of
             Inl e \<Rightarrow> Inl e
           | Inr (ret, g, ra) \<Rightarrow>
               (let m' = m\<lparr>groups := (groups m)[current_group m := g], after_of := ra\<rparr> in
                case ret of
                  Some r \<Rightarrow> Inr (Some r, m')
                | None \<Rightarrow> get_next_set al sc ((process_install g m')\<lparr>current_group := current_group m + 1\<rparr>))
      else Inr (None, m))"
  by pat_completeness auto
termination
  by (relation "measure (\<lambda>(al, sc, m). length (groups m) - current_group m)") (auto simp: process_install_def)

declare get_next_set.simps [simp del]

text \<open>\<open>add_group\<close>: a name that is present already is reported and taken over.\<close>

definition add_group :: "string option \<Rightarrow> bool \<Rightarrow> task_manager \<Rightarrow> task_manager" where
  "add_group name set_it m =
     (let m' = m\<lparr>groups_names := dict_set name (length (groups m)) (groups_names m), groups := groups m @ [TaskGroup]\<rparr>
      in if set_it then m'\<lparr>current_group := length (groups m') - 1\<rparr> else m')"

datatype group_ref = GroupName string | GroupIndex nat

fun set_group :: "group_ref \<Rightarrow> task_manager \<Rightarrow> task_manager result" where
  "set_group (GroupName s) m =
     (case map_of (groups_names m) (Some s) of
        None \<Rightarrow> Inl KeyError
      | Some x \<Rightarrow> Inr (m\<lparr>current_group := x\<rparr>))"
| "set_group (GroupIndex i) m = Inr (m\<lparr>current_group := i\<rparr>)"

definition with_group :: "task_manager \<Rightarrow> task_manager" where
  "with_group m = (if groups m = [] then add_group None True m else m)"

definition update_group :: "(task_group \<Rightarrow> task_group) \<Rightarrow> task_manager \<Rightarrow> task_manager result" where
  "update_group f m =
     (if current_group m < length (groups m)
      then Inr (m\<lparr>groups := (groups m)[current_group m := f (groups m ! current_group m)]\<rparr>)
      else Inl IndexError)"

definition add_task_gen :: "nat \<Rightarrow> task_manager \<Rightarrow> task_manager result" where
  "add_task_gen tgen m = update_group (\<lambda>g. g\<lparr>tasks_gen := tasks_gen g @ [tgen]\<rparr>) (with_group m)"

definition add_task :: "nat \<Rightarrow> task_manager \<Rightarrow> task_manager result" where
  "add_task x m = update_group (\<lambda>g. g\<lparr>tasks := tasks g @ [x]\<rparr>) (with_group m)"

definition total :: "task_manager \<Rightarrow> nat" where
  "total m = sum_list (map (\<lambda>g. length (tasks g)) (groups m))"

text \<open>
  \<open>add_finished\<close>. The instance attribute \<open>install\<close> is absent (\<open>None\<close>), false, or a function; in the
  first case the method \<open>install\<close> is called.
\<close>

definition add_finished :: "bool \<Rightarrow> (nat \<Rightarrow> bool option) \<Rightarrow> nat \<Rightarrow> task_manager \<Rightarrow> task_manager" where
  "add_finished is_install install_attr x m =
     (let m' = m\<lparr>tasks_done := tasks_done m @ [x]\<rparr> in
      if is_install \<and> install_attr x \<noteq> Some False then m'\<lparr>tasks_installed := tasks_installed m' @ [x]\<rparr> else m')"

section \<open>Classes and their order\<close>

definition order_rel :: "task_group \<Rightarrow> (int \<times> int) set" where
  "order_rel g = {(a, b). \<exists>bs. (a, bs) \<in> set (cstr_order g) \<and> b \<in> set bs}"

definition cstr_keys :: "task_group \<Rightarrow> int set" where
  "cstr_keys g = fst ` set (cstr_groups g)"

text \<open>
  The invariant of a prepared group: classes are not empty and hold the tasks with their key, and
  the order relates classes that are there.
\<close>

definition wf_group :: "(nat \<Rightarrow> int) \<Rightarrow> task_group \<Rightarrow> bool" where
  "wf_group key g \<longleftrightarrow> ready g \<and> distinct (map fst (cstr_groups g)) \<and>
     (\<forall>(k, ts) \<in> set (cstr_groups g). ts \<noteq> [] \<and> (\<forall>t \<in> set ts. key t = k)) \<and>
     order_rel g \<subseteq> cstr_keys g \<times> cstr_keys g"

definition free_keys :: "task_group \<Rightarrow> int set" where
  "free_keys g = {u \<in> cstr_keys g. \<nexists>a. (a, u) \<in> order_rel g}"

definition pending :: "task_group \<Rightarrow> nat list" where
  "pending g = concat (map snd (cstr_groups g))"

lemma fold_dict_del: "fold dict_del us d = filter (\<lambda>(k, v). k \<notin> set us) d"
proof (induction us arbitrary: d)
  case (Cons u us)
  show ?case unfolding fold.simps comp_def Cons.IH by (auto simp: dict_del_def intro: filter_cong)
qed (simp add: case_prod_unfold)

lemma connected_iff: "connected g u \<longleftrightarrow> (\<exists>a. (a, u) \<in> order_rel g)"
  by (auto simp: connected_def order_rel_def list_ex_iff)

lemma ddget_keys:
  "distinct (map fst d) \<Longrightarrow> map (ddget d) (filter P (map fst d)) = map snd (filter (P \<circ> fst) d)"
  by (auto simp: filter_map ddget_def intro!: map_cong)

lemma free_keysD: "k \<in> free_keys g \<Longrightarrow> \<exists>ts. (k, ts) \<in> set (cstr_groups g)"
  by (auto simp: free_keys_def cstr_keys_def)

lemma wf_groupD: "wf_group key g \<Longrightarrow> (k, ts) \<in> set (cstr_groups g) \<Longrightarrow> ts \<noteq> [] \<and> (\<forall>t \<in> set ts. key t = k)"
  by (auto simp: wf_group_def)

text \<open>One call: the free classes are handed out and taken away.\<close>

definition without_free :: "task_group \<Rightarrow> task_group" where
  "without_free g = g\<lparr>cstr_order := filter (\<lambda>(a, bs). a \<notin> free_keys g) (cstr_order g),
     cstr_groups := filter (\<lambda>(k, ts). k \<notin> free_keys g) (cstr_groups g)\<rparr>"

definition free_tasks :: "task_group \<Rightarrow> nat list" where
  "free_tasks g = concat (map snd (filter (\<lambda>(k, ts). k \<in> free_keys g) (cstr_groups g)))"

lemma free_tasks_ne:
  assumes "wf_group key g"
  shows "free_tasks g = [] \<longleftrightarrow> free_keys g = {}"
proof
  assume e: "free_tasks g = []"
  show "free_keys g = {}"
  proof (rule ccontr)
    assume "free_keys g \<noteq> {}"
    then obtain k ts where "k \<in> free_keys g" "(k, ts) \<in> set (cstr_groups g)" using free_keysD by blast
    with e have "ts = []" by (auto simp: free_tasks_def)
    with wf_groupD[OF assms \<open>(k, ts) \<in> set (cstr_groups g)\<close>] show False by simp
  qed
qed (simp add: free_tasks_def)

lemma tasks_in_parallel_wf:
  assumes "wf_group key g"
  shows "tasks_in_parallel sc (g, ra) =
    (if free_keys g = {} \<and> cstr_groups g \<noteq> [] then Inl (WafError ''circular order constraint detected'')
     else Inr (free_tasks g, without_free g, ra))"
proof -
  have r: "prepared sc (g, ra) = (g, ra)" and d: "distinct (map fst (cstr_groups g))"
    using assms by (simp_all add: wf_group_def prepared_def)
  let ?us = "filter (\<lambda>u. \<not> connected g u) (map fst (cstr_groups g))"
  have us: "set ?us = free_keys g" by (auto simp: free_keys_def connected_iff cstr_keys_def)
  have ret: "concat (map (ddget (cstr_groups g)) ?us) = free_tasks g"
    unfolding ddget_keys[OF d] free_tasks_def
    by (rule arg_cong[where f = "\<lambda>xs. concat (map snd xs)"], rule filter_cong)
      (force simp: free_keys_def connected_iff cstr_keys_def)+
  note ne = free_tasks_ne[OF assms]
  have rem: "filter (connected g) (map fst (cstr_groups g)) = [] \<longleftrightarrow> (\<forall>u \<in> cstr_keys g. u \<in> free_keys g)"
    by (auto simp: filter_empty_conv free_keys_def connected_iff cstr_keys_def)
  have "cstr_groups g = [] \<longleftrightarrow> cstr_keys g = {}" by (simp add: cstr_keys_def)
  then show ?thesis
    unfolding tasks_in_parallel_def r Let_def prod.case ret ne fold_dict_del us without_free_def rem by auto
qed

lemma order_rel_without: "order_rel (without_free g) = {(a, b) \<in> order_rel g. a \<notin> free_keys g}"
  by (auto simp: order_rel_def without_free_def)

lemma keys_without: "cstr_keys (without_free g) = cstr_keys g - free_keys g"
  by (force simp: cstr_keys_def without_free_def)

lemma wf_without: "wf_group key g \<Longrightarrow> wf_group key (without_free g)"
  unfolding wf_group_def order_rel_without keys_without
  by (auto simp: without_free_def distinct_map_filter free_keys_def)

lemma mset_split: "mset (free_tasks g) + mset (pending (without_free g)) = mset (pending g)"
proof -
  have "mset (concat (map snd (filter (\<lambda>(k, ts). k \<in> U) d))) + mset (concat (map snd (filter (\<lambda>(k, ts). k \<notin> U) d))) =
      mset (concat (map snd d))" for U :: "int set" and d :: "(int \<times> nat list) list"
    by (induction d) auto
  then show ?thesis by (simp add: free_tasks_def pending_def without_free_def)
qed

section \<open>Acyclic orders\<close>

lemma free_keys_ne:
  assumes "wf_group key g" and "acyclic (order_rel g)" and "cstr_groups g \<noteq> []"
  shows "free_keys g \<noteq> {}"
proof -
  have fin: "finite (cstr_keys g)" by (simp add: cstr_keys_def)
  have "order_rel g \<subseteq> cstr_keys g \<times> cstr_keys g" using assms(1) by (simp add: wf_group_def)
  then have "finite (order_rel g)" using fin finite_subset by blast
  then have wf: "wf (order_rel g)" using assms(2) by (rule finite_acyclic_wf)
  obtain k where "k \<in> cstr_keys g" using assms(3) by (cases "cstr_groups g") (auto simp: cstr_keys_def)
  with wf obtain u where u: "u \<in> cstr_keys g" "\<And>a. (a, u) \<in> order_rel g \<Longrightarrow> a \<notin> cstr_keys g"
    unfolding wf_eq_minimal by metis
  have "(a, u) \<notin> order_rel g" for a using u assms(1) by (auto simp: wf_group_def)
  with u(1) show ?thesis by (auto simp: free_keys_def)
qed

lemma cycle_kept:
  assumes "(a, b) \<in> (order_rel g)\<^sup>+" and "(p, a) \<in> order_rel g"
  shows "(a, b) \<in> (order_rel (without_free g))\<^sup>+"
  using assms(1)
proof (induction rule: trancl_induct)
  case (base b)
  then have "(a, b) \<in> order_rel (without_free g)" using assms(2) by (auto simp: order_rel_without free_keys_def)
  then show ?case by blast
next
  case (step b c)
  from step.hyps(1) obtain q where "(q, b) \<in> order_rel g" by (meson tranclE)
  with step.hyps(2) have "(b, c) \<in> order_rel (without_free g)" by (auto simp: order_rel_without free_keys_def)
  with step.IH show ?case by (rule trancl_into_trancl)
qed

lemma acyclic_without: "acyclic (order_rel (without_free g)) \<longleftrightarrow> acyclic (order_rel g)"
proof
  assume a: "acyclic (order_rel (without_free g))"
  show "acyclic (order_rel g)"
  proof (rule acyclicI, rule allI, rule notI)
    fix x assume x: "(x, x) \<in> (order_rel g)\<^sup>+"
    then obtain p where "(p, x) \<in> order_rel g" by (meson tranclE)
    from cycle_kept[OF x this] a show False by (simp add: acyclic_def)
  qed
qed (auto simp: order_rel_without intro: acyclic_subset)

section \<open>Handing out all sets\<close>

text \<open>The sets that a group hands out until it has none left, as the manager asks for them.\<close>

fun drain :: "nat \<Rightarrow> sched_env \<Rightarrow> task_group \<times> after \<Rightarrow> nat list list result" where
  "drain 0 sc st = Inl RuntimeError"
| "drain (Suc n) sc st =
     rbind (group_next_set NORMAL sc st) (\<lambda>(r, st').
       case r of None \<Rightarrow> Inr [] | Some (mj, ts) \<Rightarrow> rmap ((#) ts) (drain n sc st'))"

text \<open>Tasks of ordered classes are in sets one after the other.\<close>

definition in_order :: "(nat \<Rightarrow> int) \<Rightarrow> (int \<times> int) set \<Rightarrow> nat list list \<Rightarrow> bool" where
  "in_order key r bs \<longleftrightarrow> (\<forall>i j t u. i < length bs \<longrightarrow> j < length bs \<longrightarrow> t \<in> set (bs ! i) \<longrightarrow> u \<in> set (bs ! j) \<longrightarrow>
     (key t, key u) \<in> r \<longrightarrow> i < j)"

lemma in_order_Cons:
  assumes "in_order key r' bs" and "\<And>t u. u \<in> set ts \<Longrightarrow> (key t, key u) \<notin> r"
    and "\<And>b t u. b \<in> set bs \<Longrightarrow> t \<in> set b \<Longrightarrow> (key t, key u) \<in> r \<Longrightarrow> (key t, key u) \<in> r'"
  shows "in_order key r (ts # bs)"
  unfolding in_order_def
proof (intro allI impI)
  fix i j t u
  assume i: "i < length (ts # bs)" and j: "j < length (ts # bs)" and t: "t \<in> set ((ts # bs) ! i)"
    and u: "u \<in> set ((ts # bs) ! j)" and r: "(key t, key u) \<in> r"
  show "i < j"
  proof (cases j)
    case 0
    then show ?thesis using u r assms(2) by simp
  next
    case j': (Suc j')
    show ?thesis
    proof (cases i)
      case (Suc i')
      then have "bs ! i' \<in> set bs" "t \<in> set (bs ! i')" using i t by auto
      with r assms(3) have "(key t, key u) \<in> r'" by blast
      moreover have "i' < length bs" "j' < length bs" "u \<in> set (bs ! j')" using i j u Suc j' by auto
      ultimately have "i' < j'" using assms(1) \<open>t \<in> set (bs ! i')\<close> unfolding in_order_def by blast
      then show ?thesis using Suc j' by simp
    qed (simp add: j')
  qed
qed

lemma free_tasks_key: "wf_group key g \<Longrightarrow> t \<in> set (free_tasks g) \<Longrightarrow> key t \<in> free_keys g"
  by (auto simp: free_tasks_def wf_group_def)

lemma pending_key:
  assumes "wf_group key g" and "t \<in> set (pending g)"
  shows "key t \<in> cstr_keys g"
proof -
  obtain k ts where k: "(k, ts) \<in> set (cstr_groups g)" "t \<in> set ts" using assms(2) by (auto simp: pending_def)
  then have "key t = k" using wf_groupD[OF assms(1)] by blast
  with k show ?thesis by (force simp: cstr_keys_def)
qed

lemma length_without: "free_keys g \<noteq> {} \<Longrightarrow> length (cstr_groups (without_free g)) < length (cstr_groups g)"
proof -
  assume "free_keys g \<noteq> {}"
  then obtain k ts where "(k, ts) \<in> set (cstr_groups g)" "k \<in> free_keys g" using free_keysD by blast
  then show ?thesis unfolding without_free_def
    by simp (rule length_filter_less[of "(k, ts)"], auto)
qed

lemma drain_unfold:
  assumes "wf_group key g"
  shows "drain (Suc n) sc (g, ra) =
    (if free_keys g = {} then (if cstr_groups g = [] then Inr [] else Inl (WafError ''circular order constraint detected''))
     else rmap ((#) (free_tasks g)) (drain n sc (without_free g, ra)))"
  using free_tasks_ne[OF assms] by (auto simp: group_next_set_def tasks_in_parallel_wf[OF assms])

lemma drain_acyclic:
  "wf_group key g \<Longrightarrow> acyclic (order_rel g) \<Longrightarrow> length (cstr_groups g) < n \<Longrightarrow>
    \<exists>bs. drain n sc (g, ra) = Inr bs \<and> mset (concat bs) = mset (pending g) \<and> in_order key (order_rel g) bs"
proof (induction n arbitrary: g)
  case (Suc n)
  show ?case
  proof (cases "cstr_groups g = []")
    case True
    then show ?thesis unfolding drain_unfold[OF Suc.prems(1)]
      by (auto simp: free_keys_def cstr_keys_def pending_def in_order_def)
  next
    case False
    from free_keys_ne[OF Suc.prems(1,2) False] have ne: "free_keys g \<noteq> {}" .
    have "length (cstr_groups (without_free g)) < n" using length_without[OF ne] Suc.prems(3) by simp
    from Suc.IH[OF wf_without[OF Suc.prems(1)] _ this] Suc.prems(2) obtain bs where
      bs: "drain n sc (without_free g, ra) = Inr bs" "mset (concat bs) = mset (pending (without_free g))"
        "in_order key (order_rel (without_free g)) bs" by (auto simp: acyclic_without)
    have "in_order key (order_rel g) (free_tasks g # bs)"
    proof (rule in_order_Cons[OF bs(3)])
      show "(key t, key u) \<notin> order_rel g" if "u \<in> set (free_tasks g)" for t u
        using free_tasks_key[OF Suc.prems(1) that] by (auto simp: free_keys_def)
      show "(key t, key u) \<in> order_rel (without_free g)"
        if "b \<in> set bs" "t \<in> set b" "(key t, key u) \<in> order_rel g" for b t u
      proof -
        have "t \<in> set (concat bs)" using that by auto
        then have "t \<in> set (pending (without_free g))" unfolding mset_eq_setD[OF bs(2)] .
        from pending_key[OF wf_without[OF Suc.prems(1)] this] that(3) show ?thesis
          by (simp add: keys_without order_rel_without)
      qed
    qed
    moreover have "mset (concat (free_tasks g # bs)) = mset (pending g)" using bs(2) mset_split[of g] by simp
    ultimately show ?thesis unfolding drain_unfold[OF Suc.prems(1)] using ne bs(1) by simp
  qed
qed simp

lemma drain_cyclic:
  "wf_group key g \<Longrightarrow> \<not> acyclic (order_rel g) \<Longrightarrow> length (cstr_groups g) < n \<Longrightarrow>
    drain n sc (g, ra) = Inl (WafError ''circular order constraint detected'')"
proof (induction n arbitrary: g)
  case (Suc n)
  show ?case
  proof (cases "free_keys g = {}")
    case True
    have "cstr_groups g \<noteq> []"
    proof
      assume "cstr_groups g = []"
      then have "order_rel g = {}" using Suc.prems(1) by (auto simp: wf_group_def cstr_keys_def)
      with Suc.prems(2) show False by (simp add: acyclic_def)
    qed
    with True show ?thesis unfolding drain_unfold[OF Suc.prems(1)] by simp
  next
    case False
    have "length (cstr_groups (without_free g)) < n" using length_without[OF False] Suc.prems(3) by simp
    from Suc.IH[OF wf_without[OF Suc.prems(1)] _ this] Suc.prems(2) False show ?thesis
      unfolding drain_unfold[OF Suc.prems(1)] by (simp add: acyclic_without)
  qed
qed simp

section \<open>Preparing a group\<close>

definition cstr_tuple_of :: "task \<Rightarrow> cstr_tuple" where
  "cstr_tuple_of t = (tk_class t, tk_before t, tk_after t, tk_ext_in t, tk_ext_out t, tk_class_maxjobs t)"

lemma task_key_hash: "task_key sc x = sc_hash sc (cstr_tuple_of (sc_task sc x))"
  by (simp add: task_key_def hash_constraints_def cstr_tuple_of_def)

text \<open>The comparison of tasks depends on their tuples only.\<close>

lemma compare_tasks_cong:
  "cstr_tuple_of t1 = cstr_tuple_of u1 \<Longrightarrow> cstr_tuple_of t2 = cstr_tuple_of u2 \<Longrightarrow> compare_tasks t1 t2 = compare_tasks u1 u2"
  by (simp add: cstr_tuple_of_def compare_tasks_def compare_exts_def compare_partial_def)

definition classes_ok :: "(nat \<Rightarrow> int) \<Rightarrow> (int \<times> nat list) list \<Rightarrow> bool" where
  "classes_ok key d \<longleftrightarrow> distinct (map fst d) \<and> (\<forall>(k, ts) \<in> set d. ts \<noteq> [] \<and> (\<forall>t \<in> set ts. key t = k))"

lemma dict_set_SomeD: "(l, w) \<in> set (dict_set k v d) \<Longrightarrow> (l, w) = (k, v) \<or> (l, w) \<in> set d"
  by (induction k v d rule: dict_set.induct) (auto split: if_splits)

lemma add_to_class:
  assumes "classes_ok key d"
  shows "classes_ok key (dict_set (key x) (ddget d (key x) @ [x]) d)"
    and "mset (concat (map snd (dict_set (key x) (ddget d (key x) @ [x]) d))) = add_mset x (mset (concat (map snd d)))"
proof -
  have "\<forall>t \<in> set (ddget d (key x)). key t = key x"
  proof (cases "map_of d (key x)")
    case (Some ts)
    then have "(key x, ts) \<in> set d" by (rule map_of_SomeD)
    with assms Some show ?thesis by (auto simp: classes_ok_def ddget_def)
  qed (simp add: ddget_def)
  then have F: "ts \<noteq> [] \<and> (\<forall>t \<in> set ts. key t = k)" if "(k, ts) \<in> set (dict_set (key x) (ddget d (key x) @ [x]) d)" for k ts
    using dict_set_SomeD[OF that] assms unfolding classes_ok_def by auto
  have "distinct (map fst (dict_set (key x) (ddget d (key x) @ [x]) d))"
    using assms by (simp add: classes_ok_def distinct_dict_set)
  then show "classes_ok key (dict_set (key x) (ddget d (key x) @ [x]) d)"
    unfolding classes_ok_def by (intro conjI, assumption, intro ballI, clarify) (rule F)
  have "mset (concat (map snd (dict_set k (ddget e k @ [x]) e))) = add_mset x (mset (concat (map snd e)))"
    for k and e :: "(int \<times> nat list) list"
    by (induction e) (auto simp: ddget_def)
  then show "mset (concat (map snd (dict_set (key x) (ddget d (key x) @ [x]) d))) = add_mset x (mset (concat (map snd d)))"
    by blast
qed

lemma classes_fold:
  "classes_ok key d \<Longrightarrow>
    classes_ok key (fold (\<lambda>x d. dict_set (key x) (ddget d (key x) @ [x]) d) xs d) \<and>
    mset (concat (map snd (fold (\<lambda>x d. dict_set (key x) (ddget d (key x) @ [x]) d) xs d))) = mset (concat (map snd d)) + mset xs"
proof (induction xs arbitrary: d)
  case (Cons x xs)
  from Cons.IH[OF add_to_class(1)[OF Cons.prems]] add_to_class(2)[OF Cons.prems] show ?case by simp
qed simp

text \<open>The order that \<open>extract_constraints\<close> adds.\<close>

fun pair_rel :: "(nat \<Rightarrow> task) \<Rightarrow> (int \<times> nat list) list \<Rightarrow> (int \<times> int) set" where
  "pair_rel tk [] = {}"
| "pair_rel tk ((k1, ts1) # rest) =
     {(k1, k2) |k2 ts2. (k2, ts2) \<in> set rest \<and> compare_tasks (tk (hd ts1)) (tk (hd ts2)) > 0} \<union>
     {(k2, k1) |k2 ts2. (k2, ts2) \<in> set rest \<and> compare_tasks (tk (hd ts1)) (tk (hd ts2)) < 0} \<union> pair_rel tk rest"

definition rel_of :: "(int \<times> int list) list \<Rightarrow> (int \<times> int) set" where
  "rel_of d = (\<Union>(a, bs) \<in> set d. {a} \<times> set bs)"

lemma rel_of_simps [simp]: "rel_of [] = {}" "rel_of ((a, bs) # d) = {a} \<times> set bs \<union> rel_of d"
  by (simp_all add: rel_of_def)

lemma rel_of_dict_set:
  "rel_of (dict_set a (if b \<in> set (ddget d a) then ddget d a else ddget d a @ [b]) d) = insert (a, b) (rel_of d)"
proof (induction d)
  case (Cons x d)
  obtain k v where x: "x = (k, v)" by (cases x)
  show ?case
  proof (cases "k = a")
    case False
    then have "ddget ((k, v) # d) a = ddget d a" by (simp add: ddget_def)
    with False Cons.IH show ?thesis unfolding x by auto
  qed (auto simp: x ddget_def)
qed (simp add: ddget_def)

lemma order_rel_set_order: "order_rel (set_order a b g) = insert (a, b) (order_rel g)"
proof -
  have "order_rel g = rel_of (cstr_order g)" for g by (auto simp: order_rel_def rel_of_def)
  then show ?thesis using rel_of_dict_set by (simp add: set_order_def Let_def)
qed

lemma constrain_with_rel:
  "order_rel (constrain_with tk (k1, ts1) rest g) = order_rel g \<union>
     {(k1, k2) |k2 ts2. (k2, ts2) \<in> set rest \<and> compare_tasks (tk (hd ts1)) (tk (hd ts2)) > 0} \<union>
     {(k2, k1) |k2 ts2. (k2, ts2) \<in> set rest \<and> compare_tasks (tk (hd ts1)) (tk (hd ts2)) < 0}"
  by (induction tk "(k1, ts1)" rest g rule: constrain_with.induct) (auto simp: Let_def order_rel_set_order)

lemma constrain_with_same:
  "cstr_groups (constrain_with tk kt rest g) = cstr_groups g \<and> ready (constrain_with tk kt rest g) = ready g"
  by (induction tk kt rest g rule: constrain_with.induct) (auto simp: Let_def set_order_def)

lemma constrain_all_rel: "order_rel (constrain_all tk l g) = order_rel g \<union> pair_rel tk l"
proof (induction tk l g rule: constrain_all.induct)
  case (2 tk kt rest g)
  obtain k1 ts1 where "kt = (k1, ts1)" by (cases kt)
  with 2 show ?case by (simp add: constrain_with_rel Un_assoc)
qed simp

lemma constrain_all_same:
  "cstr_groups (constrain_all tk l g) = cstr_groups g \<and> ready (constrain_all tk l g) = ready g"
  by (induction tk l g rule: constrain_all.induct) (auto simp: constrain_with_same)

lemma constrain_with_other:
  "tasks (constrain_with tk kt rest g) = tasks g \<and> finished (constrain_with tk kt rest g) = finished g"
  by (induction tk kt rest g rule: constrain_with.induct) (auto simp: Let_def set_order_def)

lemma constrain_all_other: "tasks (constrain_all tk l g) = tasks g \<and> finished (constrain_all tk l g) = finished g"
  by (induction tk l g rule: constrain_all.induct) (auto simp: constrain_with_other)

lemma pair_rel_keys: "pair_rel tk l \<subseteq> fst ` set l \<times> fst ` set l"
  by (induction tk l rule: pair_rel.induct) force+

lemma pair_rel_intro:
  "(k1, ts1) \<in> set l \<Longrightarrow> (k2, ts2) \<in> set l \<Longrightarrow> k1 \<noteq> k2 \<Longrightarrow> compare_tasks (tk (hd ts1)) (tk (hd ts2)) > 0 \<Longrightarrow>
    compare_tasks (tk (hd ts2)) (tk (hd ts1)) < 0 \<Longrightarrow> (k1, k2) \<in> pair_rel tk l"
  by (induction tk l rule: pair_rel.induct) auto

lemma prepare_ok:
  assumes "cstr_order g = []"
  shows "wf_group (task_key sc) (fst (prepare sc (g, ra)))" and "mset (pending (fst (prepare sc (g, ra)))) = mset (tasks g)"
    and "order_rel (fst (prepare sc (g, ra))) = pair_rel (sc_task sc) (cstr_groups (fst (prepare sc (g, ra))))"
proof -
  let ?g1 = "make_cstr_groups (task_key sc) (g\<lparr>ready := True\<rparr>)" and ?g2 = "fst (prepare sc (g, ra))"
  have g2: "?g2 = constrain_all (sc_task sc) (cstr_groups ?g1) ?g1" by (simp add: prepare_def extract_constraints_def)
  have "classes_ok (task_key sc) []" by (simp add: classes_ok_def)
  from classes_fold[OF this, of "tasks g"]
  have c: "classes_ok (task_key sc) (cstr_groups ?g1)" "mset (concat (map snd (cstr_groups ?g1))) = mset (tasks g)"
    by (simp_all add: make_cstr_groups_def)
  have same: "cstr_groups ?g2 = cstr_groups ?g1" "ready ?g2" unfolding g2 by (simp_all add: constrain_all_same make_cstr_groups_def)
  show "mset (pending ?g2) = mset (tasks g)" using c(2) by (simp add: pending_def same)
  have r0: "order_rel ?g1 = {}" using assms by (simp add: order_rel_def make_cstr_groups_def)
  have r: "order_rel ?g2 = pair_rel (sc_task sc) (cstr_groups ?g1)" unfolding g2 constrain_all_rel r0 by simp
  then show "order_rel ?g2 = pair_rel (sc_task sc) (cstr_groups ?g2)" by (simp add: same)
  show "wf_group (task_key sc) ?g2"
    using c(1) pair_rel_keys[of "sc_task sc" "cstr_groups ?g1"] unfolding wf_group_def cstr_keys_def r same(1)
    by (simp add: classes_ok_def same(2))
qed

text \<open>A task that must run before another, without a constraint to the contrary.\<close>

definition precedes :: "task \<Rightarrow> task \<Rightarrow> bool" where
  "precedes t u \<longleftrightarrow> compare_tasks t u > 0 \<and> compare_tasks u t < 0"

lemma precedes_order:
  assumes g: "cstr_order g = []" and inj: "inj_on (sc_hash sc) ((cstr_tuple_of \<circ> sc_task sc) ` set (tasks g))"
    and x: "x \<in> set (tasks g)" and y: "y \<in> set (tasks g)" and p: "precedes (sc_task sc x) (sc_task sc y)"
  shows "(task_key sc x, task_key sc y) \<in> order_rel (fst (prepare sc (g, ra)))"
proof -
  let ?g = "fst (prepare sc (g, ra))"
  note ok = prepare_ok[OF g, of sc ra]
  have same: "cstr_tuple_of (sc_task sc a) = cstr_tuple_of (sc_task sc b)"
    if "task_key sc a = task_key sc b" "a \<in> set (tasks g)" "b \<in> set (tasks g)" for a b
    using inj_onD[OF inj, of "cstr_tuple_of (sc_task sc a)" "cstr_tuple_of (sc_task sc b)"] that by (simp add: task_key_hash)
  have set: "set (pending ?g) = set (tasks g)" using ok(2) by (rule mset_eq_setD)
  have cls: "\<exists>ts. (task_key sc z, ts) \<in> set (cstr_groups ?g) \<and> hd ts \<in> set (tasks g) \<and> task_key sc (hd ts) = task_key sc z"
    if "z \<in> set (tasks g)" for z
  proof -
    have "z \<in> set (pending ?g)" using that set by simp
    then obtain k ts where k: "(k, ts) \<in> set (cstr_groups ?g)" "z \<in> set ts" by (auto simp: pending_def)
    note w = wf_groupD[OF ok(1) k(1)]
    then have "hd ts \<in> set ts" by simp
    moreover have "set ts \<subseteq> set (pending ?g)" using k(1) by (force simp: pending_def)
    ultimately have "hd ts \<in> set (tasks g)" using set by blast
    moreover have "task_key sc z = k" "task_key sc (hd ts) = k" using w k(2) \<open>hd ts \<in> set ts\<close> by auto
    ultimately show ?thesis using k(1) by blast
  qed
  from cls[OF x] obtain ts1 where 1: "(task_key sc x, ts1) \<in> set (cstr_groups ?g)" "hd ts1 \<in> set (tasks g)"
    "task_key sc (hd ts1) = task_key sc x" by blast
  from cls[OF y] obtain ts2 where 2: "(task_key sc y, ts2) \<in> set (cstr_groups ?g)" "hd ts2 \<in> set (tasks g)"
    "task_key sc (hd ts2) = task_key sc y" by blast
  have c: "compare_tasks (sc_task sc (hd ts1)) (sc_task sc (hd ts2)) = compare_tasks (sc_task sc x) (sc_task sc y)"
    "compare_tasks (sc_task sc (hd ts2)) (sc_task sc (hd ts1)) = compare_tasks (sc_task sc y) (sc_task sc x)"
    by (rule compare_tasks_cong; rule same; use 1 2 x y in simp)+
  have "task_key sc x \<noteq> task_key sc y"
  proof
    assume "task_key sc x = task_key sc y"
    from same[OF this x y] have "compare_tasks (sc_task sc x) (sc_task sc y) = compare_tasks (sc_task sc y) (sc_task sc x)"
      by (intro compare_tasks_cong) auto
    with p show False unfolding precedes_def by linarith
  qed
  from pair_rel_intro[OF 1(1) 2(1) this, of "sc_task sc"] p show ?thesis unfolding ok(3) c by (simp add: precedes_def)
qed

lemma drain_prepare: "\<not> ready g \<Longrightarrow> drain n sc (g, ra) = drain n sc (prepare sc (g, ra))"
proof (cases n)
  case (Suc m)
  assume "\<not> ready g"
  moreover have "ready (fst (prepare sc (g, ra)))"
    by (simp add: prepare_def extract_constraints_def constrain_all_same make_cstr_groups_def)
  ultimately have "prepared sc (prepare sc (g, ra)) = prepared sc (g, ra)"
    by (cases "prepare sc (g, ra)") (simp add: prepared_def)
  then show ?thesis by (simp add: Suc group_next_set_def tasks_in_parallel_def)
qed simp

lemma length_classes: "wf_group key g \<Longrightarrow> length (cstr_groups g) \<le> length (pending g)"
proof -
  assume "wf_group key g"
  then have "\<forall>x \<in> set (cstr_groups g). snd x \<noteq> []" by (auto simp: wf_group_def)
  then have "length d \<le> length (concat (map snd d))" if "set d \<subseteq> set (cstr_groups g)" for d
    using that
  proof (induction d)
    case (Cons x d)
    then have "snd x \<noteq> []" "length d \<le> length (concat (map snd d))"
      using \<open>\<forall>x \<in> set (cstr_groups g). snd x \<noteq> []\<close> by auto
    then show ?case by (cases "snd x") auto
  qed simp
  then show ?thesis by (simp add: pending_def)
qed

section \<open>Other algorithms\<close>

text \<open>\<open>JOBCONTROL\<close>: the tasks with the smallest limit come first, the others wait.\<close>

lemma max_jobs_fold:
  assumes "m0 = Min (insert MAXJOBS (mj ` set us))" and "ret0 = filter (\<lambda>t. mj t = m0) us"
    and "mset rem0 = mset (filter (\<lambda>t. mj t \<noteq> m0) us)"
    and "fold (max_jobs_step mj) ts (m0, ret0, rem0) = (m, ret, rem)"
  shows "m = Min (insert MAXJOBS (mj ` set (us @ ts))) \<and> ret = filter (\<lambda>t. mj t = m) (us @ ts) \<and>
    mset rem = mset (filter (\<lambda>t. mj t \<noteq> m) (us @ ts))"
  using assms
proof (induction ts arbitrary: us m0 ret0 rem0)
  case (Cons t ts)
  let ?us = "us @ [t]"
  have le: "mj u \<ge> m0" if "u \<in> set us" for u using that Cons.prems(1) by simp
  have ins: "insert MAXJOBS (mj ` set ?us) = insert (mj t) (insert MAXJOBS (mj ` set us))" by auto
  have mu: "Min (insert MAXJOBS (mj ` set ?us)) = min m0 (mj t)"
    unfolding ins Cons.prems(1) by (subst Min_insert) (simp_all add: min.commute)
  obtain m1 ret1 rem1 where s: "max_jobs_step mj t (m0, ret0, rem0) = (m1, ret1, rem1)" by (metis prod_cases3)
  have inv: "m1 = Min (insert MAXJOBS (mj ` set ?us)) \<and> ret1 = filter (\<lambda>t. mj t = m1) ?us \<and>
      mset rem1 = mset (filter (\<lambda>t. mj t \<noteq> m1) ?us)"
  proof (cases "mj t < m0")
    case True
    then have "filter (\<lambda>u. mj u = mj t) us = []" "filter (\<lambda>u. mj u \<noteq> mj t) us = us"
      using le by (fastforce simp: filter_empty_conv filter_id_conv)+
    moreover have "mset us = mset (filter (\<lambda>u. mj u \<noteq> m0) us) + mset (filter (\<lambda>u. mj u = m0) us)"
      using multiset_partition[of "mset us" "\<lambda>u. mj u \<noteq> m0"] by simp
    ultimately show ?thesis using True s Cons.prems(2,3) unfolding mu by (auto simp: max_jobs_step_def)
  next
    case False
    then show ?thesis using s Cons.prems(2,3) unfolding mu by (auto simp: max_jobs_step_def split: if_splits)
  qed
  have "fold (max_jobs_step mj) ts (m1, ret1, rem1) = (m, ret, rem)" using Cons.prems(4) s by simp
  from Cons.IH[OF _ _ _ this, of ?us] inv show ?case by simp
qed auto

text \<open>\<open>MAXPARALLEL\<close>: the lists \<open>run_after\<close> get the order of the classes.\<close>

lemma set_run_after_fold:
  "m \<in> set (fold (\<lambda>(n, m). set_run_after n m) ps ra n) \<longleftrightarrow> m \<in> set (ra n) \<or> (n, m) \<in> set ps"
proof (induction ps arbitrary: ra)
  case (Cons p ps)
  obtain n' m' where "p = (n', m')" by (cases p)
  with Cons.IH[of "set_run_after n' m' ra"] show ?case by (auto simp: set_run_after_def)
qed simp

lemma run_after_pairs_iff:
  assumes "wf_group key g"
  shows "(n, m) \<in> set (run_after_pairs g) \<longleftrightarrow> m \<in> set (pending g) \<and> n \<in> set (pending g) \<and> (key m, key n) \<in> order_rel g"
proof -
  have dd: "t \<in> set (ddget (cstr_groups g) k) \<longleftrightarrow> t \<in> set (pending g) \<and> key t = k" for t k
  proof
    assume "t \<in> set (ddget (cstr_groups g) k)"
    then obtain ts where "(k, ts) \<in> set (cstr_groups g)" "t \<in> set ts"
      using map_of_SomeD[of "cstr_groups g" k] by (cases "map_of (cstr_groups g) k") (auto simp: ddget_def)
    with wf_groupD[OF assms] show "t \<in> set (pending g) \<and> key t = k" by (force simp: pending_def)
  next
    assume t: "t \<in> set (pending g) \<and> key t = k"
    then obtain k' ts where k': "(k', ts) \<in> set (cstr_groups g)" "t \<in> set ts" by (auto simp: pending_def)
    with wf_groupD[OF assms k'(1)] t have "k' = k" by auto
    with k' assms have "map_of (cstr_groups g) k = Some ts" by (simp add: wf_group_def)
    with k' show "t \<in> set (ddget (cstr_groups g) k)" by (simp add: ddget_def)
  qed
  have "(n, m) \<in> set (run_after_pairs g) \<longleftrightarrow>
      (\<exists>p vs v. (p, vs) \<in> set (cstr_order g) \<and> v \<in> set vs \<and> m \<in> set (ddget (cstr_groups g) p) \<and> n \<in> set (ddget (cstr_groups g) v))"
    unfolding run_after_pairs_def by auto blast+
  then show ?thesis unfolding dd order_rel_def by blast
qed

section \<open>The manager\<close>

text \<open>The sets that the manager gives to the scheduler until it has none left.\<close>

fun manager_sets :: "nat \<Rightarrow> sched_env \<Rightarrow> task_manager \<Rightarrow> nat list list result" where
  "manager_sets 0 sc m = Inl RuntimeError"
| "manager_sets (Suc n) sc m =
     rbind (get_next_set NORMAL sc m) (\<lambda>(r, m').
       case r of None \<Rightarrow> Inr [] | Some (mj, ts) \<Rightarrow> rmap ((#) ts) (manager_sets n sc m'))"

definition drains_to :: "sched_env \<Rightarrow> task_group \<Rightarrow> nat list list \<Rightarrow> bool" where
  "drains_to sc g bs \<longleftrightarrow> (\<forall>ra. \<exists>n. drain n sc (g, ra) = Inr bs)"

lemma manager_group_end:
  assumes "current_group m < length (groups m)" "group_next_set NORMAL sc (groups m ! current_group m, after_of m) = Inr (None, g, ra)"
  shows "manager_sets n sc m = manager_sets n sc ((process_install g (m\<lparr>groups := (groups m)[current_group m := g], after_of := ra\<rparr>))
    \<lparr>current_group := current_group m + 1\<rparr>)"
proof (cases n)
  case (Suc k)
  then show ?thesis using assms by (simp add: get_next_set.simps[of NORMAL sc m])
qed simp

lemma manager_group_next:
  assumes "current_group m < length (groups m)"
    "group_next_set NORMAL sc (groups m ! current_group m, after_of m) = Inr (Some (mj, ts), g, ra)"
  shows "manager_sets (Suc n) sc m =
    rmap ((#) ts) (manager_sets n sc (m\<lparr>groups := (groups m)[current_group m := g], after_of := ra\<rparr>))"
  using assms by (simp add: get_next_set.simps[of NORMAL sc m])

lemma manager_drain_group:
  "current_group m < length (groups m) \<Longrightarrow> drain k sc (groups m ! current_group m, after_of m) = Inr bs \<Longrightarrow>
    \<exists>m'. current_group m' = Suc (current_group m) \<and> drop (Suc (current_group m)) (groups m') = drop (Suc (current_group m)) (groups m) \<and>
      length (groups m') = length (groups m) \<and> (\<forall>n. manager_sets (length bs + n) sc m = rmap ((@) bs) (manager_sets n sc m'))"
proof (induction k arbitrary: m bs)
  case (Suc k)
  from Suc.prems(2) obtain r g ra where gn: "group_next_set NORMAL sc (groups m ! current_group m, after_of m) = Inr (r, g, ra)"
    by (auto simp: rbind_Inr_iff)
  let ?m = "m\<lparr>groups := (groups m)[current_group m := g], after_of := ra\<rparr>"
  show ?case
  proof (cases r)
    case None
    then have "bs = []" using Suc.prems(2) gn by simp
    let ?m' = "(process_install g ?m)\<lparr>current_group := current_group m + 1\<rparr>"
    have "manager_sets (length bs + n) sc m = rmap ((@) bs) (manager_sets n sc ?m')" for n
    proof -
      have "manager_sets (length bs + n) sc m = manager_sets n sc ?m'"
        using manager_group_end[OF Suc.prems(1) gn[unfolded None], of n] by (simp add: \<open>bs = []\<close>)
      also have "\<dots> = rmap ((@) bs) (manager_sets n sc ?m')"
        by (cases "manager_sets n sc ?m'") (simp_all add: \<open>bs = []\<close>)
      finally show ?thesis .
    qed
    moreover have "drop (Suc (current_group m)) (groups ?m') = drop (Suc (current_group m)) (groups m)"
      by (simp add: process_install_def)
    ultimately show ?thesis by (intro exI[of _ ?m']) (simp add: process_install_def)
  next
    case (Some p)
    obtain mj ts where p: "r = Some (mj, ts)" using Some by (cases p) auto
    from Suc.prems(2) gn p obtain bs' where bs: "bs = ts # bs'" "drain k sc (g, ra) = Inr bs'"
      by (auto simp: rmap_Inr_iff)
    have cur: "current_group ?m < length (groups ?m)" "groups ?m ! current_group ?m = g" "after_of ?m = ra"
      using Suc.prems(1) by simp_all
    from Suc.IH[of ?m bs'] cur bs(2) obtain m' where
      m': "current_group m' = Suc (current_group m)" "drop (Suc (current_group m)) (groups m') = drop (Suc (current_group m)) (groups m)"
        "length (groups m') = length (groups m)" "\<forall>n. manager_sets (length bs' + n) sc ?m = rmap ((@) bs') (manager_sets n sc m')"
      by auto
    have "manager_sets (length bs + n) sc m = rmap ((@) bs) (manager_sets n sc m')" for n
    proof -
      have "manager_sets (length bs + n) sc m = rmap ((#) ts) (manager_sets (length bs' + n) sc ?m)"
        unfolding bs(1) using manager_group_next[OF Suc.prems(1) gn[unfolded p]] by simp
      also have "\<dots> = rmap ((@) bs) (manager_sets n sc m')" using m'(4) by (cases "manager_sets n sc m'") (auto simp: bs(1))
      finally show ?thesis .
    qed
    with m' show ?thesis by blast
  qed
qed simp

lemma manager_drain_groups:
  "list_all2 (drains_to sc) (drop (current_group m) (groups m)) bss \<Longrightarrow>
    manager_sets (length (concat bss) + Suc n) sc m = Inr (concat bss)"
proof (induction bss arbitrary: m)
  case Nil
  then have "\<not> current_group m < length (groups m)" by auto
  then show ?case by (simp add: get_next_set.simps[of NORMAL sc m])
next
  case (Cons bs bss)
  have "drop (current_group m) (groups m) \<noteq> []" using Cons.prems by auto
  then have cur: "current_group m < length (groups m)" by simp
  then have "drop (current_group m) (groups m) = groups m ! current_group m # drop (Suc (current_group m)) (groups m)"
    by (rule Cons_nth_drop_Suc[symmetric])
  with Cons.prems have d: "drains_to sc (groups m ! current_group m) bs"
    and rest: "list_all2 (drains_to sc) (drop (Suc (current_group m)) (groups m)) bss" by simp_all
  from d obtain k where "drain k sc (groups m ! current_group m, after_of m) = Inr bs" by (auto simp: drains_to_def)
  from manager_drain_group[OF cur this] obtain m' where m': "current_group m' = Suc (current_group m)"
    "drop (Suc (current_group m)) (groups m') = drop (Suc (current_group m)) (groups m)"
    "\<And>n. manager_sets (length bs + n) sc m = rmap ((@) bs) (manager_sets n sc m')" by blast
  from Cons.IH[of m'] rest m'(1,2) m'(3)[of "length (concat bss) + Suc n"] show ?case by (simp add: add.assoc)
qed

section \<open>Properties\<close>

definition fresh :: "task_group \<Rightarrow> bool" where
  "fresh g \<longleftrightarrow> \<not> ready g \<and> cstr_order g = []"

definition fuel_of :: "task_group \<Rightarrow> nat" where
  "fuel_of g = Suc (length (tasks g))"

lemma drain_fresh:
  assumes "fresh g"
  shows "acyclic (order_rel (fst (prepare sc (g, ra)))) \<Longrightarrow>
      \<exists>bs. drain (fuel_of g) sc (g, ra) = Inr bs \<and> mset (concat bs) = mset (tasks g) \<and>
        in_order (task_key sc) (order_rel (fst (prepare sc (g, ra)))) bs"
    and "\<not> acyclic (order_rel (fst (prepare sc (g, ra)))) \<Longrightarrow>
      drain (fuel_of g) sc (g, ra) = Inl (WafError ''circular order constraint detected'')"
proof -
  let ?g = "fst (prepare sc (g, ra))" and ?ra = "snd (prepare sc (g, ra))"
  have f: "\<not> ready g" "cstr_order g = []" using assms by (simp_all add: fresh_def)
  note ok = prepare_ok[OF f(2), of sc ra]
  have "length (pending ?g) = length (tasks g)" using ok(2) by (rule mset_eq_length)
  then have l: "length (cstr_groups ?g) < fuel_of g" using length_classes[OF ok(1)] by (simp add: fuel_of_def)
  have d: "drain (fuel_of g) sc (g, ra) = drain (fuel_of g) sc (?g, ?ra)" using drain_prepare[OF f(1)] by simp
  show "\<exists>bs. drain (fuel_of g) sc (g, ra) = Inr bs \<and> mset (concat bs) = mset (tasks g) \<and> in_order (task_key sc) (order_rel ?g) bs"
    if "acyclic (order_rel ?g)" unfolding d ok(2)[symmetric] by (rule drain_acyclic[OF ok(1) that l])
  show "drain (fuel_of g) sc (g, ra) = Inl (WafError ''circular order constraint detected'')"
    if "\<not> acyclic (order_rel ?g)" unfolding d by (rule drain_cyclic[OF ok(1) that l])
qed

text \<open>
  C2. A group hands out its tasks in an order that respects the constraints. When the constraints
  between the classes of tasks are acyclic, asking for sets until there is none left gives every task
  exactly once, and a task that must precede another one (by file extensions or by \<open>before\<close> and
  \<open>after\<close>, with no constraint to the contrary) is in an earlier set; when they are cyclic, the
  error about a circular order is raised. Python's \<open>hash\<close> must not identify different constraints.
\<close>

theorem schedule_respects_constraints:
  assumes "fresh g" and "inj_on (sc_hash sc) ((cstr_tuple_of \<circ> sc_task sc) ` set (tasks g))"
  shows "if acyclic (order_rel (fst (prepare sc (g, ra))))
    then \<exists>bs. drain (fuel_of g) sc (g, ra) = Inr bs \<and> mset (concat bs) = mset (tasks g) \<and>
      (\<forall>i j x y. i < length bs \<and> j < length bs \<and> x \<in> set (bs ! i) \<and> y \<in> set (bs ! j) \<and>
        precedes (sc_task sc x) (sc_task sc y) \<longrightarrow> i < j)
    else drain (fuel_of g) sc (g, ra) = Inl (WafError ''circular order constraint detected'')"
proof (cases "acyclic (order_rel (fst (prepare sc (g, ra))))")
  case True
  from drain_fresh(1)[OF assms(1) True] obtain bs where bs: "drain (fuel_of g) sc (g, ra) = Inr bs"
    "mset (concat bs) = mset (tasks g)" "in_order (task_key sc) (order_rel (fst (prepare sc (g, ra)))) bs" by blast
  have "i < j" if "i < length bs" "j < length bs" "x \<in> set (bs ! i)" "y \<in> set (bs ! j)" "precedes (sc_task sc x) (sc_task sc y)"
    for i j x y
  proof -
    have "x \<in> set (concat bs)" "y \<in> set (concat bs)" using that by auto
    then have xy: "x \<in> set (tasks g)" "y \<in> set (tasks g)" using mset_eq_setD[OF bs(2)] by blast+
    have "cstr_order g = []" using assms(1) by (simp add: fresh_def)
    from precedes_order[OF this assms(2) xy that(5)] that(1-4) bs(3) show ?thesis unfolding in_order_def by blast
  qed
  with True bs show ?thesis by auto
qed (simp add: drain_fresh(2)[OF assms(1)])

text \<open>Two tasks, a compiler and a linker that comes after it.\<close>

definition ex_sched :: sched_env where
  "ex_sched = \<lparr>sc_task = (\<lambda>x. \<lparr>tk_class = (if x = 0 then ''link'' else ''cc''), tk_before = None,
       tk_after = (if x = 0 then Some (AttrStr ''cc'') else None), tk_ext_in = None, tk_ext_out = None,
       tk_class_maxjobs = MAXJOBS, tk_maxjobs = MAXJOBS\<rparr>),
     sc_hash = (\<lambda>t. if fst t = ''cc'' then 1 else 2), sc_file_deps = (\<lambda>_ ra. ra)\<rparr>"

theorem schedule_respects_constraints_witness:
  "\<exists>bs. drain 3 ex_sched (TaskGroup\<lparr>tasks := [0, 1]\<rparr>, \<lambda>_. []) = Inr bs \<and> mset (concat bs) = {#0, 1#}"
proof -
  let ?g = "TaskGroup\<lparr>tasks := [0, 1]\<rparr>"
  have f: "fresh ?g" by (simp add: fresh_def TaskGroup_def)
  have i: "inj_on (sc_hash ex_sched) ((cstr_tuple_of \<circ> sc_task ex_sched) ` set (tasks ?g))"
    by (simp add: ex_sched_def cstr_tuple_of_def inj_on_def TaskGroup_def)
  have k: "task_key ex_sched 0 = 2" "task_key ex_sched 1 = 1"
    by (simp_all add: task_key_def hash_constraints_def ex_sched_def)
  have "py_split_ws ''cc'' = [''cc'']" by code_simp
  then have c: "compare_tasks (sc_task ex_sched 0) (sc_task ex_sched 1) = - 1"
    by (simp add: compare_tasks_def compare_exts_def compare_partial_def attr_iter_def to_list_def ex_sched_def)
  have "cstr_groups (make_cstr_groups (task_key ex_sched) (?g\<lparr>ready := True\<rparr>)) = [(2, [0]), (1, [1])]"
    by (simp add: make_cstr_groups_def TaskGroup_def k[unfolded One_nat_def] ddget_def)
  then have "cstr_order (fst (prepare ex_sched (?g, \<lambda>_. []))) = [(1, [2])]"
    using c[unfolded One_nat_def]
    by (simp add: prepare_def extract_constraints_def set_order_def make_cstr_groups_def TaskGroup_def ddget_def Let_def)
  then have "order_rel (fst (prepare ex_sched (?g, \<lambda>_. []))) = {(1, 2)}" by (auto simp: order_rel_def)
  then have "acyclic (order_rel (fst (prepare ex_sched (?g, \<lambda>_. []))))"
    by (simp add: acyclic_insert) (simp add: acyclic_def)
  with schedule_respects_constraints[OF f i, of "\<lambda>_. []"] show ?thesis
    by (auto simp: fuel_of_def TaskGroup_def eval_nat_numeral)
qed

lemma list_all2_choice: "list_all (\<lambda>g. \<exists>b. P g b) gs \<Longrightarrow> \<exists>bs. list_all2 P gs bs"
  by (induction gs) (auto simp: list_all2_Cons1)

lemma prepared_after: "fst (prepared sc (g, ra)) = fst (prepared sc (g, ra'))"
  by (simp add: prepared_def prepare_def)

lemma drain_after: "drain n sc (g, ra) = drain n sc (g, ra')"
proof (induction n arbitrary: g ra ra')
  case (Suc n)
  let ?T = "\<lambda>ra. tasks_in_parallel sc (g, ra)"
  have f: "fst (prepared sc (g, ra)) = fst (prepared sc (g, ra'))" by (rule prepared_after)
  show ?case
  proof (cases "?T ra")
    case (Inl e)
    then have "?T ra' = Inl e" using f by (auto simp: tasks_in_parallel_def Let_def case_prod_unfold split: if_splits)
    with Inl show ?thesis by (simp add: group_next_set_def)
  next
    case (Inr r)
    then obtain ts g1 where T: "?T ra = Inr (ts, g1, snd (prepared sc (g, ra)))" "?T ra' = Inr (ts, g1, snd (prepared sc (g, ra')))"
      using f by (auto simp: tasks_in_parallel_def Let_def case_prod_unfold split: if_splits)
    then show ?thesis using Suc.IH[of g1 "snd (prepared sc (g, ra))" "snd (prepared sc (g, ra'))"]
      by (simp add: group_next_set_def)
  qed
qed simp

lemma manager_sets_groups:
  assumes "list_all (\<lambda>g. fresh g \<and> acyclic (order_rel (fst (prepare sc (g, \<lambda>_. []))))) (drop (current_group m) (groups m))"
  shows "\<exists>bss. (\<forall>n. manager_sets (length (concat bss) + Suc n) sc m = Inr (concat bss)) \<and>
    list_all2 (\<lambda>g bs. mset (concat bs) = mset (tasks g) \<and> in_order (task_key sc) (order_rel (fst (prepare sc (g, \<lambda>_. [])))) bs)
      (drop (current_group m) (groups m)) bss"
proof -
  let ?P = "\<lambda>g bs. mset (concat bs) = mset (tasks g) \<and> in_order (task_key sc) (order_rel (fst (prepare sc (g, \<lambda>_. [])))) bs"
  have one: "\<exists>bs. drains_to sc g bs \<and> ?P g bs"
    if fr: "fresh g \<and> acyclic (order_rel (fst (prepare sc (g, \<lambda>_. []))))" for g
  proof -
    obtain bs where bs: "drain (fuel_of g) sc (g, \<lambda>_. []) = Inr bs" "?P g bs"
      using drain_fresh(1)[of g sc "\<lambda>_. []"] fr by blast
    have "drain (fuel_of g) sc (g, ra) = Inr bs" for ra using drain_after[of "fuel_of g" sc g ra "\<lambda>_. []"] bs(1) by simp
    with bs(2) show ?thesis unfolding drains_to_def by blast
  qed
  have "list_all (\<lambda>g. \<exists>bs. drains_to sc g bs \<and> ?P g bs) (drop (current_group m) (groups m))"
    using assms one unfolding list_all_iff by blast
  from list_all2_choice[OF this] obtain bss where
    bss: "list_all2 (\<lambda>g bs. drains_to sc g bs \<and> ?P g bs) (drop (current_group m) (groups m)) bss" by blast
  then have "list_all2 (drains_to sc) (drop (current_group m) (groups m)) bss" by (rule list_all2_mono) simp
  from manager_drain_groups[OF this] have "manager_sets (length (concat bss) + Suc n) sc m = Inr (concat bss)" for n .
  moreover have "list_all2 ?P (drop (current_group m) (groups m)) bss" using bss by (rule list_all2_mono) simp
  ultimately show ?thesis by blast
qed

text \<open>
  The manager runs the groups one after the other: from the current group on, if the constraints
  of every group are acyclic, the sets it gives are those of the groups in their order, and together
  they hold every task of these groups exactly once.
\<close>

theorem manager_gives_all_tasks:
  assumes "list_all (\<lambda>g. fresh g \<and> acyclic (order_rel (fst (prepare sc (g, \<lambda>_. []))))) (drop (current_group m) (groups m))"
  shows "\<exists>n bss. manager_sets n sc m = Inr (concat bss) \<and>
    list_all2 (\<lambda>g bs. mset (concat bs) = mset (tasks g) \<and> in_order (task_key sc) (order_rel (fst (prepare sc (g, \<lambda>_. [])))) bs)
      (drop (current_group m) (groups m)) bss"
  using manager_sets_groups[OF assms] by blast

theorem manager_gives_all_tasks_witness:
  "\<exists>n bss. manager_sets n ex_sched (TaskManager\<lparr>groups := [TaskGroup]\<rparr>) = Inr (concat bss) \<and> length bss = 1"
proof -
  let ?m = "TaskManager\<lparr>groups := [TaskGroup]\<rparr>"
  have "order_rel (fst (prepare ex_sched (TaskGroup, \<lambda>_. []))) = {}"
    by (simp add: prepare_def make_cstr_groups_def extract_constraints_def TaskGroup_def order_rel_def)
  then have "list_all (\<lambda>g. fresh g \<and> acyclic (order_rel (fst (prepare ex_sched (g, \<lambda>_. []))))) (drop (current_group ?m) (groups ?m))"
    by (simp add: TaskManager_def fresh_def TaskGroup_def acyclic_def)
  from manager_gives_all_tasks[OF this] obtain n bss where
    b: "manager_sets n ex_sched ?m = Inr (concat bss)" "list_all2 (\<lambda>g bs. mset (concat bs) = mset (tasks g) \<and>
      in_order (task_key ex_sched) (order_rel (fst (prepare ex_sched (g, \<lambda>_. [])))) bs) (drop (current_group ?m) (groups ?m)) bss"
    by blast
  from list_all2_lengthD[OF b(2)] have "length bss = 1" by (simp add: TaskManager_def)
  with b(1) show ?thesis by blast
qed

text \<open>
  The other algorithms. \<open>JOBCONTROL\<close> takes from the waiting tasks those with the smallest limit of
  jobs (at most \<open>MAXJOBS\<close>), and keeps the others. \<open>MAXPARALLEL\<close> gives all tasks of the group at once and
  makes a task run after another one exactly when their classes are ordered, so that the order
  is the one that the default algorithm enforces by sets.
\<close>

theorem other_algorithms:
  assumes "fresh g" and "\<not> finished g" and "fold (max_jobs_step mj) ts (MAXJOBS, [], []) = (m, ret, rem)"
  shows "(m = Min (insert MAXJOBS (mj ` set ts)) \<and> ret = filter (\<lambda>t. mj t = m) ts \<and> mset rem = mset (filter (\<lambda>t. mj t \<noteq> m) ts)) \<and>
    (\<exists>g' ra'. tasks_with_inner_constraints sc (g, ra) = (Some (tasks g), g', ra') \<and>
      (\<forall>n k. k \<in> set (ra' n) \<longleftrightarrow> k \<in> set (sc_file_deps sc (tasks g) ra n) \<or>
        k \<in> set (tasks g) \<and> n \<in> set (tasks g) \<and> (task_key sc k, task_key sc n) \<in> order_rel (fst (prepare sc (g, ra)))))"
proof
  show "m = Min (insert MAXJOBS (mj ` set ts)) \<and> ret = filter (\<lambda>t. mj t = m) ts \<and> mset rem = mset (filter (\<lambda>t. mj t \<noteq> m) ts)"
    using max_jobs_fold[of MAXJOBS mj "[]" "[]" "[]" ts m ret rem] assms(3) by simp
  let ?g = "fst (prepare sc (g, ra))"
  have p: "prepared sc (g, ra) = (?g, sc_file_deps sc (tasks g) ra)"
    using assms(1) by (simp add: prepared_def prepare_def fresh_def)
  have same: "tasks ?g = tasks g" "finished ?g = finished g"
    by (simp_all add: prepare_def extract_constraints_def make_cstr_groups_def constrain_all_other)
  have "cstr_order g = []" using assms(1) by (simp add: fresh_def)
  note ok = prepare_ok(1,2)[OF this, of sc ra]
  show "\<exists>g' ra'. tasks_with_inner_constraints sc (g, ra) = (Some (tasks g), g', ra') \<and>
      (\<forall>n k. k \<in> set (ra' n) \<longleftrightarrow> k \<in> set (sc_file_deps sc (tasks g) ra n) \<or>
        k \<in> set (tasks g) \<and> n \<in> set (tasks g) \<and> (task_key sc k, task_key sc n) \<in> order_rel ?g)"
    using assms(2) unfolding tasks_with_inner_constraints_def p Let_def prod.case
    by (auto simp: same set_run_after_fold run_after_pairs_iff[OF ok(1)] mset_eq_setD[OF ok(2)])
qed

theorem other_algorithms_witness:
  "\<exists>g' ra'. tasks_with_inner_constraints ex_sched (TaskGroup\<lparr>tasks := [0, 1]\<rparr>, \<lambda>_. []) = (Some [0, 1], g', ra')"
proof -
  let ?g = "TaskGroup\<lparr>tasks := [0, 1]\<rparr>"
  have f: "fresh ?g" "\<not> finished ?g" "tasks ?g = [0, 1]" by (simp_all add: fresh_def TaskGroup_def)
  have "fold (max_jobs_step id) [] (MAXJOBS, [], []) = (MAXJOBS, [], [])" by simp
  from other_algorithms[OF f(1,2) this, of ex_sched "\<lambda>_. []"] show ?thesis unfolding f(3) by blast
qed

text \<open>
  \<open>reset\<close> is meant to put the tasks back into \<open>tasks\<close>; but preparing a group does not take them out,
  so that every task is there twice afterwards.
\<close>

lemma reset_duplicates_tasks:
  assumes "fresh g" and "temp_tasks g = []"
  shows "mset (tasks (reset (fst (prepare sc (g, ra))))) = mset (tasks g) + mset (tasks g)"
proof -
  have "cstr_order g = []" using assms(1) by (simp add: fresh_def)
  note ok = prepare_ok(2)[OF this, of sc ra]
  have t: "temp_tasks (constrain_with tk kt l h) = temp_tasks h" for tk kt l h
    by (induction tk kt l h rule: constrain_with.induct) (auto simp: Let_def set_order_def)
  have t': "temp_tasks (constrain_all tk l h) = temp_tasks h" for tk l h
    by (induction tk l h rule: constrain_all.induct) (auto simp: t)
  have "temp_tasks (fst (prepare sc (g, ra))) = []" "tasks (fst (prepare sc (g, ra))) = tasks g"
    using assms(2) by (simp_all add: prepare_def extract_constraints_def make_cstr_groups_def t' constrain_all_other)
  then show ?thesis using ok by (simp add: reset_def pending_def)
qed

end
