(* ===== verification/Waf_Runner.thy ===== *)
theory Waf_Runner
  imports Waf_Task
begin

text \<open>
  The scheduler of the build system, \<^verbatim>\<open>src/tools/wafadmin/Runner.py\<close>: the master thread
  (\<open>Parallel.start\<close>) takes sets of tasks from the manager, hands those that must run to consumer
  threads through a queue, and collects them from another queue. The model is a step relation on
  a state shared by the master and the consumers; a step is one action of one thread.

  After the definitions: the counter of the master is the number of tasks on their way, so that it
  never waits for a task that will not come; no task is lost or handled twice; and when the master
  ends without an error, every task of the manager was finished exactly once.
\<close>

section \<open>Definitions\<close>

subsection \<open>State\<close>

text \<open>The task states and the answers of \<open>runnable_status\<close> of \<^verbatim>\<open>Constants.py\<close>.\<close>

datatype hasrun = NOT_RUN | MISSING | CRASHED | EXCEPTION | SKIPPED | SUCCESS

datatype task_status = ASK_LATER | SKIP_ME | RUN_ME

text \<open>
  How a task ends in a consumer: an exception while it runs, a return code other than 0, and for
  \<open>post_run\<close> no exception, a \<open>WafError\<close> with the state that it left, or another exception.
\<close>

datatype run_outcome = RunRaised | RunFailed | PostOk | PostWafError hasrun | PostRaised

fun outcome_hasrun :: "run_outcome \<Rightarrow> hasrun" where
  "outcome_hasrun RunRaised = EXCEPTION"
| "outcome_hasrun RunFailed = CRASHED"
| "outcome_hasrun PostOk = SUCCESS"
| "outcome_hasrun (PostWafError h) = h"
| "outcome_hasrun PostRaised = EXCEPTION"

text \<open>
  The places of a consumer in its loop: waiting for a task; with a task, before the test of
  \<open>stop\<close>; running it; before the call of the error handler; before \<open>out.put\<close>.
\<close>

datatype consumer = Idle | Took nat | Running nat | Failed nat | Putting nat

text \<open>
  The places of the master: the head of the loop of \<open>start\<close>, the two loops of \<open>refill_task_list\<close>
  (the second one before and after its call of \<open>get_out\<close>), the treatment of the next task, the
  collection of tasks after an error, and the end; \<open>MRaised\<close> when the manager raised an exception.
\<close>

datatype master_pc = MLoop | MThrottle | MFill | MFill2 | MNext | MDrain | MEnd | MRaised py_error

record runner =
  outstanding :: "nat list"
  frozen :: "nat list"
  out_q :: "nat list"
  ready_q :: "nat list"
  consumers :: "consumer list"
  r_count :: int
  r_processed :: nat
  r_total :: nat
  r_maxjobs :: nat
  r_stop :: bool
  r_error :: bool
  r_manager :: task_manager
  r_hasrun :: "nat \<Rightarrow> hasrun"
  r_pc :: master_pc
  r_given :: "nat list list"
  r_added :: "nat list"
  r_started :: "nat list"

text \<open>
  The last three fields only record what happened: the sets received from the manager, the tasks
  added by \<open>more_tasks\<close>, and the tasks that consumers started to run.

  What the scheduler takes from outside: the option \<open>keep\<close>, the number of jobs, the possible answers
  of \<open>runnable_status\<close> (an exception included) in a state of the tasks, the possible outcomes of
  a task, its \<open>more_tasks\<close>, and the parameters of the manager.
\<close>

record runner_env =
  re_keep :: bool
  re_numjobs :: nat
  re_status :: "(nat \<Rightarrow> hasrun) \<Rightarrow> nat \<Rightarrow> task_status option \<Rightarrow> bool"
  re_outcome :: "nat \<Rightarrow> run_outcome \<Rightarrow> bool"
  re_more :: "nat \<Rightarrow> nat list"
  re_algo :: algotype
  re_sched :: sched_env
  re_is_install :: bool
  re_install :: "nat \<Rightarrow> bool option"

definition GAP :: nat where "GAP = 15"

subsection \<open>Operations of the master\<close>

text \<open>
  \<open>Parallel\<close> and the beginning of \<open>start\<close>; \<open>old\<close> is the number of consumers that are left from an
  earlier build.
\<close>

definition Parallel :: "runner_env \<Rightarrow> nat \<Rightarrow> task_manager \<Rightarrow> runner" where
  "Parallel re old m =
     (let m0 = m\<lparr>current_group := 0\<rparr> in
      \<lparr>outstanding = [], frozen = [], out_q = [], ready_q = [],
       consumers = (if old = 0 then [] else replicate (max old (re_numjobs re)) Idle),
       r_count = 0, r_processed = 1, r_total = total m0, r_maxjobs = MAXJOBS, r_stop = False, r_error = False,
       r_manager = m0, r_hasrun = (\<lambda>_. NOT_RUN), r_pc = MLoop, r_given = [], r_added = [], r_started = []\<rparr>)"

definition finish_task :: "runner_env \<Rightarrow> nat \<Rightarrow> runner \<Rightarrow> runner" where
  "finish_task re t s = s\<lparr>r_manager := add_finished (re_is_install re) (re_install re) t (r_manager s)\<rparr>"

text \<open>\<open>get_out\<close>, when the queue holds a task.\<close>

definition get_out :: "runner_env \<Rightarrow> nat \<Rightarrow> nat list \<Rightarrow> runner \<Rightarrow> runner" where
  "get_out re t q s =
     (let s1 = finish_task re t (s\<lparr>out_q := q\<rparr>);
          s2 = (if \<not> r_stop s1 \<and> re_more re t \<noteq> []
                then s1\<lparr>outstanding := outstanding s1 @ re_more re t, r_total := r_total s1 + length (re_more re t),
                        r_added := r_added s1 @ re_more re t\<rparr>
                else s1)
      in s2\<lparr>r_count := r_count s2 - 1\<rparr>)"

definition error_handler :: "runner_env \<Rightarrow> runner \<Rightarrow> runner" where
  "error_handler re s = s\<lparr>r_stop := (r_stop s \<or> \<not> re_keep re), r_error := True\<rparr>"

definition set_hasrun :: "nat \<Rightarrow> hasrun \<Rightarrow> runner \<Rightarrow> runner" where
  "set_hasrun t h s = s\<lparr>r_hasrun := (r_hasrun s)(t := h)\<rparr>"

definition one_processed :: "runner \<Rightarrow> runner" where
  "one_processed s = s\<lparr>r_processed := r_processed s + 1\<rparr>"

text \<open>The condition of the first loop of \<open>refill_task_list\<close>.\<close>

definition throttled :: "runner_env \<Rightarrow> runner \<Rightarrow> bool" where
  "throttled re s \<longleftrightarrow> r_count s > int (re_numjobs re + GAP) \<or> r_count s \<ge> int (r_maxjobs s)"

definition next_set :: "runner_env \<Rightarrow> runner \<Rightarrow> runner" where
  "next_set re s =
     (case get_next_set (re_algo re) (re_sched re) (r_manager s) of
        Inl e \<Rightarrow> s\<lparr>r_pc := MRaised e\<rparr>
      | Inr (None, m) \<Rightarrow> s\<lparr>r_manager := m, r_pc := MNext\<rparr>
      | Inr (Some (jobs, ts), m) \<Rightarrow>
          s\<lparr>r_manager := m, r_maxjobs := jobs, outstanding := outstanding s @ ts, r_given := r_given s @ [ts], r_pc := MNext\<rparr>)"

text \<open>A task whose \<open>runnable_status\<close> raised an exception.\<close>

definition status_raised :: "runner_env \<Rightarrow> nat \<Rightarrow> runner \<Rightarrow> runner" where
  "status_raised re t s =
     (let s1 = one_processed s in
      if r_stop s1 \<and> \<not> re_keep re then finish_task re t (set_hasrun t SKIPPED s1)
      else set_hasrun t EXCEPTION (finish_task re t (error_handler re s1)))"

definition skip_task :: "runner_env \<Rightarrow> nat \<Rightarrow> runner \<Rightarrow> runner" where
  "skip_task re t s = finish_task re t (set_hasrun t SKIPPED (one_processed s))"

definition put_ready :: "runner_env \<Rightarrow> nat \<Rightarrow> runner \<Rightarrow> runner" where
  "put_ready re t s =
     (let s1 = one_processed (s\<lparr>r_count := r_count s + 1, ready_q := ready_q s @ [t]\<rparr>)
      in if consumers s1 = [] then s1\<lparr>consumers := replicate (re_numjobs re) Idle\<rparr> else s1)"

subsection \<open>Steps\<close>

inductive master_step :: "runner_env \<Rightarrow> runner \<Rightarrow> runner \<Rightarrow> bool" for re where
  loop_stop: "r_pc s = MLoop \<Longrightarrow> r_stop s \<Longrightarrow> master_step re s (s\<lparr>r_pc := MDrain\<rparr>)"
| loop_go: "r_pc s = MLoop \<Longrightarrow> \<not> r_stop s \<Longrightarrow> master_step re s (s\<lparr>r_pc := MThrottle\<rparr>)"
| throttle: "r_pc s = MThrottle \<Longrightarrow> throttled re s \<Longrightarrow> out_q s = t # q \<Longrightarrow> master_step re s (get_out re t q s)"
| throttle_end: "r_pc s = MThrottle \<Longrightarrow> \<not> throttled re s \<Longrightarrow> master_step re s (s\<lparr>r_pc := MFill\<rparr>)"
| fill_end: "r_pc s = MFill \<Longrightarrow> outstanding s \<noteq> [] \<Longrightarrow> master_step re s (s\<lparr>r_pc := MNext\<rparr>)"
| fill_get: "r_pc s = MFill \<Longrightarrow> outstanding s = [] \<Longrightarrow> r_count s \<noteq> 0 \<Longrightarrow> out_q s = t # q \<Longrightarrow>
    master_step re s ((get_out re t q s)\<lparr>r_pc := MFill2\<rparr>)"
| fill_none: "r_pc s = MFill \<Longrightarrow> outstanding s = [] \<Longrightarrow> r_count s = 0 \<Longrightarrow> master_step re s (s\<lparr>r_pc := MFill2\<rparr>)"
| fill_frozen: "r_pc s = MFill2 \<Longrightarrow> frozen s \<noteq> [] \<Longrightarrow>
    master_step re s (s\<lparr>outstanding := outstanding s @ frozen s, frozen := [], r_pc := MFill\<rparr>)"
| fill_set: "r_pc s = MFill2 \<Longrightarrow> frozen s = [] \<Longrightarrow> r_count s = 0 \<Longrightarrow> master_step re s (next_set re s)"
| fill_again: "r_pc s = MFill2 \<Longrightarrow> frozen s = [] \<Longrightarrow> r_count s \<noteq> 0 \<Longrightarrow> master_step re s (s\<lparr>r_pc := MFill\<rparr>)"
| next_wait: "r_pc s = MNext \<Longrightarrow> outstanding s = [] \<Longrightarrow> r_count s \<noteq> 0 \<Longrightarrow> master_step re s (s\<lparr>r_pc := MLoop\<rparr>)"
| next_end: "r_pc s = MNext \<Longrightarrow> outstanding s = [] \<Longrightarrow> r_count s = 0 \<Longrightarrow> master_step re s (s\<lparr>r_pc := MDrain\<rparr>)"
| next_run_already: "r_pc s = MNext \<Longrightarrow> outstanding s = t # ts \<Longrightarrow> r_hasrun s t \<noteq> NOT_RUN \<Longrightarrow>
    master_step re s (finish_task re t (one_processed (s\<lparr>outstanding := ts, r_pc := MLoop\<rparr>)))"
| next_raised: "r_pc s = MNext \<Longrightarrow> outstanding s = t # ts \<Longrightarrow> r_hasrun s t = NOT_RUN \<Longrightarrow> re_status re (r_hasrun s) t None \<Longrightarrow>
    master_step re s (status_raised re t (s\<lparr>outstanding := ts, r_pc := MLoop\<rparr>))"
| next_later: "r_pc s = MNext \<Longrightarrow> outstanding s = t # ts \<Longrightarrow> r_hasrun s t = NOT_RUN \<Longrightarrow>
    re_status re (r_hasrun s) t (Some ASK_LATER) \<Longrightarrow> fs \<in> {t # frozen s, frozen s @ [t]} \<Longrightarrow>
    master_step re s (s\<lparr>outstanding := ts, frozen := fs, r_pc := MLoop\<rparr>)"
| next_skip: "r_pc s = MNext \<Longrightarrow> outstanding s = t # ts \<Longrightarrow> r_hasrun s t = NOT_RUN \<Longrightarrow>
    re_status re (r_hasrun s) t (Some SKIP_ME) \<Longrightarrow>
    master_step re s (skip_task re t (s\<lparr>outstanding := ts, r_pc := MLoop\<rparr>))"
| next_run: "r_pc s = MNext \<Longrightarrow> outstanding s = t # ts \<Longrightarrow> r_hasrun s t = NOT_RUN \<Longrightarrow>
    re_status re (r_hasrun s) t (Some RUN_ME) \<Longrightarrow>
    master_step re s (put_ready re t (s\<lparr>outstanding := ts, r_pc := MLoop\<rparr>))"
| drain_get: "r_pc s = MDrain \<Longrightarrow> r_error s \<Longrightarrow> r_count s \<noteq> 0 \<Longrightarrow> out_q s = t # q \<Longrightarrow> master_step re s (get_out re t q s)"
| drain_end: "r_pc s = MDrain \<Longrightarrow> \<not> r_error s \<or> r_count s = 0 \<Longrightarrow> master_step re s (s\<lparr>r_pc := MEnd\<rparr>)"

inductive consumer_step :: "runner_env \<Rightarrow> nat \<Rightarrow> runner \<Rightarrow> runner \<Rightarrow> bool" for re i where
  c_get: "i < length (consumers s) \<Longrightarrow> consumers s ! i = Idle \<Longrightarrow> ready_q s = t # q \<Longrightarrow>
    consumer_step re i s (s\<lparr>ready_q := q, consumers := (consumers s)[i := Took t]\<rparr>)"
| c_stop: "i < length (consumers s) \<Longrightarrow> consumers s ! i = Took t \<Longrightarrow> r_stop s \<Longrightarrow>
    consumer_step re i s (s\<lparr>consumers := (consumers s)[i := Putting t]\<rparr>)"
| c_start: "i < length (consumers s) \<Longrightarrow> consumers s ! i = Took t \<Longrightarrow> \<not> r_stop s \<Longrightarrow>
    consumer_step re i s (s\<lparr>consumers := (consumers s)[i := Running t], r_started := r_started s @ [t]\<rparr>)"
| c_run: "i < length (consumers s) \<Longrightarrow> consumers s ! i = Running t \<Longrightarrow> re_outcome re t oc \<Longrightarrow>
    consumer_step re i s ((set_hasrun t (outcome_hasrun oc) s)
      \<lparr>consumers := (consumers s)[i := if outcome_hasrun oc = SUCCESS then Putting t else Failed t]\<rparr>)"
| c_fail: "i < length (consumers s) \<Longrightarrow> consumers s ! i = Failed t \<Longrightarrow>
    consumer_step re i s ((error_handler re s)\<lparr>consumers := (consumers s)[i := Putting t]\<rparr>)"
| c_put: "i < length (consumers s) \<Longrightarrow> consumers s ! i = Putting t \<Longrightarrow>
    consumer_step re i s (s\<lparr>out_q := out_q s @ [t], consumers := (consumers s)[i := Idle]\<rparr>)"

inductive runner_step :: "runner_env \<Rightarrow> runner \<Rightarrow> runner \<Rightarrow> bool" for re where
  by_master: "master_step re s s' \<Longrightarrow> runner_step re s s'"
| by_consumer: "consumer_step re i s s' \<Longrightarrow> runner_step re s s'"

inductive runner_reach :: "runner_env \<Rightarrow> runner \<Rightarrow> runner \<Rightarrow> bool" for re s0 where
  r_init: "runner_reach re s0 s0"
| r_step: "runner_reach re s0 s \<Longrightarrow> runner_step re s s' \<Longrightarrow> runner_reach re s0 s'"

lemmas runner_defs [step_defs] = get_out_def finish_task_def error_handler_def set_hasrun_def one_processed_def
  next_set_def status_raised_def skip_task_def put_ready_def add_finished_def Let_def

inductive_cases master_stepE: "master_step re s s'"
inductive_cases consumer_stepE: "consumer_step re i s s'"
inductive_cases runner_stepE: "runner_step re s s'"

section \<open>The manager under the scheduler\<close>

lemma group_next_set_ne: "group_next_set al sc st = Inr (r, st') \<Longrightarrow> r \<noteq> Some (j, [])"
proof (cases al)
  case JOBCONTROL
  assume "group_next_set al sc st = Inr (r, st')"
  with JOBCONTROL obtain mj ts where
    "r = (case (mj, ts) of (Some m, Some (t # ts')) \<Rightarrow> Some (m, t # ts') | _ \<Rightarrow> None)"
    by (auto simp: group_next_set_def rmap_Inr_iff)
  then show ?thesis by (simp split: option.splits list.splits)
qed (auto simp: group_next_set_def rmap_Inr_iff Let_def split: option.splits list.splits prod.splits if_splits)

lemma get_next_set_induct_facts:
  "get_next_set al sc m = Inr (r, m') \<Longrightarrow>
     tasks_done m' = tasks_done m \<and> (r = None \<longrightarrow> \<not> current_group m' < length (groups m')) \<and> (\<forall>j. r \<noteq> Some (j, []))"
proof (induction al sc m rule: get_next_set.induct)
  case (1 al sc m)
  show ?case
  proof (cases "current_group m < length (groups m)")
    case True
    let ?G = "group_next_set al sc (groups m ! current_group m, after_of m)"
    from 1(2) True obtain r1 g ra where G: "?G = Inr (r1, g, ra)"
      by (auto simp: get_next_set.simps[of al sc m] split: sum.splits)
    have ne: "r1 \<noteq> Some (j, [])" for j by (rule group_next_set_ne[OF G])
    show ?thesis
    proof (cases r1)
      case None
      let ?m = "(process_install g (m\<lparr>groups := (groups m)[current_group m := g], after_of := ra\<rparr>))\<lparr>current_group := current_group m + 1\<rparr>"
      have "get_next_set al sc ?m = Inr (r, m')" using 1(2) True G None
        by (simp add: get_next_set.simps[of al sc m] Let_def)
      from 1(1)[OF True G refl refl refl None this] show ?thesis by (simp add: process_install_def)
    next
      case (Some p)
      then show ?thesis using 1(2) True G ne by (auto simp: get_next_set.simps[of al sc m] Let_def)
    qed
  next
    case False
    then show ?thesis using 1(2) by (simp add: get_next_set.simps[of al sc m])
  qed
qed

text \<open>The bookkeeping of finished tasks does not change what the manager gives.\<close>

definition with_done :: "nat list \<Rightarrow> nat list \<Rightarrow> task_manager \<Rightarrow> task_manager" where
  "with_done x y m = m\<lparr>tasks_done := x, tasks_installed := y\<rparr>"

lemma with_done_simps [simp]:
  "groups (with_done x y m) = groups m" "current_group (with_done x y m) = current_group m" "after_of (with_done x y m) = after_of m"
  "(with_done x y m)\<lparr>groups := gs, after_of := ra\<rparr> = with_done x y (m\<lparr>groups := gs, after_of := ra\<rparr>)"
  "process_install g (with_done x y m) = with_done x y (process_install g m)"
  "(with_done x y m)\<lparr>current_group := k\<rparr> = with_done x y (m\<lparr>current_group := k\<rparr>)"
  by (simp_all add: with_done_def process_install_def)

lemma get_next_set_with_done:
  "get_next_set al sc (with_done x y m) = rmap (\<lambda>(r, m'). (r, with_done x y m')) (get_next_set al sc m)"
proof (induction al sc m rule: get_next_set.induct)
  case (1 al sc m)
  show ?case
  proof (cases "current_group m < length (groups m)")
    case True
    let ?G = "group_next_set al sc (groups m ! current_group m, after_of m)"
    show ?thesis
    proof (cases ?G)
      case (Inl e)
      then show ?thesis using True
        by (simp add: get_next_set.simps[of al sc m] get_next_set.simps[of al sc "with_done x y m"])
    next
      case (Inr p)
      obtain r g ra where G: "?G = Inr (r, g, ra)" using Inr by (cases p) auto
      show ?thesis
      proof (cases r)
        case None
        let ?m = "(process_install g (m\<lparr>groups := (groups m)[current_group m := g], after_of := ra\<rparr>))\<lparr>current_group := current_group m + 1\<rparr>"
        have "get_next_set al sc m = get_next_set al sc ?m"
          using True G None by (simp add: get_next_set.simps[of al sc m] Let_def)
        moreover have "get_next_set al sc (with_done x y m) = get_next_set al sc (with_done x y ?m)"
          using True G None by (simp add: get_next_set.simps[of al sc "with_done x y m"] Let_def)
        ultimately show ?thesis using 1[OF True G refl refl refl None] by simp
      next
        case (Some p)
        then show ?thesis using True G
          by (cases p) (simp add: get_next_set.simps[of al sc m] get_next_set.simps[of al sc "with_done x y m"] Let_def)
      qed
    qed
  next
    case False
    then show ?thesis
      by (simp add: get_next_set.simps[of al sc m] get_next_set.simps[of al sc "with_done x y m"])
  qed
qed

lemma manager_sets_with_done: "manager_sets n sc (with_done x y m) = manager_sets n sc m"
proof (induction n arbitrary: m)
  case (Suc n)
  show ?case
  proof (cases "get_next_set NORMAL sc m")
    case (Inr p)
    obtain r m' where "p = (r, m')" by (cases p)
    then show ?thesis using Inr Suc.IH[of m'] by (simp add: get_next_set_with_done split: option.splits)
  qed (simp add: get_next_set_with_done)
qed simp

lemma add_finished_with_done: "\<exists>y. add_finished b f t m = with_done (tasks_done m @ [t]) y m"
  by (simp add: add_finished_def with_done_def Let_def) (metis task_manager.surjective task_manager.update_convs(7))

section \<open>Invariants\<close>

fun held :: "consumer \<Rightarrow> nat list" where
  "held Idle = []"
| "held (Took t) = [t]"
| "held (Running t) = [t]"
| "held (Failed t) = [t]"
| "held (Putting t) = [t]"

definition all_held :: "consumer list \<Rightarrow> nat list" where
  "all_held cs = concat (map held cs)"

text \<open>The tasks that the master has given away and not yet collected.\<close>

definition in_flight :: "runner \<Rightarrow> nat multiset" where
  "in_flight s = mset (ready_q s) + mset (all_held (consumers s)) + mset (out_q s)"

lemma all_held_update:
  "i < length cs \<Longrightarrow> mset (all_held (cs[i := c])) + mset (held (cs ! i)) = mset (all_held cs) + mset (held c)"
proof (induction cs arbitrary: i)
  case (Cons d cs)
  then show ?case by (cases i) (auto simp: all_held_def algebra_simps)
qed simp

lemma all_held_Idle: "mset (all_held (replicate n Idle)) = {#}"
  by (induction n) (auto simp: all_held_def)

text \<open>A consumer moves a task along.\<close>

lemma consumer_in_flight:
  assumes "consumer_step re i s s'"
  shows "in_flight s' = in_flight s"
proof -
  have u: "mset (all_held ((consumers s)[i := c])) + mset (held (consumers s ! i)) = mset (all_held (consumers s)) + mset (held c)"
    if "i < length (consumers s)" for c by (rule all_held_update[OF that])
  show ?thesis using assms
  proof (cases rule: consumer_step.cases)
    case (c_get t q)
    then show ?thesis using u[of "Took t"] by (simp add: in_flight_def)
  next
    case (c_stop t)
    then show ?thesis using u[of "Putting t"] by (simp add: in_flight_def)
  next
    case (c_start t)
    then show ?thesis using u[of "Running t"] by (simp add: in_flight_def)
  next
    case (c_run t oc)
    then show ?thesis using u[of "Putting t"] u[of "Failed t"] by (simp add: in_flight_def set_hasrun_def)
  next
    case (c_fail t)
    then show ?thesis using u[of "Putting t"] by (simp add: in_flight_def error_handler_def)
  next
    case (c_put t)
    then show ?thesis using u[of Idle] by (simp add: in_flight_def)
  qed
qed

lemma consumer_same:
  "consumer_step re i s s' \<Longrightarrow> outstanding s' = outstanding s \<and> frozen s' = frozen s \<and> r_count s' = r_count s \<and>
     r_pc s' = r_pc s \<and> r_manager s' = r_manager s \<and> r_given s' = r_given s \<and> r_added s' = r_added s \<and>
     r_maxjobs s' = r_maxjobs s \<and> length (consumers s') = length (consumers s) \<and> (r_stop s \<longrightarrow> r_stop s') \<and>
     (ready_q s' \<noteq> [] \<longrightarrow> ready_q s \<noteq> [])"
  by (induction rule: consumer_step.induct) (simp_all add: set_hasrun_def error_handler_def)

lemma get_out_facts:
  assumes "out_q s = t # q"
  shows "in_flight s = add_mset t (in_flight (get_out re t q s))"
    and "r_count (get_out re t q s) = r_count s - 1" and "r_pc (get_out re t q s) = r_pc s"
    and "frozen (get_out re t q s) = frozen s" and "consumers (get_out re t q s) = consumers s"
    and "ready_q (get_out re t q s) = ready_q s" and "r_stop (get_out re t q s) = r_stop s"
    and "r_maxjobs (get_out re t q s) = r_maxjobs s" and "r_given (get_out re t q s) = r_given s"
    and "tasks_done (r_manager (get_out re t q s)) = tasks_done (r_manager s) @ [t]"
    and "\<exists>y. r_manager (get_out re t q s) = with_done (tasks_done (r_manager s) @ [t]) y (r_manager s)"
    and "mset (outstanding (get_out re t q s)) + mset (r_added s) = mset (outstanding s) + mset (r_added (get_out re t q s))"
  using assms add_finished_with_done by (simp_all add: get_out_def finish_task_def in_flight_def Let_def add_finished_def)

lemma put_ready_facts:
  "in_flight (put_ready re t s) = add_mset t (in_flight s)" "r_count (put_ready re t s) = r_count s + 1"
  "outstanding (put_ready re t s) = outstanding s" "frozen (put_ready re t s) = frozen s" "r_pc (put_ready re t s) = r_pc s"
  "r_manager (put_ready re t s) = r_manager s" "r_given (put_ready re t s) = r_given s" "r_added (put_ready re t s) = r_added s"
  by (auto simp: put_ready_def one_processed_def in_flight_def Let_def all_held_Idle) (simp add: all_held_def)

text \<open>A task that the master finishes itself.\<close>

lemma finish_facts:
  assumes "s' \<in> {finish_task re t (one_processed s), status_raised re t s, skip_task re t s}"
  shows "in_flight s' = in_flight s" and "r_count s' = r_count s" and "outstanding s' = outstanding s"
    and "frozen s' = frozen s" and "r_pc s' = r_pc s" and "r_given s' = r_given s" and "r_added s' = r_added s"
    and "ready_q s' = ready_q s" and "consumers s' = consumers s" and "r_maxjobs s' = r_maxjobs s"
    and "\<exists>y. r_manager s' = with_done (tasks_done (r_manager s) @ [t]) y (r_manager s)"
  using assms add_finished_with_done
  by (auto simp: finish_task_def status_raised_def skip_task_def set_hasrun_def one_processed_def error_handler_def in_flight_def Let_def)

text \<open>The counter is the number of tasks in flight.\<close>

definition count_ok :: "runner \<Rightarrow> bool" where
  "count_ok s \<longleftrightarrow> r_count s = int (size (in_flight s))"

lemma count_okI: "in_flight s' = in_flight s \<Longrightarrow> r_count s' = r_count s \<Longrightarrow> count_ok s \<Longrightarrow> count_ok s'"
  by (simp add: count_ok_def)

lemma in_flight_upd [simp]:
  "in_flight (s\<lparr>r_pc := p\<rparr>) = in_flight s" "in_flight (s\<lparr>outstanding := o1\<rparr>) = in_flight s" "in_flight (s\<lparr>frozen := fs\<rparr>) = in_flight s"
  "in_flight (s\<lparr>r_manager := m\<rparr>) = in_flight s" "in_flight (s\<lparr>r_given := gs\<rparr>) = in_flight s" "in_flight (s\<lparr>r_maxjobs := j\<rparr>) = in_flight s"
  by (simp_all add: in_flight_def)

lemma next_set_in_flight: "in_flight (next_set re s) = in_flight s" "r_count (next_set re s) = r_count s"
  "frozen (next_set re s) = frozen s" "consumers (next_set re s) = consumers s" "ready_q (next_set re s) = ready_q s"
  "r_added (next_set re s) = r_added s" "r_stop (next_set re s) = r_stop s"
  by (auto simp: next_set_def split: sum.splits option.splits prod.splits)

lemma master_count: "master_step re s s' \<Longrightarrow> count_ok s \<Longrightarrow> count_ok s'"
proof (induction rule: master_step.induct)
  case (throttle s t q)
  then show ?case using get_out_facts(1,2)[of s t q re] by (simp add: count_ok_def)
next
  case (fill_get s t q)
  then show ?case using get_out_facts(1,2)[of s t q re] by (simp add: count_ok_def)
next
  case (drain_get s t q)
  then show ?case using get_out_facts(1,2)[of s t q re] by (simp add: count_ok_def)
next
  case (next_run s t ts)
  then show ?case by (simp add: count_ok_def put_ready_facts)
next
  case (next_run_already s t ts)
  then show ?case using finish_facts(1,2)[of _ re t "s\<lparr>outstanding := ts, r_pc := MLoop\<rparr>"] by (simp add: count_ok_def)
next
  case (next_raised s t ts)
  then show ?case using finish_facts(1,2)[of _ re t "s\<lparr>outstanding := ts, r_pc := MLoop\<rparr>"] by (simp add: count_ok_def)
next
  case (next_skip s t ts)
  then show ?case using finish_facts(1,2)[of _ re t "s\<lparr>outstanding := ts, r_pc := MLoop\<rparr>"] by (simp add: count_ok_def)
qed (simp_all add: count_ok_def next_set_in_flight)

text \<open>No task is lost or doubled: every task that was given is done, waiting, or in flight.\<close>

definition conserved :: "nat multiset \<Rightarrow> runner \<Rightarrow> bool" where
  "conserved d0 s \<longleftrightarrow> mset (tasks_done (r_manager s)) + mset (outstanding s) + mset (frozen s) + in_flight s =
     d0 + mset (concat (r_given s)) + mset (r_added s)"

lemma get_out_conserved:
  assumes "out_q s = t # q" and "conserved d0 s"
  shows "conserved d0 (get_out re t q s)"
proof -
  let ?s = "get_out re t q s"
  note f = get_out_facts[OF assms(1), of re]
  have "mset (tasks_done (r_manager ?s)) + mset (outstanding ?s) + mset (frozen ?s) + in_flight ?s + mset (r_added s) =
      add_mset t (mset (tasks_done (r_manager s))) + mset (frozen s) + in_flight ?s + (mset (outstanding ?s) + mset (r_added s))"
    by (simp add: f)
  also have "\<dots> = mset (tasks_done (r_manager s)) + mset (frozen s) + in_flight s + mset (outstanding s) + mset (r_added ?s)"
    unfolding f(12) by (simp add: f(1))
  also have "\<dots> = d0 + mset (concat (r_given s)) + mset (r_added s) + mset (r_added ?s)"
    using assms(2) by (simp add: conserved_def ac_simps)
  finally show ?thesis by (simp add: conserved_def f ac_simps)
qed

lemma finish_conserved:
  assumes "s' \<in> {finish_task re t (one_processed s1), status_raised re t s1, skip_task re t s1}"
    and "s1 = s\<lparr>outstanding := ts, r_pc := MLoop\<rparr>" and "outstanding s = t # ts" and "conserved d0 s"
  shows "conserved d0 s'"
proof -
  note f = finish_facts[OF assms(1)]
  have "tasks_done (r_manager s') = tasks_done (r_manager s) @ [t]" using f(11) assms(2) by (auto simp: with_done_def)
  then show ?thesis using assms(2-4) f by (simp add: conserved_def)
qed

lemma next_set_conserved: "conserved d0 s \<Longrightarrow> conserved d0 (next_set re s)"
proof -
  assume c: "conserved d0 s"
  let ?G = "get_next_set (re_algo re) (re_sched re) (r_manager s)"
  show ?thesis
  proof (cases ?G)
    case (Inl e)
    then show ?thesis using c by (simp add: next_set_def conserved_def)
  next
    case (Inr p)
    obtain r m where p: "?G = Inr (r, m)" using Inr by (cases p) auto
    note d = get_next_set_induct_facts[OF p]
    show ?thesis
    proof (cases r)
      case (Some q)
      obtain j ts where q: "q = (j, ts)" by (cases q)
      show ?thesis using c d by (simp add: next_set_def p Some q conserved_def ac_simps)
    qed (use c d p in \<open>simp add: next_set_def conserved_def\<close>)
  qed
qed

lemma master_conserved: "master_step re s s' \<Longrightarrow> conserved d0 s \<Longrightarrow> conserved d0 s'"
proof (induction rule: master_step.induct)
  case (throttle s t q)
  then show ?case by (simp add: get_out_conserved)
next
  case (fill_get s t q)
  then have "conserved d0 (get_out re t q s)" by (simp add: get_out_conserved)
  then show ?case by (simp add: conserved_def)
next
  case (drain_get s t q)
  then show ?case by (simp add: get_out_conserved)
next
  case (fill_set s)
  then show ?case by (simp add: next_set_conserved)
next
  case (next_run_already s t ts)
  then show ?case using finish_conserved by blast
next
  case (next_raised s t ts)
  then show ?case using finish_conserved by blast
next
  case (next_skip s t ts)
  then show ?case using finish_conserved by blast
next
  case (next_later s t ts fs)
  then show ?case by (auto simp: conserved_def)
qed (simp_all add: conserved_def put_ready_facts ac_simps)

text \<open>
  When the master finds no task to treat, or leaves its loop without an error, nothing is waiting or
  in flight and the manager has no set left.
\<close>

definition all_done :: "runner \<Rightarrow> bool" where
  "all_done s \<longleftrightarrow> outstanding s = [] \<and> frozen s = [] \<and> r_count s = 0 \<and> \<not> current_group (r_manager s) < length (groups (r_manager s))"

definition ends_ok :: "runner \<Rightarrow> bool" where
  "ends_ok s \<longleftrightarrow> (r_pc s = MNext \<and> outstanding s = [] \<longrightarrow> all_done s) \<and> (r_pc s \<in> {MDrain, MEnd} \<and> \<not> r_stop s \<longrightarrow> all_done s)"

lemma next_set_ends:
  assumes "frozen s = []" and "r_count s = 0"
  shows "ends_ok (next_set re s)"
proof (cases "get_next_set (re_algo re) (re_sched re) (r_manager s)")
  case (Inr p)
  obtain r m where p: "get_next_set (re_algo re) (re_sched re) (r_manager s) = Inr (r, m)" using Inr by (cases p) auto
  note d = get_next_set_induct_facts[OF p]
  show ?thesis
  proof (cases r)
    case None
    with d p assms show ?thesis by (simp add: next_set_def ends_ok_def all_done_def)
  next
    case (Some q)
    obtain j ts where q: "q = (j, ts)" by (cases q)
    with d Some p show ?thesis by (auto simp: next_set_def ends_ok_def)
  qed
qed (simp add: next_set_def ends_ok_def)

lemma pc_loop: "r_pc s = MLoop \<Longrightarrow> ends_ok s"
  by (simp add: ends_ok_def)

lemma master_ends: "master_step re s s' \<Longrightarrow> ends_ok s \<Longrightarrow> ends_ok s'"
proof (induction rule: master_step.induct)
  case (fill_set s)
  then show ?case by (simp add: next_set_ends)
next
  case (throttle s t q)
  then show ?case using get_out_facts(3)[of s t q re] by (simp add: ends_ok_def)
next
  case (drain_get s t q)
  then show ?case using get_out_facts(3,7)[of s t q re] by (auto simp: ends_ok_def all_done_def)
next
  case (next_run_already s t ts)
  then show ?case using finish_facts(5)[of _ re t "s\<lparr>outstanding := ts, r_pc := MLoop\<rparr>"] by (simp add: pc_loop)
next
  case (next_raised s t ts)
  then show ?case using finish_facts(5)[of _ re t "s\<lparr>outstanding := ts, r_pc := MLoop\<rparr>"] by (simp add: pc_loop)
next
  case (next_skip s t ts)
  then show ?case using finish_facts(5)[of _ re t "s\<lparr>outstanding := ts, r_pc := MLoop\<rparr>"] by (simp add: pc_loop)
next
  case (next_run s t ts)
  then show ?case by (simp add: pc_loop put_ready_facts)
qed (auto simp: ends_ok_def all_done_def)

text \<open>Tasks wait in the queue only when there are consumers.\<close>

definition workers_ok :: "runner \<Rightarrow> bool" where
  "workers_ok s \<longleftrightarrow> (consumers s = [] \<longrightarrow> ready_q s = [])"

lemma master_workers: "master_step re s s' \<Longrightarrow> re_numjobs re \<noteq> 0 \<Longrightarrow> workers_ok s \<Longrightarrow> workers_ok s'"
proof (induction rule: master_step.induct)
  case (next_run s t ts)
  then show ?case by (auto simp: workers_ok_def put_ready_def one_processed_def Let_def)
qed (auto simp: workers_ok_def get_out_facts next_set_in_flight finish_task_def status_raised_def skip_task_def set_hasrun_def
    one_processed_def error_handler_def Let_def)

text \<open>What the manager still gives, after what it has given.\<close>

definition linked :: "sched_env \<Rightarrow> task_manager \<Rightarrow> runner \<Rightarrow> bool" where
  "linked sc m0 s \<longleftrightarrow> (\<forall>n. manager_sets (length (r_given s) + n) sc m0 = rmap ((@) (r_given s)) (manager_sets n sc (r_manager s)))"

lemma linked_same: "linked sc m0 s \<Longrightarrow> r_given s' = r_given s \<Longrightarrow> r_manager s' = with_done x y (r_manager s) \<Longrightarrow> linked sc m0 s'"
  by (simp add: linked_def manager_sets_with_done)

lemma linked_eq: "linked sc m0 s \<Longrightarrow> r_given s' = r_given s \<Longrightarrow> r_manager s' = r_manager s \<Longrightarrow> linked sc m0 s'"
  by (simp add: linked_def)

lemma finish_linked:
  assumes "s' \<in> {finish_task re t (one_processed s), status_raised re t s, skip_task re t s}" and "linked sc m0 s"
  shows "linked sc m0 s'"
proof -
  obtain y where "r_manager s' = with_done (tasks_done (r_manager s) @ [t]) y (r_manager s)"
    using finish_facts(11)[OF assms(1)] by blast
  then show ?thesis by (rule linked_same[OF assms(2) finish_facts(6)[OF assms(1)]])
qed

lemma get_out_linked:
  assumes "out_q s = t # q" and "linked sc m0 s"
  shows "linked sc m0 (get_out re t q s)"
proof -
  obtain y where "r_manager (get_out re t q s) = with_done (tasks_done (r_manager s) @ [t]) y (r_manager s)"
    using get_out_facts(11)[OF assms(1)] by blast
  then show ?thesis by (rule linked_same[OF assms(2) get_out_facts(9)[OF assms(1)]])
qed

lemma next_set_linked:
  assumes "linked (re_sched re) m0 s" and "re_algo re = NORMAL"
  shows "linked (re_sched re) m0 (next_set re s)"
proof (cases "get_next_set NORMAL (re_sched re) (r_manager s)")
  case (Inl e)
  then show ?thesis using assms by (simp add: next_set_def linked_def)
next
  case (Inr p)
  obtain r m where p: "get_next_set NORMAL (re_sched re) (r_manager s) = Inr (r, m)" using Inr by (cases p) auto
  note d = get_next_set_induct_facts[OF p]
  show ?thesis
  proof (cases r)
    case None
    have "manager_sets n (re_sched re) (r_manager s) = manager_sets n (re_sched re) m" for n
      using p d None by (cases n) (simp_all add: get_next_set.simps[of NORMAL "re_sched re" m])
    then show ?thesis using assms p None by (simp add: next_set_def linked_def)
  next
    case (Some q)
    obtain j ts where q: "r = Some (j, ts)" using Some by (cases q) auto
    have "manager_sets (length (r_given s) + Suc n) (re_sched re) m0 =
        rmap ((@) (r_given s @ [ts])) (manager_sets n (re_sched re) m)" for n
      using assms(1)[unfolded linked_def] p q by (cases "manager_sets n (re_sched re) m") (simp_all del: add_Suc_right)
    then show ?thesis using p q assms(2) by (simp add: next_set_def linked_def)
  qed
qed

lemma master_linked: "master_step re s s' \<Longrightarrow> re_algo re = NORMAL \<Longrightarrow> linked (re_sched re) m0 s \<Longrightarrow> linked (re_sched re) m0 s'"
proof (induction rule: master_step.induct)
  case (throttle s t q)
  then show ?case by (simp add: get_out_linked)
next
  case (fill_get s t q)
  then have "linked (re_sched re) m0 (get_out re t q s)" by (simp add: get_out_linked)
  then show ?case by (rule linked_eq) simp_all
next
  case (drain_get s t q)
  then show ?case by (simp add: get_out_linked)
next
  case (fill_set s)
  then show ?case by (simp add: next_set_linked)
next
  case (next_run_already s t ts)
  show ?case by (rule finish_linked[where s = "s\<lparr>outstanding := ts, r_pc := MLoop\<rparr>" and t = t and re = re])
    (use next_run_already in \<open>simp_all add: linked_def\<close>)
next
  case (next_raised s t ts)
  show ?case by (rule finish_linked[where s = "s\<lparr>outstanding := ts, r_pc := MLoop\<rparr>" and t = t and re = re])
    (use next_raised in \<open>simp_all add: linked_def\<close>)
next
  case (next_skip s t ts)
  show ?case by (rule finish_linked[where s = "s\<lparr>outstanding := ts, r_pc := MLoop\<rparr>" and t = t and re = re])
    (use next_skip in \<open>simp_all add: linked_def\<close>)
qed (simp_all add: linked_def put_ready_facts)

section \<open>Reachable states\<close>

definition runner_inv :: "runner_env \<Rightarrow> task_manager \<Rightarrow> runner \<Rightarrow> bool" where
  "runner_inv re m0 s \<longleftrightarrow> count_ok s \<and> conserved (mset (tasks_done m0)) s \<and> ends_ok s \<and>
     (re_numjobs re \<noteq> 0 \<longrightarrow> workers_ok s) \<and> (re_algo re = NORMAL \<longrightarrow> linked (re_sched re) m0 s)"

lemma consumer_inv:
  assumes c: "consumer_step re i s s'" and "runner_inv re m0 s"
  shows "runner_inv re m0 s'"
proof -
  note f = consumer_same[OF c]
  have e: "outstanding s' = outstanding s" "frozen s' = frozen s" "r_count s' = r_count s" "r_pc s' = r_pc s"
    "r_manager s' = r_manager s" "r_given s' = r_given s" "r_added s' = r_added s" using f by simp_all
  have i: "runner_inv re m0 s" by (rule assms(2))
  have "count_ok s'" using i consumer_in_flight[OF c] e(3) by (auto simp: runner_inv_def intro: count_okI)
  moreover have "conserved (mset (tasks_done m0)) s'"
    using i unfolding runner_inv_def conserved_def e consumer_in_flight[OF c] by simp
  moreover have "ends_ok s'" using i f unfolding runner_inv_def ends_ok_def all_done_def e by blast
  moreover have "workers_ok s'" if "workers_ok s"
    using that f unfolding workers_ok_def by (metis length_0_conv)
  moreover have "linked (re_sched re) m0 s'" if "linked (re_sched re) m0 s" using that by (rule linked_eq) (rule e)+
  ultimately show ?thesis using i unfolding runner_inv_def by blast
qed

lemma step_inv: "runner_step re s s' \<Longrightarrow> runner_inv re m0 s \<Longrightarrow> runner_inv re m0 s'"
proof (induction rule: runner_step.induct)
  case (by_master s s')
  then show ?case unfolding runner_inv_def
    using master_count master_conserved master_ends master_workers master_linked by blast
qed (rule consumer_inv)

lemma init_inv: "runner_inv re (m\<lparr>current_group := 0\<rparr>) (Parallel re old m)"
proof -
  have "rmap ((@) []) x = x" for x :: "nat list list result" by (cases x) auto
  then show ?thesis
    by (simp add: runner_inv_def Parallel_def Let_def count_ok_def in_flight_def conserved_def ends_ok_def workers_ok_def linked_def all_held_Idle)
      (simp add: all_held_def)
qed

lemma reach_inv:
  assumes "runner_reach re (Parallel re old m) s"
  shows "runner_inv re (m\<lparr>current_group := 0\<rparr>) s"
  using assms by (induction rule: runner_reach.induct) (auto intro: init_inv step_inv)

text \<open>Who can move when a task is in flight.\<close>

lemma consumer_can_step:
  assumes "i < length (consumers s)" and "consumers s ! i \<noteq> Idle" and "\<forall>t. \<exists>oc. re_outcome re t oc"
  shows "\<exists>s'. consumer_step re i s s'"
proof (cases "consumers s ! i")
  case (Took t)
  then show ?thesis using assms(1) c_stop c_start by (cases "r_stop s") blast+
next
  case (Running t)
  then show ?thesis using assms c_run by blast
qed (use assms c_fail c_put in blast)+

lemma flight_can_step:
  assumes "workers_ok s" and "in_flight s \<noteq> {#}" and "\<forall>t. \<exists>oc. re_outcome re t oc"
  shows "out_q s \<noteq> [] \<or> (\<exists>i s'. consumer_step re i s s')"
proof (cases "all_held (consumers s) = []")
  case True
  show ?thesis
  proof (cases "ready_q s")
    case Nil
    then show ?thesis using assms(2) True by (simp add: in_flight_def)
  next
    case (Cons t q)
    then have "consumers s \<noteq> []" using assms(1) by (auto simp: workers_ok_def)
    then have l: "0 < length (consumers s)" by simp
    have "held (consumers s ! 0) = []" using True l by (simp add: all_held_def)
    then have "consumers s ! 0 = Idle" by (cases "consumers s ! 0") auto
    with l Cons show ?thesis using c_get by blast
  qed
next
  case False
  then obtain c where "c \<in> set (consumers s)" "held c \<noteq> []" by (auto simp: all_held_def)
  moreover from this have "c \<noteq> Idle" by auto
  ultimately obtain i where "i < length (consumers s)" "consumers s ! i \<noteq> Idle" by (metis in_set_conv_nth)
  then show ?thesis using consumer_can_step assms(3) by blast
qed

lemma normal_maxjobs: "get_next_set NORMAL sc m = Inr (Some (j, ts), m') \<Longrightarrow> j = MAXJOBS"
proof (induction NORMAL sc m rule: get_next_set.induct)
  case (1 sc m)
  show ?case
  proof (cases "current_group m < length (groups m)")
    case True
    let ?G = "group_next_set NORMAL sc (groups m ! current_group m, after_of m)"
    from 1(2) True obtain r1 g ra where G: "?G = Inr (r1, g, ra)"
      by (auto simp: get_next_set.simps[of NORMAL sc m] split: sum.splits)
    show ?thesis
    proof (cases r1)
      case None
      from 1(2) True G None have "get_next_set NORMAL sc ((process_install g (m\<lparr>groups := (groups m)[current_group m := g], after_of := ra\<rparr>))
          \<lparr>current_group := current_group m + 1\<rparr>) = Inr (Some (j, ts), m')"
        by (simp add: get_next_set.simps[of NORMAL sc m] Let_def)
      from 1(1)[OF True G refl refl refl None this] show ?thesis .
    next
      case (Some p)
      then show ?thesis using 1(2) True G
        by (auto simp: get_next_set.simps[of NORMAL sc m] Let_def group_next_set_def rmap_Inr_iff split: if_splits)
    qed
  next
    case False
    then show ?thesis using 1(2) by (simp add: get_next_set.simps[of NORMAL sc m])
  qed
qed

lemma maxjobs_inv:
  assumes "runner_reach re (Parallel re old m) s" and "re_algo re = NORMAL"
  shows "r_maxjobs s = MAXJOBS"
  using assms(1)
proof (induction rule: runner_reach.induct)
  case (r_step s s')
  from r_step(2) show ?case
  proof (cases rule: runner_step.cases)
    case by_master
    then show ?thesis
    proof (cases rule: master_step.cases)
      case fill_set
      then show ?thesis using r_step.IH assms(2) normal_maxjobs
        by (auto simp: next_set_def split: sum.splits option.splits)
    qed (use r_step.IH in \<open>auto simp: get_out_facts finish_task_def status_raised_def skip_task_def set_hasrun_def one_processed_def
        error_handler_def put_ready_def Let_def\<close>)
  next
    case (by_consumer i)
    then show ?thesis using consumer_same r_step.IH by metis
  qed
qed (simp add: Parallel_def Let_def)

text \<open>The master can move, or waits for a task in flight.\<close>

lemma master_can_step:
  assumes "count_ok s" and "r_maxjobs s = MAXJOBS" and "r_pc s \<noteq> MEnd" and "\<nexists>e. r_pc s = MRaised e"
    and st: "\<forall>h t. \<exists>a. re_status re h t a" and out: "in_flight s \<noteq> {#} \<longrightarrow> out_q s \<noteq> []"
  shows "\<exists>s'. master_step re s s'"
proof -
  have flight: "\<exists>t q. out_q s = t # q" if "r_count s \<noteq> 0"
  proof -
    have "in_flight s \<noteq> {#}" using that assms(1) by (auto simp: count_ok_def)
    with out show ?thesis by (cases "out_q s") auto
  qed
  show ?thesis
  proof (cases "r_pc s")
    case MLoop
    then show ?thesis using loop_stop loop_go by blast
  next
    case MThrottle
    show ?thesis
    proof (cases "throttled re s")
      case True
      then have "r_count s \<noteq> 0" using assms(2) by (auto simp: throttled_def MAXJOBS_def)
      with flight True MThrottle show ?thesis using throttle by blast
    qed (use MThrottle throttle_end in blast)
  next
    case MFill
    then show ?thesis using fill_end fill_get fill_none flight by blast
  next
    case MFill2
    then show ?thesis using fill_frozen fill_set fill_again by blast
  next
    case MNext
    show ?thesis
    proof (cases "outstanding s")
      case Nil
      then show ?thesis using MNext next_wait next_end by blast
    next
      case (Cons t ts)
      obtain a where a: "re_status re (r_hasrun s) t a" using st by blast
      show ?thesis
      proof (cases "r_hasrun s t = NOT_RUN")
        case True
        show ?thesis
        proof (cases a)
          case None
          then show ?thesis using a MNext Cons True next_raised by blast
        next
          case (Some b)
          then show ?thesis using a MNext Cons True next_skip next_run next_later[where s = s and fs = "t # frozen s"]
            by (cases b) (blast+)
        qed
      qed (use MNext Cons next_run_already in blast)
    qed
  next
    case MDrain
    then show ?thesis using drain_get drain_end flight by blast
  qed (use assms(3,4) in auto)
qed

lemma sets_of_groups:
  "list_all2 (\<lambda>g bs. mset (concat bs) = mset (tasks g)) gs bss \<Longrightarrow> mset (concat (concat bss)) = mset (concat (map tasks gs))"
  by (induction rule: list_all2_induct) auto

text \<open>A task that always asks for later stays with the master.\<close>

definition waiting :: "nat \<Rightarrow> runner \<Rightarrow> bool" where
  "waiting t s \<longleftrightarrow> t \<in> set (outstanding s) \<union> set (frozen s)"

definition postponed :: "nat \<Rightarrow> runner \<Rightarrow> bool" where
  "postponed t s \<longleftrightarrow> (t \<in> set (concat (r_given s)) \<longrightarrow> waiting t s) \<and> r_hasrun s t = NOT_RUN \<and> t \<notin># in_flight s"

definition always_later :: "runner_env \<Rightarrow> nat \<Rightarrow> bool" where
  "always_later re t \<longleftrightarrow> (\<forall>h a. re_status re h t a \<longrightarrow> a = Some ASK_LATER)"

lemma postponed_consumer:
  assumes c: "consumer_step re i s s'" and "postponed t s"
  shows "postponed t s'"
proof -
  have "r_hasrun s' t = r_hasrun s t"
    using c
  proof (cases rule: consumer_step.cases)
    case (c_run t' oc)
    have "mset (held (consumers s ! i)) \<subseteq># mset (all_held (consumers s))"
      using all_held_update[OF c_run(2), of Idle] by (metis add.right_neutral held.simps(1) mset.simps(1) mset_subset_eq_add_right)
    then have "t' \<in># in_flight s" using c_run(3) by (auto simp: in_flight_def)
    then have "t' \<noteq> t" using assms(2) by (auto simp: postponed_def)
    then show ?thesis using c_run by (simp add: set_hasrun_def)
  qed (simp_all add: error_handler_def)
  with consumer_in_flight[OF c] consumer_same[OF c] assms(2) show ?thesis by (simp add: postponed_def waiting_def)
qed

lemma postponed_get_out:
  assumes "out_q s = u # q" and "postponed t s"
  shows "postponed t (get_out re u q s)"
proof -
  note f = get_out_facts[OF assms(1), of re]
  have "set (outstanding s) \<subseteq> set (outstanding (get_out re u q s))" "r_hasrun (get_out re u q s) = r_hasrun s"
    by (auto simp: get_out_def finish_task_def Let_def)
  then show ?thesis using assms(2) f(1,4,9) by (auto simp: postponed_def waiting_def)
qed

lemma postponed_finish:
  assumes "s' \<in> {finish_task re u (one_processed s1), status_raised re u s1, skip_task re u s1}"
    and "s1 = s\<lparr>outstanding := us, r_pc := MLoop\<rparr>" and "outstanding s = u # us" and "u \<noteq> t" and "postponed t s"
  shows "postponed t s'"
proof -
  note f = finish_facts[OF assms(1)]
  have "r_hasrun s' t = r_hasrun s1 t"
    using assms(1,4) by (auto simp: finish_task_def status_raised_def skip_task_def set_hasrun_def one_processed_def error_handler_def Let_def)
  with f(1,3,4,6) assms(2-5) show ?thesis by (auto simp: postponed_def waiting_def)
qed

lemma postponed_master:
  assumes "always_later re t"
  shows "master_step re s s' \<Longrightarrow> postponed t s \<Longrightarrow> postponed t s'"
proof (induction rule: master_step.induct)
  case (throttle s u q)
  then show ?case by (simp add: postponed_get_out)
next
  case (fill_get s u q)
  then have "postponed t (get_out re u q s)" by (simp add: postponed_get_out)
  then show ?case by (simp add: postponed_def waiting_def)
next
  case (drain_get s u q)
  then show ?case by (simp add: postponed_get_out)
next
  case (fill_set s)
  then show ?case
    by (auto simp: next_set_def postponed_def waiting_def split: sum.splits option.splits prod.splits)
next
  case (next_run_already s u us)
  then have "u \<noteq> t" by (auto simp: postponed_def)
  then show ?case using next_run_already postponed_finish by blast
next
  case (next_raised s u us)
  then have "u \<noteq> t" using assms by (auto simp: always_later_def)
  then show ?case using next_raised postponed_finish by blast
next
  case (next_skip s u us)
  then have "u \<noteq> t" using assms by (auto simp: always_later_def)
  then show ?case using next_skip postponed_finish by blast
next
  case (next_run s u us)
  then have "u \<noteq> t" using assms by (auto simp: always_later_def)
  moreover have "r_hasrun (put_ready re u (s\<lparr>outstanding := us, r_pc := MLoop\<rparr>)) = r_hasrun s"
    by (simp add: put_ready_def one_processed_def Let_def)
  ultimately show ?case using next_run by (auto simp: postponed_def waiting_def put_ready_facts)
next
  case (next_later s u us fs)
  then show ?case by (auto simp: postponed_def waiting_def)
qed (simp_all add: postponed_def waiting_def)

lemma postponed_reach:
  assumes "runner_reach re (Parallel re old m) s" and "always_later re t"
  shows "postponed t s"
  using assms(1)
proof (induction rule: runner_reach.induct)
  case (r_step s s')
  from r_step(2) show ?case
    using postponed_master[OF assms(2)] postponed_consumer r_step.IH by (cases rule: runner_step.cases) blast+
qed (simp add: postponed_def Parallel_def Let_def in_flight_def all_held_Idle flip: set_mset_mset, simp add: all_held_def)

section \<open>Properties\<close>


definition ex_runner :: runner_env where
  "ex_runner = \<lparr>re_keep = False, re_numjobs = 1, re_status = (\<lambda>h t a. a = Some SKIP_ME), re_outcome = (\<lambda>t oc. oc = PostOk),
     re_more = (\<lambda>_. []), re_algo = NORMAL, re_sched = ex_sched, re_is_install = False, re_install = (\<lambda>_. None)\<rparr>"

lemma reach_master: "runner_reach re s0 s \<Longrightarrow> master_step re s s' \<Longrightarrow> runner_reach re s0 s'"
  using r_step by_master by blast

text \<open>A build without groups: the master ends at once.\<close>

lemma ex_reach: "runner_reach ex_runner (Parallel ex_runner 0 TaskManager) ((Parallel ex_runner 0 TaskManager)\<lparr>r_pc := MEnd\<rparr>)"
proof -
  let ?s = "Parallel ex_runner 0 TaskManager"
  have n: "get_next_set NORMAL ex_sched TaskManager = Inr (None, TaskManager)"
    by (subst get_next_set.simps) (simp add: TaskManager_def)
  have m: "r_manager ?s = TaskManager" by (simp add: Parallel_def Let_def TaskManager_def)
  have ns: "next_set ex_runner (?s\<lparr>r_pc := MFill2\<rparr>) = ?s\<lparr>r_pc := MNext\<rparr>"
    using n m by (simp add: next_set_def ex_runner_def)
  have f: "outstanding ?s = []" "frozen ?s = []" "r_count ?s = 0" "\<not> r_stop ?s" "\<not> r_error ?s" "r_pc ?s = MLoop"
    by (simp_all add: Parallel_def Let_def)
  have t: "\<not> throttled ex_runner (?s\<lparr>r_pc := MThrottle\<rparr>)"
    by (simp add: throttled_def Parallel_def Let_def MAXJOBS_def)
  note r = r_init[of ex_runner ?s]
  have 1: "master_step ex_runner ?s (?s\<lparr>r_pc := MThrottle\<rparr>)" by (rule loop_go[OF f(6,4)])
  have 2: "master_step ex_runner (?s\<lparr>r_pc := MThrottle\<rparr>) (?s\<lparr>r_pc := MFill\<rparr>)" using throttle_end[OF _ t] by simp
  have 3: "master_step ex_runner (?s\<lparr>r_pc := MFill\<rparr>) (?s\<lparr>r_pc := MFill2\<rparr>)"
    using fill_none[of "?s\<lparr>r_pc := MFill\<rparr>" ex_runner] f by simp
  have 4: "master_step ex_runner (?s\<lparr>r_pc := MFill2\<rparr>) (?s\<lparr>r_pc := MNext\<rparr>)"
    using fill_set[of "?s\<lparr>r_pc := MFill2\<rparr>" ex_runner] f by (simp add: ns)
  have 5: "master_step ex_runner (?s\<lparr>r_pc := MNext\<rparr>) (?s\<lparr>r_pc := MDrain\<rparr>)"
    using next_end[of "?s\<lparr>r_pc := MNext\<rparr>" ex_runner] f by simp
  have 6: "master_step ex_runner (?s\<lparr>r_pc := MDrain\<rparr>) (?s\<lparr>r_pc := MEnd\<rparr>)"
    using drain_end[of "?s\<lparr>r_pc := MDrain\<rparr>" ex_runner] f by simp
  from reach_master[OF reach_master[OF reach_master[OF reach_master[OF reach_master[OF reach_master[OF r 1] 2] 3] 4] 5] 6]
  show ?thesis .
qed




text \<open>
  A task whose \<open>runnable_status\<close> always answers \<open>ASK_LATER\<close>, such as one of two tasks that run
  after each other, is never reported: once it was given to the scheduler, the master cannot end
  unless an error of another task stops the build, and postpones the task for ever.
\<close>

theorem postponed_for_ever:
  assumes "runner_reach re (Parallel re old m) s" and "always_later re t" and "t \<in> set (concat (r_given s))" and "\<not> r_stop s"
  shows "waiting t s \<and> r_pc s \<noteq> MEnd"
proof
  show w: "waiting t s" using postponed_reach[OF assms(1,2)] assms(3) by (simp add: postponed_def)
  show "r_pc s \<noteq> MEnd"
  proof
    assume "r_pc s = MEnd"
    then have "all_done s" using reach_inv[OF assms(1)] assms(4) by (simp add: runner_inv_def ends_ok_def)
    with w show False by (simp add: waiting_def all_done_def)
  qed
qed
text \<open>One group with one task, which always asks for later: the master has taken its set.\<close>

definition ex_later :: runner_env where
  "ex_later = ex_runner\<lparr>re_status := (\<lambda>h t a. a = Some ASK_LATER)\<rparr>"

definition ex_manager :: task_manager where
  "ex_manager = TaskManager\<lparr>groups := [TaskGroup\<lparr>tasks := [1]\<rparr>]\<rparr>"

lemma ex_later_reach:
  "\<exists>s. runner_reach ex_later (Parallel ex_later 0 ex_manager) s \<and> r_given s = [[1]] \<and> \<not> r_stop s"
proof -
  let ?s = "Parallel ex_later 0 ex_manager"
  have k: "task_key ex_sched (Suc 0) = 1" by (simp add: task_key_def hash_constraints_def ex_sched_def)
  have "\<exists>g ra. group_next_set NORMAL ex_sched (TaskGroup\<lparr>tasks := [1]\<rparr>, \<lambda>_. []) = Inr (Some (MAXJOBS, [1]), g, ra)"
    by (simp add: group_next_set_def tasks_in_parallel_def prepared_def prepare_def make_cstr_groups_def extract_constraints_def
      TaskGroup_def k ddget_def connected_def Let_def)
  then obtain g ra where "group_next_set NORMAL ex_sched (TaskGroup\<lparr>tasks := [1]\<rparr>, \<lambda>_. []) = Inr (Some (MAXJOBS, [1]), g, ra)"
    by blast
  then have "\<exists>m. get_next_set NORMAL ex_sched ex_manager = Inr (Some (MAXJOBS, [1]), m)"
    by (subst get_next_set.simps) (simp add: ex_manager_def TaskManager_def Let_def)
  then obtain j m where n: "get_next_set NORMAL ex_sched ex_manager = Inr (Some (j, [1]), m)" by blast
  have m: "r_manager ?s = ex_manager" by (simp add: Parallel_def Let_def ex_manager_def TaskManager_def)
  have f: "outstanding ?s = []" "frozen ?s = []" "r_count ?s = 0" "\<not> r_stop ?s" "r_pc ?s = MLoop" "r_given ?s = []"
    by (simp_all add: Parallel_def Let_def)
  have t: "\<not> throttled ex_later (?s\<lparr>r_pc := MThrottle\<rparr>)"
    by (simp add: throttled_def Parallel_def Let_def MAXJOBS_def)
  note r = r_init[of ex_later ?s]
  have 1: "master_step ex_later ?s (?s\<lparr>r_pc := MThrottle\<rparr>)" by (rule loop_go[OF f(5,4)])
  have 2: "master_step ex_later (?s\<lparr>r_pc := MThrottle\<rparr>) (?s\<lparr>r_pc := MFill\<rparr>)" using throttle_end[OF _ t] by simp
  have 3: "master_step ex_later (?s\<lparr>r_pc := MFill\<rparr>) (?s\<lparr>r_pc := MFill2\<rparr>)"
    using fill_none[of "?s\<lparr>r_pc := MFill\<rparr>" ex_later] f by simp
  have 4: "master_step ex_later (?s\<lparr>r_pc := MFill2\<rparr>) (next_set ex_later (?s\<lparr>r_pc := MFill2\<rparr>))"
    using fill_set[of "?s\<lparr>r_pc := MFill2\<rparr>" ex_later] f by simp
  have "runner_reach ex_later ?s (next_set ex_later (?s\<lparr>r_pc := MFill2\<rparr>))"
    by (rule reach_master[OF reach_master[OF reach_master[OF reach_master[OF r 1] 2] 3] 4])
  moreover have "r_given (next_set ex_later (?s\<lparr>r_pc := MFill2\<rparr>)) = [[1]] \<and> \<not> r_stop (next_set ex_later (?s\<lparr>r_pc := MFill2\<rparr>))"
    using n m f by (simp add: next_set_def ex_later_def ex_runner_def)
  ultimately show ?thesis by blast
qed

theorem postponed_for_ever_witness:
  "\<exists>s. runner_reach ex_later (Parallel ex_later 0 ex_manager) s \<and> r_given s = [[1]] \<and> waiting 1 s \<and> r_pc s \<noteq> MEnd"
proof -
  obtain s where s: "runner_reach ex_later (Parallel ex_later 0 ex_manager) s" "r_given s = [[1]]" "\<not> r_stop s"
    using ex_later_reach by blast
  have "always_later ex_later 1" by (simp add: always_later_def ex_later_def)
  moreover have "1 \<in> set (concat (r_given s))" by (simp add: s(2))
  ultimately show ?thesis using postponed_for_ever[OF s(1) _ _ s(3)] s by blast
qed

end
