(* ===== verification/Waf_Node.thy ===== *)
theory Waf_Node
  imports Py_Base
begin

text \<open>
  The file tree of the build system: the class \<open>Node\<close> of \<^verbatim>\<open>src/tools/wafadmin/Node.py\<close> with the
  caches of \<open>BuildContext\<close> that it uses, and \<open>rescan\<close> and \<open>listdir_bld\<close> of
  \<^verbatim>\<open>src/tools/wafadmin/Build.py\<close>.

  After the definitions: the relative path between two nodes, walked from the second, leads to the
  first; a node is in a subtree exactly when its chain of parents meets the root of the subtree;
  declaring a build node twice gives the same node; and what \<open>set_type\<close> does to the number of a node.
\<close>

section \<open>Definitions\<close>

subsection \<open>Nodes and the tree\<close>

text \<open>The type of a node is the number of the node modulo 4.\<close>

definition UNDEFINED :: nat where "UNDEFINED = 0"
definition DIR :: nat where "DIR = 1"
definition FILE :: nat where "FILE = 2"
definition BUILD :: nat where "BUILD = 3"

text \<open>
  A node is known by its place in the list of all nodes. \<open>n_childs\<close> is \<open>None\<close> for a node without the
  attribute \<open>childs\<close>.
\<close>

record node =
  n_name :: string
  n_parent :: "nat option"
  n_id :: nat
  n_childs :: "(string \<times> nat) list option"

text \<open>
  The variant 0 of source nodes is \<open>None\<close>. \<open>node_sigs\<close> holds a signature for the nodes of each variant;
  \<open>dir_contents\<close> and \<open>scanned\<close> are \<open>cache_dir_contents\<close> and \<open>cache_scanned_folders\<close>, by number.
\<close>

record ntree =
  nodes :: "node list"
  id_nodes :: nat
  node_sigs :: "string option \<Rightarrow> nat \<rightharpoonup> string"
  dir_contents :: "nat \<rightharpoonup> string list"
  scanned :: "nat \<Rightarrow> bool"
  abspaths :: "string option \<Rightarrow> nat \<rightharpoonup> string"
  srcnode :: nat
  bldnode :: nat
  lst_variants :: "string list"

definition node_at :: "ntree \<Rightarrow> nat \<Rightarrow> node" where
  "node_at t r = nodes t ! r"

definition get_type :: "ntree \<Rightarrow> nat \<Rightarrow> nat" where
  "get_type t r = n_id (node_at t r) mod 4"

text \<open>\<open>childs.get(name, None)\<close>.\<close>

definition child :: "ntree \<Rightarrow> nat \<Rightarrow> string \<Rightarrow> nat option result" where
  "child t r name = (case n_childs (node_at t r) of None \<Rightarrow> Inl AttributeError | Some d \<Rightarrow> Inr (map_of d name))"

definition set_node :: "nat \<Rightarrow> node \<Rightarrow> ntree \<Rightarrow> ntree" where
  "set_node r n t = t\<lparr>nodes := (nodes t)[r := n]\<rparr>"

text \<open>
  The constructor. The new node is in no list of childs when its name is taken already or when the parent
  has none.
\<close>

definition Node :: "string \<Rightarrow> nat option \<Rightarrow> nat \<Rightarrow> ntree \<Rightarrow> (nat \<times> ntree) result" where
  "Node name parent node_type t =
     (let r = length (nodes t);
          n = \<lparr>n_name = name, n_parent = parent, n_id = id_nodes t + 4 + node_type,
               n_childs = (if node_type = DIR then Some [] else None)\<rparr>;
          t1 = t\<lparr>nodes := nodes t @ [n], id_nodes := id_nodes t + 4\<rparr>
      in case parent of
           None \<Rightarrow> Inr (r, t1)
         | Some p \<Rightarrow>
             rbind (child t p name) (\<lambda>c.
               if c \<noteq> None then Inl (WafError ''node exists in the parent files already'')
               else let pn = node_at t p
                    in Inr (r, set_node p (pn\<lparr>n_childs := map_option (dict_set name r) (n_childs pn)\<rparr>) t1)))"

text \<open>\<open>self.id + t - self.id & 3\<close>: the operator \<open>&\<close> binds weaker than \<open>+\<close> and \<open>-\<close>.\<close>

definition set_type :: "nat \<Rightarrow> nat \<Rightarrow> ntree \<Rightarrow> ntree" where
  "set_type ty r t =
     (let n = node_at t r
      in set_node r (n\<lparr>n_id := nat ((int (n_id n) + int ty - int (n_id n)) mod 4)\<rparr>) t)"

definition children_of_type :: "nat \<Rightarrow> ntree \<Rightarrow> nat \<Rightarrow> nat list result" where
  "children_of_type ty t r =
     (case n_childs (node_at t r) of
        None \<Rightarrow> Inl AttributeError
      | Some d \<Rightarrow> Inr (filter (\<lambda>c. get_type t c = ty) (map snd d)))"

text \<open>\<open>get_dir\<close>, \<open>get_file\<close> and \<open>get_build\<close>, for the three types.\<close>

definition get_typed :: "nat \<Rightarrow> ntree \<Rightarrow> nat \<Rightarrow> string \<Rightarrow> nat option \<Rightarrow> nat option result" where
  "get_typed ty t r name dflt =
     rmap (\<lambda>c. case c of None \<Rightarrow> dflt | Some x \<Rightarrow> if get_type t x \<noteq> ty then dflt else Some x) (child t r name)"

subsection \<open>Parents\<close>

text \<open>
  The loops over the parents take a bound, which is large enough because a parent is made before its
  childs; \<open>RuntimeError\<close> stands for a chain that does not end.
\<close>

fun height_loop :: "nat \<Rightarrow> ntree \<Rightarrow> nat option \<Rightarrow> int \<Rightarrow> int result" where
  "height_loop n t None val = Inr val"
| "height_loop 0 t (Some d) val = Inl RuntimeError"
| "height_loop (Suc n) t (Some d) val = height_loop n t (n_parent (node_at t d)) (val + 1)"

definition height :: "ntree \<Rightarrow> nat \<Rightarrow> int result" where
  "height t r = height_loop (Suc r) t (Some r) (- 1)"

text \<open>\<open>p = p.parent\<close>, several times.\<close>

fun climb :: "nat \<Rightarrow> ntree \<Rightarrow> nat option \<Rightarrow> nat option result" where
  "climb 0 t p = Inr p"
| "climb (Suc k) t None = Inl AttributeError"
| "climb (Suc k) t (Some r) = climb k t (n_parent (node_at t r))"

fun names_up :: "nat \<Rightarrow> ntree \<Rightarrow> nat option \<Rightarrow> string list result" where
  "names_up 0 t p = Inr []"
| "names_up (Suc k) t None = Inl AttributeError"
| "names_up (Suc k) t (Some r) = rmap ((#) (n_name (node_at t r))) (names_up k t (n_parent (node_at t r)))"

text \<open>\<open>os.path.join\<close> of several names.\<close>

fun join_all :: "string list \<Rightarrow> string" where
  "join_all [] = []"
| "join_all (x # xs) = foldl path_join x xs"

definition path_to_parent :: "ntree \<Rightarrow> nat \<Rightarrow> nat \<Rightarrow> string result" where
  "path_to_parent t r parent =
     rbind (height t parent) (\<lambda>h1. rbind (height t r) (\<lambda>h2.
       rmap (\<lambda>lst. if lst \<noteq> [] then join_all (rev lst) else []) (names_up (nat (h2 - h1)) t (Some r))))"

text \<open>The loop of \<open>find_ancestor\<close>, with both nodes at the same height.\<close>

fun ancestor_loop :: "nat \<Rightarrow> ntree \<Rightarrow> nat \<Rightarrow> nat option \<Rightarrow> nat option result" where
  "ancestor_loop 0 t cand cursor = Inl RuntimeError"
| "ancestor_loop (Suc n) t cand cursor =
     (case n_parent (node_at t cand) of
        None \<Rightarrow> Inr None
      | Some p \<Rightarrow>
          (case cursor of
             None \<Rightarrow> Inl AttributeError
           | Some c \<Rightarrow>
               let c' = n_parent (node_at t c)
               in if c' = Some p then Inr (Some p) else ancestor_loop n t p c'))"

definition find_ancestor_down :: "ntree \<Rightarrow> nat \<Rightarrow> nat \<Rightarrow> nat \<Rightarrow> nat option result" where
  "find_ancestor_down t r other dist =
     rbind (climb dist t (Some r)) (\<lambda>cand.
       case cand of
         None \<Rightarrow> Inl AttributeError
       | Some c \<Rightarrow> if c = other then Inr (Some c) else ancestor_loop (Suc c) t c (Some other))"

definition find_ancestor :: "ntree \<Rightarrow> nat \<Rightarrow> nat \<Rightarrow> nat option result" where
  "find_ancestor t r other =
     rbind (height t r) (\<lambda>h1. rbind (height t other) (\<lambda>h2.
       if h1 - h2 < 0 then find_ancestor_down t other r (nat (h2 - h1))
       else find_ancestor_down t r other (nat (h1 - h2))))"

text \<open>The two loops of \<open>relpath_gen\<close>: up to the node with the number of the ancestor.\<close>

fun collect_up :: "nat \<Rightarrow> ntree \<Rightarrow> nat \<Rightarrow> nat option \<Rightarrow> (nat \<Rightarrow> string) \<Rightarrow> string list result" where
  "collect_up n t anc_id None f = Inl AttributeError"
| "collect_up 0 t anc_id (Some r) f = Inl RuntimeError"
| "collect_up (Suc n) t anc_id (Some r) f =
     (if n_id (node_at t r) = anc_id then Inr []
      else rmap ((#) (f r)) (collect_up n t anc_id (n_parent (node_at t r)) f))"

definition relpath_list :: "ntree \<Rightarrow> nat \<Rightarrow> nat \<Rightarrow> string list result" where
  "relpath_list t r from =
     (if r = from then Inr [''.'']
      else if n_parent (node_at t from) = Some r then Inr [''..'']
      else rbind (find_ancestor t r from) (\<lambda>anc.
        case anc of
          None \<Rightarrow> Inl AttributeError
        | Some a \<Rightarrow>
            rbind (collect_up (Suc r) t (n_id (node_at t a)) (Some r) (\<lambda>x. n_name (node_at t x))) (\<lambda>l1.
              rmap (\<lambda>l2. rev (l1 @ l2)) (collect_up (Suc from) t (n_id (node_at t a)) (Some from) (\<lambda>x. ''..'')))))"

definition relpath_gen :: "ntree \<Rightarrow> nat \<Rightarrow> nat \<Rightarrow> string result" where
  "relpath_gen t r from = rmap (py_join ''/'') (relpath_list t r from)"

definition is_child_of :: "ntree \<Rightarrow> nat \<Rightarrow> nat \<Rightarrow> bool result" where
  "is_child_of t r other =
     rbind (height t r) (\<lambda>h1. rbind (height t other) (\<lambda>h2.
       rbind (climb (nat (h1 - h2)) t (Some r)) (\<lambda>p.
         case p of None \<Rightarrow> Inl AttributeError | Some x \<Rightarrow> Inr (n_id (node_at t x) = n_id (node_at t other)))))"

subsection \<open>Paths\<close>

text \<open>An environment is given by its variant.\<close>

definition node_variant :: "ntree \<Rightarrow> nat \<Rightarrow> string option \<Rightarrow> string option" where
  "node_variant t r env = (case env of None \<Rightarrow> None | Some v \<Rightarrow> if get_type t r = FILE then None else Some v)"

text \<open>
  \<open>abspath\<close> with its cache; a path in the cache that is empty counts as missing. The source paths first,
  then the build paths, which use those of \<open>bldnode\<close>.
\<close>

definition cache_path :: "string option \<Rightarrow> nat \<Rightarrow> string \<Rightarrow> ntree \<Rightarrow> ntree" where
  "cache_path v i p t = t\<lparr>abspaths := (abspaths t)(v := (abspaths t v)(i \<mapsto> p))\<rparr>"

definition cached_path :: "ntree \<Rightarrow> string option \<Rightarrow> nat \<Rightarrow> string option" where
  "cached_path t v i = (case abspaths t v i of Some p \<Rightarrow> if p = [] then None else Some p | None \<Rightarrow> None)"

fun src_abspath :: "nat \<Rightarrow> ntree \<Rightarrow> nat \<Rightarrow> (string \<times> ntree) result" where
  "src_abspath 0 t r = Inl RuntimeError"
| "src_abspath (Suc n) t r =
     (let nd = node_at t r in
      case cached_path t None (n_id nd) of
        Some p \<Rightarrow> Inr (p, t)
      | None \<Rightarrow>
          rmap (\<lambda>(val, t1). (val, cache_path None (n_id nd) val t1))
            (case n_parent nd of
               None \<Rightarrow> Inr (''/'', t)
             | Some p \<Rightarrow>
                 if n_name (node_at t p) = [] then Inr (''/'' @ n_name nd, t)
                 else rmap (\<lambda>(pp, t1). (pp @ ''/'' @ n_name nd, t1)) (src_abspath n t p)))"

definition abspath :: "ntree \<Rightarrow> nat \<Rightarrow> string option \<Rightarrow> (string \<times> ntree) result" where
  "abspath t r env =
     (let v = (case env of None \<Rightarrow> None | Some w \<Rightarrow> if get_type t r \<noteq> FILE \<and> w \<noteq> [] then Some w else None) in
      case v of
        None \<Rightarrow> src_abspath (Suc r) t r
      | Some w \<Rightarrow>
          (case cached_path t v (n_id (node_at t r)) of
             Some p \<Rightarrow> Inr (p, t)
           | None \<Rightarrow>
               rbind (src_abspath (Suc (bldnode t)) t (bldnode t)) (\<lambda>(b, t1).
                 rmap (\<lambda>rel. let val = py_join ''/'' [b, w, rel] in (val, cache_path v (n_id (node_at t r)) val t1))
                   (path_to_parent t1 r (srcnode t1)))))"

definition bldpath :: "ntree \<Rightarrow> nat \<Rightarrow> string option \<Rightarrow> string result" where
  "bldpath t r env =
     (if get_type t r = FILE then relpath_gen t r (bldnode t)
      else rbind (path_to_parent t r (srcnode t)) (\<lambda>p.
        case env of
          None \<Rightarrow> Inl AttributeError
        | Some v \<Rightarrow> Inr (if p \<noteq> [] then v @ ''/'' @ p else v)))"

definition srcpath :: "ntree \<Rightarrow> nat \<Rightarrow> string option \<Rightarrow> string result" where
  "srcpath t r env = (if get_type t r = BUILD then bldpath t r env else relpath_gen t r (bldnode t))"

definition rfind_dot :: "string \<Rightarrow> nat option" where
  "rfind_dot s = (if CHR ''.'' \<in> set s then Some (length s - 1 - length (takeWhile (\<lambda>c. c \<noteq> CHR ''.'') (rev s))) else None)"

definition changed_ext :: "string \<Rightarrow> string \<Rightarrow> string" where
  "changed_ext name ext = (case rfind_dot name of Some k \<Rightarrow> take k name @ ext | None \<Rightarrow> name @ ext)"

definition suffix :: "ntree \<Rightarrow> nat \<Rightarrow> string" where
  "suffix t r = (let name = n_name (node_at t r) in drop (case rfind_dot name of None \<Rightarrow> 0 | Some k \<Rightarrow> k) name)"

subsection \<open>Scanning a directory\<close>

text \<open>
  What the tree takes from the file system: \<open>os.listdir\<close>, the hash of a file, and \<open>os.path.isdir\<close>.
\<close>

record fsys =
  fs_listdir :: "string \<Rightarrow> string list result"
  fs_h_file :: "string \<Rightarrow> string result"
  fs_isdir :: "string \<Rightarrow> bool"

definition set_sig :: "string option \<Rightarrow> nat \<Rightarrow> string option \<Rightarrow> ntree \<Rightarrow> ntree" where
  "set_sig v i s t = t\<lparr>node_sigs := (node_sigs t)(v := (node_sigs t v)(i := s))\<rparr>"

definition drop_child :: "nat \<Rightarrow> string \<Rightarrow> ntree \<Rightarrow> ntree" where
  "drop_child r name t =
     (let n = node_at t r in set_node r (n\<lparr>n_childs := map_option (dict_del name) (n_childs n)\<rparr>) t)"

text \<open>The source files of a directory: those that exist are hashed, the others are removed.\<close>

definition rescan_file :: "fsys \<Rightarrow> nat \<Rightarrow> string list \<Rightarrow> string \<times> nat \<Rightarrow> ntree \<Rightarrow> ntree result" where
  "rescan_file fs d lst = (\<lambda>(name, x) t.
     if get_type t x \<noteq> FILE then Inr t
     else if n_name (node_at t x) \<in> set lst
     then rbind (src_abspath (Suc x) t x) (\<lambda>(p, t1).
       case fs_h_file fs p of
         Inl e \<Rightarrow> if e = IOError then Inl (WafError ''The file is not readable or has become a dir'') else Inl e
       | Inr h \<Rightarrow> Inr (set_sig None (n_id (node_at t x)) (Some h) t1))
     else Inr (drop_child d (n_name (node_at t x)) (set_sig None (n_id (node_at t x)) None t)))"

text \<open>\<open>listdir_bld\<close>: the signatures of build files that do not exist any more are removed.\<close>

definition listdir_bld :: "fsys \<Rightarrow> nat \<Rightarrow> string \<Rightarrow> string \<Rightarrow> ntree \<Rightarrow> ntree result" where
  "listdir_bld fs d path v t =
     rbind (children_of_type BUILD t d) (\<lambda>existing.
       rmap (\<lambda>lst. fold (\<lambda>x t. if n_name (node_at t x) \<notin> set lst then set_sig (Some v) (n_id (node_at t x)) None t else t)
         existing t) (fs_listdir fs path))"

text \<open>When listing a build directory fails, all build nodes lose their signatures and are removed.\<close>

definition forget_build :: "nat \<Rightarrow> ntree \<Rightarrow> ntree result" where
  "forget_build d t =
     rmap (\<lambda>xs. fold (\<lambda>x t. drop_child d (n_name (node_at t x))
         (t\<lparr>node_sigs := (\<lambda>v. (node_sigs t v)(n_id (node_at t x) := None))\<rparr>)) xs t)
       (children_of_type BUILD t d)"

fun list_variants :: "fsys \<Rightarrow> nat \<Rightarrow> string \<Rightarrow> string list \<Rightarrow> string list \<Rightarrow> ntree \<Rightarrow> ntree result" where
  "list_variants fs d bld lst [] t = Inr t"
| "list_variants fs d bld lst (v # vs) t =
     rbind (listdir_bld fs d (join_all (bld # v # lst)) v t) (list_variants fs d bld lst vs)"

definition rescan :: "fsys \<Rightarrow> nat \<Rightarrow> ntree \<Rightarrow> ntree result" where
  "rescan fs d t =
     (let i = n_id (node_at t d) in
      if scanned t i then Inr t
      else let t0 = t\<lparr>scanned := (scanned t)(i := True)\<rparr> in
        rbind (src_abspath (Suc d) t0 d) (\<lambda>(p, t1).
          rbind (case fs_listdir fs p of Inl e \<Rightarrow> if e = OSError then Inr [] else Inl e | Inr l \<Rightarrow> Inr l) (\<lambda>lst.
            let t2 = t1\<lparr>dir_contents := (dir_contents t1)(i \<mapsto> lst)\<rparr> in
            rbind (case n_childs (node_at t2 d) of None \<Rightarrow> Inl AttributeError | Some c \<Rightarrow> Inr c) (\<lambda>cs.
              rbind (foldM (rescan_file fs d lst) cs t2) (\<lambda>t3.
                rbind (height t3 (srcnode t3)) (\<lambda>h1. rbind (height t3 d) (\<lambda>h2.
                  rbind (names_up (nat (h2 - h1)) t3 (Some d)) (\<lambda>up.
                    rbind (src_abspath (Suc (bldnode t3)) t3 (bldnode t3)) (\<lambda>(b, t4).
                      case list_variants fs d b (rev up) (lst_variants t4) t4 of
                        Inr t5 \<Rightarrow> Inr t5
                      | Inl e \<Rightarrow> if e = OSError then forget_build d t4 else Inl e)))))))))"

subsection \<open>Finding nodes\<close>

text \<open>One name of the path in \<open>find_dir\<close>; \<open>None\<close> when there is no such directory. \<open>os.sep\<close> is a slash.\<close>

definition windows_root :: "ntree \<Rightarrow> nat \<Rightarrow> string \<Rightarrow> bool" where
  "windows_root t cur name \<longleftrightarrow> n_name (node_at t cur) = [] \<and> length name = 2 \<and> name ! 1 = CHR '':'' \<or>
     py_startswith name [CHR 0x5C, CHR 0x5C]"

definition find_dir_step :: "fsys \<Rightarrow> nat \<Rightarrow> string \<Rightarrow> ntree \<Rightarrow> (nat option \<times> ntree) result" where
  "find_dir_step fs cur name t0 =
     rbind (rescan fs cur t0) (\<lambda>t.
       if n_parent (node_at t cur) = None \<and> name = n_name (node_at t cur) then Inr (Some cur, t)
       else if name = [] \<or> name = ''.'' then Inr (Some cur, t)
       else if name = ''..''
       then Inr (Some (case n_parent (node_at t cur) of None \<Rightarrow> cur | Some p \<Rightarrow> p), t)
       else rbind (child t cur name) (\<lambda>c.
         case c of
           Some x \<Rightarrow> Inr (if get_type t x \<noteq> DIR then None else Some x, t)
         | None \<Rightarrow>
             if (case dir_contents t (n_id (node_at t cur)) of None \<Rightarrow> False | Some names \<Rightarrow> name \<in> set names)
             then rbind (if n_name (node_at t cur) = [] then Inr (''/'' @ name, t)
                         else rmap (\<lambda>(p, t1). (p @ ''/'' @ name, t1)) (src_abspath (Suc cur) t cur)) (\<lambda>(p, t1).
               if \<not> fs_isdir fs p then Inr (None, t1)
               else rmap (\<lambda>(r, t2). (Some r, t2)) (Node name (Some cur) DIR t1))
             else if windows_root t cur name then rmap (\<lambda>(r, t2). (Some r, t2)) (Node name (Some cur) DIR t)
             else Inr (None, t)))"

fun find_dir :: "fsys \<Rightarrow> nat \<Rightarrow> string list \<Rightarrow> ntree \<Rightarrow> (nat option \<times> ntree) result" where
  "find_dir fs cur [] t = Inr (Some cur, t)"
| "find_dir fs cur (name # lst) t =
     rbind (find_dir_step fs cur name t) (\<lambda>(c, t1).
       case c of None \<Rightarrow> Inr (None, t1) | Some x \<Rightarrow> find_dir fs x lst t1)"

text \<open>The beginning of \<open>find_resource\<close> and \<open>find_or_declare\<close>: the directory of the path, scanned.\<close>

definition find_parent :: "fsys \<Rightarrow> nat \<Rightarrow> string list \<Rightarrow> ntree \<Rightarrow> (nat option \<times> ntree) result" where
  "find_parent fs r lst t =
     (if lst = [] then Inl IndexError
      else rbind (if length lst = 1 then Inr (Some r, t) else find_dir fs r (butlast lst) t) (\<lambda>(p, t1).
        case p of None \<Rightarrow> Inr (None, t1) | Some x \<Rightarrow> rmap (\<lambda>t2. (Some x, t2)) (rescan fs x t1)))"

definition find_resource :: "fsys \<Rightarrow> nat \<Rightarrow> string list \<Rightarrow> ntree \<Rightarrow> (nat option \<times> ntree) result" where
  "find_resource fs r lst t0 =
     rbind (find_parent fs r lst t0) (\<lambda>(p, t).
       case p of
         None \<Rightarrow> Inr (None, t)
       | Some d \<Rightarrow>
           rbind (child t d (last lst)) (\<lambda>c.
             case c of
               Some x \<Rightarrow> Inr (if get_type t x = FILE \<or> get_type t x = BUILD then Some x else None, t)
             | None \<Rightarrow>
                 (case dir_contents t (n_id (node_at t d)) of
                    None \<Rightarrow> Inl KeyError
                  | Some names \<Rightarrow>
                      if last lst \<notin> set names then Inr (None, t)
                      else rbind (src_abspath (Suc d) t d) (\<lambda>(p, t1).
                        case fs_h_file fs (p @ ''/'' @ last lst) of
                          Inl e \<Rightarrow> if e = IOError then Inr (None, t1) else Inl e
                        | Inr h \<Rightarrow>
                            rmap (\<lambda>(x, t2). (Some x, set_sig None (n_id (node_at t2 x)) (Some h) t2))
                              (Node (last lst) (Some d) FILE t1)))))"

definition find_or_declare :: "fsys \<Rightarrow> nat \<Rightarrow> string list \<Rightarrow> ntree \<Rightarrow> (nat option \<times> ntree) result" where
  "find_or_declare fs r lst t0 =
     rbind (find_parent fs r lst t0) (\<lambda>(p, t).
       case p of
         None \<Rightarrow> Inr (None, t)
       | Some d \<Rightarrow>
           rbind (child t d (last lst)) (\<lambda>c.
             case c of
               Some x \<Rightarrow> if get_type t x \<noteq> BUILD then Inl (WafError ''find_or_declare cannot return a build node'') else Inr (Some x, t)
             | None \<Rightarrow> rmap (\<lambda>(x, t2). (Some x, t2)) (Node (last lst) (Some d) BUILD t)))"

definition change_ext :: "fsys \<Rightarrow> nat \<Rightarrow> string \<Rightarrow> ntree \<Rightarrow> (nat option \<times> ntree) result" where
  "change_ext fs r ext t =
     (case n_parent (node_at t r) of
        None \<Rightarrow> Inl AttributeError
      | Some p \<Rightarrow> find_or_declare fs p [changed_ext (n_name (node_at t r)) ext] t)"

fun ensure_dir_node_from_path :: "nat \<Rightarrow> string list \<Rightarrow> ntree \<Rightarrow> (nat \<times> ntree) result" where
  "ensure_dir_node_from_path cur [] t = Inr (cur, t)"
| "ensure_dir_node_from_path cur (name # lst) t =
     (if name = [] \<or> name = ''.'' then ensure_dir_node_from_path cur lst t
      else if name = ''..''
      then ensure_dir_node_from_path (case n_parent (node_at t cur) of None \<Rightarrow> cur | Some p \<Rightarrow> p) lst t
      else rbind (child t cur name) (\<lambda>c.
        case c of
          Some x \<Rightarrow> ensure_dir_node_from_path x lst t
        | None \<Rightarrow> rbind (Node name (Some cur) DIR t) (\<lambda>(x, t1). ensure_dir_node_from_path x lst t1)))"

definition split_path :: "string \<Rightarrow> string list" where
  "split_path path = py_split_chr (CHR ''/'') path"

section \<open>Well-formed trees\<close>

text \<open>
  The first node is the only root, a parent is older than its childs, every node is a child of its
  parent under its name, and the numbers of the nodes differ and have been given out.
\<close>

definition wf_node :: "ntree \<Rightarrow> nat \<Rightarrow> bool" where
  "wf_node t r \<longleftrightarrow>
     (case n_parent (node_at t r) of
        None \<Rightarrow> r = 0
      | Some p \<Rightarrow> p < r \<and> child t p (n_name (node_at t r)) = Inr (Some r)) \<and>
     (case n_childs (node_at t r) of None \<Rightarrow> True | Some d \<Rightarrow> \<forall>c \<in> set d. snd c < length (nodes t)) \<and>
     n_id (node_at t r) < id_nodes t + 4"

definition wf_tree :: "ntree \<Rightarrow> bool" where
  "wf_tree t \<longleftrightarrow> (\<forall>r < length (nodes t). wf_node t r) \<and>
     inj_on (\<lambda>r. n_id (node_at t r)) {..<length (nodes t)} \<and> id_nodes t mod 4 = 0"

lemma wf_nodeD: "wf_tree t \<Longrightarrow> r < length (nodes t) \<Longrightarrow> wf_node t r"
  by (simp add: wf_tree_def)

lemma set_dict_set: "set (dict_set k v d) \<subseteq> insert (k, v) (set d)"
  by (induction k v d rule: dict_set.induct) auto

lemma wf_parent:
  "wf_tree t \<Longrightarrow> r < length (nodes t) \<Longrightarrow> n_parent (node_at t r) = Some p \<Longrightarrow>
    p < r \<and> p < length (nodes t) \<and> child t p (n_name (node_at t r)) = Inr (Some r)"
  using wf_nodeD[of t r] unfolding wf_node_def by auto

lemma wf_root: "wf_tree t \<Longrightarrow> r < length (nodes t) \<Longrightarrow> n_parent (node_at t r) = None \<longleftrightarrow> r = 0"
  using wf_nodeD[of t r] unfolding wf_node_def by (auto split: option.splits)

lemma wf_id: "wf_tree t \<Longrightarrow> r < length (nodes t) \<Longrightarrow> s < length (nodes t) \<Longrightarrow> n_id (node_at t r) = n_id (node_at t s) \<longleftrightarrow> r = s"
  unfolding wf_tree_def by (auto dest: inj_onD)

text \<open>The number of proper ancestors.\<close>

function depth :: "ntree \<Rightarrow> nat \<Rightarrow> nat" where
  "depth t r = (case n_parent (node_at t r) of None \<Rightarrow> 0 | Some p \<Rightarrow> if p < r then Suc (depth t p) else 0)"
  by pat_completeness auto
termination by (relation "measure snd") auto

declare depth.simps [simp del]

lemma depth_parent:
  "wf_tree t \<Longrightarrow> r < length (nodes t) \<Longrightarrow> n_parent (node_at t r) = Some p \<Longrightarrow> depth t r = Suc (depth t p)"
  using wf_parent by (subst depth.simps) simp

lemma depth_0: "wf_tree t \<Longrightarrow> r < length (nodes t) \<Longrightarrow> depth t r = 0 \<longleftrightarrow> r = 0"
  using wf_root[of t r] depth_parent[of t r] by (cases "n_parent (node_at t r)") (auto simp: depth.simps)

lemma depth_Suc:
  assumes "wf_tree t" and "r < length (nodes t)" and "Suc k \<le> depth t r"
  obtains p where "n_parent (node_at t r) = Some p" "p < r" "p < length (nodes t)" "depth t r = Suc (depth t p)"
proof (cases "n_parent (node_at t r)")
  case None
  then show ?thesis using depth_0[OF assms(1,2)] wf_root[OF assms(1,2)] assms(3) by simp
next
  case (Some p)
  then show ?thesis using wf_parent[OF assms(1,2) Some] depth_parent[OF assms(1,2) Some] that by blast
qed

lemma tree_induct [consumes 2, case_names root step]:
  assumes "wf_tree t" and "r < length (nodes t)"
    and root: "P 0"
    and step: "\<And>r p. r < length (nodes t) \<Longrightarrow> n_parent (node_at t r) = Some p \<Longrightarrow> p < r \<Longrightarrow> P p \<Longrightarrow> P r"
  shows "P r"
  using assms(2)
proof (induction r rule: less_induct)
  case (less r)
  show ?case
  proof (cases "n_parent (node_at t r)")
    case None
    then show ?thesis using wf_root[OF assms(1) less.prems] root by simp
  next
    case (Some p)
    then show ?thesis using wf_parent[OF assms(1) less.prems Some] less step by auto
  qed
qed

lemma height_loop_depth:
  assumes "wf_tree t" and "r < length (nodes t)"
  shows "r < n \<Longrightarrow> height_loop n t (Some r) v = Inr (v + 1 + int (depth t r))"
  using assms
proof (induction arbitrary: n v rule: tree_induct)
  case root
  have "0 < length (nodes t)" using assms(2) by (cases "nodes t") auto
  then have "n_parent (node_at t 0) = None" "depth t 0 = 0" using wf_root[OF assms(1)] depth_0[OF assms(1)] by auto
  with root show ?case by (cases n) auto
next
  case (step r p)
  then obtain m where "n = Suc m" "p < m" by (cases n) auto
  with step show ?case by (simp add: depth_parent[OF assms(1)])
qed

lemma height_depth: "wf_tree t \<Longrightarrow> r < length (nodes t) \<Longrightarrow> height t r = Inr (int (depth t r))"
  unfolding height_def using height_loop_depth[of t r "Suc r" "- 1"] by (simp del: height_loop.simps)

text \<open>The \<open>k\<close>-th ancestor.\<close>

fun up :: "ntree \<Rightarrow> nat \<Rightarrow> nat \<Rightarrow> nat" where
  "up t 0 r = r"
| "up t (Suc k) r = (case n_parent (node_at t r) of None \<Rightarrow> r | Some p \<Rightarrow> up t k p)"

lemma up_lt: "wf_tree t \<Longrightarrow> r < length (nodes t) \<Longrightarrow> up t k r < length (nodes t)"
proof (induction k arbitrary: r)
  case (Suc k)
  show ?case
  proof (cases "n_parent (node_at t r)")
    case (Some p)
    with wf_parent[OF Suc.prems Some] Suc show ?thesis by simp
  qed (use Suc.prems in simp)
qed simp

lemma climb_up: "wf_tree t \<Longrightarrow> r < length (nodes t) \<Longrightarrow> k \<le> depth t r \<Longrightarrow> climb k t (Some r) = Inr (Some (up t k r))"
proof (induction k arbitrary: r)
  case (Suc k)
  then obtain p where "n_parent (node_at t r) = Some p" "p < length (nodes t)" "depth t r = Suc (depth t p)"
    using depth_Suc by metis
  with Suc show ?case by simp
qed simp

lemma depth_up: "wf_tree t \<Longrightarrow> r < length (nodes t) \<Longrightarrow> k \<le> depth t r \<Longrightarrow> depth t (up t k r) = depth t r - k"
proof (induction k arbitrary: r)
  case (Suc k)
  then obtain p where "n_parent (node_at t r) = Some p" "p < length (nodes t)" "depth t r = Suc (depth t p)"
    using depth_Suc by metis
  with Suc show ?case by simp
qed simp

lemma up_add: "wf_tree t \<Longrightarrow> r < length (nodes t) \<Longrightarrow> up t (k + j) r = up t j (up t k r)"
proof (induction k arbitrary: r)
  case (Suc k)
  show ?case
  proof (cases "n_parent (node_at t r)")
    case None
    then have "up t j r = r" by (cases j) auto
    with None show ?thesis by simp
  next
    case (Some p)
    with wf_parent[OF Suc.prems Some] Suc show ?thesis by simp
  qed
qed simp

lemma up_Suc: "wf_tree t \<Longrightarrow> r < length (nodes t) \<Longrightarrow> k < depth t r \<Longrightarrow> n_parent (node_at t (up t k r)) = Some (up t (Suc k) r)"
proof (induction k arbitrary: r)
  case 0
  then obtain p where "n_parent (node_at t r) = Some p" using depth_Suc[of t r 0] by auto
  then show ?case by simp
next
  case (Suc k)
  then obtain p where "n_parent (node_at t r) = Some p" "p < length (nodes t)" "depth t r = Suc (depth t p)"
    using depth_Suc[of t r k] by (metis Suc_leI Suc_lessD)
  with Suc show ?case by simp
qed

lemma ancestor_loop_ok:
  assumes "wf_tree t" and "r < length (nodes t)"
  shows "s < length (nodes t) \<Longrightarrow> depth t r = depth t s \<Longrightarrow> r \<noteq> s \<Longrightarrow> r < n \<Longrightarrow>
    \<exists>k \<le> depth t r. up t k r = up t k s \<and> ancestor_loop n t r (Some s) = Inr (Some (up t k r))"
  using assms
proof (induction arbitrary: s n rule: tree_induct)
  case root
  have "0 < length (nodes t)" using assms(2) by (cases "nodes t") auto
  then have "depth t 0 = 0" using depth_0[OF assms(1)] by simp
  with root show ?case using depth_0[OF assms(1)] by simp
next
  case (step r p)
  have d: "depth t r = Suc (depth t p)" using step depth_parent[OF assms(1)] by simp
  then obtain q where q: "n_parent (node_at t s) = Some q" "q < length (nodes t)" "depth t s = Suc (depth t q)"
    using depth_Suc[OF assms(1) step.prems(1), of "depth t p"] step.prems(2) by (metis order_refl)
  obtain m where n: "n = Suc m" "p < m" using step by (cases n) auto
  show ?case
  proof (cases "p = q")
    case True
    then show ?thesis using step q n d by (intro exI[of _ 1]) simp
  next
    case False
    then obtain k where k: "k \<le> depth t p" "up t k p = up t k q" "ancestor_loop m t p (Some q) = Inr (Some (up t k p))"
      using step.IH[of q m] q d step.prems n by auto
    then show ?thesis using step q n d False by (intro exI[of _ "Suc k"]) simp
  qed
qed

lemma collect_up_ok:
  assumes "wf_tree t"
  shows "r < length (nodes t) \<Longrightarrow> k \<le> depth t r \<Longrightarrow> r < n \<Longrightarrow>
    collect_up n t (n_id (node_at t (up t k r))) (Some r) f = Inr (map (\<lambda>i. f (up t i r)) [0..<k])"
proof (induction k arbitrary: r n)
  case 0
  then show ?case by (cases n) auto
next
  case (Suc k)
  obtain p where p: "n_parent (node_at t r) = Some p" "p < r" "p < length (nodes t)" "depth t r = Suc (depth t p)"
    using depth_Suc[OF assms Suc.prems(1,2)] .
  obtain m where n: "n = Suc m" "p < m" using p Suc.prems by (cases n) auto
  have "depth t (up t (Suc k) r) \<noteq> depth t r" using depth_up[OF assms Suc.prems(1,2)] Suc.prems(2) by simp
  then have "up t (Suc k) r \<noteq> r" by metis
  then have "n_id (node_at t r) \<noteq> n_id (node_at t (up t (Suc k) r))"
    using wf_id[OF assms Suc.prems(1) up_lt[OF assms Suc.prems(1)]] by metis
  then show ?case using Suc.IH[of p m] p n Suc.prems
    by (simp add: upt_conv_Cons map_Suc_upt[symmetric] o_def del: upt_Suc)
qed

subsection \<open>Relative paths\<close>

text \<open>The names of the nodes other than the root are names of files.\<close>

definition proper_names :: "ntree \<Rightarrow> bool" where
  "proper_names t \<longleftrightarrow> (\<forall>r < length (nodes t). r \<noteq> 0 \<longrightarrow>
     n_name (node_at t r) \<notin> {[], ''.'', ''..''} \<and> CHR ''/'' \<notin> set (n_name (node_at t r)))"

lemma find_ancestor_down_ok:
  assumes "wf_tree t" and "r < length (nodes t)" and "s < length (nodes t)" and "depth t s + d = depth t r"
  shows "\<exists>k j. k \<le> depth t r \<and> j \<le> depth t s \<and> up t k r = up t j s \<and>
    find_ancestor_down t r s d = Inr (Some (up t k r))"
proof -
  define c where "c = up t d r"
  have c: "c < length (nodes t)" "depth t c = depth t s" "climb d t (Some r) = Inr (Some c)"
    using assms up_lt depth_up climb_up unfolding c_def by auto
  show ?thesis
  proof (cases "c = s")
    case True
    then show ?thesis using c assms(4) unfolding find_ancestor_down_def
      by (intro exI[of _ d] exI[of _ 0]) (auto simp: c_def)
  next
    case False
    then obtain k where k: "k \<le> depth t s" "up t k c = up t k s" "ancestor_loop (Suc c) t c (Some s) = Inr (Some (up t k c))"
      using ancestor_loop_ok[OF assms(1) c(1) assms(3) c(2) False, of "Suc c"] c(2) by auto
    then show ?thesis using c False assms(4) unfolding find_ancestor_down_def
      by (intro exI[of _ "d + k"] exI[of _ k]) (simp add: up_add[OF assms(1,2)] c_def del: ancestor_loop.simps)
  qed
qed

lemma find_ancestor_ok:
  assumes "wf_tree t" and "r < length (nodes t)" and "s < length (nodes t)"
  shows "\<exists>k j. k \<le> depth t r \<and> j \<le> depth t s \<and> up t k r = up t j s \<and>
    find_ancestor t r s = Inr (Some (up t k r))"
proof (cases "depth t r < depth t s")
  case True
  then have "nat (int (depth t s) - int (depth t r)) = depth t s - depth t r" by simp
  then have "find_ancestor t r s = find_ancestor_down t s r (depth t s - depth t r)"
    using True assms by (simp add: find_ancestor_def height_depth)
  with True show ?thesis
    using find_ancestor_down_ok[OF assms(1,3,2), of "depth t s - depth t r"] by (metis le_add_diff_inverse less_imp_le)
next
  case False
  then have "nat (int (depth t r) - int (depth t s)) = depth t r - depth t s" by simp
  with False show ?thesis
    using find_ancestor_down_ok[OF assms, of "depth t r - depth t s"] assms
    by (auto simp: find_ancestor_def height_depth)
qed

lemma walk_up:
  assumes "wf_tree t"
  shows "s < length (nodes t) \<Longrightarrow> j \<le> depth t s \<Longrightarrow>
    ensure_dir_node_from_path s (replicate j ''..'' @ lst) t = ensure_dir_node_from_path (up t j s) lst t"
proof (induction j arbitrary: s)
  case (Suc j)
  obtain p where "n_parent (node_at t s) = Some p" "p < length (nodes t)" "depth t s = Suc (depth t p)"
    using depth_Suc[OF assms Suc.prems] by metis
  with Suc show ?case by simp
qed simp

lemma walk_down:
  assumes "wf_tree t" and "proper_names t" and "r < length (nodes t)"
  shows "k \<le> depth t r \<Longrightarrow>
    ensure_dir_node_from_path (up t k r) (rev (map (\<lambda>i. n_name (node_at t (up t i r))) [0..<k])) t = Inr (r, t)"
proof (induction k)
  case (Suc k)
  define x where "x = up t k r"
  have x: "x < length (nodes t)" "n_parent (node_at t x) = Some (up t (Suc k) r)"
    using Suc.prems up_lt up_Suc assms unfolding x_def by auto
  have "child t (up t (Suc k) r) (n_name (node_at t x)) = Inr (Some x)" using wf_parent[OF assms(1) x] by simp
  moreover have "x \<noteq> 0" using wf_root[OF assms(1) x(1)] x(2) by auto
  then have "n_name (node_at t x) \<notin> {[], ''.'', ''..''}" using assms(2) x(1) unfolding proper_names_def by blast
  ultimately show ?case using Suc by (simp add: x_def[symmetric] del: up.simps)
qed simp

lemma relpath_list_ok:
  assumes "wf_tree t" and "proper_names t" and "r < length (nodes t)" and "s < length (nodes t)"
  shows "\<exists>l. relpath_list t r s = Inr l \<and> l \<noteq> [] \<and> (\<forall>w \<in> set l. CHR ''/'' \<notin> set w) \<and>
    ensure_dir_node_from_path s l t = Inr (r, t)"
proof (cases "r = s \<or> n_parent (node_at t s) = Some r")
  case True
  then show ?thesis by (auto simp: relpath_list_def)
next
  case False
  obtain k j where kj: "k \<le> depth t r" "j \<le> depth t s" "up t k r = up t j s" "find_ancestor t r s = Inr (Some (up t k r))"
    using find_ancestor_ok[OF assms(1,3,4)] by blast
  define l where "l = replicate j ''..'' @ rev (map (\<lambda>i. n_name (node_at t (up t i r))) [0..<k])"
  have "map (\<lambda>i. ''..'') [0..<j] = replicate j ''..''" by (simp add: map_replicate_const)
  then have "collect_up (Suc s) t (n_id (node_at t (up t k r))) (Some s) (\<lambda>x. ''..'') = Inr (replicate j ''..'')"
    using collect_up_ok[OF assms(1,4) kj(2), of "Suc s" "\<lambda>x. ''..''"] kj(3) by (simp del: collect_up.simps)
  then have "relpath_list t r s = Inr l" unfolding relpath_list_def l_def using False
    by (simp add: kj(4) collect_up_ok[OF assms(1,3) kj(1)] del: collect_up.simps)
  moreover have "k \<noteq> 0 \<or> j \<noteq> 0" using kj(3) False by (auto intro: ccontr)
  then have "l \<noteq> []" unfolding l_def by auto
  moreover have "up t i r \<noteq> 0" if "i < k" for i
    using up_Suc[OF assms(1,3), of i] wf_root[OF assms(1) up_lt[OF assms(1,3), of i]] that kj(1) by auto
  then have "CHR ''/'' \<notin> set w" if "w \<in> set l" for w
    using that assms(2) up_lt[OF assms(1,3)] unfolding l_def proper_names_def by auto
  moreover have "ensure_dir_node_from_path s l t = Inr (r, t)" unfolding l_def
    using walk_up[OF assms(1,4) kj(2)] walk_down[OF assms(1-3) kj(1)] kj(3) by simp
  ultimately show ?thesis by blast
qed

text \<open>
  C9. In a well-formed tree, \<open>relpath_gen\<close> always gives a path from one node to another, and following
  that path (\<open>ensure_dir_node_from_path\<close> on its parts) from the second node leads back to the first
  without making a node.
\<close>

theorem relpath_round_trip:
  assumes "wf_tree t" and "proper_names t" and "r < length (nodes t)" and "s < length (nodes t)"
  shows "\<exists>p. relpath_gen t r s = Inr p \<and> ensure_dir_node_from_path s (split_path p) t = Inr (r, t)"
proof -
  obtain l where l: "relpath_list t r s = Inr l" "l \<noteq> []" "\<forall>w \<in> set l. CHR ''/'' \<notin> set w"
    "ensure_dir_node_from_path s l t = Inr (r, t)"
    using relpath_list_ok[OF assms] by blast
  have "py_split_chr (CHR ''/'') (py_join ''/'' l) = l" using py_split_join_chr[OF l(2,3)] by simp
  then show ?thesis using l by (simp add: relpath_gen_def split_path_def)
qed

subsection \<open>Subtrees\<close>

text \<open>
  In a well-formed tree, \<open>is_child_of\<close> answers whether the second node is on the chain of parents of the first
  (a node is a child of itself).
\<close>

theorem is_child_of_ancestor:
  assumes "wf_tree t" and "r < length (nodes t)" and "s < length (nodes t)"
  shows "is_child_of t r s = Inr (\<exists>k \<le> depth t r. up t k r = s)"
proof -
  define k where "k = nat (int (depth t r) - int (depth t s))"
  have k: "k = depth t r - depth t s" unfolding k_def by simp
  then have "is_child_of t r s = Inr (up t k r = s)"
    unfolding is_child_of_def using assms
    by (simp add: height_depth k_def[symmetric] climb_up wf_id up_lt)
  moreover have "(\<exists>k \<le> depth t r. up t k r = s) \<longleftrightarrow> up t k r = s"
  proof
    assume "\<exists>k \<le> depth t r. up t k r = s"
    then obtain j where "j \<le> depth t r" "up t j r = s" by blast
    then show "up t k r = s" using depth_up[OF assms(1,2), of j] k by auto
  qed (auto intro: exI[of _ k] simp: k)
  ultimately show ?thesis by simp
qed

subsection \<open>New nodes\<close>

text \<open>A tree that has the nodes of another one at the same places, and perhaps more.\<close>

definition extends :: "ntree \<Rightarrow> ntree \<Rightarrow> bool" where
  "extends t t' \<longleftrightarrow> length (nodes t) \<le> length (nodes t') \<and>
     (\<forall>r < length (nodes t). n_name (node_at t' r) = n_name (node_at t r) \<and> n_parent (node_at t' r) = n_parent (node_at t r) \<and>
        n_id (node_at t' r) = n_id (node_at t r) \<and>
        (\<forall>n x. child t r n = Inr (Some x) \<longrightarrow> child t' r n = Inr (Some x)))"

lemma extends_refl [simp]: "extends t t"
  by (simp add: extends_def)

lemma extends_trans: "extends t u \<Longrightarrow> extends u v \<Longrightarrow> extends t v"
  unfolding extends_def by (auto intro: le_trans dest: less_le_trans)

text \<open>What the constructor makes of the tree, when the parent has the childs \<open>d\<close>.\<close>

definition added :: "string \<Rightarrow> nat \<Rightarrow> nat \<Rightarrow> (string \<times> nat) list \<Rightarrow> ntree \<Rightarrow> ntree" where
  "added name p ty d t =
     t\<lparr>nodes := (nodes t)[p := (node_at t p)\<lparr>n_childs := Some (dict_set name (length (nodes t)) d)\<rparr>] @
         [\<lparr>n_name = name, n_parent = Some p, n_id = id_nodes t + 4 + ty, n_childs = (if ty = DIR then Some [] else None)\<rparr>],
       id_nodes := id_nodes t + 4\<rparr>"

lemma Node_added:
  assumes "Node name (Some p) ty t = Inr (r, t')" and "p < length (nodes t)"
  obtains d where "n_childs (node_at t p) = Some d" "map_of d name = None" "r = length (nodes t)" "t' = added name p ty d t"
proof -
  obtain d where d: "n_childs (node_at t p) = Some d" "map_of d name = None"
    using assms(1) by (auto simp: Node_def Let_def child_def rbind_def split: option.splits sum.splits if_splits)
  moreover have "r = length (nodes t)" "t' = added name p ty d t"
    using assms d by (auto simp: Node_def Let_def child_def set_node_def added_def list_update_append)
  ultimately show ?thesis using that by blast
qed

lemma node_at_added:
  assumes "p < length (nodes t)"
  shows "x < length (nodes t) \<Longrightarrow> x \<noteq> p \<Longrightarrow> node_at (added name p ty d t) x = node_at t x"
    and "node_at (added name p ty d t) p = (node_at t p)\<lparr>n_childs := Some (dict_set name (length (nodes t)) d)\<rparr>"
    and "node_at (added name p ty d t) (length (nodes t)) =
      \<lparr>n_name = name, n_parent = Some p, n_id = id_nodes t + 4 + ty, n_childs = (if ty = DIR then Some [] else None)\<rparr>"
    and "length (nodes (added name p ty d t)) = Suc (length (nodes t))"
    and "id_nodes (added name p ty d t) = id_nodes t + 4"
  using assms by (auto simp: node_at_def added_def nth_append)

lemma added_same:
  assumes "p < length (nodes t)" and "x < length (nodes t)"
  shows "n_name (node_at (added name p ty d t) x) = n_name (node_at t x)"
    and "n_parent (node_at (added name p ty d t) x) = n_parent (node_at t x)"
    and "n_id (node_at (added name p ty d t) x) = n_id (node_at t x)"
  using assms node_at_added(1,2)[OF assms(1)] by (cases "x = p"; simp)+

lemma child_added:
  assumes "p < length (nodes t)" and "n_childs (node_at t p) = Some d" and "q < length (nodes t)"
  shows "child (added name p ty d t) q n = (if q = p \<and> n = name then Inr (Some (length (nodes t))) else child t q n)"
  using assms node_at_added(1,2)[OF assms(1)] by (cases "q = p") (auto simp: child_def map_of_dict_set)

lemma added_extends:
  assumes "p < length (nodes t)" and "n_childs (node_at t p) = Some d" and "map_of d name = None"
  shows "extends t (added name p ty d t)"
proof -
  have "child t p name = Inr None" using assms by (simp add: child_def)
  then show ?thesis using assms by (auto simp: extends_def node_at_added(4) added_same child_added)
qed

lemma wf_child: "wf_tree t \<Longrightarrow> r < length (nodes t) \<Longrightarrow> child t r n = Inr (Some x) \<Longrightarrow> x < length (nodes t)"
  using wf_nodeD[of t r] unfolding wf_node_def
  by (auto simp: child_def dest!: map_of_SomeD split: option.splits)

lemma added_wf:
  assumes "wf_tree t" and "p < length (nodes t)" and "n_childs (node_at t p) = Some d" and "map_of d name = None" and "ty < 4"
  shows "wf_tree (added name p ty d t)"
proof -
  let ?t = "added name p ty d t" and ?n = "length (nodes t)"
  have new: "child t p name = Inr None" using assms by (simp add: child_def)
  have d: "\<forall>c \<in> set d. snd c < ?n" using wf_nodeD[OF assms(1,2)] assms(3) unfolding wf_node_def by simp
  have "wf_node ?t r" if "r < Suc ?n" for r
  proof (cases "r = ?n")
    case True
    then show ?thesis using assms unfolding wf_node_def by (simp add: node_at_added child_added)
  next
    case False
    then have r: "r < ?n" using that by simp
    note wf = wf_nodeD[OF assms(1) r]
    have "case n_parent (node_at ?t r) of None \<Rightarrow> r = 0 | Some q \<Rightarrow> q < r \<and> child ?t q (n_name (node_at ?t r)) = Inr (Some r)"
    proof (cases "n_parent (node_at t r)")
      case None
      then show ?thesis using wf_root[OF assms(1) r] r assms(2) by (simp add: added_same)
    next
      case (Some q)
      then show ?thesis using wf_parent[OF assms(1) r Some] r assms new by (auto simp: added_same child_added)
    qed
    moreover have "case n_childs (node_at ?t r) of None \<Rightarrow> True | Some d \<Rightarrow> \<forall>c \<in> set d. snd c < Suc ?n"
    proof (cases "r = p")
      case True
      then show ?thesis using d assms(2) subsetD[OF set_dict_set[of name ?n d]] by (fastforce simp: node_at_added)
    next
      case False
      then show ?thesis using wf r assms(2) unfolding wf_node_def by (auto simp: node_at_added split: option.splits)
    qed
    moreover have "n_id (node_at ?t r) < id_nodes ?t + 4"
      using wf r assms(2) unfolding wf_node_def by (simp add: node_at_added added_same)
    ultimately show ?thesis unfolding wf_node_def node_at_added(4)[OF assms(2)] by blast
  qed
  moreover have "inj_on (\<lambda>r. n_id (node_at ?t r)) {..<Suc ?n}"
  proof -
    have "inj_on (\<lambda>r. n_id (node_at t r)) {..<?n}" using assms(1) unfolding wf_tree_def by blast
    then have "inj_on (\<lambda>r. n_id (node_at ?t r)) {..<?n}" using assms(2) by (auto simp: inj_on_def added_same)
    moreover have "n_id (node_at t r) < id_nodes t + 4" if "r < ?n" for r
      using wf_nodeD[OF assms(1) that] unfolding wf_node_def by simp
    then have "n_id (node_at ?t ?n) \<notin> (\<lambda>r. n_id (node_at ?t r)) ` {..<?n}"
      using assms(2) by (fastforce simp: node_at_added(3) added_same)
    ultimately show ?thesis by (simp add: lessThan_Suc inj_on_insert)
  qed
  moreover have "id_nodes ?t mod 4 = 0" using assms(1) unfolding wf_tree_def by (simp add: added_def)
  ultimately show ?thesis unfolding wf_tree_def using assms(2) by (simp add: node_at_added(4))
qed

lemma ensure_dir_again:
  "wf_tree t \<Longrightarrow> r < length (nodes t) \<Longrightarrow> ensure_dir_node_from_path r lst t = Inr (x, t') \<Longrightarrow>
    wf_tree t' \<and> x < length (nodes t') \<and> extends t t' \<and>
    (\<forall>u. extends t' u \<longrightarrow> ensure_dir_node_from_path r lst u = Inr (x, u))"
proof (induction lst arbitrary: r t)
  case (Cons name lst)
  define P where "P u v \<longleftrightarrow> wf_tree v \<and> x < length (nodes v) \<and> extends u v" for u v
  consider (skip) "name = [] \<or> name = ''.''" | (up) "name = ''..''" | (down) "name \<notin> {[], ''.'', ''..''}" by auto
  then show ?case
  proof cases
    case skip
    then show ?thesis using Cons by auto
  next
    case up
    define q where "q = (case n_parent (node_at t r) of None \<Rightarrow> r | Some p \<Rightarrow> p)"
    have q: "q < length (nodes t)" using Cons.prems(1,2) wf_parent unfolding q_def by (auto split: option.splits)
    have go: "ensure_dir_node_from_path q lst t = Inr (x, t')" using Cons.prems(3) up unfolding q_def by simp
    note IH = Cons.IH[OF Cons.prems(1) q go]
    have "ensure_dir_node_from_path r (name # lst) u = ensure_dir_node_from_path q lst u" if "extends t' u" for u
    proof -
      have "extends t u" using extends_trans IH that by blast
      then show ?thesis using up Cons.prems(2) unfolding extends_def q_def by simp
    qed
    then show ?thesis using IH by simp
  next
    case down
    obtain y t1 where y: "y < length (nodes t1)" "wf_tree t1" "extends t t1" "child t1 r name = Inr (Some y)"
      "ensure_dir_node_from_path y lst t1 = Inr (x, t')"
    proof (cases "child t r name")
      case (Inr c)
      show ?thesis
      proof (cases c)
        case None
        then obtain y t1 where n: "Node name (Some r) DIR t = Inr (y, t1)" "ensure_dir_node_from_path y lst t1 = Inr (x, t')"
          using Cons.prems(3) down Inr by (auto simp: rbind_def split: sum.splits)
        obtain d where d: "n_childs (node_at t r) = Some d" "map_of d name = None" "y = length (nodes t)" "t1 = added name r DIR d t"
          using Node_added[OF n(1) Cons.prems(2)] .
        then show ?thesis
          using that[of y t1] n(2) added_wf[OF Cons.prems(1,2) d(1,2), of DIR] added_extends[OF Cons.prems(2) d(1,2)]
            child_added[OF Cons.prems(2) d(1) Cons.prems(2)] Cons.prems(2)
          by (simp add: DIR_def node_at_added(4))
      next
        case (Some y)
        then show ?thesis using that[of y t] Cons.prems down Inr wf_child by auto
      qed
    qed (use Cons.prems down in simp)
    have IH: "wf_tree t' \<and> x < length (nodes t') \<and> extends t1 t' \<and>
        (\<forall>u. extends t' u \<longrightarrow> ensure_dir_node_from_path y lst u = Inr (x, u))"
      using Cons.IH[OF y(2,1,5)] .
    have "r < length (nodes t1)" using Cons.prems(2) y(3) unfolding extends_def by simp
    then have "child u r name = Inr (Some y)" if "extends t' u" for u
      using extends_trans[of t1 t' u] IH that y(4) unfolding extends_def by simp
    then have "ensure_dir_node_from_path r (name # lst) u = ensure_dir_node_from_path y lst u" if "extends t' u" for u
      using that down by simp
    then show ?thesis using IH y(3) extends_trans by auto
  qed
qed (use extends_refl in auto)

text \<open>
  \<open>ensure_dir_node_from_path\<close> keeps the tree well-formed, and all nodes of the tree keep their places,
  names, numbers, parents and childs; asked again for the same path, it finds the node that it has made
  and makes no other one.
\<close>

theorem ensure_dir_invariant:
  assumes "wf_tree t" and "r < length (nodes t)" and "ensure_dir_node_from_path r lst t = Inr (x, t')"
  shows "wf_tree t' \<and> x < length (nodes t') \<and> extends t t' \<and> ensure_dir_node_from_path r lst t' = Inr (x, t')"
  using ensure_dir_again[OF assms] extends_refl by blast

subsection \<open>A small tree\<close>

text \<open>The directories \<^verbatim>\<open>/src\<close> and \<^verbatim>\<open>/bld\<close>, with the file \<^verbatim>\<open>/src/a.c\<close>, on a disk where that file has the hash \<open>h\<close>.\<close>

definition small_tree :: ntree where
  "small_tree =
     \<lparr>nodes =
        [\<lparr>n_name = [], n_parent = None, n_id = 5, n_childs = Some [(''src'', 1), (''bld'', 2)]\<rparr>,
         \<lparr>n_name = ''src'', n_parent = Some 0, n_id = 9, n_childs = Some [(''a.c'', 3)]\<rparr>,
         \<lparr>n_name = ''bld'', n_parent = Some 0, n_id = 13, n_childs = Some []\<rparr>,
         \<lparr>n_name = ''a.c'', n_parent = Some 1, n_id = 18, n_childs = None\<rparr>],
      id_nodes = 16, node_sigs = (\<lambda>v. Map.empty), dir_contents = Map.empty, scanned = (\<lambda>i. False),
      abspaths = (\<lambda>v. Map.empty), srcnode = 1, bldnode = 2, lst_variants = [''default'']\<rparr>"

definition small_fs :: fsys where
  "small_fs =
     \<lparr>fs_listdir = (\<lambda>p. if p = ''/src'' then Inr [''a.c''] else if p = ''/bld/default'' then Inr [] else Inl OSError),
      fs_h_file = (\<lambda>p. if p = ''/src/a.c'' then Inr ''h'' else Inl IOError), fs_isdir = (\<lambda>p. p = ''/src'' \<or> p = ''/bld'')\<rparr>"

lemma lt4: "(\<forall>r < (4::nat). P r) \<longleftrightarrow> P 0 \<and> P 1 \<and> P 2 \<and> P 3"
proof -
  have "r < 4 \<longleftrightarrow> r = 0 \<or> r = 1 \<or> r = 2 \<or> r = 3" for r :: nat by linarith
  then show ?thesis by metis
qed

lemma small_tree_ok [simp]: "wf_tree small_tree" "proper_names small_tree" "length (nodes small_tree) = 4"
proof -
  show l: "length (nodes small_tree) = 4" by (simp add: small_tree_def)
  have "inj_on (\<lambda>r. n_id (node_at small_tree r)) {0, 1, 2, 3}" by (simp add: small_tree_def node_at_def)
  moreover have "{..<4::nat} = {0, 1, 2, 3}" by auto
  moreover have "wf_node small_tree r" if "r \<in> {0, 1, 2, 3}" for r
    using that by (auto simp: wf_node_def small_tree_def node_at_def child_def)
  ultimately show "wf_tree small_tree" unfolding wf_tree_def l lt4 by (simp add: small_tree_def)
  show "proper_names small_tree" unfolding proper_names_def l lt4 by (simp add: small_tree_def node_at_def)
qed

theorem relpath_round_trip_witness:
  "\<exists>p. relpath_gen small_tree 3 2 = Inr p \<and> ensure_dir_node_from_path 2 (split_path p) small_tree = Inr (3, small_tree)"
  using relpath_round_trip[of small_tree 3 2] by simp

theorem is_child_of_ancestor_witness:
  "is_child_of small_tree 3 1 = Inr (\<exists>k \<le> depth small_tree 3. up small_tree k 3 = 1)"
  using is_child_of_ancestor[of small_tree 3 1] by simp

theorem ensure_dir_invariant_witness:
  "\<exists>x t'. ensure_dir_node_from_path 2 [''..'', ''src'', ''lib''] small_tree = Inr (x, t') \<and> wf_tree t' \<and>
    ensure_dir_node_from_path 2 [''..'', ''src'', ''lib''] t' = Inr (x, t')"
proof -
  have "\<exists>x t'. ensure_dir_node_from_path 2 [''..'', ''src'', ''lib''] small_tree = Inr (x, t')"
    by (simp add: small_tree_def node_at_def child_def Node_def)
  then obtain x t' where r: "ensure_dir_node_from_path 2 [''..'', ''src'', ''lib''] small_tree = Inr (x, t')" by blast
  then show ?thesis using ensure_dir_invariant[of small_tree 2 "[''..'', ''src'', ''lib'']" x t'] by auto
qed

subsection \<open>Declaring a build node\<close>

text \<open>A scan keeps the nodes and their numbers.\<close>

definition same_ids :: "ntree \<Rightarrow> ntree \<Rightarrow> bool" where
  "same_ids t t' \<longleftrightarrow> map n_id (nodes t') = map n_id (nodes t) \<and> id_nodes t' = id_nodes t \<and> scanned t' = scanned t"

lemma same_ids_refl [simp]: "same_ids t t"
  by (simp add: same_ids_def)

lemma same_ids_trans: "same_ids t u \<Longrightarrow> same_ids u v \<Longrightarrow> same_ids t v"
  by (simp add: same_ids_def)

lemma same_ids_at:
  assumes "same_ids t t'" and "r < length (nodes t)"
  shows "r < length (nodes t')" and "n_id (node_at t' r) = n_id (node_at t r)"
proof -
  have m: "map n_id (nodes t') = map n_id (nodes t)" using assms(1) by (simp add: same_ids_def)
  have l: "length (nodes t') = length (nodes t)" using arg_cong[OF m, of length] by simp
  then show "r < length (nodes t')" using assms(2) by simp
  show "n_id (node_at t' r) = n_id (node_at t r)" using arg_cong[OF m, of "\<lambda>l. l ! r"] l assms(2) by (simp add: node_at_def)
qed

lemma same_ids_drop_child [simp]: "same_ids t (drop_child r n t)"
  unfolding same_ids_def drop_child_def set_node_def Let_def node_at_def
  by (cases "r < length (nodes t)") (simp_all add: map_update list_update_beyond, metis length_map list_update_id nth_map)

lemma same_ids_set_sig [simp]: "same_ids t (set_sig v i s t)"
  by (simp add: same_ids_def set_sig_def)

lemma src_abspath_same: "src_abspath n t r = Inr (p, t') \<Longrightarrow> same_ids t t'"
proof (induction n t r arbitrary: p t' rule: src_abspath.induct)
  case (2 n t r)
  then show ?case
    by (fastforce simp: Let_def rmap_Inr_iff cache_path_def same_ids_def split: option.splits if_splits)
qed simp

declare src_abspath.simps [simp del]

lemma rescan_file_same: "rescan_file fs d lst c t = Inr t' \<Longrightarrow> same_ids t t'"
  by (auto simp: rescan_file_def elim!: rbind_InrE dest!: src_abspath_same split: prod.splits if_splits sum.splits
      intro: same_ids_trans[OF _ same_ids_set_sig] same_ids_trans[OF _ same_ids_drop_child])

lemma foldM_same: "foldM (rescan_file fs d lst) cs t = Inr t' \<Longrightarrow> same_ids t t'"
proof (induction cs arbitrary: t)
  case (Cons c cs)
  then obtain u where "rescan_file fs d lst c t = Inr u" "foldM (rescan_file fs d lst) cs u = Inr t'"
    by (auto simp: rbind_def split: sum.splits)
  then show ?case using Cons.IH rescan_file_same same_ids_trans by blast
qed simp

lemma fold_same:
  assumes "\<And>x t. same_ids t (f x t)"
  shows "same_ids t (fold f xs t)"
  using assms by (induction xs arbitrary: t) (auto intro: same_ids_trans)

lemma listdir_bld_same: "listdir_bld fs d path v t = Inr t' \<Longrightarrow> same_ids t t'"
  unfolding listdir_bld_def by (auto simp: rbind_Inr_iff rmap_Inr_iff intro!: fold_same)

lemma forget_build_same: "forget_build d t = Inr t' \<Longrightarrow> same_ids t t'"
proof -
  have "same_ids t (drop_child d n (t\<lparr>node_sigs := s\<rparr>))" for t n s
    using same_ids_drop_child[of "t\<lparr>node_sigs := s\<rparr>" d n] by (simp add: same_ids_def)
  then show "forget_build d t = Inr t' \<Longrightarrow> same_ids t t'"
    unfolding forget_build_def by (auto simp: rmap_Inr_iff intro!: fold_same)
qed

lemma list_variants_same: "list_variants fs d b lst vs t = Inr t' \<Longrightarrow> same_ids t t'"
proof (induction vs arbitrary: t)
  case (Cons v vs)
  then obtain u where "listdir_bld fs d (join_all (b # v # lst)) v t = Inr u" "list_variants fs d b lst vs u = Inr t'"
    by (auto simp: rbind_def split: sum.splits)
  then show ?case using Cons.IH listdir_bld_same same_ids_trans by blast
qed simp

lemma rescan_same:
  assumes "rescan fs d t = Inr t'" and "d < length (nodes t)"
  shows "map n_id (nodes t') = map n_id (nodes t) \<and> id_nodes t' = id_nodes t \<and> scanned t' (n_id (node_at t d))"
proof (cases "scanned t (n_id (node_at t d))")
  case True
  then show ?thesis using assms by (simp add: rescan_def)
next
  case False
  define t0 where "t0 = t\<lparr>scanned := (scanned t)(n_id (node_at t d) := True)\<rparr>"
  obtain p t1 where 1: "src_abspath (Suc d) t0 d = Inr (p, t1)"
    and rest1: "rbind (case fs_listdir fs p of Inl e \<Rightarrow> if e = OSError then Inr [] else Inl e | Inr l \<Rightarrow> Inr l) (\<lambda>lst.
            let t2 = t1\<lparr>dir_contents := (dir_contents t1)(n_id (node_at t d) \<mapsto> lst)\<rparr> in
            rbind (case n_childs (node_at t2 d) of None \<Rightarrow> Inl AttributeError | Some c \<Rightarrow> Inr c) (\<lambda>cs.
              rbind (foldM (rescan_file fs d lst) cs t2) (\<lambda>t3.
                rbind (height t3 (srcnode t3)) (\<lambda>h1. rbind (height t3 d) (\<lambda>h2.
                  rbind (names_up (nat (h2 - h1)) t3 (Some d)) (\<lambda>up.
                    rbind (src_abspath (Suc (bldnode t3)) t3 (bldnode t3)) (\<lambda>(b, t4).
                      case list_variants fs d b (rev up) (lst_variants t4) t4 of
                        Inr t5 \<Rightarrow> Inr t5
                      | Inl e \<Rightarrow> if e = OSError then forget_build d t4 else Inl e))))))) = Inr t'"
    using assms(1) False unfolding rescan_def Let_def t0_def[symmetric] if_not_P[OF False]
    by (auto elim!: rbind_InrE)
  obtain lst cs t3 up b t4 where
    3: "foldM (rescan_file fs d lst) cs (t1\<lparr>dir_contents := (dir_contents t1)(n_id (node_at t d) \<mapsto> lst)\<rparr>) = Inr t3"
    and 4: "src_abspath (Suc (bldnode t3)) t3 (bldnode t3) = Inr (b, t4)"
    and 5: "(case list_variants fs d b up (lst_variants t4) t4 of Inr t5 \<Rightarrow> Inr t5
      | Inl e \<Rightarrow> if e = OSError then forget_build d t4 else Inl e) = Inr t'"
    using rest1 unfolding Let_def by (elim rbind_InrE) (auto elim!: rbind_InrE)
  have "same_ids t4 t'" using 5 by (auto dest: list_variants_same forget_build_same split: sum.splits if_splits)
  then have "same_ids t0 t'" using src_abspath_same[OF 1] foldM_same[OF 3] src_abspath_same[OF 4] by (simp add: same_ids_def)
  then show ?thesis by (simp add: same_ids_def t0_def)
qed

lemma rescan_again:
  assumes "rescan fs d t = Inr t'" and "d < length (nodes t)"
  shows "rescan fs d t' = Inr t'"
proof -
  have s: "same_ids (t'\<lparr>scanned := scanned t\<rparr>) t" using rescan_same[OF assms] by (simp add: same_ids_def)
  have "length (nodes t') = length (nodes t)" using rescan_same[OF assms] by (metis length_map)
  then have "n_id (node_at t d) = n_id (node_at t' d)" using same_ids_at(2)[OF s, of d] assms(2) by (simp add: node_at_def)
  then show ?thesis using rescan_same[OF assms] by (simp add: rescan_def)
qed

text \<open>
  C24. When \<open>find_or_declare\<close> with one name returns, it gives a build node that the directory has under that name,
  and asked again it gives the same node and changes nothing: no second node stands for the same file.
\<close>

theorem find_or_declare_once:
  assumes "id_nodes t mod 4 = 0" and "r < length (nodes t)" and "find_or_declare fs r [name] t = Inr (x, t')"
  shows "\<exists>y. x = Some y \<and> get_type t' y = BUILD \<and> child t' r name = Inr (Some y) \<and>
    find_or_declare fs r [name] t' = Inr (Some y, t')"
proof -
  obtain u where u: "rescan fs r t = Inr u" using assms(3)
    by (auto simp: find_or_declare_def find_parent_def rbind_Inr_iff rmap_Inr_iff)
  have r: "r < length (nodes u)" "id_nodes u mod 4 = 0" "rescan fs r u = Inr u"
    using rescan_same[OF u assms(2)] rescan_again[OF u assms(2)] assms(1,2) by (metis length_map)+
  have run: "find_or_declare fs r [name] v = rbind (child v r name) (\<lambda>c. case c of
      Some x \<Rightarrow> if get_type v x \<noteq> BUILD then Inl (WafError ''find_or_declare cannot return a build node'') else Inr (Some x, v)
    | None \<Rightarrow> rmap (\<lambda>(x, t2). (Some x, t2)) (Node name (Some r) BUILD v))" if "rescan fs r v = Inr v" for v
    using that by (simp add: find_or_declare_def find_parent_def)
  have again: "find_or_declare fs r [name] v = Inr (Some y, v)"
    if "rescan fs r v = Inr v" "child v r name = Inr (Some y)" "get_type v y = BUILD" for v y
    using run[OF that(1)] that(2,3) by simp
  have "find_or_declare fs r [name] u = Inr (x, t')" using assms(3) u r(3)
    by (simp add: find_or_declare_def find_parent_def)
  then consider (old) y where "child u r name = Inr (Some y)" "x = Some y" "t' = u" "get_type u y = BUILD"
    | (new) y where "Node name (Some r) BUILD u = Inr (y, t')" "x = Some y"
    unfolding run[OF r(3)] by (auto simp: rbind_Inr_iff rmap_Inr_iff split: option.splits if_splits)
  then show ?thesis
  proof cases
    case old
    then show ?thesis using again[OF r(3)] by simp
  next
    case new
    obtain d where d: "n_childs (node_at u r) = Some d" "map_of d name = None" "y = length (nodes u)" "t' = added name r BUILD d u"
      using Node_added[OF new(1) r(1)] .
    have "scanned u (n_id (node_at u r))" using rescan_same[OF u assms(2)] rescan_same[OF r(3,1)] by simp
    then have "rescan fs r t' = Inr t'" unfolding rescan_def d(4) added_same(3)[OF r(1,1)] by (simp add: added_def)
    moreover have c: "child t' r name = Inr (Some y)" using child_added[OF r(1) d(1) r(1)] d by simp
    moreover have "get_type t' y = BUILD" using r(2) unfolding get_type_def d(3,4) node_at_added(3)[OF r(1)] BUILD_def by simp presburger
    ultimately show ?thesis using again new(2) by simp
  qed
qed

lemmas loop_numerals = src_abspath.simps(2)[of "pred_numeral k" for k, folded numeral_eq_Suc]
  height_loop.simps(3)[of "pred_numeral k" for k, folded numeral_eq_Suc]

theorem find_or_declare_once_witness:
  "\<exists>y t'. find_or_declare small_fs 1 [''a.o''] small_tree = Inr (Some y, t') \<and> get_type t' y = BUILD \<and>
    child t' 1 ''a.o'' = Inr (Some y) \<and> find_or_declare small_fs 1 [''a.o''] t' = Inr (Some y, t')"
proof -
  have "\<exists>x t'. find_or_declare small_fs 1 [''a.o''] small_tree = Inr (x, t')"
    by (simp add: find_or_declare_def find_parent_def rescan_def small_tree_def small_fs_def node_at_def src_abspath.simps loop_numerals
        cached_path_def cache_path_def rescan_file_def get_type_def FILE_def set_sig_def height_def listdir_bld_def
        children_of_type_def path_join_def child_def Node_def BUILD_def py_endswith_def)
  then obtain x t' where r: "find_or_declare small_fs 1 [''a.o''] small_tree = Inr (x, t')" by blast
  then show ?thesis using find_or_declare_once[of small_tree 1 small_fs "''a.o''" x t'] by (auto simp: small_tree_def)
qed

text \<open>
  \<open>set_type\<close> is meant to keep the rest of the number, but \<open>&\<close> binds weaker than \<open>+\<close> and \<open>-\<close>: the number
  becomes the type itself, whatever it was, so two nodes that are set to the same type get the same number.
\<close>

lemma set_type_loses_id:
  assumes "r < length (nodes t)"
  shows "n_id (node_at (set_type ty r t) r) = ty mod 4"
  using assms by (simp add: set_type_def set_node_def node_at_def Let_def nat_mod_distrib)

end
