(* ===== verification/Waf_Glob.thy ===== *)
theory Waf_Glob
  imports Waf_Node Test_Config
begin

text \<open>
  The searches of \<^verbatim>\<open>src/tools/wafadmin/Node.py\<close>: \<open>find_iter\<close> with the patterns of \<open>fnmatch\<close>, and
  \<open>ant_glob\<close> with patterns over paths, where \<open>**\<close> stands for directories.

  After the definitions: walking down a path, \<open>ant_glob\<close> accepts exactly the paths that match one of the
  patterns to include and of which no part from the start matches a pattern to exclude; and the pattern
  \<open>**/\<close>, which the code completes to \<open>**/**\<close>, makes it fail.

  A generator is modelled by the list of all that it yields.
\<close>

section \<open>Definitions\<close>

subsection \<open>The patterns of \<open>ant_glob\<close>\<close>

text \<open>
  A part of a pattern is the text \<open>**\<close> or a compiled regular expression. The compiler is modelled for
  plain characters, \<open>[.]\<close>, \<open>.\<close> and \<open>.*\<close>, which are what the replacements make of \<open>.\<close>, \<open>?\<close> and \<open>*\<close>;
  another special character gives \<open>Unsupported\<close>.
\<close>

datatype ant_part = StarStar | Part re

fun compile_part :: "string \<Rightarrow> re result" where
  "compile_part [] = Inr REps"
| "compile_part (c # s) =
     (if c = CHR ''['' \<and> take 2 s = ''.]'' then rmap (RSeq (RLit (CHR ''.''))) (compile_part (drop 2 s))
      else if c = CHR ''.''
      then (case s of
              d # s' \<Rightarrow>
                if d = CHR ''*'' then rmap (RSeq (RStar RAny)) (compile_part s')
                else rmap (RSeq RAny) (compile_part s)
            | [] \<Rightarrow> Inr (RSeq RAny REps))
      else if re_special c then Inl Unsupported
      else rmap (RSeq (RLit c)) (compile_part s))"

definition to_part :: "string \<Rightarrow> ant_part result" where
  "to_part k =
     (if k = ''**'' then Inr StarStar
      else rmap (\<lambda>r. Part (rseq [RBol, r, REol]))
        (compile_part (py_replace (py_replace (py_replace k ''.'' ''[.]'') ''*'' ''.*'') ''?'' ''.'')))"

definition to_pat_one :: "string \<Rightarrow> ant_part list result" where
  "to_pat_one x0 =
     (let x1 = py_replace x0 ''//'' ''/'';
          x = (if py_endswith x1 ''/'' then x1 @ ''**'' else x1)
      in mapM to_part (py_split_chr (CHR ''/'') x))"

text \<open>\<open>Utils.to_list\<close> of a text is \<open>split\<close>.\<close>

definition to_pat :: "string \<Rightarrow> ant_part list list result" where
  "to_pat s = mapM to_pat_one (py_split_ws s)"

definition part_match :: "re \<Rightarrow> string \<Rightarrow> bool" where
  "part_match r name \<longleftrightarrow> re_match r name \<noteq> None"

text \<open>A text has no method \<open>match\<close>: the second of two parts \<open>**\<close> is an error.\<close>

fun filtre_one :: "string \<Rightarrow> ant_part list \<Rightarrow> ant_part list list result" where
  "filtre_one name [] = Inr []"
| "filtre_one name [StarStar] = Inr [[StarStar], []]"
| "filtre_one name (StarStar # StarStar # lst) = Inl AttributeError"
| "filtre_one name (StarStar # Part r # lst) =
     Inr ((StarStar # Part r # lst) # (if part_match r name then [lst] else []))"
| "filtre_one name (Part r # lst) = Inr (if part_match r name then [lst] else [])"

definition filtre :: "string \<Rightarrow> ant_part list list \<Rightarrow> ant_part list list result" where
  "filtre name nn = rmap concat (mapM (filtre_one name) nn)"

type_synonym ant_pats = "ant_part list list \<times> ant_part list list"

definition accept :: "string \<Rightarrow> ant_pats \<Rightarrow> ant_pats result" where
  "accept name pats =
     rbind (filtre name (fst pats)) (\<lambda>nacc. rmap (\<lambda>nrej. (if [] \<in> set nrej then [] else nacc, nrej)) (filtre name (snd pats)))"

subsection \<open>\<open>ant_glob\<close>\<close>

text \<open>
  One name of a directory. \<open>deeper\<close> is the search in a directory one level down, when there is one
  left. A file that is not accepted is looked for as a directory too, as in the code.
\<close>

type_synonym search = "ntree \<Rightarrow> (nat list \<times> ntree) result"

definition ant_name :: "fsys \<Rightarrow> bool \<Rightarrow> bool \<Rightarrow> (nat \<Rightarrow> ant_pats \<Rightarrow> search) option \<Rightarrow> nat \<Rightarrow> ant_pats \<Rightarrow> string \<Rightarrow> search" where
  "ant_name fs src dir deeper nodi pats name t =
     rbind (accept name pats) (\<lambda>npats.
       if fst npats = [] then Inr ([], t)
       else let accepted = [] \<in> set (fst npats) in
         rbind (find_resource fs nodi (split_path name) t) (\<lambda>(node, t1).
           case (if accepted then node else None) of
             Some x \<Rightarrow> Inr (if src \<and> get_type t1 x = FILE then [x] else [], t1)
           | None \<Rightarrow>
               rbind (find_dir fs nodi (split_path name) t1) (\<lambda>(d, t2).
                 case d of
                   None \<Rightarrow> Inr ([], t2)
                 | Some x \<Rightarrow>
                     if n_id (node_at t2 x) = n_id (node_at t2 (bldnode t2)) then Inr ([], t2)
                     else rmap (\<lambda>(l, t3). ((if accepted \<and> dir then [x] else []) @ l, t3))
                       (case deeper of None \<Rightarrow> Inr ([], t2) | Some f \<Rightarrow> f x npats t2))))"

text \<open>The searches in the names of a directory, one after the other.\<close>

fun search_names :: "(string \<Rightarrow> search) \<Rightarrow> string list \<Rightarrow> search" where
  "search_names f [] t = Inr ([], t)"
| "search_names f (name # ns) t =
     rbind (f name t) (\<lambda>(l1, t1). rmap (\<lambda>(l2, t2). (l1 @ l2, t2)) (search_names f ns t1))"

fun ant_build :: "ntree \<Rightarrow> ant_pats \<Rightarrow> nat list \<Rightarrow> nat list result" where
  "ant_build t pats [] = Inr []"
| "ant_build t pats (x # xs) =
     (if n_id (node_at t x) = n_id (node_at t (bldnode t)) \<or> get_type t x \<noteq> BUILD then ant_build t pats xs
      else rbind (accept (n_name (node_at t x)) pats) (\<lambda>npats.
        rmap (\<lambda>l. if [] \<in> set (fst npats) then x # l else l) (ant_build t pats xs)))"

text \<open>\<open>childs.values()\<close>.\<close>

definition childs_values :: "ntree \<Rightarrow> nat \<Rightarrow> nat list result" where
  "childs_values t r = (case n_childs (node_at t r) of None \<Rightarrow> Inl AttributeError | Some d \<Rightarrow> Inr (map snd d))"

definition ant_dir :: "fsys \<Rightarrow> bool \<Rightarrow> bool \<Rightarrow> bool \<Rightarrow> (nat \<Rightarrow> ant_pats \<Rightarrow> search) option \<Rightarrow> nat \<Rightarrow> ant_pats \<Rightarrow> search" where
  "ant_dir fs src bld dir deeper nodi pats t =
     rbind (rescan fs nodi t) (\<lambda>t1.
       case dir_contents t1 (n_id (node_at t1 nodi)) of
         None \<Rightarrow> Inl KeyError
       | Some ns \<Rightarrow>
           rbind (search_names (ant_name fs src dir deeper nodi pats) ns t1) (\<lambda>(l1, t2).
             rmap (\<lambda>l2. (l1 @ l2, t2))
               (if bld then rbind (childs_values t2 nodi) (ant_build t2 pats) else Inr [])))"

primrec ant_iter :: "fsys \<Rightarrow> bool \<Rightarrow> bool \<Rightarrow> bool \<Rightarrow> nat \<Rightarrow> nat \<Rightarrow> ant_pats \<Rightarrow> search" where
  "ant_iter fs src bld dir 0 = ant_dir fs src bld dir None"
| "ant_iter fs src bld dir (Suc maxdepth) = ant_dir fs src bld dir (Some (ant_iter fs src bld dir maxdepth))"

text \<open>\<open>exclude_regs\<close>, separated by newlines.\<close>

definition exclude_regs :: string where
  "exclude_regs = py_join [CHR 0x0A]
     [[], ''**/*~'', ''**/#*#'', ''**/.#*'', ''**/%*%'', ''**/._*'', ''**/CVS'', ''**/CVS/**'', ''**/.cvsignore'', ''**/SCCS'',
      ''**/SCCS/**'', ''**/vssver.scc'', ''**/.svn'', ''**/.svn/**'', ''**/.git'', ''**/.git/**'', ''**/.gitignore'',
      ''**/.bzr'', ''**/.bzr/**'', ''**/.hg'', ''**/.hg/**'', ''**/_MTN'', ''**/_MTN/**'', ''**/_darcs'', ''**/_darcs/**'',
      ''**/.DS_Store'']"

text \<open>
  The keywords of \<open>ant_glob\<close>, with their defaults: sources are searched, build nodes and directories not;
  an empty first argument counts as missing.
\<close>

record ant_kw =
  kw_src :: bool
  kw_bld :: bool
  kw_dir :: bool
  kw_excl :: string
  kw_incl :: string

definition ant_defaults :: ant_kw where
  "ant_defaults = \<lparr>kw_src = True, kw_bld = False, kw_dir = False, kw_excl = exclude_regs, kw_incl = ''**''\<rparr>"

definition ant_glob :: "fsys \<Rightarrow> nat \<Rightarrow> string option \<Rightarrow> ant_kw \<Rightarrow> search" where
  "ant_glob fs r k kw t =
     (let incl = (case k of Some s \<Rightarrow> if s \<noteq> [] then s else kw_incl kw | None \<Rightarrow> kw_incl kw) in
      rbind (to_pat incl) (\<lambda>pi. rbind (to_pat (kw_excl kw)) (\<lambda>pe.
        ant_iter fs (kw_src kw) (kw_bld kw) (kw_dir kw) 25 r (pi, pe) t)))"

text \<open>\<open>flat\<close>: the paths from the directory, in one text.\<close>

definition flat_paths :: "nat \<Rightarrow> nat list \<times> ntree \<Rightarrow> (string \<times> ntree) result" where
  "flat_paths r = (\<lambda>(xs, t). rmap (\<lambda>l. (py_join '' '' l, t)) (mapM (\<lambda>x. relpath_gen t x r) xs))"

subsection \<open>\<open>find_iter\<close>\<close>

text \<open>
  \<open>fnmatch.fnmatchcase\<close>: \<open>*\<close> is any text and \<open>?\<close> any character. A pattern with a bracket is \<open>Unsupported\<close>.
\<close>

fun fn_match :: "string \<Rightarrow> string \<Rightarrow> bool" where
  "fn_match [] s \<longleftrightarrow> s = []"
| "fn_match (p # ps) s \<longleftrightarrow>
     (if p = CHR ''*'' then (\<exists>k \<le> length s. fn_match ps (drop k s))
      else case s of [] \<Rightarrow> False | c # cs \<Rightarrow> (p = CHR ''?'' \<or> c = p) \<and> fn_match ps cs)"

definition fnmatchcase :: "string \<Rightarrow> string \<Rightarrow> bool result" where
  "fnmatchcase name pat = (if CHR ''['' \<in> set pat then Inl Unsupported else Inr (fn_match pat name))"

text \<open>The loops over patterns, which stop at the first one that matches.\<close>

fun any_match :: "string \<Rightarrow> string list \<Rightarrow> bool result" where
  "any_match name [] = Inr False"
| "any_match name (pat # pats) = rbind (fnmatchcase name pat) (\<lambda>b. if b then Inr True else any_match name pats)"

definition accept_name :: "string list \<Rightarrow> string list \<Rightarrow> string \<Rightarrow> bool result" where
  "accept_name in_pat ex_pat name =
     rbind (any_match name ex_pat) (\<lambda>b. if b then Inr False else any_match name in_pat)"

record find_args =
  fa_in_pat :: "string list"
  fa_ex_pat :: "string list"
  fa_prune_pat :: "string list"
  fa_src :: bool
  fa_bld :: bool
  fa_dir :: bool

definition go_deeper :: "(nat \<Rightarrow> search) option \<Rightarrow> nat \<Rightarrow> search" where
  "go_deeper deeper x t = (case deeper of None \<Rightarrow> Inr ([], t) | Some f \<Rightarrow> f x t)"

definition find_name :: "fsys \<Rightarrow> find_args \<Rightarrow> (nat \<Rightarrow> search) option \<Rightarrow> nat \<Rightarrow> string \<Rightarrow> search" where
  "find_name fs a deeper r name t =
     rbind (accept_name (fa_in_pat a) (fa_ex_pat a) name) (\<lambda>ok.
       if ok
       then rbind (find_resource fs r (split_path name) t) (\<lambda>(node, t1).
         case node of
           Some x \<Rightarrow> Inr (if fa_src a \<and> get_type t1 x = FILE then [x] else [], t1)
         | None \<Rightarrow>
             rbind (find_dir fs r (split_path name) t1) (\<lambda>(d, t2).
               case d of
                 None \<Rightarrow> Inr ([], t2)
               | Some x \<Rightarrow>
                   if n_id (node_at t2 x) = n_id (node_at t2 (bldnode t2)) then Inr ([], t2)
                   else rbind (any_match name (fa_prune_pat a)) (\<lambda>prune.
                     rmap (\<lambda>(l, t3). ((if fa_dir a then [x] else []) @ l, t3))
                       (if prune then Inr ([], t2) else go_deeper deeper x t2))))
       else rbind (any_match name (fa_prune_pat a)) (\<lambda>prune.
         if prune then Inr ([], t)
         else rbind (find_resource fs r (split_path name) t) (\<lambda>(node, t1).
           if node \<noteq> None then Inr ([], t1)
           else rbind (find_dir fs r (split_path name) t1) (\<lambda>(d, t2).
             case d of
               None \<Rightarrow> Inr ([], t2)
             | Some x \<Rightarrow>
                 if n_id (node_at t2 x) = n_id (node_at t2 (bldnode t2)) then Inr ([], t2) else go_deeper deeper x t2))))"

fun find_build :: "ntree \<Rightarrow> find_args \<Rightarrow> nat list \<Rightarrow> nat list result" where
  "find_build t a [] = Inr []"
| "find_build t a (x # xs) =
     (if n_id (node_at t x) = n_id (node_at t (bldnode t)) \<or> get_type t x \<noteq> BUILD then find_build t a xs
      else rbind (accept_name (fa_in_pat a) (fa_ex_pat a) (n_name (node_at t x))) (\<lambda>ok.
        rmap (\<lambda>l. if ok then x # l else l) (find_build t a xs)))"

definition find_in_dir :: "fsys \<Rightarrow> find_args \<Rightarrow> (nat \<Rightarrow> search) option \<Rightarrow> nat \<Rightarrow> search" where
  "find_in_dir fs a deeper r t =
     rbind (rescan fs r t) (\<lambda>t1.
       case dir_contents t1 (n_id (node_at t1 r)) of
         None \<Rightarrow> Inl KeyError
       | Some ns \<Rightarrow>
           rbind (search_names (find_name fs a deeper r) ns t1) (\<lambda>(l1, t2).
             rmap (\<lambda>l2. (l1 @ l2, t2))
               (if fa_bld a then rbind (childs_values t2 r) (find_build t2 a) else Inr [])))"

primrec find_iter_impl :: "fsys \<Rightarrow> find_args \<Rightarrow> nat \<Rightarrow> nat \<Rightarrow> search" where
  "find_iter_impl fs a 0 = find_in_dir fs a None"
| "find_iter_impl fs a (Suc maxdepth) = find_in_dir fs a (Some (find_iter_impl fs a maxdepth))"

definition prune_pats :: "string list" where
  "prune_pats = [''.git'', ''.bzr'', ''.hg'', ''.svn'', ''_MTN'', ''_darcs'', ''CVS'', ''SCCS'']"

definition exclude_pats :: "string list" where
  "exclude_pats = prune_pats @
     [''*~'', ''#*#'', ''.#*'', ''%*%'', ''._*'', ''.gitignore'', ''.cvsignore'', ''vssver.scc'', ''.DS_Store'']"

definition find_defaults :: find_args where
  "find_defaults = \<lparr>fa_in_pat = [''*''], fa_ex_pat = exclude_pats, fa_prune_pat = prune_pats,
     fa_src = True, fa_bld = True, fa_dir = False\<rparr>"

definition find_iter :: "fsys \<Rightarrow> nat \<Rightarrow> find_args \<Rightarrow> nat \<Rightarrow> search" where
  "find_iter fs r a maxdepth t =
     (if \<not> (fa_src a \<or> fa_bld a \<or> fa_dir a) \<or> get_type t r \<noteq> DIR then Inr ([], t)
      else find_iter_impl fs a maxdepth r t)"

section \<open>What the patterns of \<open>ant_glob\<close> mean\<close>

text \<open>
  The meaning of a pattern, for the list of the names of a path: \<open>**\<close> at the end is one or more names,
  and before another part any number of names; the other parts are one name each.
\<close>

fun ant_match :: "ant_part list \<Rightarrow> string list \<Rightarrow> bool" where
  "ant_match [] path \<longleftrightarrow> path = []"
| "ant_match [StarStar] path \<longleftrightarrow> path \<noteq> []"
| "ant_match (StarStar # p # ps) path \<longleftrightarrow> (\<exists>k < length path. ant_match (p # ps) (drop k path))"
| "ant_match (Part r # ps) path \<longleftrightarrow> (case path of [] \<Rightarrow> False | n # ns \<Rightarrow> part_match r n \<and> ant_match ps ns)"

definition ant_matches :: "ant_part list list \<Rightarrow> string list \<Rightarrow> bool" where
  "ant_matches pats path \<longleftrightarrow> (\<exists>p \<in> set pats. ant_match p path)"

text \<open>Patterns without two parts \<open>**\<close> in a row.\<close>

fun ok_pat :: "ant_part list \<Rightarrow> bool" where
  "ok_pat (StarStar # StarStar # ps) \<longleftrightarrow> False"
| "ok_pat (p # ps) \<longleftrightarrow> ok_pat ps"
| "ok_pat [] \<longleftrightarrow> True"

lemma ant_match_Nil: "ant_match p [] \<longleftrightarrow> p = []"
  by (cases "([]::string, p)" rule: filtre_one.cases) auto

lemma ant_matches_Nil: "ant_matches pats [] \<longleftrightarrow> [] \<in> set pats"
  by (auto simp: ant_matches_def ant_match_Nil)

lemma filtre_one_ok:
  "ok_pat p \<Longrightarrow> \<exists>qs. filtre_one name p = Inr qs \<and> list_all ok_pat qs \<and> (\<forall>path. ant_matches qs path \<longleftrightarrow> ant_match p (name # path))"
proof (induction name p rule: filtre_one.induct)
  case (4 name r lst)
  have "ant_match (StarStar # Part r # lst) (name # path) \<longleftrightarrow>
      ant_match (StarStar # Part r # lst) path \<or> part_match r name \<and> ant_match lst path" for path
  proof -
    have "(\<exists>k < Suc (length path). P (drop k (name # path))) \<longleftrightarrow> P (name # path) \<or> (\<exists>k < length path. P (drop k path))" for P
      by (auto simp: Ex_less_Suc2)
    from this[of "ant_match (Part r # lst)"] show ?thesis by auto
  qed
  then show ?case using 4 by (auto simp: ant_matches_def simp del: ant_match.simps)
qed (auto simp: ant_matches_def)

lemma filtre_ok:
  "list_all ok_pat nn \<Longrightarrow>
    \<exists>qs. filtre name nn = Inr qs \<and> list_all ok_pat qs \<and> (\<forall>path. ant_matches qs path \<longleftrightarrow> ant_matches nn (name # path))"
proof (induction nn)
  case (Cons p nn)
  obtain qs where q: "filtre name nn = Inr qs" "list_all ok_pat qs" "\<forall>path. ant_matches qs path \<longleftrightarrow> ant_matches nn (name # path)"
    using Cons by auto
  then obtain qss where "mapM (filtre_one name) nn = Inr qss" "qs = concat qss" by (auto simp: filtre_def rmap_Inr_iff)
  moreover obtain ps where "filtre_one name p = Inr ps" "list_all ok_pat ps" "\<forall>path. ant_matches ps path \<longleftrightarrow> ant_match p (name # path)"
    using filtre_one_ok[of p name] Cons.prems by auto
  moreover have "ant_matches (ps @ qs) path \<longleftrightarrow> ant_matches ps path \<or> ant_matches qs path" for path
    by (auto simp: ant_matches_def)
  moreover have "ant_matches (p # nn) path \<longleftrightarrow> ant_match p path \<or> ant_matches nn path" for path
    by (auto simp: ant_matches_def)
  ultimately show ?case using q by (intro exI[of _ "ps @ qs"]) (simp add: filtre_def)
qed (auto simp: filtre_def ant_matches_def)

lemma accept_ok:
  assumes "list_all ok_pat incl" and "list_all ok_pat excl"
  shows "\<exists>a r. accept name (incl, excl) = Inr (a, r) \<and> list_all ok_pat a \<and> list_all ok_pat r \<and>
    (\<forall>path. ant_matches r path \<longleftrightarrow> ant_matches excl (name # path)) \<and>
    (\<forall>path. ant_matches a path \<longleftrightarrow> ant_matches incl (name # path) \<and> \<not> ant_matches excl [name])"
proof -
  obtain a r where a: "filtre name incl = Inr a" "list_all ok_pat a" "\<forall>path. ant_matches a path \<longleftrightarrow> ant_matches incl (name # path)"
    and r: "filtre name excl = Inr r" "list_all ok_pat r" "\<forall>path. ant_matches r path \<longleftrightarrow> ant_matches excl (name # path)"
    using filtre_ok assms by metis
  have "[] \<in> set r \<longleftrightarrow> ant_matches excl [name]" using r(3) ant_matches_Nil by blast
  moreover have "\<not> ant_matches [] path" for path by (simp add: ant_matches_def)
  ultimately show ?thesis using a r by (cases "[] \<in> set r") (simp_all add: accept_def)
qed

lemma accept_walk:
  assumes "list_all ok_pat incl" and "list_all ok_pat excl"
  shows "\<exists>a r. foldM accept path (incl, excl) = Inr (a, r) \<and>
    (\<forall>more. ant_matches a more \<longleftrightarrow> ant_matches incl (path @ more) \<and> (\<forall>k \<in> {1..length path}. \<not> ant_matches excl (take k path)))"
  using assms
proof (induction path arbitrary: incl excl)
  case (Cons name path)
  obtain a r where a: "accept name (incl, excl) = Inr (a, r)" "list_all ok_pat a" "list_all ok_pat r"
    "\<forall>p. ant_matches r p \<longleftrightarrow> ant_matches excl (name # p)"
    "\<forall>p. ant_matches a p \<longleftrightarrow> ant_matches incl (name # p) \<and> \<not> ant_matches excl [name]"
    using accept_ok[OF Cons.prems] by blast
  obtain a' r' where b: "foldM accept path (a, r) = Inr (a', r')"
    "\<forall>more. ant_matches a' more \<longleftrightarrow> ant_matches a (path @ more) \<and> (\<forall>k \<in> {1..length path}. \<not> ant_matches r (take k path))"
    using Cons.IH[OF a(2,3)] by blast
  have "{1..Suc (length path)} = insert 1 (Suc ` {1..length path})" by (auto simp: image_Suc_atLeastAtMost)
  then have "(\<forall>k \<in> {1..Suc (length path)}. \<not> ant_matches excl (take k (name # path))) \<longleftrightarrow>
      \<not> ant_matches excl [name] \<and> (\<forall>k \<in> {1..length path}. \<not> ant_matches r (take k path))"
    using a(4) by (simp only: ball_simps image_iff) simp
  then show ?case using a(1,5) b by auto
qed simp

text \<open>
  C14. \<open>ant_glob\<close> walks down a directory tree and narrows its two lists of patterns at each name. For
  patterns without two parts \<open>**\<close> in a row this never fails, and at the end of a path it accepts the path
  exactly when one of the patterns to include matches the whole path and no pattern to exclude matches
  the path or a path on the way to it, in the sense of \<open>ant_match\<close>, which looks at whole paths.
\<close>

theorem ant_glob_accepts:
  assumes "list_all ok_pat incl" and "list_all ok_pat excl"
  shows "\<exists>a r. foldM accept path (incl, excl) = Inr (a, r) \<and>
    ([] \<in> set a \<longleftrightarrow> ant_matches incl path \<and> \<not> (\<exists>k \<in> {1..length path}. ant_matches excl (take k path)))"
proof -
  obtain a r where r: "foldM accept path (incl, excl) = Inr (a, r)"
    "ant_matches a [] \<longleftrightarrow> ant_matches incl (path @ []) \<and> (\<forall>k \<in> {1..length path}. \<not> ant_matches excl (take k path))"
    using accept_walk[OF assms] by blast
  then show ?thesis by (auto simp: ant_matches_Nil)
qed

theorem ant_glob_accepts_witness:
  "\<exists>a r. foldM accept [''lib'', ''a.js''] ([[StarStar, Part (RStar RAny)]], [[StarStar, Part (RLit (CHR ''x''))]]) = Inr (a, r) \<and>
    ([] \<in> set a \<longleftrightarrow> ant_matches [[StarStar, Part (RStar RAny)]] [''lib'', ''a.js''] \<and>
      \<not> (\<exists>k \<in> {1..length [''lib'', ''a.js'']}. ant_matches [[StarStar, Part (RLit (CHR ''x''))]] (take k [''lib'', ''a.js''])))"
  using ant_glob_accepts[of "[[StarStar, Part (RStar RAny)]]" "[[StarStar, Part (RLit (CHR ''x''))]]" "[''lib'', ''a.js'']"]
  by (simp del: One_nat_def)

text \<open>
  A pattern that ends in a slash gets \<open>**\<close> at its end, so \<open>**/\<close> becomes \<open>**/**\<close>, and the search fails at
  the first name of the directory.
\<close>

lemma ant_glob_double_star:
  "to_pat ''**/'' = Inr [[StarStar, StarStar]] \<and> accept name ([[StarStar, StarStar]], excl) = Inl AttributeError"
  by (simp add: to_pat_def to_pat_one_def to_part_def py_split_ws_def chr_isspace_def py_replace_def py_endswith_def
      py_startswith_def accept_def filtre_def rmap_def)

text \<open>A part of plain characters, \<open>.\<close>, \<open>*\<close> and \<open>?\<close> compiles to the shell pattern.\<close>

definition ant_one :: "char \<Rightarrow> char \<Rightarrow> bool" where
  "ant_one p c \<longleftrightarrow> (if p = CHR ''?'' then c \<noteq> CHR 0x0A else c = p)"

definition plain_part :: "string \<Rightarrow> bool" where
  "plain_part k \<longleftrightarrow> k \<noteq> ''**'' \<and> list_all (\<lambda>c. c = CHR ''*'' \<or> c = CHR ''?'' \<or> \<not> re_special c) k"

definition part_text :: "string \<Rightarrow> string" where
  "part_text k = concat (map (\<lambda>c. if c = CHR ''.'' then ''[.]'' else if c = CHR ''*'' then ''.*'' else if c = CHR ''?'' then ''.'' else [c]) k)"

lemma to_part_text:
  "py_replace (py_replace (py_replace k ''.'' ''[.]'') ''*'' ''.*'') ''?'' ''.'' = part_text k"
  by (induction k) (auto simp: py_replace_chr part_text_def)

lemma compile_part_glob:
  "list_all (\<lambda>c. c = CHR ''*'' \<or> c = CHR ''?'' \<or> \<not> re_special c) k \<Longrightarrow> compile_part (part_text k) = Inr (glob_re ant_one k)"
proof (induction k)
  case (Cons c k)
  have hd: "part_text k = d # r \<Longrightarrow> d \<noteq> CHR ''*''" for d r
    by (cases k) (auto simp: part_text_def split: if_splits)
  have one: "ant_one (CHR ''?'') = (\<lambda>c. c \<noteq> CHR 0x0A)" "p \<noteq> CHR ''?'' \<Longrightarrow> ant_one p = (\<lambda>c. c = p)" for p
    by (auto simp: ant_one_def fun_eq_iff)
  have IH: "compile_part (part_text k) = Inr (glob_re ant_one k)" using Cons by simp
  have t: "part_text (c # k) = (if c = CHR ''.'' then ''[.]'' else if c = CHR ''*'' then ''.*'' else if c = CHR ''?'' then ''.'' else [c]) @ part_text k"
    by (simp add: part_text_def)
  consider "c = CHR ''.''" | "c = CHR ''*''" | "c = CHR ''?''" | "c \<notin> {CHR ''.'', CHR ''*'', CHR ''?''}" "\<not> re_special c"
    using Cons.prems by auto
  then show ?case
  proof cases
    case 3
    then show ?thesis using IH hd unfolding t by (cases "part_text k") (auto simp: one)
  next
    case 4
    then have "c \<noteq> CHR ''[''" by (auto simp: re_special_def)
    then show ?thesis using 4 IH unfolding t by (simp add: one)
  qed (unfold t, use IH in \<open>simp_all add: one\<close>)
qed (simp add: part_text_def)

lemma to_part_glob:
  assumes "plain_part k" and "CHR 0x0A \<notin> set name"
  shows "\<exists>r. to_part k = Inr (Part r) \<and> (part_match r name \<longleftrightarrow> glob_with ant_one k name)"
proof -
  have "to_part k = Inr (Part (rseq [RBol, glob_re ant_one k, REol]))"
    using assms(1) compile_part_glob[of k] unfolding to_part_def to_part_text plain_part_def by simp
  moreover have "part_match (rseq [RBol, glob_re ant_one k, REol]) name \<longleftrightarrow> glob_with ant_one k name"
    using assms(2) re_match_glob[of ant_one k name] by (auto simp: part_match_def)
  ultimately show ?thesis by blast
qed

end
