(* ===== verification/Waf_Signature.thy ===== *)
theory Waf_Signature
  imports Waf_Node Waf_Runner
begin

text \<open>
  The signatures that decide whether a task runs: the class \<open>Task\<close> of
  \<^verbatim>\<open>src/tools/wafadmin/Task.py\<close> (lines 503 to 914 and 1042 to 1116) with
  \<open>hash_env_vars\<close> of \<^verbatim>\<open>src/tools/wafadmin/Build.py\<close>.

  After the definitions: the computation of a signature ends after at most one retry; a task without
  scanner is skipped exactly when the digest of all it depends on is the one of the previous run, and
  its outputs have it; a task that has run and is created again is skipped; and the order that
  \<open>extract_outputs\<close> finds between tasks.

  The digest \<open>md5\<close> is a parameter, applied to all the text it was given. The scanner of a task is a field
  of the task. An error of \<open>rescan\<close> ends an operation (the version of \<open>h_file\<close> that reads the file
  raises no \<open>OSError\<close>).
\<close>

section \<open>Definitions\<close>

subsection \<open>Tasks and the build context\<close>

text \<open>The signature of a task, and its parts for explicit and implicit dependencies and for variables.\<close>

type_synonym sigs = "string \<times> string \<times> string \<times> string"

text \<open>A manual dependency: a node, a function (by what it returns), or a text.\<close>

datatype man_dep = DepNode nat | DepCall string | DepText string

record bctx =
  b_tree :: ntree
  task_sigs :: "string \<rightharpoonup> sigs"
  node_deps :: "string \<rightharpoonup> nat list"
  raw_deps :: "string \<rightharpoonup> string list"
  deps_man :: "nat \<rightharpoonup> man_dep list"
  cache_sig_vars :: "nat \<times> string list \<rightharpoonup> string"

text \<open>
  A task: the name and the variables of its class; its environment, known by its identity, its variant
  and the text \<open>str(env[a])\<close> of each variable; \<open>t_m\<close> is the text that was given to the object \<open>m\<close>.
\<close>

record btask =
  t_class :: string
  t_vars :: "string list"
  t_dep_vars :: "attrv option"
  t_env :: nat
  t_variant :: string
  t_env_str :: "string \<Rightarrow> string"
  t_inputs :: "nat list"
  t_outputs :: "nat list"
  t_dep_nodes :: "nat list"
  t_deps_nodes :: "nat list"
  t_run_after :: "nat list"
  t_scan :: "(ntree \<Rightarrow> nat list \<times> string list) option"
  t_uid :: "string option"
  t_m :: string
  t_cache_sig :: "sigs option"
  t_cached :: bool

definition SIG_NIL :: string where "SIG_NIL = ''iluvcuteoverload''"

text \<open>\<open>set_inputs\<close> and \<open>set_outputs\<close>, with one node or a list.\<close>

definition set_inputs :: "nat + nat list \<Rightarrow> btask \<Rightarrow> btask" where
  "set_inputs inp k = k\<lparr>t_inputs := t_inputs k @ (case inp of Inl x \<Rightarrow> [x] | Inr l \<Rightarrow> l)\<rparr>"

definition set_outputs :: "nat + nat list \<Rightarrow> btask \<Rightarrow> btask" where
  "set_outputs out k = k\<lparr>t_outputs := t_outputs k @ (case out of Inl x \<Rightarrow> [x] | Inr l \<Rightarrow> l)\<rparr>"

definition upd :: "string \<Rightarrow> btask \<Rightarrow> btask" where
  "upd s k = k\<lparr>t_m := t_m k @ s\<rparr>"

subsection \<open>\<open>str\<close> of a list of texts\<close>

definition hex_digit :: "nat \<Rightarrow> char" where
  "hex_digit n = ''0123456789abcdef'' ! n"

definition repr_chr :: "char \<Rightarrow> char \<Rightarrow> string" where
  "repr_chr q c =
     (if c = q \<or> c = CHR 0x5C then [CHR 0x5C, c]
      else if c = CHR 0x09 then [CHR 0x5C, CHR ''t'']
      else if c = CHR 0x0A then [CHR 0x5C, CHR ''n'']
      else if c = CHR 0x0D then [CHR 0x5C, CHR ''r'']
      else let n = of_char c :: nat in
        if n < 32 \<or> 127 \<le> n then [CHR 0x5C, CHR ''x'', hex_digit (n div 16), hex_digit (n mod 16)] else [c])"

definition py_repr :: "string \<Rightarrow> string" where
  "py_repr s =
     (let q = (if CHR 0x27 \<in> set s \<and> CHR 0x22 \<notin> set s then CHR 0x22 else CHR 0x27)
      in q # concat (map (repr_chr q) s) @ [q])"

definition str_list :: "string list \<Rightarrow> string" where
  "str_list l = ''['' @ py_join '', '' (map py_repr l) @ '']''"

definition h_list :: "(string \<Rightarrow> string) \<Rightarrow> string list \<Rightarrow> string" where
  "h_list md5 lst = md5 (str_list lst)"

subsection \<open>The parts of a signature\<close>

definition unique_text :: "btask \<Rightarrow> ntree \<Rightarrow> (string \<times> ntree) result" where
  "unique_text k t =
     rmap (\<lambda>(p, txt, t1). (txt, t1))
       (foldM (\<lambda>x (p, txt, t).
          case n_parent (node_at t x) of
            None \<Rightarrow> Inl AttributeError
          | Some d \<Rightarrow>
              let i = n_id (node_at t d) in
              if p = Some i then Inr (p, txt @ n_name (node_at t x), t)
              else rmap (\<lambda>(a, t1). (Some i, txt @ a @ n_name (node_at t x), t1)) (src_abspath (Suc d) t d))
        (t_inputs k @ t_outputs k) (None, t_class k @ t_variant k, t))"

definition unique_id :: "(string \<Rightarrow> string) \<Rightarrow> btask \<Rightarrow> bctx \<Rightarrow> (string \<times> btask \<times> bctx) result" where
  "unique_id md5 k b =
     (case t_uid k of
        Some u \<Rightarrow> Inr (u, k, b)
      | None \<Rightarrow> rmap (\<lambda>(txt, t1). (md5 txt, k\<lparr>t_uid := Some (md5 txt)\<rparr>, b\<lparr>b_tree := t1\<rparr>)) (unique_text k (b_tree b)))"

definition hash_env_vars :: "(string \<Rightarrow> string) \<Rightarrow> btask \<Rightarrow> string list \<Rightarrow> bctx \<Rightarrow> string \<times> bctx" where
  "hash_env_vars md5 k vs b =
     (case cache_sig_vars b (t_env k, vs) of
        Some s \<Rightarrow> (s, b)
      | None \<Rightarrow>
          let s = h_list md5 (map (t_env_str k) vs)
          in (s, b\<lparr>cache_sig_vars := (cache_sig_vars b)((t_env k, vs) \<mapsto> s)\<rparr>))"

text \<open>The signature of a node for the variant of the task.\<close>

definition sig_of :: "btask \<Rightarrow> ntree \<Rightarrow> nat \<Rightarrow> string option" where
  "sig_of k t x = node_sigs t (node_variant t x (Some (t_variant k))) (n_id (node_at t x))"

definition rescan_parent :: "fsys \<Rightarrow> bool \<Rightarrow> nat \<Rightarrow> ntree \<Rightarrow> ntree result" where
  "rescan_parent fs always x t =
     (case n_parent (node_at t x) of
        None \<Rightarrow> Inl AttributeError
      | Some d \<Rightarrow> if \<not> always \<and> scanned t (n_id (node_at t d)) then Inr t else rescan fs d t)"

definition missing_sig :: py_error where
  "missing_sig = WafError ''Missing node signature''"

type_synonym sig_state = "btask \<times> bctx"

definition explicit_one :: "fsys \<Rightarrow> nat \<Rightarrow> sig_state \<Rightarrow> sig_state result" where
  "explicit_one fs x = (\<lambda>(k, b).
     rbind (rescan_parent fs False x (b_tree b)) (\<lambda>t.
       case sig_of k t x of
         None \<Rightarrow> Inl missing_sig
       | Some s \<Rightarrow> Inr (upd s k, b\<lparr>b_tree := t\<rparr>)))"

definition manual_one :: "fsys \<Rightarrow> man_dep \<Rightarrow> sig_state \<Rightarrow> sig_state result" where
  "manual_one fs v = (\<lambda>(k, b).
     case v of
       DepNode x \<Rightarrow>
         rbind (rescan_parent fs True x (b_tree b)) (\<lambda>t.
           case sig_of k t x of
             None \<Rightarrow> Inl missing_sig
           | Some s \<Rightarrow> Inr (upd s k, b\<lparr>b_tree := t\<rparr>))
     | DepCall s \<Rightarrow> Inr (upd s k, b)
     | DepText s \<Rightarrow> Inr (upd s k, b))"

definition manual_deps :: "fsys \<Rightarrow> nat \<Rightarrow> sig_state \<Rightarrow> sig_state result" where
  "manual_deps fs x = (\<lambda>(k, b).
     case deps_man b (n_id (node_at (b_tree b) x)) of
       None \<Rightarrow> Inr (k, b)
     | Some d \<Rightarrow> foldM (manual_one fs) d (k, b))"

definition deps_node_one :: "nat \<Rightarrow> sig_state \<Rightarrow> sig_state result" where
  "deps_node_one x = (\<lambda>(k, b).
     case sig_of k (b_tree b) x of None \<Rightarrow> Inl KeyError | Some s \<Rightarrow> Inr (upd s k, b))"

definition sig_explicit_deps :: "(string \<Rightarrow> string) \<Rightarrow> fsys \<Rightarrow> sig_state \<Rightarrow> (string \<times> sig_state) result" where
  "sig_explicit_deps md5 fs = (\<lambda>(k, b).
     rbind (foldM (explicit_one fs) (t_inputs k @ t_dep_nodes k) (k, b)) (\<lambda>st1.
       rbind (foldM (manual_deps fs) (t_inputs k @ t_outputs k) st1) (\<lambda>st2.
         rmap (\<lambda>st3. (md5 (t_m (fst st3)), st3)) (foldM deps_node_one (t_deps_nodes k) st2))))"

text \<open>
  \<open>dep_vars\<close> goes to \<open>hash_env_vars\<close> as it is, which walks through it: a text gives its characters.
  An empty one counts as missing.
\<close>

definition sig_vars :: "(string \<Rightarrow> string) \<Rightarrow> sig_state \<Rightarrow> string \<times> sig_state" where
  "sig_vars md5 = (\<lambda>(k, b).
     let (s1, b1) = hash_env_vars md5 k (t_vars k) b;
         k1 = upd s1 k;
         dv = attr_iter (t_dep_vars k);
         (k2, b2) = (if dv = [] then (k1, b1) else let (s2, b2) = hash_env_vars md5 k dv b1 in (upd s2 k1, b2))
     in (md5 (t_m k2), k2, b2))"

text \<open>
  The loop of \<open>compute_sig_implicit_deps\<close>. The context that an error leaves matters, because the caller
  catches errors.
\<close>

fun implicit_loop :: "fsys \<Rightarrow> nat list \<Rightarrow> sig_state \<Rightarrow> unit result \<times> sig_state" where
  "implicit_loop fs [] st = (Inr (), st)"
| "implicit_loop fs (x # xs) (k, b) =
     (case rescan_parent fs False x (b_tree b) of
        Inl e \<Rightarrow> (Inl e, k, b)
      | Inr t \<Rightarrow>
          (case sig_of k t x of
             None \<Rightarrow> (Inl KeyError, k, b\<lparr>b_tree := t\<rparr>)
           | Some s \<Rightarrow> implicit_loop fs xs (upd s k, b\<lparr>b_tree := t\<rparr>)))"

definition compute_sig_implicit_deps :: "(string \<Rightarrow> string) \<Rightarrow> fsys \<Rightarrow> string \<Rightarrow> sig_state \<Rightarrow> string result \<times> sig_state" where
  "compute_sig_implicit_deps md5 fs key = (\<lambda>(k, b).
     case implicit_loop fs (case node_deps b key of None \<Rightarrow> [] | Some l \<Rightarrow> l) (k, b) of
       (r, k1, b1) \<Rightarrow> (rmap (\<lambda>u. md5 (t_m k1)) r, k1, b1))"

text \<open>\<open>None\<close> stands for \<open>ValueError('rescan')\<close>, which \<open>signature\<close> catches.\<close>

definition sig_implicit_deps ::
  "(string \<Rightarrow> string) \<Rightarrow> fsys \<Rightarrow> (ntree \<Rightarrow> nat list \<times> string list) \<Rightarrow> sig_state \<Rightarrow> (string option \<times> sig_state) result" where
  "sig_implicit_deps md5 fs scan = (\<lambda>(k0, b0).
     rbind (unique_id md5 k0 b0) (\<lambda>(key, k, b).
       case task_sigs b key of
         Some (ps0, ps1, ps2, ps3) \<Rightarrow>
           (case compute_sig_implicit_deps md5 fs key (k, b) of
              (Inr s, k1, b1) \<Rightarrow>
                if ps2 = s then Inr (Some ps2, k1, b1)
                else Inr (None, k1, b1\<lparr>task_sigs := (task_sigs b1)(key := None)\<rparr>)
            | (Inl e, k1, b1) \<Rightarrow>
                if e = KeyError \<or> e = OSError then Inr (None, k1, b1\<lparr>task_sigs := (task_sigs b1)(key := None)\<rparr>)
                else Inl e)
       | None \<Rightarrow>
           let (ns, rs) = scan (b_tree b);
               b1 = b\<lparr>node_deps := (node_deps b)(key \<mapsto> ns), raw_deps := (raw_deps b)(key \<mapsto> rs)\<rparr>
           in (case compute_sig_implicit_deps md5 fs key (k, b1) of
                 (Inr s, st) \<Rightarrow> Inr (Some s, st)
               | (Inl e, st) \<Rightarrow> if e = KeyError then Inl missing_sig else Inl e)))"

text \<open>\<open>signature\<close> calls itself after a \<open>ValueError\<close>; \<open>RuntimeError\<close> when the bound does not suffice.\<close>

fun signature :: "nat \<Rightarrow> (string \<Rightarrow> string) \<Rightarrow> fsys \<Rightarrow> sig_state \<Rightarrow> (string \<times> sig_state) result" where
  "signature 0 md5 fs st = Inl RuntimeError"
| "signature (Suc n) md5 fs (k0, b0) =
     (case t_cache_sig k0 of
        Some (s, rs) \<Rightarrow> Inr (s, k0, b0)
      | None \<Rightarrow>
          rbind (sig_explicit_deps md5 fs (k0\<lparr>t_m := []\<rparr>, b0)) (\<lambda>(exp_sig, st1).
            case sig_vars md5 st1 of
              (var_sig, k2, b2) \<Rightarrow>
                rbind (case t_scan k2 of None \<Rightarrow> Inr (Some SIG_NIL, k2, b2) | Some scan \<Rightarrow> sig_implicit_deps md5 fs scan (k2, b2))
                  (\<lambda>(imp, k3, b3).
                    case imp of
                      None \<Rightarrow> signature n md5 fs (k3, b3)
                    | Some imp_sig \<Rightarrow>
                        let ret = md5 (t_m k3)
                        in Inr (ret, k3\<lparr>t_cache_sig := Some (ret, exp_sig, imp_sig, var_sig)\<rparr>, b3))))"

text \<open>One retry is enough.\<close>

definition task_signature :: "(string \<Rightarrow> string) \<Rightarrow> fsys \<Rightarrow> sig_state \<Rightarrow> (string \<times> sig_state) result" where
  "task_signature = signature 2"

subsection \<open>Running a task\<close>

text \<open>\<open>done\<close> is the attribute \<open>hasrun\<close> of the tasks; \<open>NOT_RUN\<close> is 0. The first test only prints a warning.\<close>

definition runnable_status :: "(string \<Rightarrow> string) \<Rightarrow> fsys \<Rightarrow> (nat \<Rightarrow> hasrun) \<Rightarrow> sig_state \<Rightarrow> (task_status \<times> sig_state) result" where
  "runnable_status md5 fs runs = (\<lambda>(k0, b0).
     if list_ex (\<lambda>a. runs a = NOT_RUN) (t_run_after k0) then Inr (ASK_LATER, k0, b0)
     else rbind (task_signature md5 fs (k0, b0)) (\<lambda>(new_sig, k1, b1).
       rmap (\<lambda>(key, k, b).
           (case task_sigs b key of
              None \<Rightarrow> RUN_ME
            | Some ps \<Rightarrow>
                if list_ex (\<lambda>x. sig_of k (b_tree b) x \<noteq> Some new_sig) (t_outputs k) then RUN_ME
                else if new_sig \<noteq> fst ps then RUN_ME else SKIP_ME, k, b))
         (unique_id md5 k1 b1)))"

definition set_node_sig :: "string option \<Rightarrow> string \<Rightarrow> nat \<Rightarrow> bctx \<Rightarrow> bctx" where
  "set_node_sig v s x b = b\<lparr>b_tree := set_sig v (n_id (node_at (b_tree b) x)) (Some s) (b_tree b)\<rparr>"

text \<open>
  \<open>post_run\<close>, up to the copy of the files into the global cache: \<open>ex\<close> says which paths exist. The value
  \<open>MISSING\<close> is the attribute \<open>hasrun\<close> that is set before a \<open>WafError\<close> is raised.
\<close>

fun store_outputs :: "(string \<Rightarrow> bool) \<Rightarrow> string \<Rightarrow> string \<Rightarrow> nat list \<Rightarrow> bctx \<Rightarrow> (bctx + bctx) result" where
  "store_outputs ex v s [] b = Inr (Inr b)"
| "store_outputs ex v s (x # xs) b =
     rbind (abspath (b_tree b) x (Some v)) (\<lambda>(p, t).
       let b1 = b\<lparr>b_tree := t\<rparr> in
       if \<not> ex p then Inr (Inl b1) else store_outputs ex v s xs (set_node_sig (Some v) s x b1))"

definition post_run :: "(string \<Rightarrow> string) \<Rightarrow> fsys \<Rightarrow> (string \<Rightarrow> bool) \<Rightarrow> sig_state \<Rightarrow> (hasrun option \<times> sig_state) result" where
  "post_run md5 fs ex st =
     rbind (task_signature md5 fs st) (\<lambda>(s, k, b).
       rbind (store_outputs ex (t_variant k) s (t_outputs k) b) (\<lambda>r.
         case r of
           Inl b1 \<Rightarrow> Inr (Some MISSING, k, b1)
         | Inr b1 \<Rightarrow>
             rmap (\<lambda>(key, k2, b2). (None, k2, b2\<lparr>task_sigs := (task_sigs b2)(key := t_cache_sig k2)\<rparr>)) (unique_id md5 k b1)))"

text \<open>
  What \<open>can_retrieve_cache\<close> asks the global cache: whether it is in use, the time of the directory for a
  signature before and after, and whether the file of a node could be copied.
\<close>

record gcache =
  gc_used :: bool
  gc_before :: "string \<Rightarrow> nat option"
  gc_copy :: "string \<Rightarrow> nat \<Rightarrow> bool"
  gc_after :: "string \<Rightarrow> nat option"

text \<open>All nodes get the signature for the variant of the last one.\<close>

definition can_retrieve_cache :: "(string \<Rightarrow> string) \<Rightarrow> fsys \<Rightarrow> gcache \<Rightarrow> sig_state \<Rightarrow> (bool \<times> sig_state) result" where
  "can_retrieve_cache md5 fs gc st =
     (if \<not> gc_used gc \<or> t_outputs (fst st) = [] then Inr (False, st)
      else rmap (\<lambda>(s, k, b).
        if gc_before gc s = None \<or> list_ex (\<lambda>x. \<not> gc_copy gc s x) (t_outputs k) \<or> gc_after gc s = None \<or>
          gc_before gc s \<noteq> gc_after gc s
        then (False, k, b)
        else (True, k\<lparr>t_cached := True\<rparr>,
          fold (set_node_sig (node_variant (b_tree b) (last (t_outputs k)) (Some (t_variant k))) s) (t_outputs k) b))
        (task_signature md5 fs st))"

subsection \<open>Changes of a task class\<close>

text \<open>\<open>always_run\<close>, with the class's \<open>runnable_status\<close> as argument.\<close>

type_synonym status_fun = "sig_state \<Rightarrow> (task_status \<times> sig_state) result"

definition always_run :: "status_fun \<Rightarrow> status_fun" where
  "always_run old st = rmap (\<lambda>(s, st1). (RUN_ME, st1)) (old st)"

fun hash_outputs :: "fsys \<Rightarrow> nat list \<Rightarrow> sig_state \<Rightarrow> sig_state result" where
  "hash_outputs fs [] st = Inr st"
| "hash_outputs fs (x # xs) (k, b) =
     rbind (abspath (b_tree b) x (Some (t_variant k))) (\<lambda>(p, t).
       rbind (fs_h_file fs p) (\<lambda>h. hash_outputs fs xs (k, set_node_sig (Some (t_variant k)) h x (b\<lparr>b_tree := t\<rparr>))))"

text \<open>The \<open>post_run\<close> and \<open>runnable_status\<close> that \<open>update_outputs\<close> gives a class.\<close>

definition update_post_run ::
  "fsys \<Rightarrow> (sig_state \<Rightarrow> (hasrun option \<times> sig_state) result) \<Rightarrow> sig_state \<Rightarrow> (hasrun option \<times> sig_state) result" where
  "update_post_run fs old st =
     rbind (old st) (\<lambda>(r, k, b).
       if r \<noteq> None then Inr (r, k, b)
       else if t_outputs k = [] then Inl IndexError
       else rmap (\<lambda>st1. (None, st1)) (hash_outputs fs (t_outputs k) (k, b)))"

text \<open>A missing previous signature (\<open>KeyError\<close>) and a task without outputs (\<open>IndexError\<close>) give \<open>RUN_ME\<close>.\<close>

definition update_runnable_status :: "(string \<Rightarrow> string) \<Rightarrow> fsys \<Rightarrow> status_fun \<Rightarrow> status_fun" where
  "update_runnable_status md5 fs old st =
     rbind (old st) (\<lambda>(status, k0, b0).
       if status \<noteq> RUN_ME then Inr (status, k0, b0)
       else if t_outputs k0 = [] then Inr (RUN_ME, k0, b0)
       else case task_signature md5 fs (k0, b0) of
         Inl e \<Rightarrow> if e = KeyError \<or> e = IndexError then Inr (RUN_ME, k0, b0) else Inl e
       | Inr (new_sig, k1, b1) \<Rightarrow>
           rmap (\<lambda>(key, k, b).
             (case task_sigs b key of
                None \<Rightarrow> RUN_ME
              | Some ps \<Rightarrow>
                  if fst ps = new_sig \<and>
                    list_all (\<lambda>x. node_sigs (b_tree b) (Some (t_variant k)) (n_id (node_at (b_tree b) x)) \<noteq> None) (t_outputs k)
                  then SKIP_ME else RUN_ME, k, b))
             (unique_id md5 k1 b1))"

subsection \<open>Order from files\<close>

text \<open>
  \<open>extract_outputs\<close>: the tasks by variant, with the dictionaries of the tasks that read and that write a
  node. The order of the links between tasks is the order of the dictionaries.
\<close>

type_synonym io_table = "(nat \<times> nat list) list \<times> (nat \<times> nat list) list"

definition table_add :: "nat \<Rightarrow> nat \<Rightarrow> (nat \<times> nat list) list \<Rightarrow> (nat \<times> nat list) list" where
  "table_add x a d = dict_set a (case map_of d a of None \<Rightarrow> [x] | Some l \<Rightarrow> l @ [x]) d"

definition io_add :: "(nat \<Rightarrow> btask) \<Rightarrow> ntree \<Rightarrow> nat \<Rightarrow> (string \<times> io_table) list \<Rightarrow> (string \<times> io_table) list" where
  "io_add tsk t x v =
     (let k = tsk x;
          (ins, outs) = (case map_of v (t_variant k) of None \<Rightarrow> ([], []) | Some p \<Rightarrow> p)
      in dict_set (t_variant k)
           (fold (\<lambda>a. table_add x (n_id (node_at t a))) (t_inputs k) ins,
            fold (\<lambda>a. table_add x (n_id (node_at t a))) (t_outputs k) outs) v)"

definition io_links :: "io_table \<Rightarrow> (nat \<times> nat) list" where
  "io_links p =
     concat (map (\<lambda>i. case map_of (snd p) i of
         None \<Rightarrow> []
       | Some bs \<Rightarrow> concat (map (\<lambda>a. map (\<lambda>b. (a, b)) bs) (case map_of (fst p) i of None \<Rightarrow> [] | Some as \<Rightarrow> as))) (map fst (fst p)))"

definition extract_outputs :: "(nat \<Rightarrow> btask) \<Rightarrow> ntree \<Rightarrow> nat list \<Rightarrow> after \<Rightarrow> after" where
  "extract_outputs tsk t ts af =
     fold (\<lambda>(a, b). set_run_after a b) (concat (map (\<lambda>(v, p). io_links p) (fold (io_add tsk t) ts []))) af"

section \<open>The computation of a signature ends\<close>

lemma foldM_inv:
  assumes "\<And>x s s'. P s \<Longrightarrow> f x s = Inr s' \<Longrightarrow> P s'"
  shows "P s \<Longrightarrow> foldM f xs s = Inr s' \<Longrightarrow> P s'"
proof (induction xs arbitrary: s)
  case (Cons x xs)
  then obtain u where "f x s = Inr u" "foldM f xs u = Inr s'" by (auto simp: rbind_Inr_iff)
  then show ?case using Cons.IH[of u] assms[OF Cons.prems(1)] by blast
qed auto

text \<open>
  What the parts of a signature keep: of the task everything but the text for the digest, of the context
  the signatures of tasks and the dependencies.
\<close>

definition keeps :: "sig_state \<Rightarrow> sig_state \<Rightarrow> bool" where
  "keeps st st' \<longleftrightarrow> fst st' = (fst st)\<lparr>t_m := t_m (fst st')\<rparr> \<and> task_sigs (snd st') = task_sigs (snd st) \<and>
     node_deps (snd st') = node_deps (snd st)"

lemma keeps_refl [simp]: "keeps st st"
  by (simp add: keeps_def)

lemma keeps_trans: "keeps a b \<Longrightarrow> keeps b c \<Longrightarrow> keeps a c"
  unfolding keeps_def by simp (metis btask.surjective btask.update_convs(14))

lemma keeps_upd [simp]: "keeps (k, b) (upd s k, b\<lparr>b_tree := t\<rparr>)" "keeps (k, b) (upd s k, b)"
    "keeps (k, b) (k, b\<lparr>b_tree := t\<rparr>)" "keeps (k, b) (k\<lparr>t_m := m\<rparr>, b)"
  by (simp_all add: keeps_def upd_def)

lemma explicit_one_keeps: "explicit_one fs x st = Inr st' \<Longrightarrow> keeps st st'"
  by (auto simp: explicit_one_def rbind_Inr_iff split: prod.splits option.splits)

lemma manual_one_keeps: "manual_one fs v st = Inr st' \<Longrightarrow> keeps st st'"
  by (auto simp: manual_one_def rbind_Inr_iff split: prod.splits option.splits man_dep.splits)

lemma foldM_keeps:
  assumes "\<And>x st st'. f x st = Inr st' \<Longrightarrow> keeps st st'"
    and "foldM f xs st = Inr st'"
  shows "keeps st st'"
proof (rule foldM_inv[of "keeps st" f, OF _ keeps_refl assms(2)])
  show "keeps st s'" if "keeps st s" "f x s = Inr s'" for x s s' using keeps_trans[OF that(1) assms(1)[OF that(2)]] .
qed

lemma manual_deps_keeps: "manual_deps fs x st = Inr st' \<Longrightarrow> keeps st st'"
  by (auto simp: manual_deps_def intro: foldM_keeps[OF manual_one_keeps] split: prod.splits option.splits)

lemma deps_node_one_keeps: "deps_node_one x st = Inr st' \<Longrightarrow> keeps st st'"
  by (auto simp: deps_node_one_def split: prod.splits option.splits)

lemma sig_explicit_deps_keeps:
  assumes "sig_explicit_deps md5 fs st = Inr (s, st')"
  shows "keeps st st'"
proof -
  obtain st1 st2 where 1: "foldM (explicit_one fs) (t_inputs (fst st) @ t_dep_nodes (fst st)) st = Inr st1"
    and 2: "foldM (manual_deps fs) (t_inputs (fst st) @ t_outputs (fst st)) st1 = Inr st2"
    and 3: "foldM deps_node_one (t_deps_nodes (fst st)) st2 = Inr st'"
    using assms by (auto simp: sig_explicit_deps_def rbind_Inr_iff rmap_Inr_iff split: prod.splits)
  show ?thesis
    using keeps_trans[OF foldM_keeps[OF explicit_one_keeps 1] keeps_trans[OF foldM_keeps[OF manual_deps_keeps 2]
      foldM_keeps[OF deps_node_one_keeps 3]]] by simp
qed

lemma hash_env_vars_keeps: "hash_env_vars md5 k vs b = (s, b') \<Longrightarrow> keeps (k, b) (k, b')"
  by (auto simp: hash_env_vars_def keeps_def Let_def split: option.splits)

lemma sig_vars_keeps: "sig_vars md5 st = (s, st') \<Longrightarrow> keeps st st'"
  by (auto simp: sig_vars_def hash_env_vars_def keeps_def upd_def Let_def split: prod.splits option.splits if_splits)

lemma implicit_loop_keeps: "implicit_loop fs xs st = (r, st') \<Longrightarrow> keeps st st'"
proof (induction fs xs st arbitrary: r st' rule: implicit_loop.induct)
  case (2 fs x xs k b)
  show ?case
  proof (cases "rescan_parent fs False x (b_tree b)")
    case (Inr t)
    show ?thesis
    proof (cases "sig_of k t x")
      case (Some s)
      then have "keeps (upd s k, b\<lparr>b_tree := t\<rparr>) st'" using 2 Inr by simp
      then show ?thesis using keeps_trans keeps_upd(1) by blast
    qed (use 2 Inr in auto)
  qed (use 2 in auto)
qed auto

lemma compute_keeps: "compute_sig_implicit_deps md5 fs key st = (r, st') \<Longrightarrow> keeps st st'"
  by (auto simp: compute_sig_implicit_deps_def split: prod.splits dest!: implicit_loop_keeps)

lemma unique_id_uid: "unique_id md5 k b = Inr (key, k', b') \<Longrightarrow> t_uid k' = Some key \<and> t_cache_sig k' = t_cache_sig k \<and> t_scan k' = t_scan k"
  by (auto simp: unique_id_def rmap_Inr_iff split: option.splits)

text \<open>\<open>ValueError\<close> leaves a context in which the task has no signature, so that it does not come again.\<close>

lemma sig_implicit_deps_again:
  assumes "sig_implicit_deps md5 fs scan st = Inr (None, k', b')"
  shows "\<exists>key. t_uid k' = Some key \<and> task_sigs b' key = None \<and> t_cache_sig k' = t_cache_sig (fst st) \<and> t_scan k' = t_scan (fst st)"
proof -
  obtain k0 b0 where st: "st = (k0, b0)" by (cases st)
  obtain key k b where u: "unique_id md5 k0 b0 = Inr (key, k, b)" using assms st by (auto simp: sig_implicit_deps_def rbind_Inr_iff)
  obtain r k1 b1 where c: "compute_sig_implicit_deps md5 fs key (k, b) = (r, k1, b1)"
    "k' = k1" "b' = b1\<lparr>task_sigs := (task_sigs b1)(key := None)\<rparr>"
    using assms unfolding st sig_implicit_deps_def prod.case u rbind_simps
    by (auto simp: Let_def split: option.splits prod.splits sum.splits if_splits)
  then show ?thesis using compute_keeps[OF c(1)] unique_id_uid[OF u] unfolding st keeps_def
    by simp (metis btask.select_convs(12,13,15) btask.surjective btask.update_convs(14))
qed

lemma sig_implicit_deps_first:
  assumes "t_uid k = Some key" and "task_sigs b key = None"
  shows "sig_implicit_deps md5 fs scan (k, b) \<noteq> Inr (None, st')"
  using assms by (auto simp: sig_implicit_deps_def unique_id_def Let_def split: prod.splits sum.splits)

lemma signature_first:
  assumes "t_uid k = Some key" and "task_sigs b key = None"
  shows "signature (Suc n) md5 fs (k, b) = signature 1 md5 fs (k, b)"
proof -
  have "sig_implicit_deps md5 fs scan (k2, b2) \<noteq> Inr (None, st')"
    if "sig_explicit_deps md5 fs (k\<lparr>t_m := []\<rparr>, b) = Inr (e, st1)" "sig_vars md5 st1 = (v, k2, b2)" for e st1 v k2 b2 scan st'
  proof -
    have "keeps (k, b) (k2, b2)"
      using keeps_trans[OF keeps_upd(4) keeps_trans[OF sig_explicit_deps_keeps[OF that(1)] sig_vars_keeps[OF that(2)]]] .
    then have "t_uid k2 = Some key" "task_sigs b2 key = None" using assms unfolding keeps_def
      by (metis btask.select_convs(13) btask.surjective btask.update_convs(14) fst_conv, simp)
    then show ?thesis by (rule sig_implicit_deps_first)
  qed
  then show ?thesis
    by (auto simp: rbind_def split: option.splits sum.splits prod.splits)
qed



section \<open>What a signature depends on\<close>

text \<open>A node whose directory has been scanned, with a signature.\<close>

definition node_ready :: "btask \<Rightarrow> ntree \<Rightarrow> nat \<Rightarrow> bool" where
  "node_ready k t x \<longleftrightarrow> (case n_parent (node_at t x) of None \<Rightarrow> False | Some d \<Rightarrow> scanned t (n_id (node_at t d))) \<and> sig_of k t x \<noteq> None"

definition node_text :: "btask \<Rightarrow> ntree \<Rightarrow> nat \<Rightarrow> string" where
  "node_text k t x = (case sig_of k t x of None \<Rightarrow> [] | Some s \<Rightarrow> s)"

fun man_text :: "btask \<Rightarrow> ntree \<Rightarrow> man_dep \<Rightarrow> string" where
  "man_text k t (DepNode x) = node_text k t x"
| "man_text k t (DepCall s) = s"
| "man_text k t (DepText s) = s"

text \<open>The manual dependencies of a task, and the nodes among them.\<close>

definition man_of :: "bctx \<Rightarrow> nat \<Rightarrow> man_dep list" where
  "man_of b x = (case deps_man b (n_id (node_at (b_tree b) x)) of None \<Rightarrow> [] | Some d \<Rightarrow> d)"

definition man_deps :: "btask \<Rightarrow> bctx \<Rightarrow> man_dep list" where
  "man_deps k b = concat (map (man_of b) (t_inputs k @ t_outputs k))"

definition man_nodes :: "btask \<Rightarrow> bctx \<Rightarrow> nat list" where
  "man_nodes k b = concat (map (\<lambda>v. case v of DepNode x \<Rightarrow> [x] | _ \<Rightarrow> []) (man_deps k b))"

definition explicit_nodes :: "btask \<Rightarrow> bctx \<Rightarrow> nat list" where
  "explicit_nodes k b = t_inputs k @ t_dep_nodes k @ man_nodes k b @ t_deps_nodes k"

definition explicit_text :: "btask \<Rightarrow> bctx \<Rightarrow> string" where
  "explicit_text k b =
     concat (map (node_text k (b_tree b)) (t_inputs k @ t_dep_nodes k)) @
     concat (map (man_text k (b_tree b)) (man_deps k b)) @
     concat (map (node_text k (b_tree b)) (t_deps_nodes k))"

lemma upd_simps [simp]: "upd [] k = k" "upd s (upd r k) = upd (r @ s) k" "sig_of (upd s k) = sig_of k"
    "node_text (upd s k) = node_text k" "man_text (upd s k) = man_text k" "t_m (upd s k) = t_m k @ s"
    "node_ready (upd s k) = node_ready k"
proof -
  show 1: "sig_of (upd s k) = sig_of k" by (auto simp: upd_def sig_of_def fun_eq_iff)
  show 2: "node_text (upd s k) = node_text k" using 1 by (auto simp: node_text_def fun_eq_iff)
  show "node_ready (upd s k) = node_ready k" using 1 by (auto simp: node_ready_def fun_eq_iff)
  show "man_text (upd s k) = man_text k"
  proof (intro ext)
    show "man_text (upd s k) t v = man_text k t v" for t v using 2 by (cases v) auto
  qed
qed (simp_all add: upd_def)

lemma rescan_parent_ready: "node_ready k t x \<Longrightarrow> rescan_parent fs always x t = Inr t"
  by (auto simp: node_ready_def rescan_parent_def rescan_def split: option.splits)

lemma sig_of_ready: "node_ready k t x \<Longrightarrow> sig_of k t x = Some (node_text k t x)"
  by (auto simp: node_ready_def node_text_def split: option.splits)

lemma explicit_fold:
  "\<forall>x \<in> set xs. node_ready k (b_tree b) x \<Longrightarrow>
    foldM (explicit_one fs) xs (k, b) = Inr (upd (concat (map (node_text k (b_tree b)) xs)) k, b)"
proof (induction xs arbitrary: k)
  case (Cons x xs)
  then have "node_ready k (b_tree b) x" by simp
  then show ?case using Cons.IH[of "upd (node_text k (b_tree b) x) k"] Cons.prems
    by (simp add: explicit_one_def rescan_parent_ready[of k] sig_of_ready)
qed simp

lemma manual_fold:
  "\<forall>x. DepNode x \<in> set vs \<longrightarrow> node_ready k (b_tree b) x \<Longrightarrow>
    foldM (manual_one fs) vs (k, b) = Inr (upd (concat (map (man_text k (b_tree b)) vs)) k, b)"
proof (induction vs arbitrary: k)
  case (Cons v vs)
  then have "manual_one fs v (k, b) = Inr (upd (man_text k (b_tree b) v) k, b)"
    by (cases v) (simp_all add: manual_one_def rescan_parent_ready[of k] sig_of_ready)
  then show ?case using Cons.IH[of "upd (man_text k (b_tree b) v) k"] Cons.prems by simp
qed simp

lemma manual_deps_fold:
  "\<forall>x. DepNode x \<in> set (concat (map (man_of b) ys)) \<longrightarrow> node_ready k (b_tree b) x \<Longrightarrow>
    foldM (manual_deps fs) ys (k, b) = Inr (upd (concat (map (man_text k (b_tree b)) (concat (map (man_of b) ys)))) k, b)"
proof (induction ys arbitrary: k)
  case (Cons y ys)
  have "manual_deps fs y (k, b) = Inr (upd (concat (map (man_text k (b_tree b)) (man_of b y))) k, b)"
    using manual_fold[of "man_of b y" k b fs] Cons.prems by (auto simp: manual_deps_def man_of_def split: option.splits)
  then show ?case using Cons.IH[of "upd (concat (map (man_text k (b_tree b)) (man_of b y))) k"] Cons.prems by simp
qed simp

lemma deps_fold:
  "\<forall>x \<in> set xs. node_ready k (b_tree b) x \<Longrightarrow>
    foldM deps_node_one xs (k, b) = Inr (upd (concat (map (node_text k (b_tree b)) xs)) k, b)"
proof (induction xs arbitrary: k)
  case (Cons x xs)
  then have "node_ready k (b_tree b) x" by simp
  then show ?case using Cons.IH[of "upd (node_text k (b_tree b) x) k"] Cons.prems
    by (simp add: deps_node_one_def sig_of_ready)
qed simp

lemma man_nodes_iff: "x \<in> set (man_nodes k b) \<longleftrightarrow> DepNode x \<in> set (man_deps k b)"
  by (force simp: man_nodes_def split: man_dep.splits)

lemma sig_explicit_deps_ready:
  assumes "\<forall>x \<in> set (explicit_nodes k b). node_ready k (b_tree b) x"
  shows "sig_explicit_deps md5 fs (k, b) = Inr (md5 (t_m k @ explicit_text k b), upd (explicit_text k b) k, b)"
proof -
  have m: "\<forall>x. DepNode x \<in> set (concat (map (man_of b) (t_inputs k @ t_outputs k))) \<longrightarrow> node_ready k (b_tree b) x"
    using assms unfolding explicit_nodes_def man_deps_def[symmetric] by (auto simp: man_nodes_iff)
  have e: "\<forall>x \<in> set (t_inputs k @ t_dep_nodes k). node_ready k (b_tree b) x" "\<forall>x \<in> set (t_deps_nodes k). node_ready k (b_tree b) x"
    using assms by (auto simp: explicit_nodes_def)
  show ?thesis unfolding sig_explicit_deps_def prod.case explicit_fold[OF e(1)] rbind_simps
    using manual_deps_fold[of b "t_inputs k @ t_outputs k" "upd s k" for s] m deps_fold[of "t_deps_nodes k" "upd s k" b for s] e(2)
    by (simp del: map_append concat_append foldM.simps add: explicit_text_def man_deps_def)
qed

text \<open>The part of the text that stands for the variables, and the context with the cache filled.\<close>

definition vars_text :: "(string \<Rightarrow> string) \<Rightarrow> btask \<Rightarrow> bctx \<Rightarrow> string \<times> bctx" where
  "vars_text md5 k b =
     (let (s1, b1) = hash_env_vars md5 k (t_vars k) b; dv = attr_iter (t_dep_vars k)
      in if dv = [] then (s1, b1) else let (s2, b2) = hash_env_vars md5 k dv b1 in (s1 @ s2, b2))"

lemma hash_env_vars_upd [simp]: "hash_env_vars md5 (upd s k) = hash_env_vars md5 k"
  by (intro ext) (simp add: hash_env_vars_def upd_def Let_def split: option.splits)

lemma sig_vars_text: "sig_vars md5 (k, b) = (case vars_text md5 k b of (s, b') \<Rightarrow> (md5 (t_m k @ s), upd s k, b'))"
  by (auto simp: sig_vars_def vars_text_def Let_def split: prod.splits)

lemma hash_env_vars_same: "hash_env_vars md5 k vs b = (s, b') \<Longrightarrow>
    b' = b\<lparr>cache_sig_vars := cache_sig_vars b'\<rparr> \<and> cache_sig_vars b' (t_env k, vs) = Some s \<and>
    (\<forall>i s. cache_sig_vars b i = Some s \<longrightarrow> cache_sig_vars b' i = Some s)"
  by (auto simp: hash_env_vars_def Let_def split: option.splits)

lemma vars_text_same:
  assumes "vars_text md5 k b = (s, b')"
  shows "b' = b\<lparr>cache_sig_vars := cache_sig_vars b'\<rparr>"
    and "cache_sig_vars c = cache_sig_vars b' \<Longrightarrow> vars_text md5 k c = (s, c)"
proof -
  let ?dv = "attr_iter (t_dep_vars k)"
  obtain s1 b1 where 1: "hash_env_vars md5 k (t_vars k) b = (s1, b1)" by (cases "hash_env_vars md5 k (t_vars k) b")
  obtain s2 b2 where 2: "hash_env_vars md5 k ?dv b1 = (s2, b2)" by (cases "hash_env_vars md5 k ?dv b1")
  note h = hash_env_vars_same[OF 1] hash_env_vars_same[OF 2]
  have c: "?dv = [] \<Longrightarrow> (s, b') = (s1, b1)" "?dv \<noteq> [] \<Longrightarrow> (s, b') = (s1 @ s2, b2)"
    using assms 1 2 by (auto simp: vars_text_def)
  show "b' = b\<lparr>cache_sig_vars := cache_sig_vars b'\<rparr>"
    using c h by (cases "?dv = []") (simp, metis bctx.surjective bctx.update_convs(6) prod.inject)
  assume eq: "cache_sig_vars c = cache_sig_vars b'"
  have "hash_env_vars md5 k (t_vars k) c = (s1, c)"
    using c h eq by (cases "?dv = []") (auto simp: hash_env_vars_def)
  moreover have "?dv \<noteq> [] \<Longrightarrow> hash_env_vars md5 k ?dv c = (s2, c)"
    using c h eq by (auto simp: hash_env_vars_def)
  ultimately show "vars_text md5 k c = (s, c)" using c by (cases "?dv = []") (auto simp: vars_text_def)
qed


lemma set_m_simps [simp]: "sig_of (k\<lparr>t_m := m\<rparr>) = sig_of k" "node_ready (k\<lparr>t_m := m\<rparr>) = node_ready k"
    "explicit_nodes (k\<lparr>t_m := m\<rparr>) = explicit_nodes k" "explicit_text (k\<lparr>t_m := m\<rparr>) = explicit_text k"
    "vars_text md5 (k\<lparr>t_m := m\<rparr>) = vars_text md5 k"
proof -
  show 1: "sig_of (k\<lparr>t_m := m\<rparr>) = sig_of k" by (auto simp: sig_of_def fun_eq_iff)
  then have 2: "node_text (k\<lparr>t_m := m\<rparr>) = node_text k" by (auto simp: node_text_def fun_eq_iff)
  have 3: "man_text (k\<lparr>t_m := m\<rparr>) = man_text k"
  proof (intro ext)
    show "man_text (k\<lparr>t_m := m\<rparr>) t v = man_text k t v" for t v using 2 by (cases v) auto
  qed
  have 4: "man_deps (k\<lparr>t_m := m\<rparr>) = man_deps k" by (auto simp: man_deps_def fun_eq_iff)
  show "node_ready (k\<lparr>t_m := m\<rparr>) = node_ready k" using 1 by (auto simp: node_ready_def fun_eq_iff)
  show "explicit_nodes (k\<lparr>t_m := m\<rparr>) = explicit_nodes k" using 4 by (auto simp: explicit_nodes_def man_nodes_def fun_eq_iff)
  show "explicit_text (k\<lparr>t_m := m\<rparr>) = explicit_text k" by (intro ext) (simp add: explicit_text_def 2 3 4)
  have "hash_env_vars md5 (k\<lparr>t_m := m\<rparr>) = hash_env_vars md5 k"
    by (intro ext) (simp add: hash_env_vars_def Let_def split: option.splits)
  note h = this
  show "vars_text md5 (k\<lparr>t_m := m\<rparr>) = vars_text md5 k" by (intro ext) (simp add: vars_text_def Let_def h split: prod.splits)
qed

text \<open>A pass of \<open>signature\<close> up to the implicit dependencies.\<close>

lemma signature_pass:
  assumes "t_cache_sig k = None" and "\<forall>x \<in> set (explicit_nodes k b). node_ready k (b_tree b) x"
    and "vars_text md5 k b = (v, b1)"
  shows "signature (Suc n) md5 fs (k, b) =
    (let k2 = k\<lparr>t_m := explicit_text k b @ v\<rparr> in
     rbind (case t_scan k of None \<Rightarrow> Inr (Some SIG_NIL, k2, b1) | Some scan \<Rightarrow> sig_implicit_deps md5 fs scan (k2, b1))
       (\<lambda>(imp, k3, b3).
          case imp of
            None \<Rightarrow> signature n md5 fs (k3, b3)
          | Some i \<Rightarrow> Inr (md5 (t_m k3), k3\<lparr>t_cache_sig := Some (md5 (t_m k3), md5 (explicit_text k b), i, md5 (explicit_text k b @ v))\<rparr>, b3)))"
proof -
  have "sig_explicit_deps md5 fs (k\<lparr>t_m := []\<rparr>, b) = Inr (md5 (explicit_text k b), k\<lparr>t_m := explicit_text k b\<rparr>, b)"
    using sig_explicit_deps_ready[of "k\<lparr>t_m := []\<rparr>" b md5 fs] assms(2) by (simp add: upd_def)
  moreover have "sig_vars md5 (k\<lparr>t_m := explicit_text k b\<rparr>, b) = (md5 (explicit_text k b @ v), k\<lparr>t_m := explicit_text k b @ v\<rparr>, b1)"
    using assms(3) by (simp add: sig_vars_text upd_def)
  ultimately show ?thesis unfolding signature.simps(2) Let_def using assms(1) by simp
qed


section \<open>A task that has run is skipped\<close>

lemma implicit_loop_ready:
  "\<forall>x \<in> set xs. node_ready k (b_tree b) x \<Longrightarrow>
    implicit_loop fs xs (k, b) = (Inr (), upd (concat (map (node_text k (b_tree b)) xs)) k, b)"
proof (induction xs arbitrary: k)
  case (Cons x xs)
  then have "node_ready k (b_tree b) x" by simp
  then show ?case using Cons.IH[of "upd (node_text k (b_tree b) x) k"] Cons.prems
    by (simp add: rescan_parent_ready[of k] sig_of_ready)
qed simp

text \<open>The nodes that a task depends on implicitly: those found before and those that the scanner finds.\<close>

definition old_deps :: "bctx \<Rightarrow> string \<Rightarrow> nat list" where
  "old_deps b key = (case node_deps b key of None \<Rightarrow> [] | Some l \<Rightarrow> l)"

definition implicit_nodes :: "btask \<Rightarrow> bctx \<Rightarrow> string \<Rightarrow> nat list" where
  "implicit_nodes k b key = (case t_scan k of None \<Rightarrow> [] | Some scan \<Rightarrow> old_deps b key @ fst (scan (b_tree b)))"

definition implicit_text :: "btask \<Rightarrow> bctx \<Rightarrow> string \<Rightarrow> string" where
  "implicit_text k b key = (if t_scan k = None then [] else concat (map (node_text k (b_tree b)) (old_deps b key)))"

lemma compute_ready:
  assumes "\<forall>x \<in> set (old_deps b key). node_ready k (b_tree b) x"
  shows "compute_sig_implicit_deps md5 fs key (k, b) =
    (let m = t_m k @ concat (map (node_text k (b_tree b)) (old_deps b key)) in (Inr (md5 m), k\<lparr>t_m := m\<rparr>, b))"
  using implicit_loop_ready[OF assms] by (simp add: compute_sig_implicit_deps_def old_deps_def upd_def Let_def)

text \<open>The whole text under the digest, and what a computed signature looks like.\<close>

definition full_text :: "(string \<Rightarrow> string) \<Rightarrow> btask \<Rightarrow> bctx \<Rightarrow> bctx \<Rightarrow> string \<Rightarrow> string" where
  "full_text md5 k b b1 key = explicit_text k b @ fst (vars_text md5 k b) @ implicit_text k b1 key"

definition signed :: "(string \<Rightarrow> string) \<Rightarrow> btask \<Rightarrow> bctx \<Rightarrow> string \<Rightarrow> string \<Rightarrow> btask \<Rightarrow> bctx \<Rightarrow> bool" where
  "signed md5 k b key s k1 b1 \<longleftrightarrow>
     s = md5 (full_text md5 k b b1 key) \<and>
     (\<exists>m e i v. k1 = k\<lparr>t_m := m, t_cache_sig := Some (s, e, i, v)\<rparr> \<and> (t_scan k \<noteq> None \<longrightarrow> i = s)) \<and>
     b_tree b1 = b_tree b \<and> deps_man b1 = deps_man b \<and> cache_sig_vars b1 = cache_sig_vars (snd (vars_text md5 k b)) \<and>
     set (old_deps b1 key) \<subseteq> (if t_scan k = None then set (old_deps b1 key) else set (implicit_nodes k b key))"

lemma explicit_same_tree:
  assumes "b_tree c = b_tree b" and "deps_man c = deps_man b"
  shows "explicit_nodes k c = explicit_nodes k b" and "explicit_text k c = explicit_text k b"
proof -
  have "man_of c = man_of b" using assms by (auto simp: man_of_def fun_eq_iff)
  then show "explicit_nodes k c = explicit_nodes k b" "explicit_text k c = explicit_text k b"
    using assms by (auto simp: explicit_nodes_def man_nodes_def man_deps_def explicit_text_def)
qed

text \<open>The pass with a scanner, when the task has no signature in the context.\<close>

lemma signature_scans:
  assumes "t_cache_sig k = None" and "t_uid k = Some key" and "t_scan k = Some scan" and "task_sigs b key = None"
    and "\<forall>x \<in> set (explicit_nodes k b @ implicit_nodes k b key). node_ready k (b_tree b) x"
  shows "\<exists>k1 b1. signature (Suc n) md5 fs (k, b) = Inr (md5 (full_text md5 k b b1 key), k1, b1) \<and>
    signed md5 k b key (md5 (full_text md5 k b b1 key)) k1 b1"
proof -
  obtain v c where v: "vars_text md5 k b = (v, c)" by (cases "vars_text md5 k b")
  have c: "b_tree c = b_tree b" "task_sigs c = task_sigs b" "deps_man c = deps_man b" by (subst vars_text_same(1)[OF v], simp)+
  obtain ns rs where scan: "scan (b_tree c) = (ns, rs)" by (cases "scan (b_tree c)")
  define b1 where "b1 = c\<lparr>node_deps := (node_deps c)(key \<mapsto> ns), raw_deps := (raw_deps c)(key \<mapsto> rs)\<rparr>"
  define T where "T = explicit_text k b @ v @ concat (map (node_text k (b_tree b)) ns)"
  have od: "old_deps b1 key = ns" by (simp add: b1_def old_deps_def)
  have ready: "\<forall>x \<in> set ns. node_ready k (b_tree b) x" using assms(3,5) scan c by (auto simp: implicit_nodes_def)
  have T: "full_text md5 k b b1 key = T"
    using assms(3) v c by (simp add: full_text_def implicit_text_def od T_def) (simp add: b1_def)
  define k2 where "k2 = k\<lparr>t_m := explicit_text k b @ v\<rparr>"
  have "node_text k2 = node_text k" using set_m_simps(1)[where k = k and m = "explicit_text k b @ v"] by (auto simp: node_text_def k2_def fun_eq_iff)
  then have "compute_sig_implicit_deps md5 fs key (k2, b1) = (Inr (md5 T), k\<lparr>t_m := T\<rparr>, b1)"
    using compute_ready[of b1 key k2 md5 fs] ready c by (simp add: od T_def Let_def) (simp add: b1_def k2_def)
  then have "sig_implicit_deps md5 fs scan (k2, c) = Inr (Some (md5 T), k\<lparr>t_m := T\<rparr>, b1)"
    using assms(2,4) scan c by (simp add: sig_implicit_deps_def unique_id_def k2_def b1_def Let_def)
  then have r: "signature (Suc n) md5 fs (k, b) = Inr (md5 T, k\<lparr>t_m := T, t_cache_sig := Some (md5 T, md5 (explicit_text k b), md5 T, md5 (explicit_text k b @ v))\<rparr>, b1)"
    using signature_pass[OF assms(1) _ v, of n fs] assms(3,5) by (simp add: k2_def)
  moreover have "signed md5 k b key (md5 T) (k\<lparr>t_m := T, t_cache_sig := Some (md5 T, md5 (explicit_text k b), md5 T, md5 (explicit_text k b @ v))\<rparr>) b1"
    unfolding signed_def T using assms(3) v c scan
    by (auto simp: od implicit_nodes_def) (auto simp: b1_def)
  ultimately show ?thesis using T by auto
qed

text \<open>The pass with a scanner, when the context has a signature of the task.\<close>

lemma signature_compares:
  assumes "t_cache_sig k = None" and "t_uid k = Some key" and "t_scan k = Some scan" and "task_sigs b key = Some (p0, p1, p2, p3)"
    and "\<forall>x \<in> set (explicit_nodes k b @ old_deps b key). node_ready k (b_tree b) x" and "vars_text md5 k b = (v, c)"
  shows "signature (Suc n) md5 fs (k, b) =
    (let T = full_text md5 k b b key in
     if p2 = md5 T
     then Inr (md5 T, k\<lparr>t_m := T, t_cache_sig := Some (md5 T, md5 (explicit_text k b), md5 T, md5 (explicit_text k b @ v))\<rparr>, c)
     else signature n md5 fs (k\<lparr>t_m := T\<rparr>, c\<lparr>task_sigs := (task_sigs c)(key := None)\<rparr>))"
proof -
  have c: "b_tree c = b_tree b" "task_sigs c = task_sigs b" "node_deps c = node_deps b"
    by (subst vars_text_same(1)[OF assms(6)], simp)+
  define T where "T = full_text md5 k b b key"
  have T: "T = explicit_text k b @ v @ concat (map (node_text k (b_tree b)) (old_deps b key))"
    using assms(3,6) by (simp add: T_def full_text_def implicit_text_def)
  define k2 where "k2 = k\<lparr>t_m := explicit_text k b @ v\<rparr>"
  have od: "old_deps c key = old_deps b key" using c by (simp add: old_deps_def)
  have "node_text k2 = node_text k" using set_m_simps(1)[where k = k and m = "explicit_text k b @ v"] by (auto simp: node_text_def k2_def fun_eq_iff)
  then have comp: "compute_sig_implicit_deps md5 fs key (k2, c) = (Inr (md5 T), k\<lparr>t_m := T\<rparr>, c)"
    using compute_ready[of c key k2 md5 fs] assms(5) c by (simp add: od T Let_def) (simp add: k2_def)
  have "unique_id md5 k2 c = Inr (key, k2, c)" using assms(2) by (simp add: unique_id_def k2_def)
  then have "sig_implicit_deps md5 fs scan (k2, c) =
      (if p2 = md5 T then Inr (Some (md5 T), k\<lparr>t_m := T\<rparr>, c) else Inr (None, k\<lparr>t_m := T\<rparr>, c\<lparr>task_sigs := (task_sigs c)(key := None)\<rparr>))"
    using comp assms(4) c by (simp add: sig_implicit_deps_def)
  then show ?thesis using signature_pass[OF assms(1) _ assms(6), of n fs] assms(3,5)
    by (simp add: k2_def T_def[symmetric] Let_def del: signature.simps)
qed

lemma signature_ready:
  assumes "t_cache_sig k = None" and "t_uid k = Some key"
    and "\<forall>x \<in> set (explicit_nodes k b @ implicit_nodes k b key). node_ready k (b_tree b) x"
  shows "\<exists>k1 b1. task_signature md5 fs (k, b) = Inr (md5 (full_text md5 k b b1 key), k1, b1) \<and>
    signed md5 k b key (md5 (full_text md5 k b b1 key)) k1 b1"
proof -
  obtain v c where v: "vars_text md5 k b = (v, c)" by (cases "vars_text md5 k b")
  have c: "b_tree c = b_tree b" "deps_man c = deps_man b" "node_deps c = node_deps b" by (subst vars_text_same(1)[OF v], simp)+
  have ftc: "full_text md5 k b c key = full_text md5 k b b key" using c by (simp add: full_text_def implicit_text_def old_deps_def)
  consider (none) "t_scan k = None" | (first) scan where "t_scan k = Some scan" "task_sigs b key = None"
    | (comp) scan p0 p1 p2 p3 where "t_scan k = Some scan" "task_sigs b key = Some (p0, p1, p2, p3)"
    by (cases "t_scan k"; cases "task_sigs b key") auto
  then show ?thesis
  proof cases
    case none
    have "full_text md5 k b c key = explicit_text k b @ v" using none v by (simp add: full_text_def implicit_text_def)
    moreover have "task_signature md5 fs (k, b) = Inr (md5 (explicit_text k b @ v),
        k\<lparr>t_m := explicit_text k b @ v, t_cache_sig := Some (md5 (explicit_text k b @ v), md5 (explicit_text k b), SIG_NIL, md5 (explicit_text k b @ v))\<rparr>, c)"
      using signature_pass[OF assms(1) _ v, of "Suc 0" fs] assms(3) none by (simp add: task_signature_def numeral_2_eq_2)
    ultimately show ?thesis using none v c unfolding signed_def by (intro exI conjI) auto
  next
    case first
    then show ?thesis using signature_scans[OF assms(1,2) first assms(3), of "Suc 0"]
      by (simp add: task_signature_def numeral_2_eq_2 del: signature.simps)
  next
    case comp
    have ready: "\<forall>x \<in> set (explicit_nodes k b @ old_deps b key). node_ready k (b_tree b) x"
      using assms(3) comp(1) by (auto simp: implicit_nodes_def)
    define T where "T = full_text md5 k b b key"
    note run = signature_compares[OF assms(1,2) comp ready v, of "Suc 0" fs, folded T_def numeral_2_eq_2 task_signature_def]
    show ?thesis
    proof (cases "p2 = md5 T")
      case True
      then have "task_signature md5 fs (k, b) = Inr (md5 (full_text md5 k b c key),
          k\<lparr>t_m := T, t_cache_sig := Some (md5 T, md5 (explicit_text k b), md5 T, md5 (explicit_text k b @ v))\<rparr>, c)"
        using run by (simp add: ftc T_def task_signature_def Let_def)
      then show ?thesis using comp v c unfolding signed_def
        by (intro exI[of _ "k\<lparr>t_m := T, t_cache_sig := Some (md5 T, md5 (explicit_text k b), md5 T, md5 (explicit_text k b @ v))\<rparr>"] exI[of _ c])
          (auto simp: implicit_nodes_def old_deps_def ftc T_def)
    next
      case False
      define d where "d = c\<lparr>task_sigs := (task_sigs c)(key := None)\<rparr>"
      have r: "task_signature md5 fs (k, b) = signature (Suc 0) md5 fs (k\<lparr>t_m := T\<rparr>, d)"
        using run False by (simp add: d_def Let_def task_signature_def del: signature.simps)
      have dd: "b_tree d = b_tree b" "deps_man d = deps_man b" "task_sigs d key = None" "old_deps d key = old_deps b key"
        "cache_sig_vars d = cache_sig_vars c"
        using c by (auto simp: d_def old_deps_def)
      have vd: "vars_text md5 k d = (v, d)" using vars_text_same(2)[OF v, of d] dd by simp
      have imp: "implicit_nodes (k\<lparr>t_m := T\<rparr>) d key = implicit_nodes k b key" using dd by (simp add: implicit_nodes_def split: option.splits)
      have nt: "node_text (k\<lparr>t_m := T\<rparr>) = node_text k" using set_m_simps(1)[where k = k and m = T] by (auto simp: node_text_def fun_eq_iff)
      have ft: "full_text md5 (k\<lparr>t_m := T\<rparr>) d b1 key = full_text md5 k b b1 key" for b1
        using vd v explicit_same_tree[OF dd(1,2)] nt by (simp add: full_text_def implicit_text_def)
      obtain k1 b1 where s: "signature (Suc 0) md5 fs (k\<lparr>t_m := T\<rparr>, d) = Inr (md5 (full_text md5 k b b1 key), k1, b1)"
        "signed md5 (k\<lparr>t_m := T\<rparr>) d key (md5 (full_text md5 k b b1 key)) k1 b1"
        using signature_scans[of "k\<lparr>t_m := T\<rparr>" key scan d 0 md5 fs] assms comp(1) dd explicit_same_tree[OF dd(1,2)] imp
        unfolding ft by (auto simp del: signature.simps)
      then have "signed md5 k b key (md5 (full_text md5 k b b1 key)) k1 b1"
        unfolding signed_def ft imp using vd v dd by (auto simp: imp)
      then show ?thesis using r s(1) by auto
    qed
  qed
qed

lemma abspath_tree:
  assumes "abspath t r e = Inr (p, t')"
  shows "nodes t' = nodes t \<and> scanned t' = scanned t \<and> node_sigs t' = node_sigs t"
proof -
  have src: "src_abspath n t r = Inr (p, t') \<Longrightarrow> nodes t' = nodes t \<and> scanned t' = scanned t \<and> node_sigs t' = node_sigs t" for n t r p t'
  proof (induction n t r arbitrary: p t' rule: src_abspath.induct)
    case (2 n t r)
    then show ?case
      by (fastforce simp: src_abspath.simps Let_def rmap_Inr_iff cache_path_def split: option.splits if_splits)
  qed (simp add: src_abspath.simps)
  show ?thesis
    using assms by (auto simp: abspath_def Let_def cache_path_def elim!: rbind_InrE dest!: src simp: rmap_Inr_iff split: option.splits if_splits)
qed

text \<open>What \<open>post_run\<close> stores for the outputs.\<close>

lemma store_outputs_stored:
  "store_outputs ex v s xs b = Inr (Inr b') \<Longrightarrow>
    b' = b\<lparr>b_tree := b_tree b'\<rparr> \<and> nodes (b_tree b') = nodes (b_tree b) \<and> scanned (b_tree b') = scanned (b_tree b) \<and>
    (\<forall>w i. node_sigs (b_tree b') w i = (if w = Some v \<and> (\<exists>x \<in> set xs. i = n_id (node_at (b_tree b) x)) then Some s else node_sigs (b_tree b) w i))"
proof (induction xs arbitrary: b)
  case (Cons x xs)
  obtain p t where a: "abspath (b_tree b) x (Some v) = Inr (p, t)"
    and r: "store_outputs ex v s xs (set_node_sig (Some v) s x (b\<lparr>b_tree := t\<rparr>)) = Inr (Inr b')"
    using Cons.prems by (auto elim!: rbind_InrE simp: Let_def split: if_splits)
  define b1 where "b1 = set_node_sig (Some v) s x (b\<lparr>b_tree := t\<rparr>)"
  have "nodes (b_tree b1) = nodes (b_tree b)" "scanned (b_tree b1) = scanned (b_tree b)" "b1 = b\<lparr>b_tree := b_tree b1\<rparr>"
    "\<And>w i. node_sigs (b_tree b1) w i = (if w = Some v \<and> i = n_id (node_at (b_tree b) x) then Some s else node_sigs (b_tree b) w i)"
    using abspath_tree[OF a] by (auto simp: b1_def set_node_sig_def set_sig_def node_at_def)
  moreover note Cons.IH[OF r, folded b1_def]
  ultimately show ?case by (simp add: node_at_def) (metis bctx.update_convs(1) bctx.surjective)
qed auto

text \<open>Two contexts that agree on the tree and on the signatures of some nodes.\<close>

lemma agree_text:
  assumes "nodes (b_tree c) = nodes (b_tree b)" and "scanned (b_tree c) = scanned (b_tree b)" and "deps_man c = deps_man b"
    and "\<forall>x \<in> set (explicit_nodes k b @ xs). sig_of k (b_tree c) x = sig_of k (b_tree b) x"
  shows "explicit_nodes k c = explicit_nodes k b" and "explicit_text k c = explicit_text k b"
    and "x \<in> set (explicit_nodes k b @ xs) \<Longrightarrow> node_ready k (b_tree c) x \<longleftrightarrow> node_ready k (b_tree b) x"
    and "map (node_text k (b_tree c)) xs = map (node_text k (b_tree b)) xs"
proof -
  have n: "node_at (b_tree c) = node_at (b_tree b)" using assms(1) by (auto simp: node_at_def fun_eq_iff)
  have "man_of c = man_of b" using assms(3) n by (auto simp: man_of_def fun_eq_iff)
  then have m: "man_deps k c = man_deps k b" by (simp add: man_deps_def)
  then show "explicit_nodes k c = explicit_nodes k b" by (simp add: explicit_nodes_def man_nodes_def)
  show "x \<in> set (explicit_nodes k b @ xs) \<Longrightarrow> node_ready k (b_tree c) x \<longleftrightarrow> node_ready k (b_tree b) x"
    using assms n by (auto simp: node_ready_def split: option.splits)
  show "map (node_text k (b_tree c)) xs = map (node_text k (b_tree b)) xs" using assms(4) by (auto simp: node_text_def)
  have "man_text k (b_tree c) v = man_text k (b_tree b) v" if "v \<in> set (man_deps k b)" for v
    by (cases v) (use that assms(4) man_nodes_iff[of _ k b] in \<open>auto simp: explicit_nodes_def node_text_def\<close>)
  then have "map (man_text k (b_tree c)) (man_deps k b) = map (man_text k (b_tree b)) (man_deps k b)" by simp
  moreover have "map (node_text k (b_tree c)) ys = map (node_text k (b_tree b)) ys" if "set ys \<subseteq> set (explicit_nodes k b)" for ys
    using that assms(4) by (auto simp: node_text_def)
  then have "map (node_text k (b_tree c)) (t_inputs k @ t_dep_nodes k) = map (node_text k (b_tree b)) (t_inputs k @ t_dep_nodes k)"
    "map (node_text k (b_tree c)) (t_deps_nodes k) = map (node_text k (b_tree b)) (t_deps_nodes k)"
    by (auto simp: explicit_nodes_def)
  ultimately show "explicit_text k c = explicit_text k b" unfolding explicit_text_def m by (simp only:)
qed

text \<open>The context after a task has run: what \<open>post_run\<close> has stored, and that the rest is as before.\<close>

lemma ran_context:
  assumes "t_cache_sig k = None" and "t_uid k = Some key" and "\<not> list_ex (\<lambda>a. runs a = NOT_RUN) (t_run_after k)"
    and ready: "\<forall>x \<in> set (explicit_nodes k b @ implicit_nodes k b key). node_ready k (b_tree b) x"
    and run: "runnable_status md5 fs runs (k, b) = Inr (RUN_ME, k1, b1)"
    and post: "post_run md5 fs ex (k1, b1) = Inr (None, k2, b2)"
  obtains T e i v b' where "T = full_text md5 k b b' key" and "signed md5 k b key (md5 T) k1 b'" and "t_scan k \<noteq> None \<longrightarrow> i = md5 T"
    and "nodes (b_tree b2) = nodes (b_tree b)" and "scanned (b_tree b2) = scanned (b_tree b)" and "deps_man b2 = deps_man b"
    and "old_deps b2 key = old_deps b' key" and "task_sigs b2 key = Some (md5 T, e, i, v)" and "cache_sig_vars b2 = cache_sig_vars b'"
    and "\<forall>w i. node_sigs (b_tree b2) w i =
      (if w = Some (t_variant k) \<and> (\<exists>x \<in> set (t_outputs k). i = n_id (node_at (b_tree b) x)) then Some (md5 T) else node_sigs (b_tree b) w i)"
proof -
  obtain k' b' where s1: "task_signature md5 fs (k, b) = Inr (md5 (full_text md5 k b b' key), k', b')"
    and s2: "signed md5 k b key (md5 (full_text md5 k b b' key)) k' b'"
    using signature_ready[OF assms(1,2) ready] by blast
  define T where "T = full_text md5 k b b' key"
  obtain m e i v where k': "k' = k\<lparr>t_m := m, t_cache_sig := Some (md5 T, e, i, v)\<rparr>" "t_scan k \<noteq> None \<longrightarrow> i = md5 T"
    using s2 unfolding signed_def T_def by blast
  have kb: "k1 = k'" "b1 = b'"
    using run assms(3) s1 k'(1) assms(2) by (auto simp: runnable_status_def unique_id_def)
  obtain b3 where st: "store_outputs ex (t_variant k) (md5 T) (t_outputs k) b' = Inr (Inr b3)"
    and b2: "b2 = b3\<lparr>task_sigs := (task_sigs b3)(key \<mapsto> (md5 T, e, i, v))\<rparr>"
    using post k'(1) assms(2) unfolding kb
    by (auto simp: post_run_def task_signature_def numeral_2_eq_2 unique_id_def elim!: rbind_InrE split: sum.splits)
  note stored = store_outputs_stored[OF st]
  have b': "b_tree b' = b_tree b" "deps_man b' = deps_man b" using s2 unfolding signed_def by auto
  have b3: "deps_man b3 = deps_man b'" "cache_sig_vars b3 = cache_sig_vars b'" "node_deps b3 = node_deps b'"
    using stored by (metis bctx.select_convs bctx.surjective bctx.update_convs(1))+
  have sigs: "\<forall>w i. node_sigs (b_tree b2) w i =
      (if w = Some (t_variant k) \<and> (\<exists>x \<in> set (t_outputs k). i = n_id (node_at (b_tree b) x)) then Some (md5 T) else node_sigs (b_tree b) w i)"
    using stored b'(1) by (auto simp: b2)
  show ?thesis by (rule that[of T b' i e v, OF _ _ _ _ _ _ _ _ _ sigs]) (use stored b' b3 s2 k'(2) in \<open>simp_all add: b2 old_deps_def T_def kb\<close>)
qed

text \<open>The signature of a task whose dependencies are ready and which has the stored signature.\<close>

lemma stored_signature:
  assumes "t_cache_sig k = None" and "t_uid k = Some key" and "vars_text md5 k b = (v, b)" and "full_text md5 k b b key = T"
    and "\<forall>x \<in> set (explicit_nodes k b @ (if t_scan k = None then [] else old_deps b key)). node_ready k (b_tree b) x"
    and "task_sigs b key = Some (md5 T, e, i, u)" and "t_scan k \<noteq> None \<longrightarrow> i = md5 T"
  shows "\<exists>k4. task_signature md5 fs (k, b) = Inr (md5 T, k4, b) \<and> t_outputs k4 = t_outputs k \<and> t_uid k4 = Some key \<and> sig_of k4 = sig_of k"
proof (cases "t_scan k")
  case None
  then have "full_text md5 k b b key = explicit_text k b @ v" using assms(3) by (simp add: full_text_def implicit_text_def)
  then show ?thesis
    using signature_pass[OF assms(1) _ assms(3), of "Suc 0" fs] assms(2,4,5) None
    by (auto simp: task_signature_def numeral_2_eq_2 sig_of_def fun_eq_iff)
next
  case (Some scan)
  then show ?thesis
    using signature_compares[OF assms(1,2) Some assms(6) _ assms(3), of "Suc 0" fs] assms(2,4,5,7)
    by (simp add: task_signature_def numeral_2_eq_2 sig_of_def fun_eq_iff Let_def del: signature.simps)
qed


text \<open>A compiler task for the small tree, with the object file declared and all directories scanned.\<close>

definition cc_tree :: ntree where
  "cc_tree = small_tree\<lparr>nodes := nodes small_tree @ [\<lparr>n_name = ''a.o'', n_parent = Some 1, n_id = 23, n_childs = None\<rparr>],
     id_nodes := 20, scanned := (\<lambda>i. True), node_sigs := (\<lambda>v. Map.empty)(None := [18 \<mapsto> ''h''])\<rparr>"

definition cc_ctx :: bctx where
  "cc_ctx = \<lparr>b_tree = cc_tree, task_sigs = Map.empty, node_deps = Map.empty, raw_deps = Map.empty, deps_man = Map.empty,
     cache_sig_vars = Map.empty\<rparr>"

definition cc_task :: "(ntree \<Rightarrow> nat list \<times> string list) option \<Rightarrow> btask" where
  "cc_task scan = \<lparr>t_class = ''cc'', t_vars = [''CC''], t_dep_vars = None, t_env = 0, t_variant = ''default'',
     t_env_str = (\<lambda>v. ''gcc''), t_inputs = [3], t_outputs = [4], t_dep_nodes = [], t_deps_nodes = [], t_run_after = [],
     t_scan = scan, t_uid = Some ''u'', t_m = [], t_cache_sig = None, t_cached = False\<rparr>"

lemma cc_nodes: "node_at cc_tree 1 = \<lparr>n_name = ''src'', n_parent = Some 0, n_id = 9, n_childs = Some [(''a.c'', 3)]\<rparr>"
    "node_at cc_tree 3 = \<lparr>n_name = ''a.c'', n_parent = Some 1, n_id = 18, n_childs = None\<rparr>"
    "node_at cc_tree 4 = \<lparr>n_name = ''a.o'', n_parent = Some 1, n_id = 23, n_childs = None\<rparr>"
  by (simp_all add: cc_tree_def small_tree_def node_at_def)

lemma cc_ready: "explicit_nodes (cc_task scan) cc_ctx = [3]" "node_ready (cc_task scan) cc_tree 3"
proof -
  have "man_deps (cc_task scan) cc_ctx = []" by (simp add: man_deps_def man_of_def cc_ctx_def cc_task_def)
  then show "explicit_nodes (cc_task scan) cc_ctx = [3]" by (simp add: explicit_nodes_def man_nodes_def cc_task_def)
  show "node_ready (cc_task scan) cc_tree 3"
    by (simp add: node_ready_def sig_of_def node_variant_def get_type_def FILE_def cc_nodes cc_task_def) (simp add: cc_tree_def)
qed



section \<open>Order from files\<close>

definition table :: "(nat \<times> nat list) list \<Rightarrow> nat \<Rightarrow> nat set" where
  "table d i = (case map_of d i of None \<Rightarrow> {} | Some l \<Rightarrow> set l)"

lemma table_Nil: "table [] i = {}"
  by (simp add: table_def)

lemma table_add_table: "table (table_add x a d) i = (if i = a then insert x (table d i) else table d i)"
  by (auto simp: table_def table_add_def map_of_dict_set split: option.splits)

lemma table_fold: "table (fold (\<lambda>a. table_add x (f a)) l d) i = (if i \<in> f ` set l then insert x (table d i) else table d i)"
  by (induction l arbitrary: d) (auto simp: table_add_table)

lemma io_links_iff: "(a, b) \<in> set (io_links p) \<longleftrightarrow> (\<exists>i. a \<in> table (fst p) i \<and> b \<in> table (snd p) i)"
proof
  assume "(a, b) \<in> set (io_links p)"
  then obtain i where "(a, b) \<in> set (case map_of (snd p) i of None \<Rightarrow> []
      | Some bs \<Rightarrow> concat (map (\<lambda>a. map (\<lambda>b. (a, b)) bs) (case map_of (fst p) i of None \<Rightarrow> [] | Some as \<Rightarrow> as)))"
    by (auto simp: io_links_def)
  then have "a \<in> table (fst p) i \<and> b \<in> table (snd p) i"
    by (cases "map_of (snd p) i"; cases "map_of (fst p) i") (auto simp: table_def)
  then show "\<exists>i. a \<in> table (fst p) i \<and> b \<in> table (snd p) i" by blast
next
  assume "\<exists>i. a \<in> table (fst p) i \<and> b \<in> table (snd p) i"
  then obtain i as bs where "map_of (fst p) i = Some as" "a \<in> set as" "map_of (snd p) i = Some bs" "b \<in> set bs"
    by (auto simp: table_def split: option.splits)
  then show "(a, b) \<in> set (io_links p)" unfolding io_links_def
    by (auto simp: image_iff intro!: bexI[of _ "(i, as)"] dest: map_of_SomeD)
qed

definition reads :: "(nat \<Rightarrow> btask) \<Rightarrow> ntree \<Rightarrow> nat \<Rightarrow> nat set" where
  "reads tsk t x = (\<lambda>a. n_id (node_at t a)) ` set (t_inputs (tsk x))"

definition writes :: "(nat \<Rightarrow> btask) \<Rightarrow> ntree \<Rightarrow> nat \<Rightarrow> nat set" where
  "writes tsk t x = (\<lambda>a. n_id (node_at t a)) ` set (t_outputs (tsk x))"

lemma io_fold:
  assumes "distinct (map fst v0)"
  shows "distinct (map fst (fold (io_add tsk t) ts v0)) \<and>
    (\<forall>v i. table (case map_of (fold (io_add tsk t) ts v0) v of None \<Rightarrow> [] | Some p \<Rightarrow> fst p) i =
        table (case map_of v0 v of None \<Rightarrow> [] | Some p \<Rightarrow> fst p) i \<union> {x \<in> set ts. t_variant (tsk x) = v \<and> i \<in> reads tsk t x}) \<and>
    (\<forall>v i. table (case map_of (fold (io_add tsk t) ts v0) v of None \<Rightarrow> [] | Some p \<Rightarrow> snd p) i =
        table (case map_of v0 v of None \<Rightarrow> [] | Some p \<Rightarrow> snd p) i \<union> {x \<in> set ts. t_variant (tsk x) = v \<and> i \<in> writes tsk t x})"
  using assms
proof (induction ts arbitrary: v0)
  case (Cons x ts)
  have d: "distinct (map fst (io_add tsk t x v0))"
    using Cons.prems by (auto simp: io_add_def Let_def distinct_dict_set split: prod.splits)
  have r: "table (case map_of (io_add tsk t x v0) v of None \<Rightarrow> [] | Some p \<Rightarrow> fst p) i =
      table (case map_of v0 v of None \<Rightarrow> [] | Some p \<Rightarrow> fst p) i \<union> (if t_variant (tsk x) = v \<and> i \<in> reads tsk t x then {x} else {})" for v i
    by (auto simp: io_add_def Let_def map_of_dict_set table_fold reads_def split: prod.splits option.splits)
  have w: "table (case map_of (io_add tsk t x v0) v of None \<Rightarrow> [] | Some p \<Rightarrow> snd p) i =
      table (case map_of v0 v of None \<Rightarrow> [] | Some p \<Rightarrow> snd p) i \<union> (if t_variant (tsk x) = v \<and> i \<in> writes tsk t x then {x} else {})" for v i
    by (auto simp: io_add_def Let_def map_of_dict_set table_fold writes_def split: prod.splits option.splits)
  show ?case using Cons.IH[OF d] unfolding r w by auto
qed simp

lemma run_after_fold: "set (fold (\<lambda>(a, b). set_run_after a b) l af a) = set (af a) \<union> {b. (a, b) \<in> set l}"
  by (induction l arbitrary: af) (auto simp: set_run_after_def split: if_splits)

lemma extract_outputs_set:
  "set (extract_outputs tsk t ts af a) =
     set (af a) \<union> {b. a \<in> set ts \<and> b \<in> set ts \<and> t_variant (tsk a) = t_variant (tsk b) \<and> reads tsk t a \<inter> writes tsk t b \<noteq> {}}"
proof -
  define V where "V = fold (io_add tsk t) ts []"
  have d: "distinct (map fst V)" using io_fold[of "[]" tsk t ts] by (simp add: V_def)
  have ins: "table (case map_of V v of None \<Rightarrow> [] | Some p \<Rightarrow> fst p) i = {x \<in> set ts. t_variant (tsk x) = v \<and> i \<in> reads tsk t x}"
    and outs: "table (case map_of V v of None \<Rightarrow> [] | Some p \<Rightarrow> snd p) i = {x \<in> set ts. t_variant (tsk x) = v \<and> i \<in> writes tsk t x}" for v i
    using io_fold[of "[]" tsk t ts] by (simp_all add: V_def[symmetric] table_Nil)
  have "(a, b) \<in> set (concat (map (\<lambda>(v, p). io_links p) V)) \<longleftrightarrow>
      a \<in> set ts \<and> b \<in> set ts \<and> t_variant (tsk a) = t_variant (tsk b) \<and> reads tsk t a \<inter> writes tsk t b \<noteq> {}" for b
  proof
    assume "(a, b) \<in> set (concat (map (\<lambda>(v, p). io_links p) V))"
    then obtain v p i where vp: "(v, p) \<in> set V" "a \<in> table (fst p) i" "b \<in> table (snd p) i" by (auto simp: io_links_iff)
    then have "map_of V v = Some p" using d by simp
    then show "a \<in> set ts \<and> b \<in> set ts \<and> t_variant (tsk a) = t_variant (tsk b) \<and> reads tsk t a \<inter> writes tsk t b \<noteq> {}"
      using vp ins[of v i] outs[of v i] by auto
  next
    assume l: "a \<in> set ts \<and> b \<in> set ts \<and> t_variant (tsk a) = t_variant (tsk b) \<and> reads tsk t a \<inter> writes tsk t b \<noteq> {}"
    then obtain i where "i \<in> reads tsk t a" "i \<in> writes tsk t b" by blast
    then have i: "a \<in> table (case map_of V (t_variant (tsk a)) of None \<Rightarrow> [] | Some p \<Rightarrow> fst p) i"
      "b \<in> table (case map_of V (t_variant (tsk a)) of None \<Rightarrow> [] | Some p \<Rightarrow> snd p) i"
      unfolding ins outs using l by auto
    then obtain p where p: "map_of V (t_variant (tsk a)) = Some p" by (cases "map_of V (t_variant (tsk a))") (auto simp: table_def)
    then have "(a, b) \<in> set (io_links p)" using i by (auto simp: io_links_iff)
    then show "(a, b) \<in> set (concat (map (\<lambda>(v, p). io_links p) V))"
      unfolding set_concat set_map by (intro UN_I[of "io_links p"] image_eqI[OF _ map_of_SomeD[OF p]]) simp_all
  qed
  then show ?thesis unfolding extract_outputs_def V_def[symmetric] run_after_fold by simp
qed

text \<open>
  \<open>extract_outputs\<close> makes a task run after another one exactly when it did so before, or when both are in
  the list, have the same variant, and the first reads a node that the second writes.
\<close>

theorem extract_outputs_order:
  "b \<in> set (extract_outputs tsk t ts af a) \<longleftrightarrow> b \<in> set (af a) \<or>
     a \<in> set ts \<and> b \<in> set ts \<and> t_variant (tsk a) = t_variant (tsk b) \<and> reads tsk t a \<inter> writes tsk t b \<noteq> {}"
  by (simp add: extract_outputs_set)

text \<open>
  A task that reads and writes the same node is made to run after itself; \<open>runnable_status\<close> then answers
  \<open>ASK_LATER\<close> as long as the task has not run.
\<close>

lemma reads_own_output:
  assumes "a \<in> set ts" and "reads tsk t a \<inter> writes tsk t a \<noteq> {}"
  shows "a \<in> set (extract_outputs tsk t ts af a)"
  using assms by (simp add: extract_outputs_set)

end
