(* ===== verification/Waf_Clex.thy ===== *)
theory Waf_Clex
  imports Py_Re
begin

text \<open>
  The lexical part of the C preprocessor of the build system,
  \<^verbatim>\<open>src/tools/wafadmin/Tools/preproc.py\<close>: the removal of comments, the lines with directives, and the
  tokenizer with its character constants. The theorems on expressions and macros are in \<open>Waf_Cmacro\<close>.
\<close>

section \<open>Definitions\<close>

subsection \<open>Patterns\<close>

text \<open>\<open>^\<close> and \<open>$\<close> with \<open>re.MULTILINE\<close>, and text in any case.\<close>

definition RBolM :: re where "RBolM = RAlt RBol (RBehind True (\<lambda>c. c = CHR 0x0A))"
definition REolM :: re where "REolM = RAlt (RAhead True (\<lambda>c. c = CHR 0x0A)) (RAhead False (\<lambda>c. True))"

definition rstr_nocase :: "string \<Rightarrow> re" where
  "rstr_nocase w = foldr (\<lambda>c r. RSeq (RChr (\<lambda>d. chr_lower d = chr_lower c)) r) w REps"

abbreviation bs :: char where "bs \<equiv> CHR 0x5C"
abbreviation dq :: char where "dq \<equiv> CHR 0x22"
abbreviation sq :: char where "sq \<equiv> CHR 0x27"

subsection \<open>Comments and directives\<close>

definition re_nl :: re where
  "re_nl = rseq [RLit bs, RStar (RLit (CHR 0x0D)), RLit (CHR 0x0A)]"

text \<open>The groups 1 and 3 of \<open>re_cpp\<close>: a comment, and text that is kept.\<close>

definition re_cpp :: re where
  "re_cpp = ralts
     [RGroup 1 (rseq [rstr ''/*'', RStar (RNotIn ''*''), RPlus (RLit (CHR ''*'')),
        RStar (rseq [RNotIn ''/*'', RStar (RNotIn ''*''), RPlus (RLit (CHR ''*''))]), rstr ''/'']),
      rseq [rstr ''//'', RStar RAny],
      RGroup 3 (ralts
        [rseq [RLit dq, RStar (RAlt (RSeq (RLit bs) RAny) (RNotIn [dq, bs])), RLit dq],
         rseq [RLit sq, RStar (RAlt (RSeq (RLit bs) RAny) (RNotIn [sq, bs])), RLit sq],
         RSeq RAny (RStar (RNotIn [CHR ''/'', dq, sq, bs]))])]"

definition repl :: "string \<Rightarrow> rmatch_obj \<Rightarrow> string" where
  "repl s m =
     (case re_group s m 1 of
        Some t \<Rightarrow> '' ''
      | None \<Rightarrow> (case re_group s m 3 of None \<Rightarrow> [] | Some t \<Rightarrow> t))"

definition blanks :: re where "blanks = RStar (RIn [CHR '' '', CHR 0x09])"

definition directive_re :: "string list \<Rightarrow> re" where
  "directive_re kws = rseq [RBolM, blanks, RGroup 1 (RAlt (rstr ''#'') (rstr ''%:'')), blanks,
     RGroup 2 (ralts (map rstr_nocase kws)), blanks, RGroup 3 (RStar RAny), RStar (RLit (CHR 0x0D)), REolM]"

definition re_lines :: re where
  "re_lines = directive_re [''ifdef'', ''ifndef'', ''if'', ''else'', ''elif'', ''endif'', ''include'', ''import'',
     ''define'', ''undef'', ''pragma'']"

definition re_inc :: re where
  "re_inc = directive_re [''include'']"

definition group_text :: "string \<Rightarrow> rmatch_obj \<Rightarrow> nat \<Rightarrow> string" where
  "group_text s m k = (case re_group s m k of None \<Rightarrow> [] | Some t \<Rightarrow> t)"

definition strip_comments :: "string \<Rightarrow> string" where
  "strip_comments code0 = (let code = re_sub re_nl (\<lambda>m. []) code0 in re_sub re_cpp (repl code) code)"

definition directives :: "re \<Rightarrow> string \<Rightarrow> (string \<times> string) list" where
  "directives r code = map (\<lambda>m. (group_text code m 2, group_text code m 3)) (re_finditer r code)"

text \<open>
  \<open>filter_comments\<close> and \<open>lines_includes\<close>, given what \<open>readf\<close> returns. With \<open>use_trigraphs\<close> set, \<open>join\<close> is
  called on a list.
\<close>

definition filter_lines :: "re \<Rightarrow> bool \<Rightarrow> string result \<Rightarrow> (string \<times> string) list result" where
  "filter_lines r use_trigraphs readf =
     rbind readf (\<lambda>code. if use_trigraphs then Inl AttributeError else Inr (directives r (strip_comments code)))"

definition filter_comments :: "bool \<Rightarrow> string result \<Rightarrow> (string \<times> string) list result" where
  "filter_comments = filter_lines re_lines"

definition lines_includes :: "bool \<Rightarrow> string result \<Rightarrow> (string \<times> string) list result" where
  "lines_includes = filter_lines re_inc"

subsection \<open>Tokens\<close>

datatype tok_type = NUM | OP | IDENT | TSTR

text \<open>
  The values of tokens: a text, a number, \<open>None\<close>, or the pair that \<open>parse_char\<close> returns for an octal
  escape.
\<close>

datatype tok_val = VS string | VI int | VNone | VPair int int

type_synonym token = "tok_type \<times> tok_val"

text \<open>The groups: 1 to 4 for the types, then \<open>hex\<close>, \<open>char\<close>, \<open>n2\<close>, \<open>n4\<close>, \<open>oct\<close> and \<open>n0\<close>.\<close>

definition chr_ishex :: "char \<Rightarrow> bool" where
  "chr_ishex c \<longleftrightarrow> c \<in> set ''0123456789abcdefABCDEF''"

abbreviation RDigit :: re where "RDigit \<equiv> RChr chr_isdigit"

definition re_exponent :: re where
  "re_exponent = RSeq (RLazy (RIn ''+-'')) (RPlus RDigit)"

definition re_fsuffix :: re where "re_fsuffix = RStar (RIn ''fFlL'')"

definition re_num :: re where
  "re_num = ralts
     [rseq [RLit (CHR ''0''), RIn ''xX'', RGroup 5 (RPlus (RChr chr_ishex)), RStar (RIn ''uUlL'')],
      rseq [RLazy (RLit (CHR ''L'')), RLit sq, RGroup 6 (RPlus (RAlt (RSeq (RLit bs) RAny) (RNotIn [bs, sq]))), RLit sq],
      rseq [RPlus RDigit, RIn ''Ee'', re_exponent, re_fsuffix],
      rseq [RGroup 7 (rseq [RStar RDigit, RLit (CHR ''.''), RPlus RDigit]), ROpt (RSeq (RIn ''Ee'') re_exponent), re_fsuffix],
      rseq [RGroup 8 (rseq [RPlus RDigit, RLit (CHR ''.''), RStar RDigit]), ROpt (RSeq (RIn ''Ee'') re_exponent), re_fsuffix],
      rseq [RGroup 9 (RStar (RLit (CHR ''0''))), RGroup 10 (RPlus RDigit), RStar (RIn ''uUlL'')]]"

definition re_str :: re where
  "re_str = rseq [ROpt (RLit (CHR ''L'')), RLit dq, RStar (RAlt (RNotIn [dq, bs]) (RSeq (RLit bs) RAny)), RLit dq]"

definition re_ident :: re where
  "re_ident = RSeq (RChr (\<lambda>c. chr_isalpha c \<or> c = CHR ''_'')) (RStar (RChr chr_isword))"

definition re_op :: re where
  "re_op = ralts (map rstr
     [''%:%:'', ''<<='', ''>>='', ''...'', ''<<'', ''<%'', ''<:'', ''<='', ''>>'', ''>='', ''++'', ''+='', ''--'', ''->'', ''-='',
      ''*='', ''/='', ''%:'', ''%='', ''%>'', ''=='', ''&&'', ''&='', ''||'', ''|='', ''^='', '':>'', ''!='', ''##''] @
     [RIn ''(){}[]<>?|^*+&=:!#;,%/-?~.''])"

definition re_clexer :: re where
  "re_clexer = ralts [RGroup 1 re_num, RGroup 2 re_str, RGroup 3 re_ident, RGroup 4 re_op]"

definition g_optrans :: "(string \<times> string) list" where
  "g_optrans = [(''not'', ''!''), (''and'', ''&&''), (''bitand'', ''&''), (''and_eq'', ''&=''), (''or'', ''||''),
     (''bitor'', ''|''), (''or_eq'', ''|=''), (''xor'', ''^''), (''xor_eq'', ''^=''), (''compl'', ''~'')]"

subsection \<open>Numbers and characters\<close>

definition digit_val :: "char \<Rightarrow> nat" where
  "digit_val c = (if chr_isdigit c then of_char c - 48 else of_char (chr_lower c) - 87)"

text \<open>\<open>int(s, base)\<close> for bases up to 16: digits, after blanks and a sign.\<close>

definition digits_ok :: "nat \<Rightarrow> string \<Rightarrow> bool" where
  "digits_ok base s \<longleftrightarrow> s \<noteq> [] \<and> list_all (\<lambda>c. chr_ishex c \<and> digit_val c < base) s"

definition digits_val :: "nat \<Rightarrow> string \<Rightarrow> int" where
  "digits_val base s = foldl (\<lambda>n c. int base * n + int (digit_val c)) 0 s"

definition int_of_text :: "nat \<Rightarrow> string \<Rightarrow> int result" where
  "int_of_text base s0 =
     (let s = py_strip s0;
          (neg, d) = (case s of [] \<Rightarrow> (False, []) | c # r \<Rightarrow> if c = CHR ''-'' then (True, r) else if c = CHR ''+'' then (False, r) else (False, s))
      in if digits_ok base d then Inr (if neg then - digits_val base d else digits_val base d) else Inl ValueError)"

definition chr_esc :: "(char \<times> int) list" where
  "chr_esc = [(CHR ''0'', 0), (CHR ''a'', 7), (CHR ''b'', 8), (CHR ''t'', 9), (CHR ''n'', 10), (CHR ''f'', 11),
     (CHR ''v'', 12), (CHR ''r'', 13), (bs, 92), (sq, 39)]"

definition PreprocError :: "string \<Rightarrow> py_error" where
  "PreprocError msg = WafError msg"

text \<open>Octal escapes: the longest of three, two and one digits.\<close>

definition octal_len :: "string \<Rightarrow> nat option" where
  "octal_len txt = find (\<lambda>i. i < length txt \<and> list_all chr_isdigit (py_slice txt 1 (1 + i))) [3, 2, 1]"

definition parse_char :: "string \<Rightarrow> tok_val result" where
  "parse_char txt =
     (case txt of
        [] \<Rightarrow> Inl (PreprocError ''attempted to parse a null char'')
      | c0 # r \<Rightarrow>
          if c0 \<noteq> bs then (if r = [] then Inr (VI (of_char c0)) else Inl TypeError)
          else (case r of
                  [] \<Rightarrow> Inl IndexError
                | c # d \<Rightarrow>
                    if c = CHR ''x'' then rmap VI (int_of_text 16 d)
                    else if chr_isdigit c
                    then if c = CHR ''0'' \<and> d = [] then Inr (VI 0)
                         else (case octal_len txt of
                                 None \<Rightarrow> Inr VNone
                               | Some i \<Rightarrow> rmap (VPair (1 + int i)) (int_of_text 8 (py_slice txt 1 (1 + i))))
                    else (case map_of chr_esc c of Some n \<Rightarrow> Inr (VI n) | None \<Rightarrow> Inl (PreprocError ''could not parse char literal''))))"

subsection \<open>The tokenizer\<close>

definition num_value :: "string \<Rightarrow> rmatch_obj \<Rightarrow> string \<Rightarrow> tok_val result" where
  "num_value s m v =
     (if group_text s m 9 \<noteq> [] then rmap VI (int_of_text 8 v)
      else if group_text s m 5 \<noteq> [] then rmap VI (int_of_text 16 (group_text s m 5))
      else if group_text s m 10 \<noteq> [] then Inr (VS (group_text s m 10))
      else if group_text s m 6 \<noteq> [] then parse_char (group_text s m 6)
      else case re_group s m 7 of
             Some t \<Rightarrow> Inr (VS t)
           | None \<Rightarrow> Inr (case re_group s m 8 of Some t \<Rightarrow> VS t | None \<Rightarrow> VNone))"

definition ident_token :: "string \<Rightarrow> token" where
  "ident_token v =
     (case map_of g_optrans v of
        Some w \<Rightarrow> (OP, VS w)
      | None \<Rightarrow>
          if py_lower v = ''true'' then (NUM, VI 1) else if py_lower v = ''false'' then (NUM, VI 0) else (IDENT, VS v))"

text \<open>The types are tried in the order of \<open>tok_types\<close>; a match gives one token.\<close>

definition match_token :: "string \<Rightarrow> rmatch_obj \<Rightarrow> token list result" where
  "match_token s m =
     (if group_text s m 1 \<noteq> [] then rmap (\<lambda>v. [(NUM, v)]) (num_value s m (group_text s m 1))
      else if group_text s m 2 \<noteq> [] then Inr [(TSTR, VS (butlast (tl (group_text s m 2))))]
      else if group_text s m 3 \<noteq> [] then Inr [ident_token (group_text s m 3)]
      else if group_text s m 4 \<noteq> []
      then Inr [(OP, VS (if group_text s m 4 = ''%:'' then ''#'' else if group_text s m 4 = ''%:%:'' then ''##'' else group_text s m 4))]
      else Inr [])"

definition tokenize :: "string \<Rightarrow> token list result" where
  "tokenize s = rmap concat (mapM (match_token s) (re_finditer re_clexer s))"

end
