(* ===== verification/Waf_Cmacro.thy ===== *)
theory Waf_Cmacro
  imports Waf_Clex
begin

text \<open>
  Conditions and macros in the C preprocessor of the build system,
  \<^verbatim>\<open>src/tools/wafadmin/Tools/preproc.py\<close>: the evaluation of the conditions of \<open>#if\<close>, the replacement of
  macros, and the reading of definitions and of \<open>#include\<close>.

  After the definitions: the evaluation ends, and it gives the right value for conditions that are fully
  parenthesized and have numbers as the tokenizer makes them of \<open>defined\<close>, octal and hexadecimal constants;
  for decimal constants and for operators without parentheses, it does not.
\<close>

unbundle bit_operations_syntax

section \<open>Definitions\<close>

subsection \<open>Arithmetic\<close>

definition c_ops :: "string list" where
  "c_ops = [''* / %'', ''+ -'', ''<< >>'', ''< <= >= >'', ''== !='', ''& | ^'', ''&& ||'', '','']"

fun prec_from :: "nat \<Rightarrow> string list \<Rightarrow> string \<Rightarrow> nat option" where
  "prec_from n [] op = None"
| "prec_from n (syms # l) op = (if op \<in> set (py_split_ws syms) then Some n else prec_from (Suc n) l op)"

text \<open>\<open>prec[op]\<close>.\<close>

definition prec :: "tok_val \<Rightarrow> nat result" where
  "prec v = (case v of VS op \<Rightarrow> (case prec_from 0 c_ops op of None \<Rightarrow> Inl KeyError | Some n \<Rightarrow> Inr n) | _ \<Rightarrow> Inl KeyError)"

text \<open>\<open>0 + v\<close> or, when that is a \<open>TypeError\<close>, \<open>int(v)\<close>; and \<open>int(v)\<close> alone.\<close>

fun to_int :: "tok_val \<Rightarrow> int result" where
  "to_int (VI i) = Inr i"
| "to_int (VS s) = int_of_text 10 s"
| "to_int VNone = Inl TypeError"
| "to_int (VPair a b) = Inl TypeError"

definition bool_int :: "bool \<Rightarrow> int" where
  "bool_int b = (if b then 1 else 0)"

text \<open>The operators of Python: \<open>/\<close> and \<open>%\<close> round down, and \<open>or\<close> and \<open>and\<close> return an operand.\<close>

definition arith :: "string \<Rightarrow> int \<Rightarrow> int \<Rightarrow> int result" where
  "arith d a b =
     (if d = ''%'' then if b = 0 then Inl ZeroDivisionError else Inr (a mod b)
      else if d = ''+'' then Inr (a + b)
      else if d = ''-'' then Inr (a - b)
      else if d = ''*'' then Inr (a * b)
      else if d = ''/'' then if b = 0 then Inl ZeroDivisionError else Inr (a div b)
      else if d = ''^'' then Inr (a XOR b)
      else if d = ''|'' then Inr (a OR b)
      else if d = ''||'' then Inr (if a \<noteq> 0 then a else b)
      else if d = ''&'' then Inr (a AND b)
      else if d = ''&&'' then Inr (if a = 0 then a else b)
      else if d = ''=='' then Inr (bool_int (a = b))
      else if d = ''!='' then Inr (bool_int (a \<noteq> b))
      else if d = ''<='' then Inr (bool_int (a \<le> b))
      else if d = ''<'' then Inr (bool_int (a < b))
      else if d = ''>'' then Inr (bool_int (a > b))
      else if d = ''>='' then Inr (bool_int (a \<ge> b))
      else if d = ''<<'' then if b < 0 then Inl ValueError else Inr (push_bit (nat b) a)
      else if d = ''>>'' then if b < 0 then Inl ValueError else Inr (drop_bit (nat b) a)
      else Inr 0)"

definition op_text :: "tok_val \<Rightarrow> string" where
  "op_text v = (case v of VS s \<Rightarrow> s | _ \<Rightarrow> [])"

definition reduce_nums :: "tok_val \<Rightarrow> tok_val \<Rightarrow> tok_val \<Rightarrow> tok_val result" where
  "reduce_nums v1 v2 op =
     rbind (to_int v1) (\<lambda>a. rbind (to_int v2) (\<lambda>b. rmap VI (arith (op_text op) a b)))"

text \<open>The truth of a value: a text is true unless it is empty.\<close>

fun tok_true :: "tok_val \<Rightarrow> bool" where
  "tok_true (VI i) \<longleftrightarrow> i \<noteq> 0"
| "tok_true (VS s) \<longleftrightarrow> s \<noteq> []"
| "tok_true VNone \<longleftrightarrow> False"
| "tok_true (VPair a b) \<longleftrightarrow> True"

subsection \<open>Conditions\<close>

definition is_op :: "string \<Rightarrow> token \<Rightarrow> bool" where
  "is_op s t \<longleftrightarrow> t = (OP, VS s)"

text \<open>The place of the parenthesis that closes the one before the list.\<close>

fun rparen :: "nat \<Rightarrow> token list \<Rightarrow> nat option" where
  "rparen n [] = None"
| "rparen n (t # l) =
     (if is_op '')'' t then if n = 1 then Some 0 else map_option Suc (rparen (n - 1) l)
      else if is_op ''('' t then map_option Suc (rparen (Suc n) l)
      else map_option Suc (rparen n l))"

text \<open>The place of the colon outside of parentheses; here the count may become negative.\<close>

fun find_colon :: "int \<Rightarrow> token list \<Rightarrow> nat option" where
  "find_colon n [] = None"
| "find_colon n (t # l) =
     (if is_op '')'' t then map_option Suc (find_colon (n - 1) l)
      else if is_op ''('' t then map_option Suc (find_colon (n + 1) l)
      else if is_op '':'' t \<and> n = 0 then Some 0
      else map_option Suc (find_colon n l))"

text \<open>
  \<open>get_num\<close> and \<open>get_term\<close> with a bound on the depth of the calls. In the branch for \<open>~\<close>, \<open>num\<close> has no
  value yet. \<open>get_term\<close> returns a value and the rest of the list, which its callers ignore.
\<close>

fun get_num :: "nat \<Rightarrow> token list \<Rightarrow> (tok_val \<times> token list) result"
  and get_term :: "nat \<Rightarrow> token list \<Rightarrow> (tok_val \<times> token list) result" where
  "get_num 0 lst = Inl RuntimeError"
| "get_num (Suc n) [] = Inl (PreprocError ''empty list for get_num'')"
| "get_num (Suc n) ((p, v) # r) =
     (case p of
        OP \<Rightarrow>
          if v = VS ''(''
          then (case rparen 1 r of
                  None \<Rightarrow> Inl (PreprocError ''rparen expected'')
                | Some i \<Rightarrow> rmap (\<lambda>(num, q). (num, drop (Suc i) r)) (get_term n (take i r)))
          else if v = VS ''+'' then get_num n r
          else if v = VS ''-'' then rbind (get_num n r) (\<lambda>(num, l). rmap (\<lambda>c. (c, l)) (reduce_nums (VS ''-1'') num (VS ''*'')))
          else if v = VS ''!'' then rbind (get_num n r) (\<lambda>(num, l). rmap (\<lambda>i. (VI (bool_int (i = 0)), l)) (to_int num))
          else if v = VS ''~'' then Inl UnboundLocalError
          else Inl (PreprocError ''invalid op token for get_num'')
      | NUM \<Rightarrow> Inr (v, r)
      | IDENT \<Rightarrow> Inr (VI 0, r)
      | TSTR \<Rightarrow> Inl (PreprocError ''invalid token for get_num''))"
| "get_term 0 lst = Inl RuntimeError"
| "get_term (Suc n) lst0 =
     (if lst0 = [] then Inl (PreprocError ''empty list for get_term'')
      else rbind (get_num n lst0) (\<lambda>(num, lst).
        case lst of
          [] \<Rightarrow> Inr (num, [])
        | (p, v) # r \<Rightarrow>
            if p \<noteq> OP then Inl (PreprocError ''cannot reduce'')
            else if v = VS ''&&'' \<and> \<not> tok_true num then Inr (num, [])
            else if v = VS ''||'' \<and> tok_true num then Inr (num, [])
            else if v = VS '','' then get_term n r
            else if v = VS ''?''
            then (case find_colon 0 r of
                    None \<Rightarrow> Inl (PreprocError ''rparen expected'')
                  | Some i \<Rightarrow> rbind (to_int num) (\<lambda>c. if c \<noteq> 0 then get_term n (take i r) else get_term n (drop (Suc i) r)))
            else rbind (get_num n r) (\<lambda>(num2, l).
              case l of
                [] \<Rightarrow> rbind (reduce_nums num num2 v) (\<lambda>c. get_term n [(NUM, c)])
              | (p2, v2) # l2 \<Rightarrow>
                  if p2 \<noteq> OP then Inl (PreprocError ''op expected'')
                  else rbind (prec v2) (\<lambda>q2. rbind (prec v) (\<lambda>q.
                    if q2 \<ge> q then rbind (reduce_nums num num2 v) (\<lambda>c. get_term n ((NUM, c) # l))
                    else rbind (get_num n l2) (\<lambda>(num3, l3).
                      rbind (reduce_nums num2 num3 v2) (\<lambda>c. get_term n ((NUM, num) # (p, v) # (NUM, c) # l3))))))))"

text \<open>A depth that is enough.\<close>

definition term_depth :: "token list \<Rightarrow> nat" where
  "term_depth lst = 2 * length lst + 2"

definition reduce_eval :: "token list \<Rightarrow> token result" where
  "reduce_eval lst = rmap (\<lambda>(num, l). (NUM, num)) (get_term (term_depth lst) lst)"

subsection \<open>Macros\<close>

text \<open>
  A macro as it stands in \<open>defs\<close>: the line of its definition until it is first used, then the tokens, for
  a macro with arguments with the places of the parameters.
\<close>

datatype cmacro = MLine string | MObj "token list" | MFun "(string \<times> nat) list" "token list"

type_synonym defs = "string \<rightharpoonup> cmacro"

definition re_fun :: re where
  "re_fun = rseq [RBol, RChr (\<lambda>c. chr_isalpha c \<or> c = CHR ''_''), RStar (RChr (\<lambda>c. chr_isalpha c \<or> chr_isdigit c \<or> c = CHR ''_'')), RLit (CHR ''('')]"

text \<open>The parameters of a macro: \<open>prev\<close> is an open parenthesis, a name, or a comma.\<close>

datatype prev = PrevParen | PrevIdent | PrevComma

fun macro_params :: "prev \<Rightarrow> nat \<Rightarrow> (string \<times> nat) list \<Rightarrow> token list \<Rightarrow> ((string \<times> nat) list \<times> token list) result" where
  "macro_params pv n ps [] = Inl IndexError"
| "macro_params pv n ps ((p, v) # r) =
     (case pv of
        PrevParen \<Rightarrow>
          if p = IDENT then macro_params PrevIdent (Suc n) (dict_set (op_text v) n ps) r
          else if is_op '')'' (p, v) then Inr (ps, r)
          else Inl (PreprocError ''unexpected token (3)'')
      | PrevIdent \<Rightarrow>
          if is_op '','' (p, v) then macro_params PrevComma n ps r
          else if is_op '')'' (p, v) then Inr (ps, r)
          else Inl (PreprocError ''comma or ... expected'')
      | PrevComma \<Rightarrow>
          if p = IDENT then macro_params PrevIdent (Suc n) (dict_set (op_text v) n ps) r
          else if is_op ''...'' (p, v) then Inl (PreprocError ''not implemented (1)'')
          else Inl (PreprocError ''comma or ... expected (2)''))"

definition extract_macro :: "string \<Rightarrow> (tok_val \<times> cmacro) result" where
  "extract_macro txt =
     rbind (tokenize txt) (\<lambda>t.
       case t of
         [] \<Rightarrow> Inl IndexError
       | (p0, name) # r0 \<Rightarrow>
           if re_search re_fun txt 0 \<noteq> None
           then (case r0 of
                   [] \<Rightarrow> Inl IndexError
                 | (p, v) # r \<Rightarrow>
                     if p \<noteq> OP then Inl (PreprocError ''expected open parenthesis'')
                     else rmap (\<lambda>(ps, body). (name, MFun ps body)) (macro_params PrevParen 0 [] r))
           else Inr (name, MObj r0))"

fun tok_str :: "tok_val \<Rightarrow> string" where
  "tok_str (VS s) = s"
| "tok_str (VI i) = str_int i"
| "tok_str VNone = ''None''"
| "tok_str (VPair a b) = ''('' @ str_int a @ '', '' @ str_int b @ '')''"

definition stringize :: "token list \<Rightarrow> string" where
  "stringize lst = concat (map (\<lambda>(p, v). tok_str v) lst)"

text \<open>The sum of two values: texts are joined, numbers are added; the sum of two pairs is \<open>Unsupported\<close>.\<close>

fun tok_plus :: "tok_val \<Rightarrow> tok_val \<Rightarrow> tok_val result" where
  "tok_plus (VS a) (VS b) = Inr (VS (a @ b))"
| "tok_plus (VI a) (VI b) = Inr (VI (a + b))"
| "tok_plus (VPair a b) (VPair c d) = Inl Unsupported"
| "tok_plus a b = Inl TypeError"

definition paste_tokens :: "token \<Rightarrow> token \<Rightarrow> token result" where
  "paste_tokens t1 t2 =
     (let p1 = (if fst t1 = OP \<and> fst t2 = OP then Some OP
                else if fst t1 = IDENT \<and> (fst t2 = IDENT \<or> fst t2 = NUM) then Some IDENT
                else if fst t1 = NUM \<and> fst t2 = NUM then Some NUM
                else None)
      in case p1 of
           None \<Rightarrow> Inl (PreprocError ''tokens do not make a valid paste'')
         | Some p \<Rightarrow> rmap (Pair p) (tok_plus (snd t1) (snd t2)))"

text \<open>
  The arguments of a call, after its open parenthesis: the arguments and what comes after the call. Inside
  of parentheses, a text constant that is a parenthesis counts as one.
\<close>

fun collect_args :: "int \<Rightarrow> token list \<Rightarrow> token list list \<Rightarrow> token list \<Rightarrow> (token list list \<times> token list) result" where
  "collect_args n one args [] = Inl (PreprocError ''malformed macro'')"
| "collect_args n one args ((p, v) # r) =
     (if p = OP \<and> n = 0
      then if v = VS ''('' then collect_args 1 (one @ [(p, v)]) args r
           else if v = VS '')'' then Inr (if one \<noteq> [] then args @ [one] else args, r)
           else if v = VS '',''
           then if one = [] then Inl (PreprocError ''empty param in funcall'') else collect_args 0 [] (args @ [one]) r
           else collect_args 0 (one @ [(p, v)]) args r
      else collect_args (if v = VS ''('' then n + 1 else if v = VS '')'' then n - 1 else n) (one @ [(p, v)]) args r)"

definition nth_arg :: "token list list \<Rightarrow> nat \<Rightarrow> token list result" where
  "nth_arg args i = (if i < length args then Inr (args ! i) else Inl IndexError)"

text \<open>The place of a token that is a parameter.\<close>

definition param_of :: "(string \<times> nat) list \<Rightarrow> token \<Rightarrow> nat option" where
  "param_of tab t = (if fst t = IDENT then map_of tab (op_text (snd t)) else None)"

text \<open>\<open>args[k:]\<close>, where a negative \<open>k\<close> counts from the end.\<close>

definition slice_from :: "int \<Rightarrow> 'a list \<Rightarrow> 'a list" where
  "slice_from k l = drop (if k < 0 then nat (max 0 (int (length l) + k)) else nat k) l"

definition va_tokens :: "nat \<Rightarrow> token list list \<Rightarrow> token list" where
  "va_tokens st args = butlast (concat (map (\<lambda>x. x @ [(OP, VS '','')]) (slice_from (int (length args) - int st + 1) args)))"

definition paste_va :: "nat \<Rightarrow> token list list \<Rightarrow> token list \<Rightarrow> token list" where
  "paste_va st args accu =
     (if length accu > 1 \<and> snd (last accu) = VS ''##''
      then if snd (last (butlast accu)) = VS '','' \<and> length args < st then butlast (butlast accu) else butlast accu
      else accu) @ va_tokens st args"

text \<open>
  The substitution of the arguments into the body of a macro. \<open>red\<close> is \<open>reduce_tokens\<close>, which changes the
  argument in place, so that a second use of it starts from the result of the first.
\<close>

type_synonym reducer = "token list \<Rightarrow> defs \<Rightarrow> (token list \<times> defs) result"

fun subst_body :: "reducer \<Rightarrow> (string \<times> nat) list \<Rightarrow> token list \<Rightarrow> token list list \<Rightarrow> token list \<Rightarrow> defs \<Rightarrow> (token list \<times> defs) result" where
  "subst_body red tab [] args accu ds = Inr (accu, ds)"
| "subst_body red tab (t # body) args accu ds =
     (if is_op ''#'' t
      then (case body of
              [] \<Rightarrow> subst_body red tab body args (accu @ [t]) ds
            | u # body2 \<Rightarrow>
                (case param_of tab u of
                   None \<Rightarrow> subst_body red tab body args (accu @ [t]) ds
                 | Some i \<Rightarrow>
                     rbind (nth_arg args i) (\<lambda>toks. subst_body red tab body2 args (accu @ [(TSTR, VS (stringize toks))]) ds)))
      else if is_op ''##'' t
      then (case body of
              [] \<Rightarrow> subst_body red tab body args (accu @ [t]) ds
            | u # body2 \<Rightarrow>
                if accu = [] then subst_body red tab body args (accu @ [t]) ds
                else (case param_of tab u of
                        Some i \<Rightarrow>
                          rbind (nth_arg args i) (\<lambda>toks.
                            case toks of
                              [] \<Rightarrow> subst_body red tab body2 args (accu @ [t]) ds
                            | t2 # ts \<Rightarrow>
                                rbind (paste_tokens (last accu) t2) (\<lambda>q. subst_body red tab body2 args (butlast accu @ [q] @ ts) ds))
                      | None \<Rightarrow>
                          if u = (IDENT, VS ''__VA_ARGS__'')
                          then subst_body red tab body2 args (paste_va (length tab) args accu) ds
                          else rbind (paste_tokens (last accu) u) (\<lambda>q. subst_body red tab body2 args (butlast accu @ [q]) ds)))
      else (case param_of tab t of
              None \<Rightarrow> subst_body red tab body args (accu @ [t]) ds
            | Some i \<Rightarrow>
                rbind (nth_arg args i) (\<lambda>toks.
                  rbind (red toks ds) (\<lambda>(toks', ds').
                    subst_body red tab body (args[i := toks']) (accu @ toks') ds'))))"

definition in_defs :: "tok_val \<Rightarrow> defs \<Rightarrow> bool" where
  "in_defs v ds \<longleftrightarrow> (case v of VS s \<Rightarrow> ds s \<noteq> None | _ \<Rightarrow> False)"

definition defined_val :: "tok_val \<Rightarrow> defs \<Rightarrow> token" where
  "defined_val v ds = (NUM, VI (bool_int (in_defs v ds)))"

text \<open>The list after \<open>defined\<close>: the answer and the rest.\<close>

definition reduce_defined :: "token list \<Rightarrow> defs \<Rightarrow> token list result" where
  "reduce_defined l ds =
     (case l of
        [] \<Rightarrow> Inr []
      | (p2, v2) # r \<Rightarrow>
          if p2 = IDENT then Inr (defined_val v2 ds # r)
          else if is_op ''('' (p2, v2)
          then (case r of
                  (p3, v3) # x # r3 \<Rightarrow> Inr (defined_val v3 ds # r3)
                | _ \<Rightarrow> Inl IndexError)
          else Inl (PreprocError ''invalid define expression''))"

text \<open>\<open>defs[v]\<close>, parsed when it is still the line of the definition.\<close>

definition get_macro :: "string \<Rightarrow> cmacro \<Rightarrow> defs \<Rightarrow> (cmacro \<times> defs) result" where
  "get_macro name m ds =
     (case m of
        MLine txt \<Rightarrow> rmap (\<lambda>(a, b). (b, ds(name \<mapsto> b))) (extract_macro txt)
      | _ \<Rightarrow> Inr (m, ds))"

text \<open>
  One round of the loop of \<open>reduce_tokens\<close>, for the tokens from the place \<open>i\<close> on: the tokens that the loop
  passes, and those it goes on with. The tokens of a macro without arguments are passed, together with the
  next token; the result of a call is passed for its first token only.
\<close>

definition next_token :: "token list \<Rightarrow> token list \<times> token list" where
  "next_token l = (take 1 l, drop 1 l)"

definition reduce_step :: "reducer \<Rightarrow> token \<Rightarrow> token list \<Rightarrow> defs \<Rightarrow> ((token list \<times> token list) \<times> defs) result" where
  "reduce_step red t rst ds =
     (if t = (IDENT, VS ''defined'') then rmap (\<lambda>l. (next_token l, ds)) (reduce_defined rst ds)
      else if fst t \<noteq> IDENT then Inr (([t], rst), ds)
      else let name = op_text (snd t) in
        case ds name of
          None \<Rightarrow> Inr (([t], rst), ds)
        | Some m \<Rightarrow>
            rbind (get_macro name m ds) (\<lambda>(mac, ds1).
              case mac of
                MLine txt \<Rightarrow> Inl TypeError
              | MObj body \<Rightarrow> Inr ((body @ take 1 rst, drop 1 rst), ds1)
              | MFun tab body \<Rightarrow>
                  (case rst of
                     [] \<Rightarrow> Inl (PreprocError ''expected ( after name (got nothing)'')
                   | u # r \<Rightarrow>
                       if \<not> is_op ''('' u then Inl (PreprocError ''expected ( after name'')
                       else rbind (collect_args 0 [] [] r) (\<lambda>(args, r2).
                         rbind (subst_body red tab body args [] ds1) (\<lambda>(accu, ds2).
                           rmap (\<lambda>(accu2, ds3). (next_token (accu2 @ r2), ds3)) (red accu ds2))))))"

text \<open>
  \<open>reduce_tokens\<close>: the bound is on the rounds and the depth of the calls together. A macro that calls itself
  has no end; the parameter \<open>ban\<close> of the code is never read.
\<close>

fun reduce_tokens :: "nat \<Rightarrow> token list \<Rightarrow> defs \<Rightarrow> (token list \<times> defs) result" where
  "reduce_tokens n [] ds = Inr ([], ds)"
| "reduce_tokens 0 (t # l) ds = Inl RuntimeError"
| "reduce_tokens (Suc n) (t # l) ds =
     rbind (reduce_step (reduce_tokens n) t l ds) (\<lambda>((passed, todo), ds1).
       rmap (\<lambda>(l2, ds2). (passed @ l2, ds2)) (reduce_tokens n todo ds1))"

definition eval_macro :: "nat \<Rightarrow> token list \<Rightarrow> defs \<Rightarrow> (bool \<times> defs) result" where
  "eval_macro n lst ds =
     rbind (reduce_tokens n lst ds) (\<lambda>(l, ds1).
       if l = [] then Inl (PreprocError ''missing tokens to evaluate'')
       else rbind (reduce_eval l) (\<lambda>(p, v). rmap (\<lambda>i. (i \<noteq> 0, ds1)) (to_int v)))"

subsection \<open>\<open>#include\<close>\<close>

text \<open>The result of \<open>extract_include\<close>: a pair, or in one case a text only, which the callers then take apart.\<close>

datatype inc_result = IncPair string string | IncText string

definition re_include :: re where
  "re_include = rseq [RBol, RStar RSpace,
     RAlt (rseq [RLit (CHR ''<''), RGroup 1 (RStar RAny), RLit (CHR ''>'')]) (rseq [RLit dq, RGroup 2 (RStar RAny), RLit dq])]"

definition include_literal :: "string \<Rightarrow> inc_result option" where
  "include_literal txt =
     (case re_search re_include txt 0 of
        None \<Rightarrow> None
      | Some m \<Rightarrow>
          if group_text txt m 1 \<noteq> [] then Some (IncPair ''<'' (group_text txt m 1))
          else if group_text txt m 2 \<noteq> [] then Some (IncPair [dq] (group_text txt m 2))
          else None)"

definition extract_include :: "nat \<Rightarrow> string \<Rightarrow> defs \<Rightarrow> (inc_result \<times> defs) result" where
  "extract_include n txt ds =
     (case include_literal txt of
        Some i \<Rightarrow> Inr (i, ds)
      | None \<Rightarrow>
          rbind (tokenize txt) (\<lambda>toks0. rbind (reduce_tokens n toks0 ds) (\<lambda>(toks, ds1).
            case toks of
              [] \<Rightarrow> Inl (PreprocError ''could not parse include'')
            | [t] \<Rightarrow> if fst t = TSTR then Inr (IncPair [dq] (tok_str (snd t)), ds1) else Inl (PreprocError ''could not parse include.'')
            | _ \<Rightarrow>
                if snd (hd toks) = VS ''<'' \<and> snd (last toks) = VS ''>''
                then Inr (IncText (rev (dropWhile (\<lambda>c. c = CHR ''>'') (rev (dropWhile (\<lambda>c. c = CHR ''<'') (stringize toks))))), ds1)
                else Inl (PreprocError ''could not parse include.''))))"

text \<open>\<open>(kind, inc) = ...\<close> of the callers.\<close>

fun unpack_include :: "inc_result \<Rightarrow> (string \<times> string) result" where
  "unpack_include (IncPair k i) = Inr (k, i)"
| "unpack_include (IncText [a, b]) = Inr ([a], [b])"
| "unpack_include (IncText s) = Inl ValueError"

section \<open>The evaluation of a condition ends\<close>

lemma rparen_lt: "rparen n l = Some i \<Longrightarrow> i < length l"
  by (induction n l arbitrary: i rule: rparen.induct) (auto split: if_splits)

lemma find_colon_lt: "find_colon n l = Some i \<Longrightarrow> i < length l"
  by (induction n l arbitrary: i rule: find_colon.induct) (auto split: if_splits)

lemma get_num_shorter: "get_num n lst = Inr (v, r) \<Longrightarrow> length r < length lst"
proof (induction n lst arbitrary: v r rule: get_num_get_term.induct(1)[where Q = "\<lambda>n l. True"])
  case (3 n p w q)
  then show ?case
    by (fastforce simp: rmap_Inr_iff elim!: rbind_InrE split: tok_type.splits if_splits option.splits)
qed auto

lemma reduce_nums_not_runtime: "reduce_nums a b c \<noteq> Inl RuntimeError"
proof -
  have p: "int_of_text n s \<noteq> Inl RuntimeError" for n s by (auto simp: int_of_text_def Let_def split: prod.splits)
  have "to_int v \<noteq> Inl RuntimeError" for v by (cases v) (auto simp: p)
  moreover have "arith d i j \<noteq> Inl RuntimeError" for d i j by (auto simp: arith_def)
  ultimately show ?thesis by (auto simp: reduce_nums_def rbind_Inl_iff rmap_def)
qed

lemma to_int_not_runtime: "to_int v \<noteq> Inl RuntimeError"
  by (cases v) (auto simp: int_of_text_def Let_def split: prod.splits)

lemma prec_not_runtime: "prec v \<noteq> Inl RuntimeError"
  by (auto simp: prec_def split: tok_val.splits option.splits)

lemma enough_depth:
  "(2 * length lst + 1 \<le> n \<longrightarrow> get_num n lst \<noteq> Inl RuntimeError) \<and> (2 * length lst + 2 \<le> n \<longrightarrow> get_term n lst \<noteq> Inl RuntimeError)"
proof (induction n arbitrary: lst)
  case (Suc n)
  have num: "get_num n l \<noteq> Inl RuntimeError" if "2 * length l + 1 \<le> n" for l using Suc.IH that by blast
  have trm: "get_term n l \<noteq> Inl RuntimeError" if "2 * length l + 2 \<le> n" for l using Suc.IH that by blast
  have "get_num (Suc n) lst \<noteq> Inl RuntimeError" if "2 * length lst + 1 \<le> Suc n"
  proof (cases lst)
    case (Cons t r)
    obtain p v where t: "t = (p, v)" by (cases t)
    have r: "2 * length r + 2 \<le> n" using that Cons by simp
    then have "get_num n r \<noteq> Inl RuntimeError" using num by simp
    moreover have "get_term n (take i r) \<noteq> Inl RuntimeError" if "rparen 1 r = Some i" for i
      using trm[of "take i r"] r rparen_lt[OF that] by simp
    ultimately show ?thesis unfolding Cons t
      by (auto simp: rbind_Inl_iff rmap_def PreprocError_def reduce_nums_not_runtime to_int_not_runtime split: tok_type.splits option.splits)
  qed (simp add: PreprocError_def)
  moreover have "get_term (Suc n) lst \<noteq> Inl RuntimeError" if len: "2 * length lst + 2 \<le> Suc n"
  proof -
    have n0: "get_num n lst \<noteq> Inl RuntimeError" using num len by simp
    have step: "(case l of
          [] \<Rightarrow> Inr (x, [])
        | (p, v) # r \<Rightarrow>
            if p \<noteq> OP then Inl (PreprocError ''cannot reduce'')
            else if v = VS ''&&'' \<and> \<not> tok_true x then Inr (x, [])
            else if v = VS ''||'' \<and> tok_true x then Inr (x, [])
            else if v = VS '','' then get_term n r
            else if v = VS ''?''
            then (case find_colon 0 r of
                    None \<Rightarrow> Inl (PreprocError ''rparen expected'')
                  | Some i \<Rightarrow> rbind (to_int x) (\<lambda>c. if c \<noteq> 0 then get_term n (take i r) else get_term n (drop (Suc i) r)))
            else rbind (get_num n r) (\<lambda>(num2, l).
              case l of
                [] \<Rightarrow> rbind (reduce_nums x num2 v) (\<lambda>c. get_term n [(NUM, c)])
              | (p2, v2) # l2 \<Rightarrow>
                  if p2 \<noteq> OP then Inl (PreprocError ''op expected'')
                  else rbind (prec v2) (\<lambda>q2. rbind (prec v) (\<lambda>q.
                    if q2 \<ge> q then rbind (reduce_nums x num2 v) (\<lambda>c. get_term n ((NUM, c) # l))
                    else rbind (get_num n l2) (\<lambda>(num3, l3).
                      rbind (reduce_nums num2 num3 v2) (\<lambda>c. get_term n ((NUM, x) # (p, v) # (NUM, c) # l3))))))) \<noteq> Inl RuntimeError"
      if l: "length l < length lst" for x l
    proof (cases l)
      case (Cons t r)
      obtain p v where t: "t = (p, v)" by (cases t)
      have r: "Suc (Suc (length r)) \<le> length lst" using l Cons by simp
      have "get_term n r \<noteq> Inl RuntimeError" "get_num n r \<noteq> Inl RuntimeError" using trm num r len by auto
      moreover have "get_term n (take i r) \<noteq> Inl RuntimeError" "get_term n (drop (Suc i) r) \<noteq> Inl RuntimeError" if "find_colon 0 r = Some i" for i
        using trm[of "take i r"] trm[of "drop (Suc i) r"] r len find_colon_lt[OF that] by auto
      moreover have "get_term n [(NUM, c)] \<noteq> Inl RuntimeError" if "get_num n r = Inr (y, [])" for c y
        using trm[of "[(NUM, c)]"] get_num_shorter[OF that] r len by simp
      moreover have "get_term n ((NUM, c) # u # l2) \<noteq> Inl RuntimeError" "get_num n l2 \<noteq> Inl RuntimeError"
        if "get_num n r = Inr (y, u # l2)" for c y u l2
        using trm[of "(NUM, c) # u # l2"] num[of l2] get_num_shorter[OF that] r len by simp_all
      moreover have "get_term n ((NUM, x) # (p, v) # (NUM, c) # l3) \<noteq> Inl RuntimeError"
        if "get_num n r = Inr (y, u # l2)" "get_num n l2 = Inr (z, l3)" for c y u l2 z l3
        using trm[of "(NUM, x) # (p, v) # (NUM, c) # l3"] get_num_shorter[OF that(1)] get_num_shorter[OF that(2)] r len by simp
      ultimately show ?thesis unfolding Cons t
        by (auto simp: rbind_Inl_iff PreprocError_def reduce_nums_not_runtime to_int_not_runtime prec_not_runtime
            split: list.splits option.splits)
    qed simp
    show ?thesis
    proof (cases "get_num n lst")
      case (Inr y)
      obtain x l where y: "y = (x, l)" by (cases y)
      then show ?thesis using step[OF get_num_shorter[of n lst x l], of x] Inr by (simp add: PreprocError_def)
    qed (use n0 in \<open>auto simp: PreprocError_def\<close>)
  qed
  ultimately show ?case by blast
qed simp

text \<open>
  C26. The evaluation of a condition always ends: \<open>get_term\<close> and \<open>get_num\<close> never need a deeper recursion than twice
  the number of tokens, so \<open>reduce_eval\<close> returns a value or one of the errors of the code.
\<close>

theorem reduce_eval_ends: "reduce_eval lst \<noteq> Inl RuntimeError"
  using enough_depth[of lst "term_depth lst"] by (auto simp: reduce_eval_def term_depth_def rmap_def rbind_Inl_iff)


section \<open>Parenthesized conditions\<close>

text \<open>
  Conditions with parentheses around all operands: the text of a condition as tokens, and its value. As in
  the code, \<open>&&\<close> and \<open>||\<close> give the value of an operand and look at the second one only when they have to.
\<close>

datatype cexp = CNum int | CDef string | CNot cexp | CNeg cexp | CBin string cexp cexp | CIf cexp cexp cexp

definition bin_ops :: "string list" where
  "bin_ops = [''*'', ''/'', ''%'', ''+'', ''-'', ''<<'', ''>>'', ''<'', ''<='', ''>='', ''>'', ''=='', ''!='', ''&'', ''|'', ''^'', ''&&'', ''||'']"

fun ok_exp :: "cexp \<Rightarrow> bool" where
  "ok_exp (CNum i) \<longleftrightarrow> True"
| "ok_exp (CDef s) \<longleftrightarrow> True"
| "ok_exp (CNot e) \<longleftrightarrow> ok_exp e"
| "ok_exp (CNeg e) \<longleftrightarrow> ok_exp e"
| "ok_exp (CBin op a b) \<longleftrightarrow> op \<in> set bin_ops \<and> ok_exp a \<and> ok_exp b"
| "ok_exp (CIf c a b) \<longleftrightarrow> ok_exp c \<and> ok_exp a \<and> ok_exp b"

definition op_tok :: "string \<Rightarrow> token" where "op_tok s = (OP, VS s)"

fun render :: "cexp \<Rightarrow> token list" where
  "render (CNum i) = [(NUM, VI i)]"
| "render (CDef s) = [(IDENT, VS ''defined''), op_tok ''('', (IDENT, VS s), op_tok '')'']"
| "render (CNot e) = [op_tok ''!'', op_tok ''(''] @ render e @ [op_tok '')'']"
| "render (CNeg e) = [op_tok ''-'', op_tok ''(''] @ render e @ [op_tok '')'']"
| "render (CBin op a b) = [op_tok ''(''] @ render a @ [op_tok '')'', op_tok op, op_tok ''(''] @ render b @ [op_tok '')'']"
| "render (CIf c a b) = [op_tok ''(''] @ render c @ [op_tok '')'', op_tok ''?'', op_tok ''(''] @ render a @
     [op_tok '')'', op_tok '':'', op_tok ''(''] @ render b @ [op_tok '')'']"

fun cexp_val :: "defs \<Rightarrow> cexp \<Rightarrow> int result" where
  "cexp_val ds (CNum i) = Inr i"
| "cexp_val ds (CDef s) = Inr (bool_int (ds s \<noteq> None))"
| "cexp_val ds (CNot e) = rmap (\<lambda>i. bool_int (i = 0)) (cexp_val ds e)"
| "cexp_val ds (CNeg e) = rmap (\<lambda>i. - i) (cexp_val ds e)"
| "cexp_val ds (CBin op a b) =
     rbind (cexp_val ds a) (\<lambda>x.
       if op = ''&&'' \<and> x = 0 \<or> op = ''||'' \<and> x \<noteq> 0 then Inr x else rbind (cexp_val ds b) (arith op x))"
| "cexp_val ds (CIf c a b) = rbind (cexp_val ds c) (\<lambda>x. if x \<noteq> 0 then cexp_val ds a else cexp_val ds b)"

text \<open>The condition with all \<open>defined\<close> answered.\<close>

fun resolve_defs :: "defs \<Rightarrow> cexp \<Rightarrow> cexp" where
  "resolve_defs ds (CNum i) = CNum i"
| "resolve_defs ds (CDef s) = CNum (bool_int (ds s \<noteq> None))"
| "resolve_defs ds (CNot e) = CNot (resolve_defs ds e)"
| "resolve_defs ds (CNeg e) = CNeg (resolve_defs ds e)"
| "resolve_defs ds (CBin op a b) = CBin op (resolve_defs ds a) (resolve_defs ds b)"
| "resolve_defs ds (CIf c a b) = CIf (resolve_defs ds c) (resolve_defs ds a) (resolve_defs ds b)"

fun no_defs :: "cexp \<Rightarrow> bool" where
  "no_defs (CNum i) \<longleftrightarrow> True"
| "no_defs (CDef s) \<longleftrightarrow> False"
| "no_defs (CNot e) \<longleftrightarrow> no_defs e"
| "no_defs (CNeg e) \<longleftrightarrow> no_defs e"
| "no_defs (CBin op a b) \<longleftrightarrow> no_defs a \<and> no_defs b"
| "no_defs (CIf c a b) \<longleftrightarrow> no_defs c \<and> no_defs a \<and> no_defs b"

lemma resolve_simps: "no_defs (resolve_defs ds e)" "ok_exp (resolve_defs ds e) \<longleftrightarrow> ok_exp e" "cexp_val ds' (resolve_defs ds e) = cexp_val ds e"
  by (induction e) (simp_all cong: if_cong)

lemma is_op_tok [simp]: "is_op s (op_tok r) \<longleftrightarrow> r = s" "\<not> is_op s (NUM, v)" "\<not> is_op s (IDENT, v)"
  by (auto simp: is_op_def op_tok_def)

lemma bin_ops_simps:
  assumes "op \<in> set bin_ops"
  shows "op \<noteq> ''(''" "op \<noteq> '')''" "op \<noteq> '':''" "op \<noteq> '',''" "op \<noteq> ''?''"
  using assms by (auto simp: bin_ops_def)

lemma rparen_render: "ok_exp e \<Longrightarrow> 0 < n \<Longrightarrow> rparen n (render e @ l) = map_option (\<lambda>i. i + length (render e)) (rparen n l)"
  by (induction e arbitrary: n l) (simp_all add: bin_ops_simps option.map_comp o_def add_ac)

lemma find_colon_render: "ok_exp e \<Longrightarrow> 0 < n \<Longrightarrow> find_colon n (render e @ l) = map_option (\<lambda>i. i + length (render e)) (find_colon n l)"
  by (induction e arbitrary: n l) (simp_all add: bin_ops_simps option.map_comp o_def add_ac)

lemma get_num_paren:
  assumes "ok_exp e" and "get_term n (render e) = rmap (\<lambda>i. (VI i, [])) x"
  shows "get_num (Suc n) (op_tok ''('' # render e @ op_tok '')'' # l) = rmap (\<lambda>i. (VI i, l)) x"
  using assms rparen_render[OF assms(1), of 1 "op_tok '')'' # l"] by (cases x) (auto simp: op_tok_def[of "''(''"])

lemma get_term_num: "get_term (Suc (Suc n)) [(NUM, v)] = Inr (v, [])"
  by simp

lemma py_int_minus_1: "int_of_text 10 ''-1'' = Inr (- 1)"
  by (simp add: int_of_text_def py_strip_def py_lstrip_def py_rstrip_def chr_isspace_def digits_ok_def digits_val_def chr_ishex_def
      digit_val_def chr_isdigit_def of_char_def)

lemma get_term_render:
  "ok_exp e \<Longrightarrow> no_defs e \<Longrightarrow> 2 * length (render e) + 2 \<le> n \<Longrightarrow> get_term n (render e) = rmap (\<lambda>i. (VI i, [])) (cexp_val ds e)"
proof (induction e arbitrary: n)
  case (CNum i)
  then obtain m where "n = Suc (Suc m)" by (cases n; cases "n - 1") auto
  then show ?case by simp
next
  case (CNot e)
  obtain m where n: "n = Suc (Suc (Suc m))" using CNot.prems by (cases n; cases "n - 1"; cases "n - 2") auto
  have "get_num (Suc m) (op_tok ''('' # render e @ [op_tok '')'']) = rmap (\<lambda>i. (VI i, [])) (cexp_val ds e)"
    by (rule get_num_paren) (use CNot n in auto)
  then have "get_num (Suc (Suc m)) (render (CNot e)) = rmap (\<lambda>i. (VI (bool_int (i = 0)), [])) (cexp_val ds e)"
    by (cases "cexp_val ds e") (auto simp: op_tok_def[of "''!''"])
  then show ?case unfolding n by (cases "cexp_val ds e") auto
next
  case (CNeg e)
  obtain m where n: "n = Suc (Suc (Suc m))" using CNeg.prems by (cases n; cases "n - 1"; cases "n - 2") auto
  have "get_num (Suc m) (op_tok ''('' # render e @ [op_tok '')'']) = rmap (\<lambda>i. (VI i, [])) (cexp_val ds e)"
    by (rule get_num_paren) (use CNeg n in auto)
  then have "get_num (Suc (Suc m)) (render (CNeg e)) = rmap (\<lambda>i. (VI (- i), [])) (cexp_val ds e)"
    by (cases "cexp_val ds e") (auto simp: op_tok_def[of "''-''"] reduce_nums_def py_int_minus_1 arith_def op_text_def)
  then show ?case unfolding n by (cases "cexp_val ds e") auto
next
  case (CBin op a b)
  obtain m where n: "n = Suc (Suc m)" "2 * length (render (CBin op a b)) \<le> m" using CBin.prems by (cases n; cases "n - 1") auto
  have op: "op \<in> set bin_ops" using CBin.prems by simp
  have a: "get_num (Suc m) (render (CBin op a b)) = rmap (\<lambda>i. (VI i, op_tok op # op_tok ''('' # render b @ [op_tok '')''])) (cexp_val ds a)"
    using get_num_paren[of a m "cexp_val ds a" "op_tok op # op_tok ''('' # render b @ [op_tok '')'']"] CBin.IH(1)[of m] CBin.prems n by simp
  have b: "get_num (Suc m) (op_tok ''('' # render b @ [op_tok '')'']) = rmap (\<lambda>i. (VI i, [])) (cexp_val ds b)"
    using get_num_paren[of b m "cexp_val ds b" "[]"] CBin.IH(2)[of m] CBin.prems n by simp
  obtain m' where m': "Suc m = Suc (Suc m')" using n by (cases m) auto
  have c: "get_term (Suc m) [(NUM, VI z)] = Inr (VI z, [])" for z unfolding m' by (rule get_term_num)
  show ?case unfolding n(1) get_term.simps(2)[of "Suc m" "render (CBin op a b)"] a
    using b c op bin_ops_simps[OF op]
    by (cases "cexp_val ds a"; cases "cexp_val ds b")
      (auto simp: op_tok_def reduce_nums_def op_text_def rmap_def rbind_def simp del: get_num.simps get_term.simps split: sum.splits)
next
  case (CIf c a b)
  obtain m where n: "n = Suc (Suc m)" "2 * length (render (CIf c a b)) \<le> m" using CIf.prems by (cases n; cases "n - 1") auto
  let ?pa = "op_tok ''('' # render a @ [op_tok '')'']" and ?pb = "op_tok ''('' # render b @ [op_tok '')'']"
  have c: "get_num (Suc m) (render (CIf c a b)) = rmap (\<lambda>i. (VI i, op_tok ''?'' # ?pa @ op_tok '':'' # ?pb)) (cexp_val ds c)"
    using get_num_paren[of c m "cexp_val ds c" "op_tok ''?'' # ?pa @ op_tok '':'' # ?pb"] CIf.IH(1)[of m] CIf.prems n by simp
  have p: "get_term (Suc m) (op_tok ''('' # render e @ [op_tok '')'']) = rmap (\<lambda>i. (VI i, [])) (cexp_val ds e)"
    if "get_term (m - 1) (render e) = rmap (\<lambda>i. (VI i, [])) (cexp_val ds e)" "ok_exp e" for e
  proof -
    obtain m' where m': "m = Suc m'" using n by (cases m) auto
    then have "get_num m (op_tok ''('' # render e @ [op_tok '')'']) = rmap (\<lambda>i. (VI i, [])) (cexp_val ds e)"
      using get_num_paren[OF that(2), of m' "cexp_val ds e" "[]"] that(1) by simp
    then show ?thesis by (cases "cexp_val ds e") (auto simp del: get_num.simps)
  qed
  have "find_colon 0 (?pa @ op_tok '':'' # ?pb) = Some (length ?pa)"
    using find_colon_render[of a 1 "op_tok '')'' # op_tok '':'' # ?pb"] CIf.prems by simp
  moreover have "get_term (Suc m) ?pa = rmap (\<lambda>i. (VI i, [])) (cexp_val ds a)" "get_term (Suc m) ?pb = rmap (\<lambda>i. (VI i, [])) (cexp_val ds b)"
    using CIf.IH(2,3)[of "m - 1"] CIf.prems n p by simp_all
  ultimately show ?case unfolding n(1) get_term.simps(2)[of "Suc m" "render (CIf c a b)"] c
    by (cases "cexp_val ds c") (auto simp: op_tok_def simp del: get_num.simps get_term.simps)
qed simp

text \<open>The rounds of \<open>reduce_tokens\<close> for a condition.\<close>

fun rounds :: "cexp \<Rightarrow> nat" where
  "rounds (CNum i) = 1"
| "rounds (CDef s) = 1"
| "rounds (CNot e) = rounds e + 3"
| "rounds (CNeg e) = rounds e + 3"
| "rounds (CBin op a b) = rounds a + rounds b + 5"
| "rounds (CIf c a b) = rounds c + rounds a + rounds b + 8"

lemma reduce_plain:
  "fst t \<noteq> IDENT \<Longrightarrow> reduce_tokens (Suc n) (t # l) ds = rmap (\<lambda>(l2, ds2). (t # l2, ds2)) (reduce_tokens n l ds)"
  by (cases t) (auto simp: reduce_step_def)

lemma reduce_op [simp]: "reduce_tokens (Suc n) (op_tok s # l) ds = rmap (\<lambda>(l2, ds2). (op_tok s # l2, ds2)) (reduce_tokens n l ds)"
  by (rule reduce_plain) (simp add: op_tok_def)

lemma reduce_render:
  "reduce_tokens (rounds e + m) (render e @ l) ds = rmap (\<lambda>(l2, ds2). (render (resolve_defs ds e) @ l2, ds2)) (reduce_tokens m l ds)"
proof (induction e arbitrary: m l)
  case (CNum i)
  then show ?case using reduce_plain[of "(NUM, VI i)" m l ds] by simp
next
  case (CDef s)
  then show ?case
    by (simp add: reduce_step_def reduce_defined_def is_op_def op_tok_def next_token_def defined_val_def in_defs_def)
next
  case (CNot e)
  then show ?case using CNot.IH[of "Suc m" "op_tok '')'' # l"] by (cases "reduce_tokens m l ds") (auto simp: eval_nat_numeral simp del: reduce_tokens.simps(3))
next
  case (CNeg e)
  then show ?case using CNeg.IH[of "Suc m" "op_tok '')'' # l"] by (cases "reduce_tokens m l ds") (auto simp: eval_nat_numeral simp del: reduce_tokens.simps(3))
next
  case (CBin op a b)
  then show ?case
    using CBin.IH(1)[of "rounds b + m + 4" "op_tok '')'' # op_tok op # op_tok ''('' # render b @ op_tok '')'' # l"]
      CBin.IH(2)[of "Suc m" "op_tok '')'' # l"]
    by (cases "reduce_tokens m l ds") (auto simp: eval_nat_numeral add_ac simp del: reduce_tokens.simps(3))
next
  case (CIf c a b)
  then show ?case
    using CIf.IH(1)[of "rounds a + rounds b + m + 7" "op_tok '')'' # op_tok ''?'' # op_tok ''('' # render a @ op_tok '')'' # op_tok '':'' #
        op_tok ''('' # render b @ op_tok '')'' # l"]
      CIf.IH(2)[of "rounds b + m + 4" "op_tok '')'' # op_tok '':'' # op_tok ''('' # render b @ op_tok '')'' # l"]
      CIf.IH(3)[of "Suc m" "op_tok '')'' # l"]
    by (cases "reduce_tokens m l ds") (auto simp: eval_nat_numeral add_ac simp del: reduce_tokens.simps(3))
qed

lemma render_not_Nil: "render e \<noteq> []"
  by (cases e) auto



section \<open>What goes wrong\<close>

text \<open>
  The tokenizer leaves a decimal constant a text, and every such text is true for \<open>||\<close>: the condition
  \<open>0 || 1\<close> has the value 0.
\<close>

lemma zero_or_one: "reduce_eval [(NUM, VS ''0''), (OP, VS ''||''), (NUM, VS ''1'')] = Inr (NUM, VS ''0'')"
  by (simp add: reduce_eval_def term_depth_def eval_nat_numeral)

text \<open>
  An operator that binds tighter takes only the next number: \<open>1 == 1 + 1 * 0\<close> is computed as \<open>1 == (1 + 1) * 0\<close>.
  And \<open>0 && 1 || 1\<close> is 0, because \<open>&&\<close> drops the rest of the condition.
\<close>

lemma precedence_lost:
  "reduce_eval [(NUM, VI 1), (OP, VS ''==''), (NUM, VI 1), (OP, VS ''+''), (NUM, VI 1), (OP, VS ''*''), (NUM, VI 0)] = Inr (NUM, VI 0)"
  by (simp add: reduce_eval_def term_depth_def eval_nat_numeral prec_def c_ops_def py_split_ws_def chr_isspace_def reduce_nums_def
      arith_def op_text_def bool_int_def)

lemma and_drops_rest:
  "reduce_eval [(NUM, VI 0), (OP, VS ''&&''), (NUM, VI 1), (OP, VS ''||''), (NUM, VI 1)] = Inr (NUM, VI 0)"
  by (simp add: reduce_eval_def term_depth_def eval_nat_numeral)

text \<open>
  The tokens of a macro without arguments are not looked at again, nor is the token after it: with \<open>A\<close>
  defined as \<open>B\<close> and \<open>B\<close> as 1, the list \<open>A B\<close> becomes \<open>B B\<close>.
\<close>

lemma object_macro_not_rescanned:
  assumes "ds ''A'' = Some (MObj [(IDENT, VS ''B'')])"
  shows "reduce_tokens (Suc n) [(IDENT, VS ''A''), (IDENT, VS ''B'')] ds = Inr ([(IDENT, VS ''B''), (IDENT, VS ''B'')], ds)"
  using assms by (simp add: reduce_step_def op_text_def get_macro_def)

text \<open>A macro that calls itself is expanded without end: no bound is enough.\<close>

lemma self_calling_macro:
  assumes "ds ''f'' = Some (MFun [(''x'', 0)] [(IDENT, VS ''f''), (OP, VS ''(''), (NUM, VI 0), (OP, VS '')'')])"
  shows "reduce_tokens n [(IDENT, VS ''f''), (OP, VS ''(''), (NUM, VI 0), (OP, VS '')'')] ds = Inl RuntimeError"
  using assms
proof (induction n)
  case (Suc n)
  then show ?case
    by (simp add: reduce_step_def op_text_def get_macro_def is_op_def param_of_def)
qed simp

end
