(* ===== verification/Waf_Preproc.thy ===== *)
theory Waf_Preproc
  imports Waf_Cmacro Waf_Node
begin

text \<open>
  The scanner for the headers that a C file includes, \<^verbatim>\<open>src/tools/wafadmin/Tools/preproc.py\<close>: the class
  \<open>c_parser\<close>, which follows the directives of a file and of the files it includes, with the search in the
  file tree of \<open>Waf_Node\<close>, and the simple scanner \<open>get_deps_simple\<close>.

  After the definitions: the loop over the lines ends (it is a total function, by the limit on the number
  of files); the lines of a branch that is not taken have no effect, whatever they are; and the simple
  scanner does not look into the files that it finds.

  \<open>pp_lim\<close> is the depth of calls that the replacement of macros may use.
\<close>

section \<open>Definitions\<close>

definition POPFILE :: string where "POPFILE = ''-''"
definition recursion_limit :: nat where "recursion_limit = 100"

text \<open>What the scanner takes from outside: the file tree's file system, the text of files, and the environment.\<close>

record pp_env =
  pp_lim :: nat
  pp_fs :: fsys
  pp_readf :: "string \<Rightarrow> string result"
  pp_variant :: "string option"

text \<open>The state of a conditional. The stacks have their top first.\<close>

datatype cond_state = Accepted | Ignored | Undefined | Skipped

record c_parser =
  cp_lines :: "(string \<times> string) list"
  cp_defs :: defs
  cp_state :: "cond_state list"
  cp_count :: nat
  cp_stack :: "nat option list"
  cp_nodepaths :: "nat list"
  cp_nodes :: "nat list"
  cp_names :: "string list"
  cp_curfile :: string
  cp_ban :: "string list"
  cp_cache :: "string \<rightharpoonup> (string \<times> string) list"
  cp_tree :: ntree

text \<open>The cache of parsed files is kept in the build context, so it is there from one file that is scanned to the next.\<close>

type_synonym pcache = "string \<rightharpoonup> (string \<times> string) list"

definition new_parser :: "nat list \<Rightarrow> defs \<Rightarrow> pcache \<Rightarrow> ntree \<Rightarrow> c_parser" where
  "new_parser nodepaths defines pc t =
     \<lparr>cp_lines = [], cp_defs = defines, cp_state = [], cp_count = 0, cp_stack = [], cp_nodepaths = nodepaths,
      cp_nodes = [], cp_names = [], cp_curfile = [], cp_ban = [], cp_cache = pc, cp_tree = t\<rparr>"

text \<open>
  \<open>addlines\<close>: the error, if one is raised, with the state that it leaves. Of the errors of
  \<open>filter_comments\<close> only \<open>IOError\<close> is raised again; the others leave the file without lines.
\<close>

definition addlines :: "pp_env \<Rightarrow> nat \<Rightarrow> c_parser \<Rightarrow> unit result \<times> c_parser" where
  "addlines e node st =
     (let st1 = st\<lparr>cp_stack := n_parent (node_at (cp_tree st) node) # cp_stack st\<rparr> in
      case abspath (cp_tree st) node (pp_variant e) of
        Inl err \<Rightarrow> (Inl err, st1)
      | Inr (p, t) \<Rightarrow>
          let st2 = st1\<lparr>cp_tree := t, cp_count := Suc (cp_count st)\<rparr> in
          if Suc (cp_count st) > recursion_limit then (Inl (PreprocError ''recursion limit exceeded''), st2)
          else (case cp_cache st p of
                  Some lns \<Rightarrow> (Inr (), st2\<lparr>cp_lines := lns @ cp_lines st\<rparr>)
                | None \<Rightarrow>
                    (case filter_comments False (pp_readf e p) of
                       Inl err \<Rightarrow> (if err = IOError then Inl (PreprocError ''could not read the file'') else Inr (), st2)
                     | Inr l \<Rightarrow>
                         let lns = l @ [(POPFILE, [])]
                         in (Inr (), st2\<lparr>cp_cache := (cp_cache st)(p \<mapsto> lns), cp_lines := lns @ cp_lines st\<rparr>))))"

text \<open>The search of \<open>tryfind\<close>: the directory of the current file, then the include paths.\<close>

fun search_paths :: "fsys \<Rightarrow> string \<Rightarrow> nat list \<Rightarrow> ntree \<Rightarrow> (nat option \<times> ntree) result" where
  "search_paths fs f [] t = Inr (None, t)"
| "search_paths fs f (n # ns) t =
     rbind (find_resource fs n (split_path f) t) (\<lambda>(x, t1).
       case x of None \<Rightarrow> search_paths fs f ns t1 | Some y \<Rightarrow> Inr (Some y, t1))"

definition find_include :: "pp_env \<Rightarrow> string \<Rightarrow> c_parser \<Rightarrow> (nat option \<times> ntree) result" where
  "find_include e f st =
     (case cp_stack st of
        [] \<Rightarrow> Inl IndexError
      | None # s \<Rightarrow> Inl AttributeError
      | Some d # s \<Rightarrow> search_paths (pp_fs e) f (d # cp_nodepaths st) (cp_tree st))"

text \<open>\<open>tryfind\<close>; its errors are caught by the loop of \<open>start\<close>, so only the state they leave matters.\<close>

definition tryfind :: "pp_env \<Rightarrow> string \<Rightarrow> c_parser \<Rightarrow> c_parser" where
  "tryfind e f st0 =
     (let st = st0\<lparr>cp_curfile := f\<rparr> in
      case find_include e f st of
        Inl err \<Rightarrow> st
      | Inr (None, t) \<Rightarrow> st\<lparr>cp_tree := t, cp_names := (if f \<in> set (cp_names st) then cp_names st else cp_names st @ [f])\<rparr>
      | Inr (Some x, t) \<Rightarrow>
          let st1 = st\<lparr>cp_tree := t, cp_nodes := cp_nodes st @ [x]\<rparr>
          in if py_endswith f ''.moc'' then st1 else snd (addlines e x st1))"

definition re_mac :: re where
  "re_mac = rseq [RBol, RChr (\<lambda>c. chr_isalpha c \<or> c = CHR ''_''), RStar (RChr chr_isword)]"

definition mac_name :: "string \<Rightarrow> string option" where
  "mac_name line = (case re_search re_mac line 0 of None \<Rightarrow> None | Some m \<Rightarrow> Some (group_text line m 0))"

definition is_pragma_once :: "string \<Rightarrow> bool" where
  "is_pragma_once line \<longleftrightarrow> re_search (rseq [RBol, RStar RSpace, rstr_nocase ''once'', RStar RSpace]) (py_lower line) 0 \<noteq> None"

definition eval_line :: "pp_env \<Rightarrow> string \<Rightarrow> defs \<Rightarrow> (bool \<times> defs) result" where
  "eval_line e line ds = rbind (tokenize line) (\<lambda>l. eval_macro (pp_lim e) l ds)"

definition set_top :: "cond_state \<Rightarrow> c_parser \<Rightarrow> c_parser" where
  "set_top c st = st\<lparr>cp_state := (case cp_state st of [] \<Rightarrow> [] | d # s \<Rightarrow> c # s)\<rparr>"

definition dead :: "c_parser \<Rightarrow> bool" where
  "dead st \<longleftrightarrow> Skipped \<in> set (cp_state st) \<or> Ignored \<in> set (cp_state st)"

text \<open>
  The directives, when the line is not skipped. An error leaves the state as it is at that point: after an
  error in the condition of \<open>#if\<close>, the conditional is \<open>Undefined\<close>, and the lines that follow it count.
\<close>

definition do_include :: "pp_env \<Rightarrow> string \<Rightarrow> string \<Rightarrow> c_parser \<Rightarrow> c_parser" where
  "do_include e tok line st =
     (case extract_include (pp_lim e) line (cp_defs st) of
        Inl err \<Rightarrow> st
      | Inr (i, ds) \<Rightarrow>
          let st1 = st\<lparr>cp_defs := ds\<rparr> in
          case unpack_include i of
            Inl err \<Rightarrow> st1
          | Inr (kind, inc) \<Rightarrow>
              if inc \<in> set (cp_ban st1) then st1
              else tryfind e inc (if tok = ''import'' then st1\<lparr>cp_ban := cp_ban st1 @ [inc]\<rparr> else st1))"

definition line_if :: "pp_env \<Rightarrow> string \<Rightarrow> c_parser \<Rightarrow> c_parser" where
  "line_if e line st =
     (case eval_line e line (cp_defs st) of
        Inl err \<Rightarrow> st
      | Inr (b, ds) \<Rightarrow> set_top (if b then Accepted else Ignored) (st\<lparr>cp_defs := ds\<rparr>))"

definition line_elif :: "pp_env \<Rightarrow> string \<Rightarrow> c_parser \<Rightarrow> c_parser" where
  "line_elif e line st =
     (case cp_state st of
        Accepted # s \<Rightarrow> set_top Skipped st
      | Ignored # s \<Rightarrow>
          (case eval_line e line (cp_defs st) of
             Inl err \<Rightarrow> st
           | Inr (b, ds) \<Rightarrow> (if b then set_top Accepted else id) (st\<lparr>cp_defs := ds\<rparr>))
      | _ \<Rightarrow> st)"

definition line_else :: "c_parser \<Rightarrow> c_parser" where
  "line_else st =
     (case cp_state st of
        Accepted # s \<Rightarrow> set_top Skipped st
      | Ignored # s \<Rightarrow> set_top Accepted st
      | _ \<Rightarrow> st)"

definition name_defined :: "string \<Rightarrow> c_parser \<Rightarrow> bool" where
  "name_defined line st \<longleftrightarrow> (case mac_name line of None \<Rightarrow> False | Some n \<Rightarrow> cp_defs st n \<noteq> None)"

definition if_tokens :: "string list" where "if_tokens = [''ifdef'', ''ifndef'', ''if'']"

definition process_line :: "pp_env \<Rightarrow> string \<Rightarrow> string \<Rightarrow> c_parser \<Rightarrow> c_parser" where
  "process_line e tok line st0 =
     (if tok = ''endif'' \<and> cp_state st0 = [] then st0
      else let st = st0\<lparr>cp_state := (if tok \<in> set if_tokens then Undefined # cp_state st0
                          else if tok = ''endif'' then tl (cp_state st0) else cp_state st0)\<rparr> in
        if tok \<notin> {''else'', ''elif'', ''endif''} \<and> dead st then st
        else if tok = ''if'' then line_if e line st
        else if tok = ''ifdef'' then set_top (if name_defined line st then Accepted else Ignored) st
        else if tok = ''ifndef'' then set_top (if name_defined line st then Ignored else Accepted) st
        else if tok = ''include'' \<or> tok = ''import'' then do_include e tok line st
        else if tok = ''elif'' then line_elif e line st
        else if tok = ''else'' then line_else st
        else if tok = ''define''
        then (case mac_name line of None \<Rightarrow> st | Some n \<Rightarrow> st\<lparr>cp_defs := (cp_defs st)(n \<mapsto> MLine line)\<rparr>)
        else if tok = ''undef''
        then (case mac_name line of None \<Rightarrow> st | Some n \<Rightarrow> st\<lparr>cp_defs := (cp_defs st)(n := None)\<rparr>)
        else if tok = ''pragma'' \<and> is_pragma_once line then st\<lparr>cp_ban := cp_ban st @ [cp_curfile st]\<rparr>
        else st)"

text \<open>A directive either adds no lines, or opens one more file within the limit.\<close>

lemma set_top_simps [simp]: "cp_count (set_top c st) = cp_count st" "cp_lines (set_top c st) = cp_lines st"
  by (simp_all add: set_top_def)

definition advances :: "c_parser \<Rightarrow> c_parser \<Rightarrow> bool" where
  "advances st st' \<longleftrightarrow> cp_count st' = cp_count st \<and> cp_lines st' = cp_lines st \<or>
     cp_count st' = Suc (cp_count st) \<and> (cp_lines st' = cp_lines st \<or> Suc (cp_count st) \<le> recursion_limit)"

lemma addlines_progress: "advances st (snd (addlines e x st))"
  by (auto simp: advances_def addlines_def Let_def split: sum.splits option.splits prod.splits)

lemma tryfind_progress: "advances st (tryfind e f st)"
proof -
  define st1 where "st1 = (\<lambda>x t. st\<lparr>cp_curfile := f, cp_tree := t, cp_nodes := cp_nodes st @ [x]\<rparr>)"
  have "advances st s" if "advances (st1 x t) s" for x t s using that by (simp add: advances_def st1_def)
  then show ?thesis using addlines_progress[of "st1 x t" e x for x t] unfolding tryfind_def Let_def
    by (auto simp: advances_def st1_def split: sum.splits option.splits prod.splits)
qed

lemma progress_from: "advances s u \<Longrightarrow> cp_count s = cp_count st \<Longrightarrow> cp_lines s = cp_lines st \<Longrightarrow> advances st u"
  by (simp add: advances_def)

lemma progress_same: "cp_count u = cp_count st \<Longrightarrow> cp_lines u = cp_lines st \<Longrightarrow> advances st u"
  by (simp add: advances_def)

lemma do_include_progress: "advances st (do_include e tok line st)"
  unfolding do_include_def Let_def
  by (auto split: sum.splits prod.splits intro: progress_same progress_from[OF tryfind_progress])

lemma do_cond_progress: "advances st (line_if e line st)" "advances st (line_elif e line st)" "advances st (line_else st)"
  by (auto simp: line_if_def line_elif_def line_else_def intro!: progress_same split: sum.splits list.splits cond_state.splits)

lemma progress_if: "advances st a \<Longrightarrow> advances st b \<Longrightarrow> advances st (if c then a else b)"
  by simp

lemma process_line_progress: "advances st (process_line e tok line st)"
  unfolding process_line_def Let_def
  by (intro progress_if) (simp_all add: progress_same split: option.split,
    auto intro: progress_from[OF do_include_progress] progress_from[OF do_cond_progress(1)]
        progress_from[OF do_cond_progress(2)] progress_from[OF do_cond_progress(3)])

text \<open>
  The loop of \<open>start\<close>. It ends because every round either has one line less, or opens a file, which the
  limit allows only so often.
\<close>

function start_loop :: "pp_env \<Rightarrow> c_parser \<Rightarrow> c_parser result" where
  "start_loop e st =
     (case cp_lines st of
        [] \<Rightarrow> Inr st
      | (kind, line) # ls \<Rightarrow>
          if kind = POPFILE
          then (case cp_stack st of [] \<Rightarrow> Inl IndexError | d # s \<Rightarrow> start_loop e (st\<lparr>cp_lines := ls, cp_stack := s\<rparr>))
          else start_loop e (process_line e kind line (st\<lparr>cp_lines := ls\<rparr>)))"
  by pat_completeness auto
termination
proof (relation "measures [\<lambda>(e, st). recursion_limit - cp_count st, \<lambda>(e, st). length (cp_lines st)]", goal_cases)
  case (3 e st a ls kind line)
  then show ?case using process_line_progress[of "st\<lparr>cp_lines := ls\<rparr>" e kind line] unfolding advances_def by auto
qed auto

declare start_loop.simps [simp del]

text \<open>\<open>start\<close>, with the value of \<open>DEFLINES\<close>, and \<open>get_deps\<close>.\<close>

definition start :: "pp_env \<Rightarrow> string list \<Rightarrow> nat \<Rightarrow> c_parser \<Rightarrow> c_parser result" where
  "start e deflines node st0 =
     (case addlines e node st0 of
        (Inl err, st) \<Rightarrow> Inl err
      | (Inr u, st) \<Rightarrow> start_loop e (st\<lparr>cp_lines := map (Pair ''define'') deflines @ cp_lines st\<rparr>))"

definition get_deps :: "pp_env \<Rightarrow> string list \<Rightarrow> nat \<Rightarrow> nat list \<Rightarrow> pcache \<Rightarrow> ntree \<Rightarrow>
    ((nat list \<times> string list) \<times> pcache \<times> ntree) result" where
  "get_deps e deflines node nodepaths pc t =
     rmap (\<lambda>st. ((cp_nodes st, cp_names st), cp_cache st, cp_tree st))
       (start e deflines node (new_parser nodepaths Map.empty pc t))"

subsection \<open>The simple scanner\<close>

record simple_state =
  ss_nodes :: "nat list"
  ss_names :: "string list"
  ss_defs :: defs
  ss_tree :: ntree

text \<open>One line of \<open>find_deps\<close>; the flag says that a new node was found.\<close>

definition simple_line :: "pp_env \<Rightarrow> nat list \<Rightarrow> string \<Rightarrow> simple_state \<Rightarrow> (bool \<times> simple_state) result" where
  "simple_line e nodepaths line st =
     rbind (extract_include (pp_lim e) line (ss_defs st)) (\<lambda>(i, ds).
       rbind (unpack_include i) (\<lambda>(kind, f).
         let st0 = st\<lparr>ss_defs := ds\<rparr> in
         if f \<in> set (ss_names st0) then Inr (False, st0)
         else let st1 = (if py_endswith f ''.moc'' then st0\<lparr>ss_names := ss_names st0 @ [f]\<rparr> else st0) in
           rmap (\<lambda>(found, t).
             let st2 = st1\<lparr>ss_tree := t\<rparr> in
             case found of
               None \<Rightarrow> (False, if f \<in> set (ss_names st2) then st2 else st2\<lparr>ss_names := ss_names st2 @ [f]\<rparr>)
             | Some x \<Rightarrow> if x \<in> set (ss_nodes st2) then (False, st2) else (True, st2\<lparr>ss_nodes := ss_nodes st2 @ [x]\<rparr>))
             (search_paths (pp_fs e) f nodepaths (ss_tree st1))))"

text \<open>
  \<open>find_deps\<close>: for a node that is new it is called again, with the node it was called with; \<open>lst\<close> is the list of
  the lines of that node. The bound is on the depth of the calls.
\<close>

function find_deps :: "nat \<Rightarrow> pp_env \<Rightarrow> nat list \<Rightarrow> (string \<times> string) list \<Rightarrow> (string \<times> string) list \<Rightarrow> simple_state \<Rightarrow> simple_state result" where
  "find_deps n e ps lst [] st = Inr st"
| "find_deps n e ps lst (l # ls) st =
     (case simple_line e ps (snd l) st of
        Inl err \<Rightarrow> Inl err
      | Inr (False, st1) \<Rightarrow> find_deps n e ps lst ls st1
      | Inr (True, st1) \<Rightarrow>
          (case n of
             0 \<Rightarrow> Inl RuntimeError
           | Suc m \<Rightarrow>
               (case find_deps m e ps lst lst st1 of
                  Inl err \<Rightarrow> Inl err
                | Inr st2 \<Rightarrow> find_deps n e ps lst ls st2)))"
  by pat_completeness auto
termination
  by (relation "measures [\<lambda>(n, e, ps, lst, ls, st). n, \<lambda>(n, e, ps, lst, ls, st). length ls]") auto

definition get_deps_simple :: "pp_env \<Rightarrow> nat \<Rightarrow> nat list \<Rightarrow> defs \<Rightarrow> ntree \<Rightarrow> (nat list \<times> string list) result" where
  "get_deps_simple e node nodepaths defines t =
     rbind (abspath t node (pp_variant e)) (\<lambda>(p, t1).
       rbind (lines_includes False (pp_readf e p)) (\<lambda>lst.
         rmap (\<lambda>st. (ss_nodes st, ss_names st))
           (find_deps (length lst) e nodepaths lst lst
             \<lparr>ss_nodes = [], ss_names = [], ss_defs = defines, ss_tree = t1\<rparr>)))"

section \<open>Branches that are not taken\<close>

text \<open>Lines with nested conditionals, all closed, with \<open>d\<close> conditionals open before.\<close>

fun nest :: "nat \<Rightarrow> (string \<times> string) list \<Rightarrow> bool" where
  "nest d [] \<longleftrightarrow> d = 0"
| "nest d ((k, l) # ls) \<longleftrightarrow> k \<noteq> POPFILE \<and>
     (if k \<in> set if_tokens then nest (Suc d) ls
      else if k = ''endif'' then (case d of 0 \<Rightarrow> False | Suc m \<Rightarrow> nest m ls)
      else if k = ''else'' \<or> k = ''elif'' then d \<noteq> 0 \<and> nest d ls
      else nest d ls)"

lemma process_line_open:
  "dead st \<Longrightarrow> k \<in> set if_tokens \<Longrightarrow> process_line e k l st = st\<lparr>cp_state := Undefined # cp_state st\<rparr>"
proof -
  assume d: "dead st" and k: "k \<in> set if_tokens"
  have "k \<noteq> ''endif''" "k \<notin> {''else'', ''elif'', ''endif''}" using k by (auto simp: if_tokens_def)
  moreover have "dead (st\<lparr>cp_state := Undefined # cp_state st\<rparr>)" using d by (simp add: dead_def)
  ultimately show ?thesis using k unfolding process_line_def by (simp only: Let_def if_True if_False simp_thms)
qed

lemma process_line_endif: "cp_state st = c # s \<Longrightarrow> process_line e ''endif'' l st = st\<lparr>cp_state := s\<rparr>"
  by (simp add: process_line_def if_tokens_def)

lemma process_line_else:
  "cp_state st = Undefined # s \<Longrightarrow> k = ''else'' \<or> k = ''elif'' \<Longrightarrow> process_line e k l st = st"
proof -
  assume c: "cp_state st = Undefined # s"
  have "process_line e ''else'' l st = st" "process_line e ''elif'' l st = st"
    using c by (simp_all add: process_line_def if_tokens_def line_else_def line_elif_def)
  then show "k = ''else'' \<or> k = ''elif'' \<Longrightarrow> ?thesis" by (elim disjE) (simp_all only:)
qed

lemma process_line_other:
  "dead st \<Longrightarrow> k \<notin> set if_tokens \<Longrightarrow> k \<notin> {''else'', ''elif'', ''endif''} \<Longrightarrow> process_line e k l st = st"
proof -
  assume d: "dead st" and k: "k \<notin> set if_tokens" "k \<notin> {''else'', ''elif'', ''endif''}"
  have "k \<noteq> ''endif''" using k(2) by simp
  moreover have "st\<lparr>cp_state := cp_state st\<rparr> = st" by simp
  ultimately show ?thesis using d k unfolding process_line_def by (simp only: Let_def if_True if_False simp_thms)
qed

lemma start_loop_line:
  "k \<noteq> POPFILE \<Longrightarrow> start_loop e (st\<lparr>cp_lines := (k, l) # ls\<rparr>) = start_loop e (process_line e k l (st\<lparr>cp_lines := ls\<rparr>))"
  by (subst start_loop.simps) simp

lemma nest_cases:
  assumes "nest d ((k, l) # ls)"
  obtains (opn) "k \<in> set if_tokens" | (close) m where "k = ''endif''" "d = Suc m" "nest m ls"
    | (els) m where "k = ''else'' \<or> k = ''elif''" "d = Suc m" "nest d ls"
    | (other) "k \<notin> set if_tokens" "k \<notin> {''else'', ''elif'', ''endif''}" "nest d ls"
proof (cases "k \<in> set if_tokens")
  case f: False
  show ?thesis
  proof (cases "k = ''endif''")
    case True
    then show ?thesis using assms f close by (cases d) simp_all
  next
    case g: False
    show ?thesis
    proof (cases "k = ''else'' \<or> k = ''elif''")
      case True
      then show ?thesis using assms f g els by (cases d) simp_all
    next
      case False
      then show ?thesis using assms f g other by simp
    qed
  qed
qed (rule opn)

lemma lines_state_swap: "st\<lparr>cp_lines := a, cp_state := b\<rparr> = st\<lparr>cp_state := b, cp_lines := a\<rparr>"
  by (cases st) simp

lemma dead_lines:
  "dead st \<Longrightarrow> nest d ls \<Longrightarrow>
    start_loop e (st\<lparr>cp_state := replicate d Undefined @ cp_state st, cp_lines := ls @ rst\<rparr>) = start_loop e (st\<lparr>cp_lines := rst\<rparr>)"
proof (induction d ls rule: nest.induct)
  case (2 d k l ls)
  define s where "s = (\<lambda>d. st\<lparr>cp_state := replicate d Undefined @ cp_state st\<rparr>)"
  have k: "k \<noteq> POPFILE" using "2.prems" by simp
  have dead: "dead ((s d)\<lparr>cp_lines := ls @ rst\<rparr>)" for d using "2.prems"(1) by (simp add: dead_def s_def)
  have st: "st\<lparr>cp_state := replicate d Undefined @ cp_state st, cp_lines := (k, l) # ls @ rst\<rparr> = (s d)\<lparr>cp_lines := (k, l) # ls @ rst\<rparr>"
    by (simp add: s_def)
  have run: "start_loop e ((s d)\<lparr>cp_lines := (k, l) # ls @ rst\<rparr>) = start_loop e (process_line e k l ((s d)\<lparr>cp_lines := ls @ rst\<rparr>))"
    by (rule start_loop_line[OF k])
  consider (opn) "k \<in> set if_tokens" | (close) m where "k = ''endif''" "d = Suc m" "nest m ls"
    | (els) m where "k = ''else'' \<or> k = ''elif''" "d = Suc m" "nest d ls"
    | (other) "k \<notin> set if_tokens" "k \<notin> {''else'', ''elif'', ''endif''}" "nest d ls"
    by (rule nest_cases[OF "2.prems"(2)])
  then show ?case
  proof cases
    case opn
    then have "process_line e k l ((s d)\<lparr>cp_lines := ls @ rst\<rparr>) = (s (Suc d))\<lparr>cp_lines := ls @ rst\<rparr>"
      using process_line_open[OF dead opn] by (simp add: s_def)
    then show ?thesis using "2.IH"(1)[OF opn "2.prems"(1)] "2.prems"(2) opn run by (simp add: s_def)
  next
    case close
    then have "process_line e k l ((s d)\<lparr>cp_lines := ls @ rst\<rparr>) = (s m)\<lparr>cp_lines := ls @ rst\<rparr>"
      using process_line_endif[of "(s d)\<lparr>cp_lines := ls @ rst\<rparr>"] by (simp add: s_def)
    then show ?thesis using "2.IH"(2)[OF _ close(1,2) "2.prems"(1) close(3)] close run by (simp add: s_def if_tokens_def)
  next
    case els
    then have "process_line e k l ((s d)\<lparr>cp_lines := ls @ rst\<rparr>) = (s d)\<lparr>cp_lines := ls @ rst\<rparr>"
      using process_line_else[of "(s d)\<lparr>cp_lines := ls @ rst\<rparr>" "replicate m Undefined @ cp_state st"] by (simp add: s_def)
    moreover have "k \<notin> set if_tokens" "k \<noteq> ''endif''" using els(1) by (auto simp: if_tokens_def)
    ultimately show ?thesis using "2.IH"(3)[OF _ _ els(1) "2.prems"(1) els(3)] run by (simp add: s_def)
  next
    case other
    then show ?thesis
      using "2.IH"(4)[OF _ _ _ "2.prems"(1) other(3)] process_line_other[OF dead other(1,2)] run by (simp add: s_def)
  qed
qed simp

lemma start_loop_cons: "cp_lines st = (k, l) # ls \<Longrightarrow> k \<noteq> POPFILE \<Longrightarrow> start_loop e st = start_loop e (process_line e k l (st\<lparr>cp_lines := ls\<rparr>))"
  by (subst start_loop.simps) simp

text \<open>
  C11. The lines of a branch that is not taken have no effect, whatever directives they hold, as long as their own
  conditionals are closed: after \<open>#if\<close> with a condition that is false, the scanner goes on after the lines of
  the branch, with nothing changed but the state of the conditional (and the macros that the condition made
  it parse); and after a branch that was taken, the \<open>#else\<close> branch is passed up to the end of the conditional.
\<close>

theorem untaken_branch_has_no_effect:
  assumes "\<not> dead st" and "eval_line e c (cp_defs st) = Inr (False, ds)" and "nest 0 b1" and "nest 0 b2"
  shows "start_loop e (st\<lparr>cp_lines := (''if'', c) # b1 @ rst\<rparr>) =
      start_loop e (st\<lparr>cp_defs := ds, cp_state := Ignored # cp_state st, cp_lines := rst\<rparr>) \<and>
    start_loop e (st\<lparr>cp_state := Accepted # s, cp_lines := (''else'', x) # b2 @ (''endif'', y) # rst\<rparr>) =
      start_loop e (st\<lparr>cp_state := s, cp_lines := rst\<rparr>)"
proof
  define s1 where "s1 = st\<lparr>cp_defs := ds, cp_state := Ignored # cp_state st, cp_lines := b1 @ rst\<rparr>"
  have "process_line e ''if'' c (st\<lparr>cp_lines := b1 @ rst\<rparr>) = s1"
    using assms(1,2) by (simp add: process_line_def if_tokens_def dead_def line_if_def set_top_def s1_def)
  moreover have "start_loop e s1 = start_loop e (s1\<lparr>cp_lines := rst\<rparr>)"
    using dead_lines[of s1 0 b1 e rst] assms(3) by (simp add: s1_def dead_def)
  ultimately show "start_loop e (st\<lparr>cp_lines := (''if'', c) # b1 @ rst\<rparr>) =
      start_loop e (st\<lparr>cp_defs := ds, cp_state := Ignored # cp_state st, cp_lines := rst\<rparr>)"
    by (simp add: start_loop_cons POPFILE_def s1_def)
  define s2 where "s2 = st\<lparr>cp_state := Skipped # s, cp_lines := b2 @ (''endif'', y) # rst\<rparr>"
  have "process_line e ''else'' x (st\<lparr>cp_state := Accepted # s, cp_lines := b2 @ (''endif'', y) # rst\<rparr>) = s2"
    by (simp add: process_line_def if_tokens_def line_else_def set_top_def s2_def)
  moreover have "start_loop e s2 = start_loop e (s2\<lparr>cp_lines := (''endif'', y) # rst\<rparr>)"
    using dead_lines[of s2 0 b2 e "(''endif'', y) # rst"] assms(4) by (simp add: s2_def dead_def)
  moreover have "start_loop e (s2\<lparr>cp_lines := (''endif'', y) # rst\<rparr>) = start_loop e (st\<lparr>cp_state := s, cp_lines := rst\<rparr>)"
    using start_loop_cons[of "s2\<lparr>cp_lines := (''endif'', y) # rst\<rparr>" "''endif''" y rst e]
      process_line_endif[of "s2\<lparr>cp_lines := rst\<rparr>" Skipped s e y] by (simp add: s2_def POPFILE_def lines_state_swap)
  ultimately show "start_loop e (st\<lparr>cp_state := Accepted # s, cp_lines := (''else'', x) # b2 @ (''endif'', y) # rst\<rparr>) =
      start_loop e (st\<lparr>cp_state := s, cp_lines := rst\<rparr>)"
    by (simp add: start_loop_cons POPFILE_def)
qed

text \<open>A false condition, a branch with an \<open>#include\<close> and a closed conditional, and an \<open>#else\<close> branch.\<close>

definition sample_dead :: "(string \<times> string) list" where
  "sample_dead = [(''include'', ''<a.h>''), (''ifdef'', ''X''), (''undef'', ''Y''), (''else'', []), (''define'', ''Y 1''), (''endif'', [])]"

definition sample_env :: pp_env where
  "sample_env = \<lparr>pp_lim = 10, pp_fs = small_fs, pp_readf = (\<lambda>_. Inl IOError), pp_variant = None\<rparr>"

lemma sample_eval: "tokenize ''0'' = Inr [(NUM, VS ''0'')]" by code_simp

lemma sample_int: "int_of_text 10 ''0'' = Inr 0" by code_simp

lemma sample_reduce:
  "reduce_tokens 10 [(NUM, VS ''0'')] Map.empty = Inr ([(NUM, VS ''0'')], Map.empty)"
  "reduce_eval [(NUM, VS ''0'')] = Inr (NUM, VS ''0'')"
  by (simp_all add: numeral_eq_Suc reduce_step_def reduce_eval_def term_depth_def)

theorem untaken_branch_has_no_effect_witness:
  "\<not> dead (new_parser [] Map.empty Map.empty small_tree) \<and> eval_line sample_env ''0'' Map.empty = Inr (False, Map.empty) \<and> nest 0 sample_dead \<and>
   start_loop sample_env ((new_parser [] Map.empty Map.empty small_tree)\<lparr>cp_lines := (''if'', ''0'') # sample_dead @ [(''endif'', [])]\<rparr>) =
      start_loop sample_env ((new_parser [] Map.empty Map.empty small_tree)\<lparr>cp_defs := Map.empty, cp_state := [Ignored], cp_lines := [(''endif'', [])]\<rparr>)"
proof -
  have d: "\<not> dead (new_parser [] Map.empty Map.empty small_tree)" by (simp add: dead_def new_parser_def)
  have e: "eval_line sample_env ''0'' Map.empty = Inr (False, Map.empty)"
    unfolding eval_line_def sample_eval by (simp add: sample_env_def eval_macro_def sample_reduce sample_int)
  have n: "nest 0 sample_dead" by (simp add: sample_dead_def if_tokens_def POPFILE_def)
  show ?thesis
    using untaken_branch_has_no_effect[OF d, of sample_env "''0''" Map.empty sample_dead sample_dead "[(''endif'', [])]" "[]" "[]" "[]"] d e n
    by (simp add: new_parser_def)
qed

section \<open>The loop over the lines\<close>

text \<open>
  When the loop of \<open>start\<close> returns, all lines have been treated; it always returns or raises, because it
  is a total function, and the only error it raises is the one for a stack of directories that is empty.
\<close>

theorem start_loop_all_lines:
  "(case start_loop e st of Inr st' \<Rightarrow> cp_lines st' = [] | Inl err \<Rightarrow> err = IndexError)"
proof (induction e st rule: start_loop.induct)
  case (1 e st)
  show ?case
  proof (cases "cp_lines st")
    case Nil
    then show ?thesis by (simp add: start_loop.simps)
  next
    case (Cons l ls)
    obtain k line where l: "l = (k, line)" by (cases l)
    show ?thesis
    proof (cases "k = POPFILE")
      case True
      then show ?thesis using 1(1)[OF Cons l[symmetric]] Cons l by (subst start_loop.simps) (auto split: list.splits)
    next
      case False
      then show ?thesis using 1(2)[OF Cons l[symmetric] False] Cons l by (subst start_loop.simps) simp
    qed
  qed
qed

section \<open>The simple scanner\<close>

lemma find_deps_readf: "find_deps n (e\<lparr>pp_readf := r\<rparr>) ps lst ls st = find_deps n e ps lst ls st"
proof (induction n e ps lst ls st rule: find_deps.induct)
  case (2 n e ps lst l ls st)
  have s: "simple_line (e\<lparr>pp_readf := r\<rparr>) ps (snd l) st = simple_line e ps (snd l) st" for st
  proof -
    have r: "pp_fs (e\<lparr>pp_readf := r\<rparr>) = pp_fs e" "pp_lim (e\<lparr>pp_readf := r\<rparr>) = pp_lim e" by simp_all
    show ?thesis unfolding simple_line_def r ..
  qed
  show ?case using 2 unfolding find_deps.simps s by (auto split: sum.splits prod.splits bool.splits nat.splits)
qed simp

text \<open>
  \<open>find_deps\<close> calls itself with its own node in place of the one it found: the result depends on the text of
  the one file, and never on the text of the files it includes.
\<close>

lemma simple_scanner_one_file:
  assumes "abspath t node (pp_variant e) = Inr (p, t1)" and "r p = pp_readf e p"
  shows "get_deps_simple (e\<lparr>pp_readf := r\<rparr>) node ps ds t = get_deps_simple e node ps ds t"
  using assms by (simp add: get_deps_simple_def find_deps_readf)

end
