(* ===== verification/Waf_Taskgen.thy ===== *)
theory Waf_Taskgen
  imports Waf_Task Waf_Node "HOL-Library.List_Lexorder" "HOL-Library.Char_ord"
begin

text \<open>
  Task generators, \<^verbatim>\<open>src/tools/wafadmin/TaskGen.py\<close>: the tables of the class \<open>task_gen\<close> (methods, features,
  precedences, mappings of extensions) with the decorators that fill them; \<open>apply\<close>, which sorts the methods of
  a generator and calls them; the methods \<open>apply_core\<close>, \<open>exec_rule\<close> and \<open>sequence_order\<close>; and from
  \<^verbatim>\<open>src/tools/wafadmin/Build.py\<close> the creation and lookup of generators and \<open>flush\<close>, which posts them.

  After the definitions: the sort of the methods is a topological sort, and fails exactly on a cycle; a
  generator with a rule calls its methods in that order, with \<open>apply_core\<close> taken out; the loop over the
  nodes treats every node that the hooks add; the tasks that are created go to the group of their
  generator.

  Generators and tasks are numbers (places in the lists of the context). Parameters are the methods and the
  hooks that the tools register (a method may post other generators, and the tools keep their own attributes in
  \<open>gx_tools\<close>), the order in which Python iterates over a set, and the file system.
\<close>

section \<open>Definitions\<close>

text \<open>An attribute that is a text, of words, or a list; \<open>sval_list\<close> is \<open>to_list\<close>.\<close>

datatype sval = SText string | SList "string list"

fun sval_list :: "sval \<Rightarrow> string list" where
  "sval_list (SText s) = py_split_ws s"
| "sval_list (SList l) = l"

fun sval_true :: "sval \<Rightarrow> bool" where
  "sval_true (SText s) \<longleftrightarrow> s \<noteq> []"
| "sval_true (SList l) \<longleftrightarrow> l \<noteq> []"

definition typos :: "(string \<times> string) list" where
  "typos = [(''sources'', ''source''), (''targets'', ''target''), (''include'', ''includes''), (''define'', ''defines''),
     (''importpath'', ''importpaths''), (''install_var'', ''install_path''), (''install_subdir'', ''install_path''),
     (''inst_var'', ''install_path''), (''inst_dir'', ''install_path''), (''feature'', ''features'')]"

text \<open>The name of the attribute that \<open>__setattr__\<close> sets.\<close>

definition real_name :: "string \<Rightarrow> string" where
  "real_name name = (case map_of typos name of None \<Rightarrow> name | Some r \<Rightarrow> r)"

subsection \<open>The tables of the class\<close>

type_synonym prec_table = "(string \<times> string list) list"

record tg_class =
  c_attrs :: "string list"
  c_traits :: "(string \<times> string list) list"
  c_prec :: prec_table
  c_mappings :: "(string \<times> string) list"
  c_mapped :: "string list"

definition taskgen :: "string \<Rightarrow> tg_class \<Rightarrow> tg_class" where
  "taskgen func c = c\<lparr>c_attrs := List.insert func (c_attrs c)\<rparr>"

definition add_prec :: "string \<Rightarrow> string \<Rightarrow> tg_class \<Rightarrow> tg_class" where
  "add_prec f1 f2 c =
     (let l = ddget (c_prec c) f2 in c\<lparr>c_prec := dict_set f2 (if f1 \<in> set l then l else l @ [f1]) (c_prec c)\<rparr>)"

definition declare_order :: "string list \<Rightarrow> tg_class \<Rightarrow> tg_class result" where
  "declare_order k c =
     (if length k \<le> 1 then Inl AssertionError else Inr (fold (\<lambda>(f1, f2). add_prec f1 f2) (zip k (tl k)) c))"

definition bind_feature :: "string \<Rightarrow> sval \<Rightarrow> tg_class \<Rightarrow> tg_class" where
  "bind_feature name methods c =
     c\<lparr>c_traits := dict_set name (fold List.insert (sval_list methods) (ddget (c_traits c) name)) (c_traits c)\<rparr>"

definition feature :: "string list \<Rightarrow> string \<Rightarrow> tg_class \<Rightarrow> tg_class" where
  "feature k func c = fold (\<lambda>name. bind_feature name (SList [func])) k (taskgen func c)"

definition before :: "string list \<Rightarrow> string \<Rightarrow> tg_class \<Rightarrow> tg_class" where
  "before k func c = fold (\<lambda>fun_name. add_prec func fun_name) k (taskgen func c)"

definition after_deco :: "string list \<Rightarrow> string \<Rightarrow> tg_class \<Rightarrow> tg_class" where
  "after_deco k func c = fold (\<lambda>fun_name. add_prec fun_name func) k (taskgen func c)"

definition declare_extension :: "sval \<Rightarrow> string \<Rightarrow> tg_class \<Rightarrow> tg_class" where
  "declare_extension var func c =
     c\<lparr>c_mappings := fold (\<lambda>x. dict_set x func) (sval_list var) (c_mappings c), c_mapped := List.insert func (c_mapped c)\<rparr>"

definition extension :: "sval \<Rightarrow> string \<Rightarrow> tg_class \<Rightarrow> tg_class" where
  "extension var func c = declare_extension var func (taskgen func c)"

text \<open>The class as the module leaves it, with its own three methods.\<close>

definition class_init :: tg_class where
  "class_init =
     feature [''seq''] ''sequence_order''
       (before [''apply_core''] ''exec_rule''
         (feature [''*''] ''exec_rule''
           (feature [''*''] ''apply_core''
             \<lparr>c_attrs = [], c_traits = [], c_prec = [], c_mappings = [], c_mapped = []\<rparr>)))"

subsection \<open>The order of the methods\<close>

definition free_of :: "prec_table \<Rightarrow> string \<Rightarrow> bool" where
  "free_of prec a \<longleftrightarrow> \<not> list_ex (\<lambda>(k, l). a \<in> set l) prec"

text \<open>The loop of the topological sort. The list \<open>tmp\<close> has its last element, which is taken next, first.\<close>

function topo :: "string list \<Rightarrow> prec_table \<Rightarrow> string list \<Rightarrow> string list \<Rightarrow> prec_table \<times> string list" where
  "topo keys prec [] out = (prec, out)"
| "topo keys prec (e # tmp) out =
     (let out' = (if e \<in> set keys then out @ [e] else out) in
      case map_of prec e of
        None \<Rightarrow> topo keys prec tmp out'
      | Some nlst \<Rightarrow>
          let prec' = dict_del e prec in topo keys prec' (rev (filter (free_of prec') nlst) @ tmp) out')"
  by pat_completeness auto
termination
proof (relation "measures [\<lambda>(keys, prec, tmp, out). length prec, \<lambda>(keys, prec, tmp, out). length tmp]", goal_cases)
  case (3 keys prec e tmp out x nlst y)
  then show ?case by (auto simp: dict_del_def intro!: length_filter_less dest!: map_of_SomeD)
qed auto

definition sort_methods :: "string list \<Rightarrow> prec_table \<Rightarrow> string list result" where
  "sort_methods keys prec_tbl =
     (let prec = filter (\<lambda>(x, l). x \<in> set keys) prec_tbl;
          tmp = rev (filter (free_of prec) keys);
          (left, out) = topo keys prec tmp []
      in if left \<noteq> [] then Inl (WafError ''graph has a cycle'') else Inr (rev out))"

subsection \<open>Generators, tasks and the context\<close>

datatype gen_rule = RText string | RFun string

record tgen =
  tg_meths :: "string list"
  tg_features :: sval
  tg_prec :: prec_table
  tg_source :: sval
  tg_target :: sval
  tg_name :: string
  tg_posted :: bool
  tg_allnodes :: "nat list"
  tg_tasks :: "nat list"
  tg_mappings :: "(string \<times> string) list"
  tg_path :: nat
  tg_idx :: nat
  tg_variant :: string
  tg_rule :: "gen_rule option"
  tg_dep_vars :: "string list option"
  tg_vars :: "string list option"
  tg_seq_start :: bool
  tg_order :: "string \<Rightarrow> string list"
  tg_flags :: "string list"
  tg_install :: "string option"
  tg_chmod :: "nat option"
  tg_cwd :: "string option"

text \<open>
  A task, and a task class that \<open>exec_rule\<close> makes: \<open>k_order\<close> has the attributes \<open>after\<close>, \<open>before\<close>, \<open>ext_in\<close> and
  \<open>ext_out\<close>, and \<open>k_flags\<close> says which of \<open>quiet\<close>, \<open>scan\<close>, \<open>on_results\<close> and \<open>always\<close> it has.
\<close>

record gtask =
  gt_class :: string
  gt_gen :: nat
  gt_inputs :: "nat list"
  gt_outputs :: "nat list"
  gt_dep_vars :: "string list option"
  gt_ruledeps :: "string option"
  gt_install :: "string option"
  gt_cwd :: "string option"
  gt_do_install :: "int option"

record gclass =
  k_vars :: "string list"
  k_order :: "string \<Rightarrow> string list"
  k_flags :: "string list"

record 'c gctx =
  gx_class :: tg_class
  gx_gens :: "tgen list"
  gx_tasks :: "gtask list"
  gx_kinds :: "string \<rightharpoonup> gclass"
  gx_man :: task_manager
  gx_tree :: ntree
  gx_path :: nat
  gx_idx :: "nat \<Rightarrow> nat"
  gx_prev :: "nat option"
  gx_names :: "(string \<times> nat) list"
  gx_is_install :: int
  gx_srcnode :: nat
  gx_bldnode :: nat
  gx_log :: "(nat \<times> string) list"
  gx_tools :: 'c

text \<open>The argument of a hook is a name or a node.\<close>

datatype hook_arg = HName string | HNode nat

text \<open>\<open>te_bound\<close> bounds the rounds of the loops over lists that grow, and the depth of the calls of \<open>post\<close>.\<close>

record 'c tg_env =
  te_bound :: nat
  te_order :: "string set \<Rightarrow> string list"
  te_fs :: fsys
  te_meth :: "string \<Rightarrow> (nat \<Rightarrow> 'c gctx \<Rightarrow> 'c gctx result) \<Rightarrow> nat \<Rightarrow> 'c gctx \<Rightarrow> 'c gctx result"
  te_hook :: "string \<Rightarrow> nat \<Rightarrow> hook_arg \<Rightarrow> 'c gctx \<Rightarrow> 'c gctx result"
  te_rule_vars :: "string \<Rightarrow> string list"
  te_h_fun :: "string \<Rightarrow> string"

definition gen_at :: "'c gctx \<Rightarrow> nat \<Rightarrow> tgen" where
  "gen_at st g = gx_gens st ! g"

definition upd_gen :: "nat \<Rightarrow> (tgen \<Rightarrow> tgen) \<Rightarrow> 'c gctx \<Rightarrow> 'c gctx" where
  "upd_gen g f st = st\<lparr>gx_gens := (gx_gens st)[g := f (gen_at st g)]\<rparr>"

definition upd_task :: "nat \<Rightarrow> (gtask \<Rightarrow> gtask) \<Rightarrow> 'c gctx \<Rightarrow> 'c gctx" where
  "upd_task x f st = st\<lparr>gx_tasks := (gx_tasks st)[x := f (gx_tasks st ! x)]\<rparr>"

text \<open>\<open>task_gen.__init__\<close>: \<open>kwargs\<close> is the effect of the keyword arguments on the attributes.\<close>

definition new_gen :: "string list \<Rightarrow> (tgen \<Rightarrow> tgen) \<Rightarrow> string \<Rightarrow> 'c gctx \<Rightarrow> (nat \<times> 'c gctx) result" where
  "new_gen kw kwargs variant st =
     (let path = gx_path st;
          i = n_id (node_at (gx_tree st) path);
          idx = gx_idx st i + 1;
          x = kwargs \<lparr>tg_meths = [], tg_features = SList kw, tg_prec = [], tg_source = SText [], tg_target = SText [],
                tg_name = [], tg_posted = False, tg_allnodes = [], tg_tasks = [], tg_mappings = [], tg_path = path,
                tg_idx = idx, tg_variant = variant, tg_rule = None, tg_dep_vars = None, tg_vars = None, tg_seq_start = False,
                tg_order = (\<lambda>_. []), tg_flags = [], tg_install = None, tg_chmod = None, tg_cwd = None\<rparr>;
          g = length (gx_gens st)
      in rmap (\<lambda>m. (g, st\<lparr>gx_idx := (gx_idx st)(i := idx), gx_man := m, gx_gens := gx_gens st @ [x]\<rparr>))
           (add_task_gen g (gx_man st)))"

text \<open>\<open>BuildContext.__call__\<close>.\<close>

definition call_bld :: "string list \<Rightarrow> (tgen \<Rightarrow> tgen) \<Rightarrow> string \<Rightarrow> 'c gctx \<Rightarrow> (nat \<times> 'c gctx) result" where
  "call_bld k kw variant st = new_gen k kw variant (st\<lparr>gx_names := []\<rparr>)"

definition O644 :: nat where "O644 = 420"

definition get_inst_path :: "tgen \<Rightarrow> string option" where "get_inst_path x = tg_install x"
definition set_inst_path :: "string \<Rightarrow> tgen \<Rightarrow> tgen" where "set_inst_path v x = x\<lparr>tg_install := Some v\<rparr>"
definition get_chmod :: "tgen \<Rightarrow> nat" where "get_chmod x = (case tg_chmod x of None \<Rightarrow> O644 | Some v \<Rightarrow> v)"
definition set_chmod :: "nat \<Rightarrow> tgen \<Rightarrow> tgen" where "set_chmod v x = x\<lparr>tg_chmod := Some v\<rparr>"

definition get_hook :: "'c gctx \<Rightarrow> nat \<Rightarrow> string \<Rightarrow> string option" where
  "get_hook st g ext =
     (case map_of (tg_mappings (gen_at st g)) ext of
        Some h \<Rightarrow> Some h
      | None \<Rightarrow> map_of (c_mappings (gx_class st)) ext)"

text \<open>\<open>create_task\<close>: the constructor of the task enters it in the current group.\<close>

definition create_task :: "string \<Rightarrow> nat list \<Rightarrow> nat list \<Rightarrow> nat \<Rightarrow> 'c gctx \<Rightarrow> (nat \<times> 'c gctx) result" where
  "create_task name src tgt g st =
     (if gx_kinds st name = None then Inl KeyError
      else let x = length (gx_tasks st) in
        rmap (\<lambda>m. (x, upd_gen g (\<lambda>t. t\<lparr>tg_tasks := tg_tasks t @ [x]\<rparr>)
               (st\<lparr>gx_man := m, gx_tasks := gx_tasks st @
                  [\<lparr>gt_class = name, gt_gen = g, gt_inputs = src, gt_outputs = tgt, gt_dep_vars = None, gt_ruledeps = None,
                    gt_install = None, gt_cwd = None, gt_do_install = None\<rparr>]\<rparr>)))
          (add_task x (gx_man st)))"


definition not_found :: "string \<Rightarrow> py_error" where "not_found f = WafError (''not found: '' @ f)"

subsection \<open>\<open>apply_core\<close>\<close>

text \<open>A name of the attribute \<open>source\<close>, and a node of \<open>allnodes\<close>.\<close>

definition core_name :: "'c tg_env \<Rightarrow> nat \<Rightarrow> string \<Rightarrow> 'c gctx \<Rightarrow> 'c gctx result" where
  "core_name env g filename st =
     (case get_hook st g filename of
        Some h \<Rightarrow> te_hook env h g (HName filename) st
      | None \<Rightarrow>
          rbind (find_resource (te_fs env) (tg_path (gen_at st g)) (split_path filename) (gx_tree st)) (\<lambda>(n, t).
            case n of
              None \<Rightarrow> Inl (not_found filename)
            | Some x \<Rightarrow> Inr (upd_gen g (\<lambda>y. y\<lparr>tg_allnodes := tg_allnodes y @ [x]\<rparr>) (st\<lparr>gx_tree := t\<rparr>))))"

definition core_node :: "'c tg_env \<Rightarrow> nat \<Rightarrow> nat \<Rightarrow> 'c gctx \<Rightarrow> 'c gctx result" where
  "core_node env g x st =
     (case get_hook st g (suffix (gx_tree st) x) of
        None \<Rightarrow> Inl (WafError ''Cannot guess how to process a node'')
      | Some h \<Rightarrow> te_hook env h g (HNode x) st)"

text \<open>The loop over \<open>allnodes\<close>, from the place \<open>i\<close> on; hooks may add nodes to the list.\<close>

fun nodes_loop :: "nat \<Rightarrow> 'c tg_env \<Rightarrow> nat \<Rightarrow> nat \<Rightarrow> 'c gctx \<Rightarrow> 'c gctx result" where
  "nodes_loop n env g i st =
     (if length (tg_allnodes (gen_at st g)) \<le> i then Inr st
      else case n of
        0 \<Rightarrow> Inl RuntimeError
      | Suc m \<Rightarrow> rbind (core_node env g (tg_allnodes (gen_at st g) ! i) st) (nodes_loop m env g (Suc i)))"

declare nodes_loop.simps [simp del]

text \<open>The list of names is taken when the loop over it starts.\<close>

definition apply_core :: "'c tg_env \<Rightarrow> nat \<Rightarrow> 'c gctx \<Rightarrow> 'c gctx result" where
  "apply_core env g st =
     rbind (foldM (core_name env g) (sval_list (tg_source (gen_at st g))) st) (nodes_loop (te_bound env) env g 0)"

subsection \<open>\<open>exec_rule\<close>\<close>

definition rule_class :: "tgen \<Rightarrow> gen_rule \<Rightarrow> string" where
  "rule_class x r =
     (if tg_name x \<noteq> [] then tg_name x
      else if sval_true (tg_target x) then (case tg_target x of SText s \<Rightarrow> s | SList l \<Rightarrow> str_nat (tg_idx x))
      else case r of RText s \<Rightarrow> s | RFun f \<Rightarrow> str_nat (tg_idx x))"

definition task_type_from_func :: "string \<Rightarrow> string list \<Rightarrow> 'c gctx \<Rightarrow> 'c gctx" where
  "task_type_from_func name vars st =
     st\<lparr>gx_kinds := (gx_kinds st)(name \<mapsto> \<lparr>k_vars = vars, k_order = (\<lambda>_. []), k_flags = []\<rparr>)\<rparr>"

definition upd_kind :: "string \<Rightarrow> (gclass \<Rightarrow> gclass) \<Rightarrow> 'c gctx \<Rightarrow> 'c gctx" where
  "upd_kind name f st = st\<lparr>gx_kinds := (gx_kinds st)(name := map_option f (gx_kinds st name))\<rparr>"

definition add_flag :: "string \<Rightarrow> gclass \<Rightarrow> gclass" where
  "add_flag f k = k\<lparr>k_flags := List.insert f (k_flags k)\<rparr>"

definition declare_output :: "'c tg_env \<Rightarrow> nat \<Rightarrow> nat \<Rightarrow> string \<Rightarrow> 'c gctx \<Rightarrow> 'c gctx result" where
  "declare_output env g x name st =
     rbind (find_or_declare (te_fs env) (tg_path (gen_at st g)) (split_path name) (gx_tree st)) (\<lambda>(n, t).
       case n of
         None \<Rightarrow> Inl AttributeError
       | Some y \<Rightarrow> Inr (upd_task x (\<lambda>k. k\<lparr>gt_outputs := gt_outputs k @ [y]\<rparr>) (st\<lparr>gx_tree := t\<rparr>)))"

definition find_input :: "'c tg_env \<Rightarrow> nat \<Rightarrow> nat \<Rightarrow> string \<Rightarrow> 'c gctx \<Rightarrow> 'c gctx result" where
  "find_input env g x name st =
     rbind (find_resource (te_fs env) (tg_path (gen_at st g)) (split_path name) (gx_tree st)) (\<lambda>(n, t).
       case n of
         None \<Rightarrow> Inl (not_found name)
       | Some y \<Rightarrow> Inr (upd_task x (\<lambda>k. k\<lparr>gt_inputs := gt_inputs k @ [y]\<rparr>) (st\<lparr>gx_tree := t\<rparr>)))"

text \<open>
  The part of \<open>exec_rule\<close> after the task \<open>x\<close> of the class \<open>name\<close> was made. \<open>find_or_declare\<close> gives no
  node only when a directory of the target does not exist; the list of outputs then holds \<open>None\<close>, and
  the first use of it raises \<open>AttributeError\<close>, which is raised here at once.
\<close>

definition rule_nodes :: "'c tg_env \<Rightarrow> nat \<Rightarrow> nat \<Rightarrow> string \<Rightarrow> 'c gctx \<Rightarrow> 'c gctx result" where
  "rule_nodes env g x name st =
     (let tg = gen_at st g in
      rbind (if sval_true (tg_target tg)
             then foldM (declare_output env g x) (sval_list (tg_target tg)) (upd_kind name (add_flag ''quiet'') st) else Inr st) (\<lambda>st1.
        rmap (upd_task x (\<lambda>k. k\<lparr>gt_inputs := gt_inputs k @ tg_allnodes tg\<rparr>))
          (if sval_true (tg_source tg)
           then foldM (find_input env g x) (sval_list (tg_source tg)) (upd_kind name (add_flag ''quiet'') st1) else Inr st1)))"

definition exec_rule :: "'c tg_env \<Rightarrow> nat \<Rightarrow> 'c gctx \<Rightarrow> 'c gctx result" where
  "exec_rule env g st =
     (case tg_rule (gen_at st g) of
        None \<Rightarrow> Inr st
      | Some (RText []) \<Rightarrow> Inr st
      | Some r \<Rightarrow>
          let st1 = upd_gen g (\<lambda>y. y\<lparr>tg_meths := remove1 ''apply_core'' (tg_meths y)\<rparr>) st;
              tg = gen_at st1 g;
              vars2 = (case r of RText s \<Rightarrow> te_rule_vars env s | RFun f \<Rightarrow> []);
              name = rule_class tg r;
              st2 = task_type_from_func name (case tg_vars tg of None \<Rightarrow> vars2 | Some v \<Rightarrow> v) st1
          in rbind (create_task name [] [] g st2) (\<lambda>(x, st3).
            rmap (\<lambda>st4.
                upd_kind name (\<lambda>k. fold add_flag (filter (\<lambda>f. f \<in> set (tg_flags tg)) [''scan'', ''on_results'', ''always''])
                    (k\<lparr>k_order := tg_order tg\<rparr>))
                  (upd_task x (\<lambda>k. k\<lparr>gt_install := (case get_inst_path tg of Some (c # p) \<Rightarrow> Some (c # p) | _ \<Rightarrow> gt_install k),
                     gt_cwd := (case tg_cwd tg of Some (c # p) \<Rightarrow> Some (c # p) | _ \<Rightarrow> gt_cwd k)\<rparr>) st4))
              (rule_nodes env g x name
                (upd_task x (\<lambda>k. k\<lparr>gt_dep_vars := (case tg_dep_vars tg of None \<Rightarrow> Some [''ruledeps''] | Some [] \<Rightarrow> None | Some v \<Rightarrow> Some v),
                     gt_ruledeps := Some (case r of RText s \<Rightarrow> s | RFun f \<Rightarrow> te_h_fun env f)\<rparr>) st3))))"

subsection \<open>\<open>sequence_order\<close> and the calls of the methods\<close>

text \<open>\<open>post\<close> of the previous generator of the sequence is the argument \<open>pst\<close>.\<close>

definition sequence_order :: "(nat \<Rightarrow> 'c gctx \<Rightarrow> 'c gctx result) \<Rightarrow> nat \<Rightarrow> 'c gctx \<Rightarrow> 'c gctx result" where
  "sequence_order pst g st =
     (let tg = gen_at st g in
      if tg_meths tg \<noteq> [] \<and> last (tg_meths tg) \<noteq> ''sequence_order''
      then Inr (upd_gen g (\<lambda>y. y\<lparr>tg_meths := tg_meths y @ [''sequence_order'']\<rparr>) st)
      else if tg_seq_start tg then Inr st
      else rmap (\<lambda>st2. st2\<lparr>gx_prev := Some g\<rparr>)
        (case gx_prev st of
           None \<Rightarrow> Inr st
         | Some p \<Rightarrow>
             rmap (\<lambda>st1. st1\<lparr>gx_man := (gx_man st1)\<lparr>after_of :=
                 fold (\<lambda>(y, x). set_run_after y x)
                   (concat (map (\<lambda>x. map (\<lambda>y. (y, x)) (tg_tasks (gen_at st1 g))) (tg_tasks (gen_at st1 p)))) (after_of (gx_man st1))\<rparr>\<rparr>)
               (pst p st)))"

definition call_meth :: "'c tg_env \<Rightarrow> (nat \<Rightarrow> 'c gctx \<Rightarrow> 'c gctx result) \<Rightarrow> string \<Rightarrow> nat \<Rightarrow> 'c gctx \<Rightarrow> 'c gctx result" where
  "call_meth env pst x g st =
     (if x = ''apply_core'' then apply_core env g st
      else if x = ''exec_rule'' then exec_rule env g st
      else if x = ''sequence_order'' then sequence_order pst g st
      else te_meth env x pst g st)"

text \<open>The loop over the methods: it runs over the attribute \<open>meths\<close>, which the methods may change.\<close>

fun meths_loop :: "nat \<Rightarrow> 'c tg_env \<Rightarrow> (nat \<Rightarrow> 'c gctx \<Rightarrow> 'c gctx result) \<Rightarrow> nat \<Rightarrow> nat \<Rightarrow> 'c gctx \<Rightarrow> 'c gctx result" where
  "meths_loop n env pst g i st =
     (if length (tg_meths (gen_at st g)) \<le> i then Inr st
      else case n of
        0 \<Rightarrow> Inl RuntimeError
      | Suc m \<Rightarrow>
          let x = tg_meths (gen_at st g) ! i in
          if x \<notin> set (c_attrs (gx_class st)) then Inl (WafError ''tried to retrieve an invalid method'')
          else rbind (call_meth env pst x g (st\<lparr>gx_log := gx_log st @ [(g, x)]\<rparr>)) (meths_loop m env pst g (Suc i)))"

declare meths_loop.simps [simp del]

text \<open>The methods of a generator: its own and those of its features; reading a feature that does not exist makes it.\<close>

definition feature_keys :: "tg_class \<Rightarrow> tgen \<Rightarrow> string set" where
  "feature_keys c x = set (tg_meths x) \<union> \<Union> (set ` ddget (c_traits c) ` set (sval_list (tg_features x) @ [''*'']))"

definition read_features :: "string list \<Rightarrow> tg_class \<Rightarrow> tg_class" where
  "read_features fs c = fold (\<lambda>f c. c\<lparr>c_traits := dict_set f (ddget (c_traits c) f) (c_traits c)\<rparr>) fs c"

definition tgen_apply :: "'c tg_env \<Rightarrow> (nat \<Rightarrow> 'c gctx \<Rightarrow> 'c gctx result) \<Rightarrow> nat \<Rightarrow> 'c gctx \<Rightarrow> 'c gctx result" where
  "tgen_apply env pst g st0 =
     (let x = gen_at st0 g;
          fs = sval_list (tg_features x);
          keys = te_order env (feature_keys (gx_class st0) x);
          st = upd_gen g (\<lambda>y. y\<lparr>tg_features := SList fs\<rparr>) (st0\<lparr>gx_class := read_features (fs @ [''*'']) (gx_class st0)\<rparr>)
      in rbind (sort_methods keys (if tg_prec x \<noteq> [] then tg_prec x else c_prec (gx_class st0))) (\<lambda>out.
        meths_loop (te_bound env) env pst g 0 (upd_gen g (\<lambda>y. y\<lparr>tg_meths := out\<rparr>) st)))"

definition set_gen_name :: "tgen \<Rightarrow> tgen" where
  "set_gen_name x =
     (if tg_name x \<noteq> [] then x
      else x\<lparr>tg_name := (case tg_target x of SText s \<Rightarrow> s | SList l \<Rightarrow> py_join '' '' l)\<rparr>)"

fun post :: "nat \<Rightarrow> 'c tg_env \<Rightarrow> nat \<Rightarrow> 'c gctx \<Rightarrow> 'c gctx result" where
  "post 0 env g st = Inl RuntimeError"
| "post (Suc n) env g st0 =
     (let st = upd_gen g set_gen_name st0 in
      if tg_posted (gen_at st g) then Inr st
      else rmap (upd_gen g (\<lambda>y. y\<lparr>tg_posted := True\<rparr>)) (tgen_apply env (post n env) g st))"


subsection \<open>Sources in directories, and chains of extensions\<close>

definition file_ext :: "string \<Rightarrow> string" where
  "file_ext name = (case rfind_dot name of None \<Rightarrow> [] | Some k \<Rightarrow> drop k name)"

text \<open>
  One directory of \<open>find_sources_in_dirs\<close>, with the list of what was found before. A file is compared with
  the list by its name, while the list has paths.
\<close>

definition dir_sources :: "'c tg_env \<Rightarrow> nat \<Rightarrow> nat \<Rightarrow> string list \<Rightarrow> string list \<Rightarrow> string \<Rightarrow> string list \<times> ntree \<Rightarrow> (string list \<times> ntree) result" where
  "dir_sources env src path excludes ext_lst name = (\<lambda>(lst, t0).
     rbind (find_dir (te_fs env) path (split_path name) t0) (\<lambda>(n, t1).
       case n of
         None \<Rightarrow> Inl (WafError ''Unable to use the directory'')
       | Some anode \<Rightarrow>
           rbind (is_child_of t1 anode src) (\<lambda>c.
             if \<not> c then Inl (WafError ''Unable to use the directory'')
             else rbind (rescan (te_fs env) anode t1) (\<lambda>t.
               case dir_contents t (n_id (node_at t anode)) of
                 None \<Rightarrow> Inl KeyError
               | Some ns \<Rightarrow>
                   rmap (\<lambda>l. (l, t)) (foldM (\<lambda>f l.
                     if py_startswith f ''.'' then Inr l
                     else if file_ext f \<in> set ext_lst \<and> f \<notin> set l \<and> f \<notin> set excludes
                     then rmap (\<lambda>p. l @ [(if p = [] then ''.'' else p) @ ''/'' @ f]) (relpath_gen t anode path)
                     else Inr l) ns lst)))))"

definition find_sources_in_dirs :: "'c tg_env \<Rightarrow> sval \<Rightarrow> string list \<Rightarrow> string list \<Rightarrow> nat \<Rightarrow> 'c gctx \<Rightarrow> 'c gctx result" where
  "find_sources_in_dirs env dirnames excludes exts g st =
     (let x = gen_at st g;
          ext_lst = (if exts \<noteq> [] then exts else map fst (tg_mappings x) @ map fst (c_mappings (gx_class st)))
      in rmap (\<lambda>(lst, t). upd_gen g (\<lambda>y. y\<lparr>tg_source := SList (sval_list (tg_source y) @ sort lst)\<rparr>) (st\<lparr>gx_tree := t\<rparr>))
           (foldM (dir_sources env (gx_srcnode st) (tg_path x) excludes ext_lst) (sval_list dirnames) ([], gx_tree st)))"

text \<open>A chain: the hook \<open>x_file\<close> that \<open>declare_chain\<close> makes. \<open>reentrant\<close> is \<open>True\<close> or a number.\<close>

datatype reentrant = ReTrue | ReNum nat

record 'c chain =
  ch_name :: string
  ch_ext_out :: sval
  ch_decider :: "(nat \<Rightarrow> nat \<Rightarrow> 'c gctx \<Rightarrow> sval) option"
  ch_reentrant :: reentrant
  ch_install :: int

fun change_exts :: "'c tg_env \<Rightarrow> nat \<Rightarrow> string list \<Rightarrow> ntree \<Rightarrow> (nat list \<times> ntree) result" where
  "change_exts env node [] t = Inr ([], t)"
| "change_exts env node (e # es) t =
     rbind (change_ext (te_fs env) node e t) (\<lambda>(n, t1).
       case n of None \<Rightarrow> Inl AttributeError | Some x \<Rightarrow> rmap (\<lambda>(xs, t2). (x # xs, t2)) (change_exts env node es t1))"

definition x_file :: "'c tg_env \<Rightarrow> 'c chain \<Rightarrow> nat \<Rightarrow> nat \<Rightarrow> 'c gctx \<Rightarrow> 'c gctx result" where
  "x_file env ch g node st =
     (let ext = (case ch_decider ch of None \<Rightarrow> ch_ext_out ch | Some d \<Rightarrow> d g node st);
          exts = (case ext of SText s \<Rightarrow> [s] | SList l \<Rightarrow> l)
      in rbind (change_exts env node exts (gx_tree st)) (\<lambda>(out, t).
        let k = (case ch_reentrant ch of ReTrue \<Rightarrow> max 1 (length out)
                 | ReNum n \<Rightarrow> (case ext of SText s \<Rightarrow> if n = 0 then 0 else 1 | SList l \<Rightarrow> n)) in
        if length out < k then Inl IndexError
        else rmap (\<lambda>(x, st2). if gx_is_install st2 \<noteq> 0 then upd_task x (\<lambda>y. y\<lparr>gt_do_install := Some (ch_install ch)\<rparr>) st2 else st2)
          (create_task (ch_name ch) [node] out g
            (upd_gen g (\<lambda>y. y\<lparr>tg_allnodes := tg_allnodes y @ take k out\<rparr>) (st\<lparr>gx_tree := t\<rparr>)))))"

subsection \<open>\<open>flush\<close>\<close>

text \<open>The index of generators by variant and name; it is made when it is empty.\<close>

definition gen_key :: "string \<Rightarrow> string \<Rightarrow> string" where "gen_key variant name = variant @ ''_'' @ name"

definition index_gen :: "'c gctx \<Rightarrow> nat \<Rightarrow> (string \<times> nat) list \<Rightarrow> (string \<times> nat) list" where
  "index_gen st g cache =
     (let x = gen_at st g in
      if tg_name x \<noteq> [] then dict_set (gen_key (tg_variant x) (tg_name x)) g cache
      else let v = gen_key (tg_variant x) (case tg_target x of SText s \<Rightarrow> s | SList l \<Rightarrow> py_join '' '' l)
           in if map_of cache v = None then dict_set v g cache else cache)"

definition name_to_obj :: "string \<Rightarrow> string \<Rightarrow> 'c gctx \<Rightarrow> nat option \<times> 'c gctx" where
  "name_to_obj name variant st =
     (let cache = (if gx_names st \<noteq> [] then gx_names st else fold (index_gen st) [0..<length (gx_gens st)] [])
      in (map_of cache (gen_key variant name), st\<lparr>gx_names := cache\<rparr>))"

text \<open>What \<open>flush\<close> reads from outside: the targets of the command line, the variants of the environments, and two directories.\<close>

record flush_env =
  fe_targets :: "string option"
  fe_variants :: "string list"
  fe_root :: nat
  fe_launch_dir :: string
  fe_proj_dir :: string

text \<open>The generators for the targets of the command line.\<close>

fun target_objects :: "bool \<Rightarrow> string list \<Rightarrow> string list \<Rightarrow> 'c gctx \<Rightarrow> nat list result" where
  "target_objects all vs [] st = Inr []"
| "target_objects all vs (name # names) st =
     (let objs = List.map_filter (\<lambda>v. fst (name_to_obj (py_strip name) v st)) vs in
      if objs = [] \<and> all then Inl (WafError ''target does not exist'')
      else rmap (\<lambda>l. objs @ l) (target_objects all vs names st))"

text \<open>The loop over the generators of the group \<open>i\<close>, which may grow while they are posted.\<close>

fun post_group :: "nat \<Rightarrow> 'c tg_env \<Rightarrow> (nat \<Rightarrow> 'c gctx \<Rightarrow> bool result) \<Rightarrow> nat \<Rightarrow> nat \<Rightarrow> 'c gctx \<Rightarrow> 'c gctx result" where
  "post_group n env sel i j st =
     (if length (tasks_gen (groups (gx_man st) ! i)) \<le> j then Inr st
      else case n of
        0 \<Rightarrow> Inl RuntimeError
      | Suc m \<Rightarrow>
          let g = tasks_gen (groups (gx_man st) ! i) ! j in
          rbind (sel g st) (\<lambda>b. rbind (if b then post (te_bound env) env g st else Inr st) (post_group m env sel i (Suc j))))"

declare post_group.simps [simp del]

definition post_groups :: "'c tg_env \<Rightarrow> (nat \<Rightarrow> 'c gctx \<Rightarrow> bool result) \<Rightarrow> 'c gctx \<Rightarrow> 'c gctx result" where
  "post_groups env sel st =
     foldM (\<lambda>i s. post_group (te_bound env) env sel i 0 (s\<lparr>gx_man := (gx_man s)\<lparr>current_group := i\<rparr>\<rparr>)) [0..<length (groups (gx_man st))] st"

definition flush :: "'c tg_env \<Rightarrow> flush_env \<Rightarrow> bool \<Rightarrow> 'c gctx \<Rightarrow> 'c gctx result" where
  "flush env fe all st0 =
     (let st = snd (name_to_obj [] ''default'' (st0\<lparr>gx_names := []\<rparr>)) in
      case fe_targets fe of
        Some (c # s) \<Rightarrow>
          rbind (target_objects all (fe_variants fe) (py_split_chr (CHR '','') (c # s)) st) (\<lambda>to_compile.
            post_groups env (\<lambda>g s. Inr (g \<in> set to_compile)) st)
      | _ \<Rightarrow>
          rbind (find_dir (te_fs env) (fe_root fe) (split_path (fe_launch_dir fe)) (gx_tree st)) (\<lambda>(n, t).
            case n of
              None \<Rightarrow> Inl AttributeError
            | Some ln0 \<Rightarrow>
                rbind (is_child_of t ln0 (gx_bldnode st)) (\<lambda>b1. rbind (if b1 then Inr True else rmap Not (is_child_of t ln0 (gx_srcnode st))) (\<lambda>b2.
                  let ln1 = (if b2 then gx_srcnode st else ln0) in
                  rbind (find_dir (te_fs env) (fe_root fe) (split_path (fe_proj_dir fe)) t) (\<lambda>(p, t1).
                    case p of
                      None \<Rightarrow> Inl AttributeError
                    | Some proj \<Rightarrow>
                        let ln = (if n_id (node_at t1 proj) \<noteq> n_id (node_at t1 (gx_srcnode st)) then gx_srcnode st else ln1)
                        in post_groups env (\<lambda>g s. is_child_of (gx_tree s) (tg_path (gen_at s g)) ln) (st\<lparr>gx_tree := t1\<rparr>))))))"

section \<open>The order of the methods\<close>

text \<open>\<open>a\<close> stands before \<open>b\<close> in a list.\<close>

definition stands_before :: "'a \<Rightarrow> 'a \<Rightarrow> 'a list \<Rightarrow> bool" where
  "stands_before a b xs \<longleftrightarrow> (\<exists>us vs ws. xs = us @ a # vs @ b # ws)"

definition prec_values :: "prec_table \<Rightarrow> string set" where
  "prec_values prec = (\<Union>(k, l) \<in> set prec. set l)"

definition wf_prec :: "prec_table \<Rightarrow> bool" where
  "wf_prec prec \<longleftrightarrow> distinct (map fst prec) \<and> (\<forall>(k, l) \<in> set prec. distinct l)"

lemma free_of_iff: "free_of prec a \<longleftrightarrow> a \<notin> prec_values prec"
  by (auto simp: free_of_def prec_values_def list_ex_iff)

lemma stands_before_Cons:
  "stands_before a b (x # xs) \<longleftrightarrow> a = x \<and> b \<in> set xs \<or> stands_before a b xs"
proof
  assume "stands_before a b (x # xs)"
  then obtain us vs ws where e: "x # xs = us @ a # vs @ b # ws" unfolding stands_before_def by blast
  show "a = x \<and> b \<in> set xs \<or> stands_before a b xs"
  proof (cases us)
    case Nil
    then show ?thesis using e by simp
  next
    case (Cons u us')
    then show ?thesis using e unfolding stands_before_def by auto
  qed
next
  assume "a = x \<and> b \<in> set xs \<or> stands_before a b xs"
  then show "stands_before a b (x # xs)"
  proof
    assume "a = x \<and> b \<in> set xs"
    then obtain vs ws where "xs = vs @ b # ws" "a = x" by (meson split_list)
    then have "x # xs = [] @ a # vs @ b # ws" by simp
    then show ?thesis unfolding stands_before_def by blast
  next
    assume "stands_before a b xs"
    then obtain us vs ws where "x # xs = (x # us) @ a # vs @ b # ws" unfolding stands_before_def by auto
    then show ?thesis unfolding stands_before_def by blast
  qed
qed

lemma stands_before_rev: "stands_before a b (rev xs) \<longleftrightarrow> stands_before b a xs"
proof -
  have "stands_before y x (rev ys)" if st: "stands_before x y ys" for x y :: 'a and ys
  proof -
    obtain us vs ws where "ys = us @ x # vs @ y # ws" using st unfolding stands_before_def by blast
    then have "rev ys = rev ws @ y # rev vs @ x # rev us" by simp
    then show ?thesis unfolding stands_before_def by blast
  qed
  from this[of a b "rev xs"] this[of b a xs] show ?thesis by auto
qed

lemma stands_before_filter:
  assumes "stands_before a b xs" and "P a" and "P b"
  shows "stands_before a b (filter P xs)"
proof -
  obtain us vs ws where "xs = us @ a # vs @ b # ws" using assms(1) unfolding stands_before_def by blast
  then have "filter P xs = filter P us @ a # filter P vs @ b # filter P ws" using assms(2,3) by simp
  then show ?thesis unfolding stands_before_def by blast
qed

lemma stands_before_acyclic: "distinct xs \<Longrightarrow> acyclic {(b, a). stands_before a b xs}"
proof (induction xs)
  case Nil
  then show ?case by (simp add: stands_before_def acyclic_def)
next
  case (Cons x xs)
  have sub: "b \<in> set xs \<and> a \<in> set xs" if "stands_before a b xs" for a b
    using that unfolding stands_before_def by auto
  let ?R = "{(b, a). stands_before a b xs}"
  have "{(b, a). stands_before a b (x # xs)} = (\<lambda>b. (b, x)) ` set xs \<union> ?R"
    by (auto simp: stands_before_Cons)
  moreover have "acyclic ((\<lambda>b. (b, x)) ` set xs \<union> ?R)"
  proof (rule acyclicI, intro allI notI)
    fix y
    let ?S = "(\<lambda>b. (b, x)) ` set xs \<union> ?R"
    assume y: "(y, y) \<in> ?S\<^sup>+"
    have x: "(x, z) \<notin> ?S" for z using sub Cons.prems by auto
    then have nx: "y \<noteq> x" using y by (metis tranclD)
    have step: "(u, v) \<in> ?S\<^sup>+ \<Longrightarrow> v \<noteq> x \<Longrightarrow> (u, v) \<in> ?R\<^sup>+" for u v
    proof (induction rule: trancl_induct)
      case (step b c)
      then have "(b, c) \<in> ?R" by auto
      moreover have "b \<noteq> x" using step.hyps(2) x by blast
      ultimately show ?case using step.IH by (meson trancl.trancl_into_trancl)
    qed auto
    show False using step[OF y nx] Cons by (simp add: acyclic_def)
  qed
  ultimately show ?case by simp
qed

lemma prec_del:
  assumes "wf_prec prec" and "map_of prec e = Some l"
  shows "prec_values prec = prec_values (dict_del e prec) \<union> set l" and "wf_prec (dict_del e prec)"
    and "set prec = insert (e, l) (set (dict_del e prec))" and "distinct l"
proof -
  have d: "distinct (map fst prec)" "\<forall>(k, l) \<in> set prec. distinct l" using assms(1) by (auto simp: wf_prec_def)
  have m: "(e, l) \<in> set prec" using assms(2) by (rule map_of_SomeD)
  have u: "l' = l" if "(e, l') \<in> set prec" for l' using d(1) m that by (metis eq_key_imp_eq_value)
  have "set (dict_del e prec) = {(k, v) \<in> set prec. k \<noteq> e}" by (auto simp: dict_del_def)
  then show s: "set prec = insert (e, l) (set (dict_del e prec))" using m by (auto dest: u)
  show "prec_values prec = prec_values (dict_del e prec) \<union> set l" unfolding prec_values_def s by auto
  show "distinct l" using d(2) m by blast
  have "\<forall>(k, l) \<in> set (dict_del e prec). distinct l" using d(2) unfolding s by simp
  moreover have "distinct (map fst (dict_del e prec))" unfolding dict_del_def by (rule distinct_map_filter[OF d(1)])
  ultimately show "wf_prec (dict_del e prec)" unfolding wf_prec_def by simp
qed

text \<open>
  What the loop does, from any state in which the waiting elements are free: it takes elements, each once and
  never before those that have to be taken earlier, until only the entries are left that were never free.
\<close>

definition topo_run :: "string list \<Rightarrow> prec_table \<Rightarrow> string list \<Rightarrow> string list \<Rightarrow> string list \<Rightarrow> bool" where
  "topo_run keys prec tmp out popped \<longleftrightarrow>
     topo keys prec tmp out = (filter (\<lambda>(k, l). k \<notin> set popped) prec, out @ filter (\<lambda>x. x \<in> set keys) popped) \<and>
     distinct popped \<and> set tmp \<subseteq> set popped \<and> set popped \<subseteq> set tmp \<union> prec_values prec \<and>
     prec_values prec \<subseteq> set popped \<union> prec_values (filter (\<lambda>(k, l). k \<notin> set popped) prec) \<and>
     (\<forall>(k, l) \<in> set prec. \<forall>x \<in> set l \<inter> set popped. stands_before k x popped)"

lemma topo_loop:
  assumes "wf_prec prec" and "distinct tmp" and "set tmp \<inter> prec_values prec = {}"
  shows "\<exists>popped. topo_run keys prec tmp out popped"
  using assms
proof (induction keys prec tmp out rule: topo.induct)
  case (1 keys prec out)
  then show ?case by (intro exI[of _ "[]"]) (auto simp: topo_run_def case_prod_beta)
next
  case (2 keys prec e tmp out)
  define out' where "out' = (if e \<in> set keys then out @ [e] else out)"
  have e: "e \<notin> prec_values prec" "e \<notin> set tmp" using "2.prems" by auto
  have nb: "e \<notin> set l" if "(k, l) \<in> set prec" for k l using e(1) that unfolding prec_values_def by blast
  show ?case
  proof (cases "map_of prec e")
    case None
    then have k: "e \<notin> fst ` set prec" by (simp add: map_of_eq_None_iff)
    have "\<exists>popped. topo_run keys prec tmp out' popped"
      using "2.IH"(1)[OF out'_def None] "2.prems" by simp
    then obtain p where p: "topo_run keys prec tmp out' p" by blast
    have f: "filter (\<lambda>(k, l). k \<notin> set (e # p)) prec = filter (\<lambda>(k, l). k \<notin> set p) prec"
      using k by (intro filter_cong) force+
    have "e \<notin> set p" using p e by (auto simp: topo_run_def)
    then have "topo_run keys prec (e # tmp) out (e # p)"
      using p None k e unfolding topo_run_def f
      by (auto simp: out'_def Let_def stands_before_Cons dest: nb)
    then show ?thesis by blast
  next
    case (Some l)
    define prec' where "prec' = dict_del e prec"
    define tmp' where "tmp' = rev (filter (free_of prec') l) @ tmp"
    note d = prec_del[OF "2.prems"(1) Some, folded prec'_def]
    have tmp': "set tmp' = (set l - prec_values prec') \<union> set tmp" by (auto simp: tmp'_def free_of_iff)
    have "distinct tmp'" using d(1,4) "2.prems"(2,3) by (auto simp: tmp'_def)
    moreover have "set tmp' \<inter> prec_values prec' = {}" using d(1) "2.prems"(3) tmp' by auto
    ultimately have "\<exists>popped. topo_run keys prec' tmp' out' popped"
      using "2.IH"(2)[OF out'_def Some prec'_def d(2)] by (simp add: tmp'_def)
    then obtain p where p: "topo_run keys prec' tmp' out' p" by blast
    have nb': "e \<notin> set l'" if "(k, l') \<in> set prec'" for k l' using nb[of k l'] that d(3) by blast
    have ep: "e \<notin> set p" using p e d(1) tmp' by (auto simp: topo_run_def)
    have f: "filter (\<lambda>(k, l). k \<notin> set (e # p)) prec = filter (\<lambda>(k, l). k \<notin> set p) prec'"
      unfolding prec'_def dict_del_def filter_filter by (intro filter_cong) auto
    have t: "topo keys prec (e # tmp) out = topo keys prec' tmp' out'"
      using Some by (simp add: out'_def prec'_def tmp'_def Let_def)
    have "topo_run keys prec (e # tmp) out (e # p)"
      unfolding topo_run_def f t
    proof (intro conjI)
      show "\<forall>(k, l) \<in> set prec. \<forall>x \<in> set l \<inter> set (e # p). stands_before k x (e # p)"
        using p d(1,3) e ep nb' unfolding topo_run_def by (auto simp: stands_before_Cons)
    qed (use p ep d(1) tmp' e in \<open>auto simp: topo_run_def out'_def\<close>)
    then show ?thesis by blast
  qed
qed

text \<open>The pairs of methods of which the first has to be called before the second.\<close>

definition prec_rel :: "string list \<Rightarrow> prec_table \<Rightarrow> (string \<times> string) set" where
  "prec_rel keys tbl = {(f1, f2). f2 \<in> set keys \<and> (\<exists>l. (f2, l) \<in> set tbl \<and> f1 \<in> set l)}"

lemma finite_prec_rel: "finite (prec_rel keys tbl)"
proof (rule finite_subset)
  show "prec_rel keys tbl \<subseteq> prec_values tbl \<times> set keys" by (auto simp: prec_rel_def prec_values_def)
  show "finite (prec_values tbl \<times> set keys)" by (auto simp: prec_values_def)
qed

lemma no_successor_free:
  assumes "finite r" and "acyclic r" and "Q \<noteq> {}" and "\<forall>x \<in> Q. \<exists>y \<in> Q. (x, y) \<in> r"
  shows False
proof -
  have "wf (r\<inverse>)" using assms(1,2) by (rule finite_acyclic_wf_converse)
  then show False using assms(3,4) by (metis converse_iff wf_eq_minimal all_not_in_conv)
qed

text \<open>The sort of a table for the methods \<open>keys\<close>, in one statement.\<close>

lemma sort_methods_run:
  assumes "distinct keys" and "wf_prec tbl"
  obtains popped left where "left = filter (\<lambda>(k, l). k \<notin> set popped) (filter (\<lambda>(x, l). x \<in> set keys) tbl)" and "distinct popped"
    and "sort_methods keys tbl = (if left \<noteq> [] then Inl (WafError ''graph has a cycle'') else Inr (rev (filter (\<lambda>x. x \<in> set keys) popped)))"
    and "set keys \<subseteq> set popped \<union> prec_values left"
    and "\<And>f1 f2. (f1, f2) \<in> prec_rel keys tbl \<Longrightarrow> f1 \<in> set popped \<Longrightarrow> stands_before f2 f1 popped"
    and "\<And>f1 f2. (f1, f2) \<in> prec_rel keys tbl \<Longrightarrow> f1 \<in> set popped \<union> prec_values left"
proof -
  define prec where "prec = filter (\<lambda>(x, l). x \<in> set keys) tbl"
  define tmp where "tmp = rev (filter (free_of prec) keys)"
  have "wf_prec prec" using assms(2) by (auto simp: wf_prec_def prec_def distinct_map_filter)
  moreover have "distinct tmp" using assms(1) by (simp add: tmp_def)
  moreover have "set tmp \<inter> prec_values prec = {}" by (auto simp: tmp_def free_of_iff)
  ultimately obtain p where p: "topo_run keys prec tmp [] p" using topo_loop by blast
  define left where "left = filter (\<lambda>(k, l). k \<notin> set p) prec"
  have r: "(f1, f2) \<in> prec_rel keys tbl \<longleftrightarrow> (\<exists>l. (f2, l) \<in> set prec \<and> f1 \<in> set l)" for f1 f2
    by (auto simp: prec_rel_def prec_def)
  show ?thesis
  proof (rule that)
    show "left = filter (\<lambda>(k, l). k \<notin> set p) (filter (\<lambda>(x, l). x \<in> set keys) tbl)" by (simp add: left_def prec_def)
    show "distinct p" using p by (simp add: topo_run_def)
    show "sort_methods keys tbl = (if left \<noteq> [] then Inl (WafError ''graph has a cycle'') else Inr (rev (filter (\<lambda>x. x \<in> set keys) p)))"
      using p unfolding sort_methods_def Let_def prec_def[symmetric] tmp_def[symmetric] topo_run_def left_def by simp
    show "set keys \<subseteq> set p \<union> prec_values left"
    proof
      fix x assume "x \<in> set keys"
      then have "x \<in> set tmp \<or> x \<in> prec_values prec" by (auto simp: tmp_def free_of_iff)
      then show "x \<in> set p \<union> prec_values left" using p unfolding topo_run_def left_def by blast
    qed
    show "stands_before f2 f1 p" if "(f1, f2) \<in> prec_rel keys tbl" "f1 \<in> set p" for f1 f2
      using that p unfolding r topo_run_def by blast
    show "f1 \<in> set p \<union> prec_values left" if "(f1, f2) \<in> prec_rel keys tbl" for f1 f2
    proof -
      have "f1 \<in> prec_values prec" using that unfolding r prec_values_def by blast
      then show ?thesis using p unfolding topo_run_def left_def by blast
    qed
  qed
qed

lemma sort_methods_correct:
  assumes "distinct keys" and "wf_prec tbl"
  shows "case sort_methods keys tbl of
      Inr out \<Rightarrow> acyclic (prec_rel keys tbl) \<and> distinct out \<and> set out = set keys \<and>
        (\<forall>(f1, f2) \<in> prec_rel keys tbl. f1 \<in> set keys \<longrightarrow> stands_before f1 f2 out)
    | Inl e \<Rightarrow> \<not> acyclic (prec_rel keys tbl)"
proof -
  obtain p left where p: "left = filter (\<lambda>(k, l). k \<notin> set p) (filter (\<lambda>(x, l). x \<in> set keys) tbl)" "distinct p"
    and res: "sort_methods keys tbl = (if left \<noteq> [] then Inl (WafError ''graph has a cycle'') else Inr (rev (filter (\<lambda>x. x \<in> set keys) p)))"
    and keys: "set keys \<subseteq> set p \<union> prec_values left"
    and order: "\<And>f1 f2. (f1, f2) \<in> prec_rel keys tbl \<Longrightarrow> f1 \<in> set p \<Longrightarrow> stands_before f2 f1 p"
    and vals: "\<And>f1 f2. (f1, f2) \<in> prec_rel keys tbl \<Longrightarrow> f1 \<in> set p \<union> prec_values left"
    using sort_methods_run[OF assms] by metis
  show ?thesis
  proof (cases "left = []")
    case True
    then have v: "prec_values left = {}" by (simp add: prec_values_def)
    have "prec_rel keys tbl \<subseteq> {(b, a). stands_before a b p}" using order vals v by blast
    then have "acyclic (prec_rel keys tbl)" using stands_before_acyclic[OF p(2)] by (rule acyclic_subset[rotated])
    moreover have "stands_before f1 f2 (rev (filter (\<lambda>x. x \<in> set keys) p))" if "(f1, f2) \<in> prec_rel keys tbl" "f1 \<in> set keys" for f1 f2
    proof -
      have "f2 \<in> set keys" using that(1) by (simp add: prec_rel_def)
      then show ?thesis unfolding stands_before_rev using order[OF that(1)] vals[OF that(1)] v that(2)
        by (auto intro: stands_before_filter)
    qed
    moreover have "set (rev (filter (\<lambda>x. x \<in> set keys) p)) = set keys" using keys v by auto
    ultimately show ?thesis using True res p(2) by auto
  next
    case False
    let ?Q = "fst ` set left"
    have "\<exists>y \<in> ?Q. (x, y) \<in> prec_rel keys tbl" if "x \<in> ?Q" for x
    proof -
      have "x \<in> set keys" "x \<notin> set p" using that p(1) by auto
      then obtain y l where "(y, l) \<in> set left" "x \<in> set l" using keys by (auto simp: prec_values_def)
      then show ?thesis using p(1) by (force simp: prec_rel_def)
    qed
    then have q: "\<forall>x \<in> ?Q. \<exists>y \<in> ?Q. (x, y) \<in> prec_rel keys tbl" by simp
    have ne: "?Q \<noteq> {}" using False by simp
    have "\<not> acyclic (prec_rel keys tbl)"
    proof
      assume "acyclic (prec_rel keys tbl)"
      from no_successor_free[OF finite_prec_rel this ne q] show False .
    qed
    then show ?thesis using False res by simp
  qed
qed

section \<open>The calls of the methods\<close>

text \<open>The part of the context that decides which methods are called.\<close>

definition view :: "nat \<Rightarrow> 'c gctx \<Rightarrow> bool \<times> string list \<times> gen_rule option \<times> (nat \<times> string) list \<times> string list" where
  "view g s = (g < length (gx_gens s), tg_meths (gen_at s g), tg_rule (gen_at s g), gx_log s, c_attrs (gx_class s))"

lemma view_eqD:
  "view g s' = view g s \<Longrightarrow> (g < length (gx_gens s') \<longleftrightarrow> g < length (gx_gens s)) \<and> tg_meths (gen_at s' g) = tg_meths (gen_at s g) \<and>
    tg_rule (gen_at s' g) = tg_rule (gen_at s g) \<and> gx_log s' = gx_log s \<and> c_attrs (gx_class s') = c_attrs (gx_class s)"
  by (simp add: view_def)

lemma gen_at_upd_gen: "g < length (gx_gens s) \<Longrightarrow> gen_at (upd_gen g f s) g = f (gen_at s g)"
  by (simp add: gen_at_def upd_gen_def)

lemma view_upd_task [simp]: "view g (upd_task x f s) = view g s"
  by (simp add: view_def upd_task_def gen_at_def)

lemma view_upd_kind [simp]: "view g (upd_kind x f s) = view g s" "view g (task_type_from_func x vs s) = view g s"
  by (simp_all add: view_def upd_kind_def task_type_from_func_def gen_at_def)

lemma view_upd [simp]: "view g (s\<lparr>gx_tree := t\<rparr>) = view g s" "view g (s\<lparr>gx_man := m\<rparr>) = view g s" "view g (s\<lparr>gx_tasks := ts\<rparr>) = view g s"
  by (simp_all add: view_def gen_at_def)

lemma view_upd_gen:
  assumes "\<And>y. tg_meths (f y) = tg_meths y" and "\<And>y. tg_rule (f y) = tg_rule y"
  shows "view g (upd_gen h f s) = view g s"
proof -
  have "gen_at (upd_gen h f s) g = f (gen_at s g) \<or> gen_at (upd_gen h f s) g = gen_at s g"
    by (cases "h < length (gx_gens s)"; cases "h = g") (simp_all add: gen_at_def upd_gen_def list_update_beyond)
  then show ?thesis using assms by (auto simp: view_def upd_gen_def)
qed

lemma view_foldM:
  assumes "foldM f xs s = Inr s'" and "\<And>x u u'. f x u = Inr u' \<Longrightarrow> view g u' = view g u"
  shows "view g s' = view g s"
  using assms(1)
proof (induction xs arbitrary: s)
  case (Cons x xs)
  then obtain u where "f x s = Inr u" "foldM f xs u = Inr s'" by (auto simp: rbind_Inr_iff)
  then show ?case using Cons.IH[of u] assms(2)[of x s u] by simp
qed simp

text \<open>The methods and hooks of the tools leave the list of methods alone.\<close>

definition steady_env :: "'c tg_env \<Rightarrow> nat \<Rightarrow> bool" where
  "steady_env env g \<longleftrightarrow> (\<forall>x pst s s'. te_meth env x pst g s = Inr s' \<longrightarrow> view g s' = view g s) \<and>
     (\<forall>h a s s'. te_hook env h g a s = Inr s' \<longrightarrow> view g s' = view g s)"

lemma view_core_name: "steady_env env g \<Longrightarrow> core_name env g f s = Inr s' \<Longrightarrow> view g s' = view g s"
  by (auto simp: core_name_def steady_env_def rbind_Inr_iff view_upd_gen split: option.splits prod.splits)

lemma view_core_node: "steady_env env g \<Longrightarrow> core_node env g x s = Inr s' \<Longrightarrow> view g s' = view g s"
  by (auto simp: core_node_def steady_env_def split: option.splits)

lemma view_nodes_loop:
  assumes "steady_env env g" and "nodes_loop n env g i s = Inr s'"
  shows "view g s' = view g s"
  using assms(2)
proof (induction n arbitrary: i s)
  case 0
  then show ?case by (auto simp: nodes_loop.simps[of 0] split: if_splits)
next
  case (Suc n)
  then show ?case using view_core_node[OF assms(1)]
    by (auto simp: nodes_loop.simps[of "Suc n"] rbind_Inr_iff split: if_splits)
qed

lemma view_apply_core: "steady_env env g \<Longrightarrow> apply_core env g s = Inr s' \<Longrightarrow> view g s' = view g s"
proof -
  assume e: "steady_env env g" and "apply_core env g s = Inr s'"
  then obtain u where u: "foldM (core_name env g) (sval_list (tg_source (gen_at s g))) s = Inr u" "nodes_loop (te_bound env) env g 0 u = Inr s'"
    by (auto simp: apply_core_def rbind_Inr_iff)
  have "view g u = view g s" using u(1) by (rule view_foldM) (rule view_core_name[OF e])
  then show ?thesis using view_nodes_loop[OF e u(2)] by simp
qed

lemma view_create_task: "create_task name a b g s = Inr (x, s') \<Longrightarrow> view g s' = view g s"
  by (auto simp: create_task_def rmap_Inr_iff Let_def view_upd_gen split: if_splits)

lemma view_rule_nodes: "rule_nodes env g x name s = Inr s' \<Longrightarrow> view g s' = view g s"
proof -
  have d: "declare_output env g x n u = Inr u' \<Longrightarrow> view g u' = view g u" for n u u'
    by (auto simp: declare_output_def rbind_Inr_iff split: option.splits)
  have f: "find_input env g x n u = Inr u' \<Longrightarrow> view g u' = view g u" for n u u'
    by (auto simp: find_input_def rbind_Inr_iff split: option.splits)
  have df: "foldM (declare_output env g x) l u = Inr u' \<Longrightarrow> view g u' = view g u" for l u u' by (erule view_foldM) (rule d)
  have ff: "foldM (find_input env g x) l u = Inr u' \<Longrightarrow> view g u' = view g u" for l u u' by (erule view_foldM) (rule f)
  assume "rule_nodes env g x name s = Inr s'"
  then show ?thesis
    by (auto simp: rule_nodes_def rbind_Inr_iff rmap_Inr_iff Let_def dest!: df ff split: if_splits)
qed

definition has_rule :: "tgen \<Rightarrow> bool" where
  "has_rule x \<longleftrightarrow> tg_rule x \<notin> {None, Some (RText [])}"

lemma view_exec_rule:
  assumes "exec_rule env g s = Inr s'" and "g < length (gx_gens s)"
  shows "view g s' = view g (if has_rule (gen_at s g) then upd_gen g (\<lambda>y. y\<lparr>tg_meths := remove1 ''apply_core'' (tg_meths y)\<rparr>) s else s)"
proof (cases "has_rule (gen_at s g)")
  case True
  then obtain r where r: "tg_rule (gen_at s g) = Some r" "r \<noteq> RText []" unfolding has_rule_def by auto
  show ?thesis using assms(1) True r unfolding exec_rule_def Let_def
    by (auto simp: rbind_Inr_iff rmap_Inr_iff dest!: view_rule_nodes view_create_task split: gen_rule.splits list.splits)
next
  case False
  then show ?thesis using assms(1) unfolding exec_rule_def has_rule_def by (auto split: gen_rule.splits list.splits)
qed

text \<open>A part \<open>xs\<close> of the list of methods that leave the list alone is called in order.\<close>

lemma meths_loop_part:
  assumes "meths_loop n env pst g i st = Inr st'" and "drop i (tg_meths (gen_at st g)) = xs @ ys" and "g < length (gx_gens st)"
    and "\<And>x s s'. x \<in> set xs \<Longrightarrow> g < length (gx_gens s) \<Longrightarrow> tg_rule (gen_at s g) = tg_rule (gen_at st g) \<Longrightarrow>
      call_meth env pst x g s = Inr s' \<Longrightarrow> view g s' = view g s"
  shows "\<exists>m s. meths_loop m env pst g (i + length xs) s = Inr st' \<and> view g s = view g (st\<lparr>gx_log := gx_log st @ map (Pair g) xs\<rparr>)"
  using assms
proof (induction xs arbitrary: n i st)
  case Nil
  then show ?case by auto
next
  case (Cons x xs)
  define u where "u = st\<lparr>gx_log := gx_log st @ [(g, x)]\<rparr>"
  have u: "gen_at u g = gen_at st g" "gx_gens u = gx_gens st" by (simp_all add: u_def gen_at_def)
  have i: "i < length (tg_meths (gen_at st g))" "tg_meths (gen_at st g) ! i = x" "drop (Suc i) (tg_meths (gen_at st g)) = xs @ ys"
    using Cons.prems(2) by (metis drop_eq_Nil2 append_Cons list.distinct(1) not_le, metis append_Cons nth_via_drop, metis append_Cons drop_Suc list.sel(3) tl_drop)
  obtain m where n: "n = Suc m" using Cons.prems(1) i(1) by (cases n) (auto simp: meths_loop.simps[of 0])
  obtain s where s: "call_meth env pst x g u = Inr s" "meths_loop m env pst g (Suc i) s = Inr st'"
    using Cons.prems(1) i(1,2) unfolding n by (auto simp: meths_loop.simps[of "Suc m"] rbind_Inr_iff u_def Let_def split: if_splits)
  have v: "view g s = view g u" using Cons.prems(4)[OF _ _ _ s(1)] Cons.prems(3) u by simp
  have e: "gen_at s g = gen_at s g" "g < length (gx_gens s)" "tg_meths (gen_at s g) = tg_meths (gen_at st g)" "tg_rule (gen_at s g) = tg_rule (gen_at st g)"
    using view_eqD[OF v] u Cons.prems(3) by simp_all
  have "\<exists>m s'. meths_loop m env pst g (Suc i + length xs) s' = Inr st' \<and> view g s' = view g (s\<lparr>gx_log := gx_log s @ map (Pair g) xs\<rparr>)"
    using Cons.IH[OF s(2) _ e(2)] i(3) e(3,4) Cons.prems(4) by (metis list.set_intros(2))
  moreover have "view g (s\<lparr>gx_log := gx_log s @ map (Pair g) xs\<rparr>) = view g (st\<lparr>gx_log := gx_log st @ map (Pair g) (x # xs)\<rparr>)"
    using v by (simp add: view_def u_def gen_at_def)
  ultimately show ?case by simp
qed

lemma upd_gen_simps [simp]:
  "length (gx_gens (upd_gen g f s)) = length (gx_gens s)" "gx_log (upd_gen g f s) = gx_log s" "gx_class (upd_gen g f s) = gx_class s"
  by (simp_all add: upd_gen_def)

lemma view_call:
  assumes "steady_env env g" and "x \<noteq> ''sequence_order''" and "x = ''exec_rule'' \<longrightarrow> \<not> has_rule (gen_at s g)" and "g < length (gx_gens s)"
    and "call_meth env pst x g s = Inr s'"
  shows "view g s' = view g s"
proof (cases "x = ''apply_core'' \<or> x = ''exec_rule''")
  case True
  then show ?thesis using assms view_apply_core[OF assms(1)] view_exec_rule[of env g s s']
    by (elim disjE) (simp_all add: call_meth_def)
next
  case False
  then have "te_meth env x pst g s = Inr s'" using assms(2,5) by (simp add: call_meth_def)
  then show ?thesis using assms(1) unfolding steady_env_def by blast
qed

lemma meths_loop_done:
  assumes "meths_loop n env pst g i s = Inr st'" and "length (tg_meths (gen_at s g)) \<le> i"
  shows "st' = s"
  using assms by (subst (asm) meths_loop.simps) simp

lemma run_no_rule:
  assumes "steady_env env g" and "g < length (gx_gens st)" and "''sequence_order'' \<notin> set (tg_meths (gen_at st g))"
    and "\<not> has_rule (gen_at st g)" and "meths_loop n env pst g 0 st = Inr st'"
  shows "gx_log st' = gx_log st @ map (Pair g) (tg_meths (gen_at st g))"
proof -
  let ?m = "tg_meths (gen_at st g)"
  have "view g s' = view g s" if "x \<in> set ?m" "g < length (gx_gens s)" "tg_rule (gen_at s g) = tg_rule (gen_at st g)"
      "call_meth env pst x g s = Inr s'" for x s s'
    using view_call[OF assms(1) _ _ that(2,4)] assms(3,4) that(1,3) by (auto simp: has_rule_def)
  then obtain m s where s: "meths_loop m env pst g (0 + length ?m) s = Inr st'" "view g s = view g (st\<lparr>gx_log := gx_log st @ map (Pair g) ?m\<rparr>)"
    using meths_loop_part[OF assms(5), of ?m "[]"] assms(2) by force
  then show ?thesis using meths_loop_done[OF s(1)] by (simp add: view_def gen_at_def)
qed

lemma run_rule:
  assumes "steady_env env g" and "g < length (gx_gens st)" and m: "tg_meths (gen_at st g) = us @ ''exec_rule'' # vs @ ''apply_core'' # ws"
    and "distinct (tg_meths (gen_at st g))" and "''sequence_order'' \<notin> set (tg_meths (gen_at st g))"
    and "has_rule (gen_at st g)" and "meths_loop n env pst g 0 st = Inr st'"
  shows "gx_log st' = gx_log st @ map (Pair g) (remove1 ''apply_core'' (tg_meths (gen_at st g)))"
proof -
  have rem: "remove1 ''apply_core'' (tg_meths (gen_at st g)) = us @ ''exec_rule'' # vs @ ws" using assms(4) unfolding m by (simp add: remove1_append)
  have calls: "view g s' = view g s" if "x \<in> set us \<union> set vs \<union> set ws" "g < length (gx_gens s)" "call_meth env pst x g s = Inr s'" for x s s'
    using view_call[OF assms(1) _ _ that(2,3)] assms(4,5) that(1) unfolding m by auto
  have "\<exists>k s. meths_loop k env pst g (0 + length us) s = Inr st' \<and> view g s = view g (st\<lparr>gx_log := gx_log st @ map (Pair g) us\<rparr>)"
    by (rule meths_loop_part[OF assms(7) _ assms(2)]) (use m calls in auto)
  then obtain k s where s: "meths_loop k env pst g (length us) s = Inr st'" "view g s = view g (st\<lparr>gx_log := gx_log st @ map (Pair g) us\<rparr>)"
    by auto
  define u where "u = s\<lparr>gx_log := gx_log s @ [(g, ''exec_rule'')]\<rparr>"
  have s': "g < length (gx_gens s)" "tg_meths (gen_at s g) = us @ ''exec_rule'' # vs @ ''apply_core'' # ws"
      "tg_rule (gen_at s g) = tg_rule (gen_at st g)" "gx_log s = gx_log st @ map (Pair g) us"
    using view_eqD[OF s(2)] assms(2) m by (simp_all add: gen_at_def)
  have u: "gen_at u g = gen_at s g" "gx_gens u = gx_gens s" by (simp_all add: u_def gen_at_def)
  obtain j where k: "k = Suc j" using s(1) s'(2) by (cases k) (auto simp: meths_loop.simps[of 0])
  obtain v where v: "exec_rule env g u = Inr v" "meths_loop j env pst g (Suc (length us)) v = Inr st'"
    using s(1) s'(2) unfolding k by (auto simp: meths_loop.simps[of "Suc j"] rbind_Inr_iff u_def Let_def call_meth_def split: if_splits)
  have "has_rule (gen_at u g)" using assms(6) s'(3) u by (simp add: has_rule_def)
  then have vv: "view g v = view g (upd_gen g (\<lambda>y. y\<lparr>tg_meths := remove1 ''apply_core'' (tg_meths y)\<rparr>) u)"
    using view_exec_rule[OF v(1)] s'(1) u by simp
  have g: "g < length (gx_gens u)" using s'(1) u by simp
  have v': "g < length (gx_gens v)" "tg_meths (gen_at v g) = us @ ''exec_rule'' # vs @ ws" "gx_log v = gx_log s @ [(g, ''exec_rule'')]"
    using view_eqD[OF vv] s'(1,2) u rem m unfolding gen_at_upd_gen[OF g] by (simp_all add: upd_gen_simps, simp add: u_def)
  have "\<exists>i w. meths_loop i env pst g (Suc (length us) + length (vs @ ws)) w = Inr st' \<and>
      view g w = view g (v\<lparr>gx_log := gx_log v @ map (Pair g) (vs @ ws)\<rparr>)"
    by (rule meths_loop_part[OF v(2) _ v'(1)]) (use v'(2) calls in auto)
  then obtain i w where w: "meths_loop i env pst g (Suc (length us) + length (vs @ ws)) w = Inr st'"
      "view g w = view g (v\<lparr>gx_log := gx_log v @ map (Pair g) (vs @ ws)\<rparr>)"
    by blast
  have "st' = w" using meths_loop_done[OF w(1)] view_eqD[OF w(2)] v'(2) by (simp add: gen_at_def)
  then show ?thesis using view_eqD[OF w(2)] v'(3) s'(4) rem by simp
qed

lemma set_gen_name_simps [simp]:
  "tg_meths (set_gen_name x) = tg_meths x" "tg_features (set_gen_name x) = tg_features x" "tg_prec (set_gen_name x) = tg_prec x"
  "tg_posted (set_gen_name x) = tg_posted x" "tg_rule (set_gen_name x) = tg_rule x"
  by (simp_all add: set_gen_name_def)

lemma feature_keys_name [simp]: "feature_keys c (set_gen_name x) = feature_keys c x"
  by (simp add: feature_keys_def)

text \<open>
  C6. The methods of a generator are sorted topologically: the sort returns exactly when no method has to be
  called before itself, and then every method is in the result once, after all methods that the table
  of precedences wants before it. Otherwise it raises the error for a cycle. This holds in whatever order Python
  iterates over the set of the methods.
\<close>

theorem methods_sorted:
  assumes "distinct keys" and "wf_prec tbl"
  shows "case sort_methods keys tbl of
      Inr out \<Rightarrow> acyclic (prec_rel keys tbl) \<and> distinct out \<and> set out = set keys \<and>
        (\<forall>(f1, f2) \<in> prec_rel keys tbl. f1 \<in> set keys \<longrightarrow> stands_before f1 f2 out)
    | Inl e \<Rightarrow> \<not> acyclic (prec_rel keys tbl)"
  using sort_methods_correct[OF assms] .

theorem methods_sorted_witness:
  "\<exists>out. sort_methods [''apply_core'', ''exec_rule''] (c_prec class_init) = Inr out \<and> set out = {''apply_core'', ''exec_rule''} \<and>
    stands_before ''exec_rule'' ''apply_core'' out"
proof -
  let ?k = "[''apply_core'', ''exec_rule'']"
  have p: "c_prec class_init = [(''apply_core'', [''exec_rule''])]"
    by (simp add: class_init_def before_def feature_def bind_feature_def taskgen_def add_prec_def ddget_def)
  have w: "wf_prec (c_prec class_init)" by (simp add: p wf_prec_def)
  have s: "sort_methods ?k (c_prec class_init) = Inr [''exec_rule'', ''apply_core'']"
    by (simp add: p sort_methods_def free_of_def dict_del_def Let_def)
  have r: "(''exec_rule'', ''apply_core'') \<in> prec_rel ?k (c_prec class_init)" by (simp add: prec_rel_def p)
  show ?thesis using methods_sorted[of ?k, OF _ w] r unfolding s by auto
qed

lemma post_unfold:
  assumes "post (Suc n) env g st = Inr st'" and "\<not> tg_posted (gen_at st g)" and "tg_prec (gen_at st g) = []" and g: "g < length (gx_gens st)"
    and keys: "keys = te_order env (feature_keys (gx_class st) (gen_at st g))"
  obtains out s s' where "sort_methods keys (c_prec (gx_class st)) = Inr out" and "view g s = view g (upd_gen g (\<lambda>y. y\<lparr>tg_meths := out\<rparr>) st)"
    and "meths_loop (te_bound env) env (post n env) g 0 s = Inr s'" and "gx_log st' = gx_log s'"
proof -
  let ?st = "upd_gen g set_gen_name st"
  define s0 where "s0 = upd_gen g (\<lambda>y. y\<lparr>tg_features := SList (sval_list (tg_features (gen_at st g)))\<rparr>)
      (?st\<lparr>gx_class := read_features (sval_list (tg_features (gen_at st g)) @ [''*'']) (gx_class st)\<rparr>)"
  have a: "c_attrs (read_features fs c) = c_attrs c" for fs c
    unfolding read_features_def by (induction fs arbitrary: c) simp_all
  have n: "gen_at ?st g = set_gen_name (gen_at st g)" by (rule gen_at_upd_gen[OF g])
  obtain s' where s': "tgen_apply env (post n env) g ?st = Inr s'" "gx_log st' = gx_log s'"
    using assms(1,2) n by (auto simp: Let_def rmap_Inr_iff)
  obtain out where out: "sort_methods keys (c_prec (gx_class st)) = Inr out"
      "meths_loop (te_bound env) env (post n env) g 0 (upd_gen g (\<lambda>y. y\<lparr>tg_meths := out\<rparr>) s0) = Inr s'"
    using s'(1) n assms(3) unfolding tgen_apply_def Let_def by (auto simp: rbind_Inr_iff keys s0_def)
  have "view g (upd_gen g (\<lambda>y. y\<lparr>tg_meths := out\<rparr>) s0) = view g (upd_gen g (\<lambda>y. y\<lparr>tg_meths := out\<rparr>) st)"
    using g by (simp add: view_def s0_def gen_at_def upd_gen_def a)
  then show ?thesis using that[OF out(1) _ out(2) s'(2)] by blast
qed


text \<open>A generator with a rule, in a context with the class of the module.\<close>

definition ex_gen :: tgen where
  "ex_gen = \<lparr>tg_meths = [], tg_features = SList [], tg_prec = [], tg_source = SText [], tg_target = SText [],
     tg_name = [], tg_posted = False, tg_allnodes = [], tg_tasks = [], tg_mappings = [], tg_path = 1,
     tg_idx = 1, tg_variant = ''default'', tg_rule = Some (RText ''make''), tg_dep_vars = None, tg_vars = None, tg_seq_start = False,
     tg_order = (\<lambda>_. []), tg_flags = [], tg_install = None, tg_chmod = None, tg_cwd = None\<rparr>"

definition ex_ctx :: "unit gctx" where
  "ex_ctx = \<lparr>gx_class = class_init, gx_gens = [ex_gen], gx_tasks = [], gx_kinds = Map.empty, gx_man = TaskManager,
     gx_tree = small_tree, gx_path = 1, gx_idx = (\<lambda>_. 1), gx_prev = None, gx_names = [], gx_is_install = 0, gx_srcnode = 1,
     gx_bldnode = 2, gx_log = [], gx_tools = ()\<rparr>"

definition ex_env :: "unit tg_env" where
  "ex_env = \<lparr>te_bound = 5, te_order = (\<lambda>K. [''apply_core'', ''exec_rule'']), te_fs = small_fs, te_meth = (\<lambda>x pst g s. Inr s),
     te_hook = (\<lambda>h g a s. Inr s), te_rule_vars = (\<lambda>r. []), te_h_fun = (\<lambda>f. f)\<rparr>"

lemma ex_class:
  "c_prec class_init = [(''apply_core'', [''exec_rule''])]"
  "c_traits class_init = [(''*'', [''exec_rule'', ''apply_core'']), (''seq'', [''sequence_order''])]"
  by (simp_all add: class_init_def before_def feature_def bind_feature_def taskgen_def add_prec_def ddget_def List.insert_def)

lemma ex_post: "case post 1 ex_env 0 ex_ctx of Inr s \<Rightarrow> True | Inl e \<Rightarrow> False"
  by code_simp


section \<open>The tables of the class\<close>

text \<open>Dictionaries have distinct keys, the lists of methods have no method twice, and what is bound to a feature is a method.\<close>

definition wf_class :: "tg_class \<Rightarrow> bool" where
  "wf_class c \<longleftrightarrow> wf_prec (c_prec c) \<and> wf_prec (c_traits c) \<and> distinct (map fst (c_mappings c)) \<and> distinct (c_attrs c) \<and>
     distinct (c_mapped c) \<and> snd ` set (c_mappings c) \<subseteq> set (c_mapped c)"

lemma set_dict_set_sub: "set (dict_set k v d) \<subseteq> insert (k, v) (set d)"
  by (induction k v d rule: dict_set.induct) auto

lemma wf_prec_dict_set: "wf_prec d \<Longrightarrow> distinct l \<Longrightarrow> wf_prec (dict_set k l d)"
  using set_dict_set_sub[of k l d] unfolding wf_prec_def by (auto intro: distinct_dict_set)

lemma distinct_ddget: "wf_prec d \<Longrightarrow> distinct (ddget d k)"
  by (auto simp: ddget_def wf_prec_def split: option.splits dest: map_of_SomeD)

lemma distinct_insert_fold: "distinct l \<Longrightarrow> distinct (fold List.insert xs l)"
  by (induction xs arbitrary: l) auto

lemma wf_taskgen: "wf_class c \<Longrightarrow> wf_class (taskgen f c)"
  by (simp add: wf_class_def taskgen_def)

lemma wf_add_prec: "wf_class c \<Longrightarrow> wf_class (add_prec f1 f2 c)"
  by (auto simp: wf_class_def add_prec_def Let_def intro!: wf_prec_dict_set distinct_ddget)

lemma wf_bind_feature: "wf_class c \<Longrightarrow> wf_class (bind_feature name ms c)"
  by (auto simp: wf_class_def bind_feature_def intro!: wf_prec_dict_set distinct_insert_fold distinct_ddget)

lemma wf_fold: "wf_class c \<Longrightarrow> (\<And>x c. wf_class c \<Longrightarrow> wf_class (f x c)) \<Longrightarrow> wf_class (fold f xs c)"
  by (induction xs arbitrary: c) auto

lemma wf_declare_extension: "wf_class c \<Longrightarrow> wf_class (declare_extension var f c)"
proof -
  have "distinct (map fst (fold (\<lambda>x. dict_set x f) xs d)) \<and> snd ` set (fold (\<lambda>x. dict_set x f) xs d) \<subseteq> insert f (snd ` set d)"
    if "distinct (map fst d)" for xs d
    using that
  proof (induction xs arbitrary: d)
    case (Cons x xs)
    have "snd ` set (dict_set x f d) \<subseteq> insert f (snd ` set d)" using image_mono[OF set_dict_set_sub[of x f d], of snd] by simp
    then show ?case using Cons.IH[OF distinct_dict_set[OF Cons.prems, of x f]] by (simp only: fold_Cons comp_apply) blast
  qed auto
  note ext = this[of "c_mappings c" "sval_list var"]
  assume w: "wf_class c"
  then have "snd ` set (fold (\<lambda>x. dict_set x f) (sval_list var) (c_mappings c)) \<subseteq> set (List.insert f (c_mapped c))"
    using ext by (simp add: wf_class_def) blast
  then show ?thesis using w ext by (simp add: wf_class_def declare_extension_def)
qed

text \<open>
  C31. The decorators keep the tables of the class well formed: whatever calls of \<open>taskgen\<close>, \<open>feature\<close>, \<open>before\<close>,
  \<open>after\<close>, \<open>extension\<close>, \<open>bind_feature\<close>, \<open>declare_extension\<close> and \<open>declare_order\<close> a tool makes, the table of precedences has one entry per
  method and no method twice in an entry, and the same holds for the features; so it is for the
  class as the module leaves it.
\<close>

theorem class_tables_well_formed:
  assumes "wf_class c"
  shows "wf_class class_init \<and> wf_class (taskgen f c) \<and> wf_class (feature ks f c) \<and> wf_class (before ks f c) \<and> wf_class (after_deco ks f c) \<and>
    wf_class (extension v f c) \<and> wf_class (bind_feature n v c) \<and> wf_class (declare_extension v f c) \<and>
    (case declare_order ks c of Inr c' \<Rightarrow> wf_class c' | Inl e \<Rightarrow> length ks \<le> 1)"
proof -
  have feat: "wf_class (feature ks f c)" if "wf_class c" for ks f c
    unfolding feature_def by (rule wf_fold[OF wf_taskgen[OF that]]) (rule wf_bind_feature)
  have bef: "wf_class (before ks f c)" if "wf_class c" for ks f c
    unfolding before_def by (rule wf_fold[OF wf_taskgen[OF that]]) (rule wf_add_prec)
  have aft: "wf_class (after_deco ks f c)"
    unfolding after_deco_def by (rule wf_fold[OF wf_taskgen[OF assms]]) (rule wf_add_prec)
  have ord: "wf_class (fold (\<lambda>(f1, f2). add_prec f1 f2) (zip ks (tl ks)) c)"
    by (rule wf_fold[OF assms]) (auto intro: wf_add_prec)
  have "wf_class \<lparr>c_attrs = [], c_traits = [], c_prec = [], c_mappings = [], c_mapped = []\<rparr>" by (simp add: wf_class_def wf_prec_def)
  then have "wf_class class_init" unfolding class_init_def by (intro feat bef)
  then show ?thesis using feat[OF assms] bef[OF assms] aft ord assms wf_taskgen wf_bind_feature wf_declare_extension
    by (simp add: extension_def declare_order_def)
qed

theorem class_tables_well_formed_witness:
  "wf_class class_init \<and> wf_class (after_deco [''apply_core''] ''apply_link'' class_init)"
proof -
  have w: "wf_class class_init" by (simp add: wf_class_def wf_prec_def ex_class class_init_def before_def feature_def bind_feature_def taskgen_def add_prec_def ddget_def List.insert_def)
  then show ?thesis using class_tables_well_formed[OF w, of _ "[''apply_core'']" ] by blast
qed

section \<open>The loops over nodes, methods and generators\<close>

text \<open>The bodies of the loops over the methods and over the generators of a group.\<close>

definition meth_step :: "'c tg_env \<Rightarrow> (nat \<Rightarrow> 'c gctx \<Rightarrow> 'c gctx result) \<Rightarrow> nat \<Rightarrow> string \<Rightarrow> 'c gctx \<Rightarrow> 'c gctx result" where
  "meth_step env pst g x st =
     (if x \<notin> set (c_attrs (gx_class st)) then Inl (WafError ''tried to retrieve an invalid method'')
      else call_meth env pst x g (st\<lparr>gx_log := gx_log st @ [(g, x)]\<rparr>))"

definition post_step :: "'c tg_env \<Rightarrow> (nat \<Rightarrow> 'c gctx \<Rightarrow> bool result) \<Rightarrow> nat \<Rightarrow> 'c gctx \<Rightarrow> 'c gctx result" where
  "post_step env sel g st = rbind (sel g st) (\<lambda>b. if b then post (te_bound env) env g st else Inr st)"

interpretation nl: growing_loop "\<lambda>s. tg_allnodes (gen_at s g)" "core_node env g" "\<lambda>n. nodes_loop n env g" for env g
  by unfold_locales (simp_all add: nodes_loop.simps)

interpretation ml: growing_loop "\<lambda>s. tg_meths (gen_at s g)" "meth_step env pst g" "\<lambda>n. meths_loop n env pst g" for env pst g
  by unfold_locales (simp_all add: meths_loop.simps meth_step_def Let_def)

interpretation pg: growing_loop "\<lambda>s. tasks_gen (groups (gx_man s) ! i)" "post_step env sel" "\<lambda>n. post_group n env sel i" for env sel i
  by unfold_locales (simp_all add: post_group.simps post_step_def Let_def rbind_assoc)

text \<open>Hooks only add nodes.\<close>

definition growing_env :: "'c tg_env \<Rightarrow> nat \<Rightarrow> bool" where
  "growing_env env g \<longleftrightarrow> (\<forall>h a s s'. te_hook env h g a s = Inr s' \<longrightarrow> prefix (tg_allnodes (gen_at s g)) (tg_allnodes (gen_at s' g)))"

lemma core_node_grows: "growing_env env g \<Longrightarrow> core_node env g x s = Inr s' \<Longrightarrow> prefix (tg_allnodes (gen_at s g)) (tg_allnodes (gen_at s' g))"
  unfolding core_node_def growing_env_def by (cases "get_hook s g (suffix (gx_tree s) x)") auto

text \<open>
  When posting only adds generators, each generator of a group is posted or passed once and in order, also those that are added
  while the group is posted; and a larger bound on the rounds makes no difference.
\<close>

lemma every_generator_posted:
  assumes "\<And>g s s'. post (te_bound env) env g s = Inr s' \<Longrightarrow> prefix (tasks_gen (groups (gx_man s) ! i)) (tasks_gen (groups (gx_man s') ! i))"
    and "post_group n env sel i 0 st = Inr st'" and "n \<le> m"
  shows "foldM (post_step env sel) (tasks_gen (groups (gx_man st') ! i)) st = Inr st' \<and> post_group m env sel i 0 st = Inr st'"
proof -
  have "prefix (tasks_gen (groups (gx_man s) ! i)) (tasks_gen (groups (gx_man s') ! i))" if "post_step env sel x s = Inr s'" for x s s'
    using that assms(1) by (auto simp: post_step_def rbind_Inr_iff split: if_splits)
  from pg.loop_fold[OF this assms(2)] pg.loop_more[OF assms(2,3)] show ?thesis by simp
qed

text \<open>The calls of methods that leave the list of methods alone are the calls of the methods in the list, and the loop over them ends.\<close>

lemma fixed_methods_called:
  assumes "\<And>x s s'. meth_step env pst g x s = Inr s' \<Longrightarrow> tg_meths (gen_at s' g) = tg_meths (gen_at s g)" and "length (tg_meths (gen_at st g)) \<le> n"
  shows "meths_loop n env pst g 0 st = foldM (meth_step env pst g) (tg_meths (gen_at st g)) st"
  using ml.loop_fixed[where env = env and pst = pst and g = g and s = st and i = 0 and n = n, OF assms(1)] assms(2) by simp

text \<open>
  C22. The loop of \<open>apply_core\<close> runs over a list to which the hooks append, and no node is missed: when it ends, it has done exactly
  what calling the hook of each node that is in the list at the end, once and in order, does.
\<close>

theorem every_node_processed:
  assumes "growing_env env g" and "apply_core env g st = Inr st'"
  shows "\<exists>s. foldM (core_name env g) (sval_list (tg_source (gen_at st g))) st = Inr s \<and>
    foldM (core_node env g) (tg_allnodes (gen_at st' g)) s = Inr st'"
proof -
  obtain s where s: "foldM (core_name env g) (sval_list (tg_source (gen_at st g))) st = Inr s" "nodes_loop (te_bound env) env g 0 s = Inr st'"
    using assms(2) by (auto simp: apply_core_def rbind_Inr_iff)
  then show ?thesis using nl.loop_fold[OF core_node_grows[OF assms(1)] s(2)] by auto
qed

definition ex_ctx_c :: "unit gctx" where
  "ex_ctx_c = ex_ctx\<lparr>gx_class := extension (SText ''.c'') ''c_hook'' class_init, gx_gens := [ex_gen\<lparr>tg_rule := None, tg_source := SText ''a.c''\<rparr>]\<rparr>"

theorem every_node_processed_witness:
  "\<exists>st' s. apply_core ex_env 0 ex_ctx_c = Inr st' \<and> foldM (core_node ex_env 0) (tg_allnodes (gen_at st' 0)) s = Inr st'"
proof -
  have g: "growing_env ex_env 0" by (simp add: growing_env_def ex_env_def)
  have "case apply_core ex_env 0 ex_ctx_c of Inr s \<Rightarrow> True | Inl e \<Rightarrow> False" by code_simp
  then obtain st' where st': "apply_core ex_env 0 ex_ctx_c = Inr st'" by (auto split: sum.splits)
  show ?thesis using every_node_processed[OF g st'] st' by blast
qed

text \<open>
  \<open>seq_start\<close> is meant to start a new sequence, but the generator that has it does not become the previous one: the next
  generator of the new sequence waits for the last one of the old sequence instead.
\<close>

lemma seq_start_not_previous:
  assumes "tg_seq_start (gen_at st g)" and "last (tg_meths (gen_at st g)) = ''sequence_order''"
  shows "sequence_order pst g st = Inr st"
  using assms by (simp add: sequence_order_def Let_def)

end
