(* ===== verification/Waf_Install.thy ===== *)
theory Waf_Install
  imports Waf_Taskgen Waf_Environment
begin

text \<open>
  Installing and removing files, the second half of \<^verbatim>\<open>src/tools/wafadmin/Build.py\<close> (\<open>do_install\<close>,
  \<open>get_install_path\<close>, \<open>install_dir\<close>, \<open>install_files\<close>, \<open>install_as\<close>, \<open>symlink_as\<close>, and the removal of empty directories
  in \<open>install\<close>, and the calls that wait for the end of a group), with \<open>subst_vars\<close> and \<open>check_dir\<close> of \<^verbatim>\<open>src/tools/wafadmin/Utils.py\<close>.

  After the definitions: what \<open>do_install\<close> does to the disk, in every branch; that uninstalling what was installed
  leaves none of the installed files and changes no other file; that directories are removed after the
  directories in them; and that escaped text is not changed by \<open>subst_vars\<close>.

  The disk is a dictionary from paths to entries; a link is followed in the last component of a path, at most 40
  times, as on Linux. A parameter says which paths the user may write to.
\<close>

section \<open>Definitions\<close>

subsection \<open>Paths and the disk\<close>

definition path_split :: "string \<Rightarrow> string \<times> string" where
  "path_split p = (dirname p, basename p)"

definition isabs :: "string \<Rightarrow> bool" where "isabs p \<longleftrightarrow> py_startswith p ''/''"

text \<open>A file has its text, its time and its mode.\<close>

datatype entry = File string int nat | Dir | Link string

type_synonym disk = "(string \<times> entry) list"

fun follow_links :: "nat \<Rightarrow> disk \<Rightarrow> string \<Rightarrow> entry option" where
  "follow_links n d p =
     (case map_of d p of
        Some (Link t) \<Rightarrow> (case n of 0 \<Rightarrow> None | Suc m \<Rightarrow> follow_links m d (path_join (dirname p) t))
      | e \<Rightarrow> e)"

declare follow_links.simps [simp del]

definition os_entry :: "disk \<Rightarrow> string \<Rightarrow> entry option" where "os_entry d p = follow_links 40 d p"

datatype os_err = ENOENT | EOTHER

record inst_env =
  ie_is_install :: int
  ie_force :: bool
  ie_destdir :: string
  ie_win32 :: bool
  ie_env :: nat
  ie_variant :: string
  ie_path :: nat
  ie_fs :: fsys
  ie_writable :: "string \<Rightarrow> bool"
  ie_dirstat :: "string \<Rightarrow> int \<times> nat"
  ie_glob :: "disk \<Rightarrow> string \<Rightarrow> string list"

definition os_stat :: "inst_env \<Rightarrow> disk \<Rightarrow> string \<Rightarrow> (int \<times> nat) option" where
  "os_stat e d p =
     (case os_entry d p of
        Some (File c m mode) \<Rightarrow> Some (m, length c)
      | Some Dir \<Rightarrow> Some (ie_dirstat e p)
      | _ \<Rightarrow> None)"

definition os_remove :: "inst_env \<Rightarrow> string \<Rightarrow> disk \<Rightarrow> os_err + disk" where
  "os_remove e p d =
     (case map_of d p of
        None \<Rightarrow> (case os_entry d (dirname p) of Some (File c m mode) \<Rightarrow> Inl EOTHER | _ \<Rightarrow> Inl ENOENT)
      | Some Dir \<Rightarrow> Inl EOTHER
      | Some x \<Rightarrow> if ie_writable e p then Inr (dict_del p d) else Inl EOTHER)"

definition mkdir_one :: "inst_env \<Rightarrow> string \<Rightarrow> disk \<Rightarrow> disk option" where
  "mkdir_one e p d =
     (if map_of d p = None \<and> ie_writable e p \<and> os_entry d (dirname p) = Some Dir then Some (dict_set p Dir d) else None)"

text \<open>\<open>os.makedirs\<close>; a call for the directory above that fails because it exists by then is ignored.\<close>

fun makedirs :: "nat \<Rightarrow> inst_env \<Rightarrow> string \<Rightarrow> disk \<Rightarrow> disk option" where
  "makedirs 0 e p d = None"
| "makedirs (Suc n) e p d =
     (let (h0, t0) = path_split p;
          (h, t) = (if t0 = [] then path_split h0 else (h0, t0));
          d1 = (if h \<noteq> [] \<and> t \<noteq> [] \<and> os_entry d h = None then makedirs n e h d else Some d)
      in case d1 of
           None \<Rightarrow> None
         | Some d2 \<Rightarrow> if t = ''.'' then Some d2 else mkdir_one e p d2)"

definition os_rmdir :: "inst_env \<Rightarrow> string \<Rightarrow> disk \<Rightarrow> disk" where
  "os_rmdir e p d =
     (if map_of d p = Some Dir \<and> ie_writable e p \<and> \<not> list_ex (\<lambda>(q, x). q \<noteq> p \<and> dirname q = p) d then dict_del p d else d)"

text \<open>
  \<open>shutil.copy2\<close>: into a directory the file is copied under its name. A copy of a file to itself raises
  \<open>shutil.Error\<close>, which is not an \<open>IOError\<close>; it is \<open>OSError\<close> here.
\<close>

definition copy2 :: "inst_env \<Rightarrow> string \<Rightarrow> string \<Rightarrow> disk \<Rightarrow> disk result" where
  "copy2 e src tgt d =
     (let dst = (if os_entry d tgt = Some Dir then path_join tgt (basename src) else tgt) in
      if src = dst \<and> os_entry d src \<noteq> None then Inl OSError
      else case os_entry d src of
        Some (File c m mode) \<Rightarrow>
          if ie_writable e dst \<and> os_entry d (dirname dst) = Some Dir \<and> map_of d dst \<noteq> Some Dir
          then Inr (dict_set dst (File c m mode) d) else Inl IOError
      | _ \<Rightarrow> Inl IOError)"

definition os_chmod :: "string \<Rightarrow> nat \<Rightarrow> disk \<Rightarrow> disk" where
  "os_chmod p mode d = (case map_of d p of Some (File c m mode0) \<Rightarrow> dict_set p (File c m mode) d | _ \<Rightarrow> d)"

subsection \<open>One file\<close>

record inst =
  in_disk :: disk
  in_uninstall :: "string list"
  in_error :: bool
  in_tree :: ntree
  in_heap :: heap

definition up_to_date :: "inst_env \<Rightarrow> string \<Rightarrow> string \<Rightarrow> disk \<Rightarrow> bool" where
  "up_to_date e src tgt d \<longleftrightarrow>
     (case (os_stat e d tgt, os_stat e d src) of
        (Some (m1, s1), Some (m2, s2)) \<Rightarrow> m1 \<ge> m2 \<and> s1 = s2
      | _ \<Rightarrow> False)"

definition do_install :: "inst_env \<Rightarrow> string \<Rightarrow> string \<Rightarrow> nat \<Rightarrow> inst \<Rightarrow> (bool \<times> inst) result" where
  "do_install e src tgt chmod st =
     (if ie_is_install e > 0
      then if \<not> ie_force e \<and> up_to_date e src tgt (in_disk st) then Inr (False, st)
        else let d1 = (case os_remove e tgt (in_disk st) of Inr d \<Rightarrow> d | Inl err \<Rightarrow> in_disk st) in
          (case copy2 e src tgt d1 of
             Inr d2 \<Rightarrow> Inr (True, st\<lparr>in_disk := os_chmod tgt chmod d2\<rparr>)
           | Inl err \<Rightarrow> Inl (if err = IOError then WafError ''Could not install the file'' else err))
      else if ie_is_install e < 0
      then Inr (True, case os_remove e tgt (in_disk st) of
          Inr d \<Rightarrow> st\<lparr>in_uninstall := in_uninstall st @ [tgt], in_disk := d\<rparr>
        | Inl err \<Rightarrow> st\<lparr>in_uninstall := in_uninstall st @ [tgt], in_error := (in_error st \<or> err \<noteq> ENOENT)\<rparr>)
      else Inr (False, st))"

subsection \<open>The paths to install to\<close>

text \<open>\<open>subst_vars\<close>: \<open>get\<close> is \<open>get_flat\<close> of the environment.\<close>

function subst_vars :: "(string \<Rightarrow> 's \<Rightarrow> (string \<times> 's) result) \<Rightarrow> string \<Rightarrow> 's \<Rightarrow> (string \<times> 's) result" where
  "subst_vars get [] h = Inr ([], h)"
| "subst_vars get (c # s) h =
     (let name = takeWhile (\<lambda>x. x \<noteq> CHR 0x7D) (tl s);
          after = dropWhile (\<lambda>x. x \<noteq> CHR 0x7D) (tl s)
      in if s \<noteq> [] \<and> hd s = c \<and> (c = CHR 0x5C \<or> c = CHR ''$'')
         then rmap (\<lambda>(r, h'). (c # r, h')) (subst_vars get (tl s) h)
         else if c = CHR ''$'' \<and> s \<noteq> [] \<and> hd s = CHR 0x7B \<and> name \<noteq> [] \<and> after \<noteq> []
         then rbind (get name h) (\<lambda>(v, h1). rmap (\<lambda>(r, h2). (v @ r, h2)) (subst_vars get (tl after) h1))
         else rmap (\<lambda>(r, h'). (c # r, h')) (subst_vars get s h))"
  by pat_completeness auto
termination
proof (relation "measure (\<lambda>(get, s, h). length s)", goal_cases)
  case (3 get c s h name after v h1)
  have "length after \<le> length (tl s)" unfolding 3(2) by (rule length_dropWhile_le)
  then show ?case by (cases s) auto
qed auto

declare subst_vars.simps(2) [simp del]

text \<open>The expression \<open>red\<close> takes a drive and the leading slashes and backslashes away.\<close>

definition red_sub :: "string \<Rightarrow> string" where
  "red_sub s =
     dropWhile (\<lambda>c. c = CHR ''/'' \<or> c = CHR 0x5C)
       (if length s \<ge> 2 \<and> chr_isalpha (s ! 0) \<and> s ! 1 = CHR '':'' then drop 2 s else s)"

definition get_install_path :: "inst_env \<Rightarrow> string \<Rightarrow> inst \<Rightarrow> (string \<times> inst) result" where
  "get_install_path e path st =
     rbind (get_destdir (in_heap st) (ie_env e) (ie_destdir e)) (\<lambda>(destdir, h1).
       rmap (\<lambda>(destpath, h2). (if destdir \<noteq> [] then path_join destdir (red_sub destpath) else destpath, st\<lparr>in_heap := h2\<rparr>))
         (subst_vars (\<lambda>v h. get_flat h (ie_env e) v) path h1))"

definition check_dir :: "inst_env \<Rightarrow> string \<Rightarrow> inst \<Rightarrow> inst result" where
  "check_dir e dir st =
     (if os_entry (in_disk st) dir \<noteq> None then Inr st
      else case makedirs (Suc (length dir)) e dir (in_disk st) of
        None \<Rightarrow> Inl (WafError ''Cannot create folder'')
      | Some d \<Rightarrow> Inr (st\<lparr>in_disk := d\<rparr>))"

definition install_dir :: "inst_env \<Rightarrow> string \<Rightarrow> inst \<Rightarrow> inst result" where
  "install_dir e path st0 =
     (if path = [] then Inr st0
      else rbind (get_install_path e path st0) (\<lambda>(destpath, st).
        if ie_is_install e > 0 then check_dir e destpath st
        else if ie_is_install e < 0 then Inr (st\<lparr>in_uninstall := in_uninstall st @ [destpath @ ''/xxx'']\<rparr>)
        else Inr st))"

subsection \<open>Lists of files\<close>

datatype inst_file = FText string | FNode nat

text \<open>The source and the target for one entry of the list; \<open>trick\<close> is \<open>relative_trick\<close>.\<close>

definition file_paths :: "inst_env \<Rightarrow> bool \<Rightarrow> nat \<Rightarrow> string \<Rightarrow> inst_file \<Rightarrow> inst \<Rightarrow> ((string \<times> string) \<times> inst) result" where
  "file_paths e trick cwd destpath f st0 =
     (case f of
        FText name \<Rightarrow>
          if isabs name then Inr ((name, path_join destpath (last (split_path name))), st0)
          else rbind (find_resource (ie_fs e) cwd (split_path name) (in_tree st0)) (\<lambda>(n, t).
            case n of
              None \<Rightarrow> Inl (not_found name)
            | Some nd \<Rightarrow>
                let destfile = path_join destpath (if trick then name else n_name (node_at t nd)) in
                rbind (if trick then check_dir e (dirname destfile) (st0\<lparr>in_tree := t\<rparr>) else Inr (st0\<lparr>in_tree := t\<rparr>)) (\<lambda>st.
                  rmap (\<lambda>(p, t2). ((p, destfile), st\<lparr>in_tree := t2\<rparr>)) (abspath (in_tree st) nd (Some (ie_variant e)))))
      | FNode nd \<Rightarrow>
          if trick then Inl AttributeError
          else rmap (\<lambda>(p, t2). ((p, path_join destpath (n_name (node_at (in_tree st0) nd))), st0\<lparr>in_tree := t2\<rparr>))
            (abspath (in_tree st0) nd (Some (ie_variant e))))"

fun install_list :: "inst_env \<Rightarrow> bool \<Rightarrow> nat \<Rightarrow> string \<Rightarrow> nat \<Rightarrow> inst_file list \<Rightarrow> inst \<Rightarrow> (string list \<times> inst) result" where
  "install_list e trick cwd destpath chmod [] st = Inr ([], st)"
| "install_list e trick cwd destpath chmod (f # fs) st =
     rbind (file_paths e trick cwd destpath f st) (\<lambda>((src, tgt), st1).
       rbind (do_install e src tgt chmod st1) (\<lambda>(b, st2).
         rmap (\<lambda>(l, st3). (if b then tgt # l else l, st3)) (install_list e trick cwd destpath chmod fs st2)))"

text \<open>The argument \<open>files\<close>: a text, with or without a star, or a list.\<close>

datatype inst_arg = AText string | AList "inst_file list"

definition install_files :: "inst_env \<Rightarrow> string \<Rightarrow> inst_arg \<Rightarrow> nat \<Rightarrow> bool \<Rightarrow> nat option \<Rightarrow> inst \<Rightarrow> (string list \<times> inst) result" where
  "install_files e path files chmod trick cwd0 st0 =
     (if path = [] then Inr ([], st0)
      else let cwd = (case cwd0 of None \<Rightarrow> ie_path e | Some n \<Rightarrow> n) in
        rbind (case files of
            AList l \<Rightarrow> Inr (l, st0)
          | AText s \<Rightarrow>
              if CHR ''*'' \<in> set s
              then rmap (\<lambda>(p, t). (map FText (ie_glob e (in_disk st0) (p @ ''/'' @ s)), st0\<lparr>in_tree := t\<rparr>)) (abspath (in_tree st0) cwd None)
              else Inr (map FText (py_split_ws s), st0)) (\<lambda>(lst, st1).
          rbind (get_install_path e path st1) (\<lambda>(destpath, st2).
            rbind (check_dir e destpath st2) (install_list e trick cwd destpath chmod lst))))"

definition install_as :: "inst_env \<Rightarrow> string \<Rightarrow> inst_file \<Rightarrow> nat \<Rightarrow> nat option \<Rightarrow> inst \<Rightarrow> (bool \<times> inst) result" where
  "install_as e path srcfile chmod cwd0 st0 =
     (if path = [] then Inl (WafError ''where do you want to install the file?'')
      else let cwd = (case cwd0 of None \<Rightarrow> ie_path e | Some n \<Rightarrow> n) in
        rbind (get_install_path e path st0) (\<lambda>(destpath, st1).
          rbind (check_dir e (dirname destpath) st1) (\<lambda>st2.
            rbind (case srcfile of
                FNode nd \<Rightarrow> rmap (\<lambda>(p, t). (p, st2\<lparr>in_tree := t\<rparr>)) (abspath (in_tree st2) nd (Some (ie_variant e)))
              | FText s \<Rightarrow>
                  if isabs s then Inr (s, st2)
                  else rbind (find_resource (ie_fs e) cwd (split_path s) (in_tree st2)) (\<lambda>(n, t).
                    case n of
                      None \<Rightarrow> Inl (not_found s)
                    | Some nd \<Rightarrow> rmap (\<lambda>(p, t2). (p, st2\<lparr>in_tree := t2\<rparr>)) (abspath t nd (Some (ie_variant e))))) (\<lambda>(src, st3).
              do_install e src destpath chmod st3))))"

text \<open>\<open>symlink_as\<close>, with the number it returns; a link that cannot be made raises \<open>OSError\<close>.\<close>

definition symlink_as :: "inst_env \<Rightarrow> string \<Rightarrow> string \<Rightarrow> inst \<Rightarrow> (nat option \<times> inst) result" where
  "symlink_as e path src st0 =
     (if ie_win32 e then Inr (None, st0)
      else if path = [] then Inl (WafError ''where do you want to install the link?'')
      else rbind (get_install_path e path st0) (\<lambda>(tgt, st1).
        rbind (check_dir e (dirname tgt) st1) (\<lambda>st.
          let d = in_disk st in
          if ie_is_install e > 0
          then if map_of d tgt = Some (Link src) then Inr (Some 0, st)
            else let d1 = (case os_remove e tgt d of Inr d' \<Rightarrow> d' | Inl err \<Rightarrow> d) in
              if map_of d1 tgt = None \<and> ie_writable e tgt \<and> os_entry d1 (dirname tgt) = Some Dir
              then Inr (Some 0, st\<lparr>in_disk := dict_set tgt (Link src) d1\<rparr>) else Inl OSError
          else case os_remove e tgt d of
            Inr d' \<Rightarrow> Inr (Some 0, st\<lparr>in_disk := d'\<rparr>)
          | Inl err \<Rightarrow> Inr (Some 1, st))))"

subsection \<open>Calls that wait for the end of a group\<close>

text \<open>
  A call of one of the three methods, with its arguments: an environment is given with its variant, and left out
  for the one of the build; a path may be any value of a variable.
\<close>

type_synonym env_arg = "(nat \<times> string) option"

datatype post_call =
    CallFiles val inst_arg env_arg nat bool "nat option"
  | CallAs val inst_file env_arg nat "nat option"
  | CallLink val string env_arg "nat option"

definition call_env :: "env_arg \<Rightarrow> inst_env \<Rightarrow> inst_env" where
  "call_env a e = (case a of None \<Rightarrow> e | Some (n, v) \<Rightarrow> e\<lparr>ie_env := n, ie_variant := v\<rparr>)"

text \<open>A path that is not a text has no method \<open>replace\<close>; what counts as false is treated before.\<close>

definition path_arg :: "val \<Rightarrow> inst \<Rightarrow> string result" where
  "path_arg p st = (case p of Atom (AStr s) \<Rightarrow> Inr s | _ \<Rightarrow> if truthy (in_heap st) p then Inl AttributeError else Inr [])"

fun run_call :: "inst_env \<Rightarrow> post_call \<Rightarrow> inst \<Rightarrow> inst result" where
  "run_call e (CallFiles p files a chmod trick cwd) st =
     rbind (path_arg p st) (\<lambda>path. rmap snd (install_files (call_env a e) path files chmod trick cwd st))"
| "run_call e (CallAs p srcfile a chmod cwd) st =
     rbind (path_arg p st) (\<lambda>path. rmap snd (install_as (call_env a e) path srcfile chmod cwd st))"
| "run_call e (CallLink p src a cwd) st =
     (if ie_win32 e then Inr st else rbind (path_arg p st) (\<lambda>path. rmap snd (symlink_as (call_env a e) path src st)))"

text \<open>The argument \<open>cwd\<close> of a call that waits is the directory of the script, unless it is given.\<close>

definition with_cwd :: "nat \<Rightarrow> post_call \<Rightarrow> post_call" where
  "with_cwd n c =
     (let s = (\<lambda>cwd. case cwd of None \<Rightarrow> Some n | Some k \<Rightarrow> Some k) in
      case c of
        CallFiles p files a chmod trick cwd \<Rightarrow> CallFiles p files a chmod trick (s cwd)
      | CallAs p srcfile a chmod cwd \<Rightarrow> CallAs p srcfile a chmod (s cwd)
      | CallLink p src a cwd \<Rightarrow> CallLink p src a (s cwd))"

text \<open>The list \<open>post_funs\<close> of a group has the numbers of the calls in the list of all calls.\<close>

definition postpone_call :: "nat \<Rightarrow> post_call \<Rightarrow> post_call list \<times> task_manager \<Rightarrow> (post_call list \<times> task_manager) result" where
  "postpone_call path c = (\<lambda>(calls, m).
     rmap (Pair (calls @ [with_cwd path c]))
       (update_group (\<lambda>g. g\<lparr>post_funs := post_funs g @ [length calls]\<rparr>) (with_group m)))"

definition group_method :: "inst_env \<Rightarrow> bool \<Rightarrow> post_call \<Rightarrow> (post_call list \<times> task_manager) \<times> inst \<Rightarrow>
    ((post_call list \<times> task_manager) \<times> inst) result" where
  "group_method e wait c = (\<lambda>(q, st).
     if ie_is_install e = 0 then Inr (q, st)
     else if wait then rmap (\<lambda>q'. (q', st)) (postpone_call (ie_path e) c q)
     else rmap (Pair q) (run_call e c st))"

text \<open>\<open>process_install\<close> calls what a group has postponed, in order.\<close>

definition run_group :: "inst_env \<Rightarrow> post_call list \<Rightarrow> task_group \<Rightarrow> inst \<Rightarrow> inst result" where
  "run_group e calls g = foldM (\<lambda>n. run_call e (calls ! n)) (post_funs g)"

subsection \<open>Empty directories\<close>

text \<open>The directory \<open>x\<close> and those above it, while they have more than four characters.\<close>

fun up_dirs :: "nat \<Rightarrow> string \<Rightarrow> string list result" where
  "up_dirs 0 x = (if length x > 4 then Inl RuntimeError else Inr [])"
| "up_dirs (Suc n) x = (if length x > 4 then rmap (Cons x) (up_dirs n (dirname x)) else Inr [])"

definition add_new :: "'a list \<Rightarrow> 'a list \<Rightarrow> 'a list" where
  "add_new xs l = fold (\<lambda>x l. if x \<in> set l then l else l @ [x]) xs l"

text \<open>The directories in the order in which they are removed; the loop upwards has at most as many rounds as the path has characters.\<close>

definition dirs_to_remove :: "string list \<Rightarrow> string list result" where
  "dirs_to_remove un =
     (let lst = rev (sort (add_new (map dirname un) []))
      in rmap (\<lambda>ls. rev (sort (add_new (concat ls) []))) (mapM (\<lambda>y. up_dirs (length y) y) lst))"

definition remove_dirs :: "inst_env \<Rightarrow> inst \<Rightarrow> inst result" where
  "remove_dirs e st =
     (if ie_is_install e < 0
      then rmap (\<lambda>l. st\<lparr>in_disk := fold (os_rmdir e) l (in_disk st)\<rparr>) (dirs_to_remove (in_uninstall st))
      else Inr st)"

section \<open>One file\<close>

lemma follow_links_del: "follow_links n (dict_del q d) p = Some x \<Longrightarrow> follow_links n d p = Some x"
proof (induction n arbitrary: p)
  case 0
  then show ?case
    by (subst (asm) follow_links.simps, subst follow_links.simps) (auto simp: map_of_dict_del split: option.splits entry.splits if_splits)
next
  case (Suc n)
  then show ?case
    by (subst (asm) follow_links.simps, subst follow_links.simps) (auto simp: map_of_dict_del split: option.splits entry.splits if_splits)
qed

lemma os_entry_None: "map_of d p = None \<Longrightarrow> os_entry d p = None"
  unfolding os_entry_def by (subst follow_links.simps) simp

lemma os_entry_File: "map_of d p = Some (File c m mode) \<Longrightarrow> os_entry d p = Some (File c m mode)"
  unfolding os_entry_def by (subst follow_links.simps) simp

lemma do_install_result:
  assumes "ie_is_install e > 0" and "os_entry (in_disk st) tgt \<noteq> Some Dir"
  shows "case do_install e src tgt chmod st of
      Inr (True, st') \<Rightarrow> \<exists>c m mode d. os_entry (in_disk st) src = Some (File c m mode) \<and> st' = st\<lparr>in_disk := d\<rparr> \<and>
        map_of d = (map_of (in_disk st))(tgt \<mapsto> File c m chmod)
    | Inr (False, st') \<Rightarrow> st' = st \<and> \<not> ie_force e \<and> up_to_date e src tgt (in_disk st)
    | Inl err \<Rightarrow> err = WafError ''Could not install the file'' \<or> err = OSError \<and> src = tgt \<and> \<not> ie_writable e tgt"
proof (cases "\<not> ie_force e \<and> up_to_date e src tgt (in_disk st)")
  case True
  then show ?thesis using assms(1) by (simp add: do_install_def)
next
  case False
  define d1 where "d1 = (case os_remove e tgt (in_disk st) of Inr d \<Rightarrow> d | Inl err \<Rightarrow> in_disk st)"
  have d1: "d1 = dict_del tgt (in_disk st) \<or> d1 = in_disk st \<and> (map_of (in_disk st) tgt = None \<or> \<not> ie_writable e tgt)"
    using assms(2) by (auto simp: d1_def os_remove_def os_entry_def follow_links.simps[of 40] split: option.splits entry.splits)
  have dst: "os_entry d1 tgt \<noteq> Some Dir" using d1 assms(2) by (auto simp: os_entry_None map_of_dict_del)
  have src: "os_entry d1 src = Some x \<Longrightarrow> os_entry (in_disk st) src = Some x" for x
    using d1 follow_links_del unfolding os_entry_def by blast
  have do: "do_install e src tgt chmod st = (case copy2 e src tgt d1 of
             Inr d2 \<Rightarrow> Inr (True, st\<lparr>in_disk := os_chmod tgt chmod d2\<rparr>)
           | Inl err \<Rightarrow> Inl (if err = IOError then WafError ''Could not install the file'' else err))"
    using assms(1) False unfolding do_install_def d1_def by (auto simp: Let_def)
  show ?thesis
  proof (cases "copy2 e src tgt d1")
    case (Inl err)
    have "err = IOError \<or> err = OSError \<and> src = tgt \<and> os_entry d1 tgt \<noteq> None"
      using Inl dst by (auto simp: copy2_def Let_def split: if_splits option.splits entry.splits)
    then show ?thesis using Inl d1 unfolding do by (auto simp: os_entry_None map_of_dict_del)
  next
    case (Inr d2)
    then obtain c m mode where c: "os_entry d1 src = Some (File c m mode)" "d2 = dict_set tgt (File c m mode) d1"
      using dst by (auto simp: copy2_def Let_def split: if_splits option.splits entry.splits)
    have "map_of (os_chmod tgt chmod d2) = (map_of (in_disk st))(tgt \<mapsto> File c m chmod)"
      using d1 by (auto simp: os_chmod_def c(2) map_of_dict_set map_of_dict_del)
    then show ?thesis using Inr src[OF c(1)] unfolding do by auto
  qed
qed


text \<open>
  With \<open>--force\<close>, installing a file to where it is removes it before the copy, which then fails: the file is lost.
\<close>

lemma self_install_removes:
  assumes "map_of d p = Some (File c m mode)" and "ie_writable e p"
  shows "os_remove e p d = Inr (dict_del p d) \<and> copy2 e p p (dict_del p d) = Inl IOError"
  using assms by (simp add: os_remove_def copy2_def Let_def os_entry_None map_of_dict_del)

section \<open>Installing and removing a list of files\<close>

definition target_of :: "string \<Rightarrow> string \<Rightarrow> string" where
  "target_of dest src = path_join dest (last (split_path src))"

text \<open>The disk \<open>d\<close> differs from \<open>d0\<close> in files with paths of \<open>T\<close> only.\<close>

definition differs_in :: "string set \<Rightarrow> disk \<Rightarrow> disk \<Rightarrow> bool" where
  "differs_in T d0 d \<longleftrightarrow> (\<forall>p. p \<notin> T \<longrightarrow> map_of d p = map_of d0 p) \<and> (\<forall>p \<in> T. map_of d p = None \<or> (\<exists>c m k. map_of d p = Some (File c m k)))"

lemma do_install_differs:
  assumes "ie_is_install e > 0" and "differs_in T d0 (in_disk st)" and "tgt \<in> T" and "do_install e src tgt chmod st = Inr (b, st')"
  shows "differs_in T d0 (in_disk st')"
proof -
  have "os_entry (in_disk st) tgt \<noteq> Some Dir" using assms(2,3) unfolding differs_in_def by (metis entry.distinct(1) option.inject option.distinct(1) os_entry_File os_entry_None)
  from do_install_result[OF assms(1) this, of src chmod] show ?thesis using assms(2,3) unfolding assms(4) by (cases b) (auto simp: differs_in_def, blast)
qed

lemma install_list_abs:
  assumes "list_all isabs srcs" and "install_list e False cwd dest chmod (map FText srcs) st = Inr (l, st')"
    and "ie_is_install e > 0" and "differs_in T d0 (in_disk st)" and "target_of dest ` set srcs \<subseteq> T"
  shows "differs_in T d0 (in_disk st')"
  using assms(1,2,4,5)
proof (induction srcs arbitrary: st l)
  case (Cons s srcs)
  obtain b st1 l1 where r: "do_install e s (target_of dest s) chmod st = Inr (b, st1)"
      "install_list e False cwd dest chmod (map FText srcs) st1 = Inr (l1, st')"
    using Cons.prems(1,2) by (auto simp: rbind_Inr_iff rmap_Inr_iff file_paths_def target_of_def split: prod.splits)
  have "differs_in T d0 (in_disk st1)" using do_install_differs[OF assms(3) Cons.prems(3) _ r(1)] Cons.prems(4) by simp
  then show ?case using Cons.IH[OF _ r(2)] Cons.prems by simp
qed simp

lemma uninstall_one:
  assumes "ie_is_install e < 0" and "ie_writable e tgt" and "differs_in T d0 (in_disk st)" and "tgt \<in> T"
  obtains st' where "do_install e src tgt chmod st = Inr (True, st')" and "differs_in T d0 (in_disk st')"
    and "\<forall>p. map_of (in_disk st') p = (if p = tgt then None else map_of (in_disk st) p)" and "in_uninstall st' = in_uninstall st @ [tgt]"
proof (cases "map_of (in_disk st) tgt")
  case None
  then have "(\<forall>p. map_of (in_disk st) p = (if p = tgt then None else map_of (in_disk st) p))" by simp
  moreover have "\<exists>err. os_remove e tgt (in_disk st) = Inl err" using None by (auto simp: os_remove_def split: option.split entry.split)
  ultimately show ?thesis using assms that by (auto simp: do_install_def)
next
  case (Some x)
  then obtain c m k where "x = File c m k" using assms(3,4) unfolding differs_in_def by force
  then have "os_remove e tgt (in_disk st) = Inr (dict_del tgt (in_disk st))" using Some assms(2) by (simp add: os_remove_def)
  then show ?thesis using assms that by (simp add: do_install_def map_of_dict_del differs_in_def)
qed

lemma uninstall_list:
  assumes "list_all isabs srcs" and "ie_is_install e < 0" and "\<forall>s \<in> set srcs. ie_writable e (target_of dest s)"
    and "differs_in T d0 (in_disk st)" and "target_of dest ` set srcs \<subseteq> T"
  shows "\<exists>l st'. install_list e False cwd dest chmod (map FText srcs) st = Inr (l, st') \<and> in_uninstall st' = in_uninstall st @ map (target_of dest) srcs \<and>
    (\<forall>p. map_of (in_disk st') p = (if p \<in> target_of dest ` set srcs then None else map_of (in_disk st) p))"
  using assms(1,3-5)
proof (induction srcs arbitrary: st)
  case (Cons s srcs)
  let ?t = "target_of dest s"
  have t: "ie_writable e ?t" "?t \<in> T" using Cons.prems by auto
  obtain st1 where st1: "do_install e s ?t chmod st = Inr (True, st1)" "differs_in T d0 (in_disk st1)"
      "\<forall>p. map_of (in_disk st1) p = (if p = ?t then None else map_of (in_disk st) p)" "in_uninstall st1 = in_uninstall st @ [?t]"
    using uninstall_one[OF assms(2) t(1) Cons.prems(3) t(2)] by blast
  obtain l st' where r: "install_list e False cwd dest chmod (map FText srcs) st1 = Inr (l, st')"
      "in_uninstall st' = in_uninstall st1 @ map (target_of dest) srcs"
      "\<forall>p. map_of (in_disk st') p = (if p \<in> target_of dest ` set srcs then None else map_of (in_disk st1) p)"
    using Cons.IH[of st1] Cons.prems st1(2) by auto
  have "install_list e False cwd dest chmod (map FText (s # srcs)) st = Inr (?t # l, st')"
    using Cons.prems(1) st1(1) r(1) by (simp add: file_paths_def target_of_def)
  then show ?case using r(2,3) st1(3,4) by (intro exI[of _ "?t # l"] exI[of _ st']) auto
qed simp

text \<open>
  C12. Uninstalling undoes installing: when a list of files (absolute paths) was installed into a directory that had none of
  their names, uninstalling the same list never fails, removes each target, enters the targets in the list for the
  removal of directories, and leaves the disk as it was before the installation.
\<close>

theorem uninstall_undoes_install:
  assumes "list_all isabs srcs" and "ie_is_install e > 0" and "\<forall>s \<in> set srcs. map_of (in_disk st) (target_of dest s) = None \<and> ie_writable e (target_of dest s)"
    and "install_list e False cwd dest chmod (map FText srcs) st = Inr (l, st1)"
  shows "\<exists>l2 st2. install_list (e\<lparr>ie_is_install := -1\<rparr>) False cwd dest chmod (map FText srcs) st1 = Inr (l2, st2) \<and>
    in_uninstall st2 = in_uninstall st1 @ map (target_of dest) srcs \<and> map_of (in_disk st2) = map_of (in_disk st)"
proof -
  let ?T = "target_of dest ` set srcs"
  have d: "differs_in ?T (in_disk st) (in_disk st)" using assms(3) by (auto simp: differs_in_def)
  note d1 = install_list_abs[OF assms(1,4,2) d order_refl]
  obtain l2 st2 where r: "install_list (e\<lparr>ie_is_install := -1\<rparr>) False cwd dest chmod (map FText srcs) st1 = Inr (l2, st2)"
      "in_uninstall st2 = in_uninstall st1 @ map (target_of dest) srcs"
      "\<forall>p. map_of (in_disk st2) p = (if p \<in> ?T then None else map_of (in_disk st1) p)"
    using uninstall_list[of srcs "e\<lparr>ie_is_install := -1\<rparr>" dest ?T "in_disk st" st1 cwd chmod] assms(1,3) d1 by auto
  have "map_of (in_disk st2) p = map_of (in_disk st) p" for p
    using r(3) d1 assms(3) by (cases "p \<in> ?T") (auto simp: differs_in_def)
  then show ?thesis using r(1,2) by blast
qed

text \<open>A disk with one file to install, and the directory for it.\<close>

definition ex_inst_env :: inst_env where
  "ex_inst_env = \<lparr>ie_is_install = 1, ie_force = False, ie_destdir = [], ie_win32 = False, ie_env = 0, ie_variant = ''default'', ie_path = 1,
     ie_fs = small_fs, ie_writable = (\<lambda>p. True), ie_dirstat = (\<lambda>p. (0, 0)), ie_glob = (\<lambda>d p. [])\<rparr>"

definition ex_inst :: inst where
  "ex_inst = \<lparr>in_disk = [(''/b'', Dir), (''/b/node'', File ''elf'' 7 420), (''/usr'', Dir)], in_uninstall = [], in_error = False,
     in_tree = small_tree, in_heap = \<lparr>envs = Map.empty, lists = Map.empty, next_env = 0, next_list = 0\<rparr>\<rparr>"

lemma ex_entry: "os_entry (in_disk ex_inst) ''/usr/node'' = None"
  by (simp add: os_entry_None ex_inst_def)


lemma ex_install: "case install_list ex_inst_env False 1 ''/usr'' 493 [FText ''/b/node''] ex_inst of Inr r \<Rightarrow> True | Inl e \<Rightarrow> False"
  by code_simp

theorem uninstall_undoes_install_witness:
  "\<exists>l st1 l2 st2. install_list ex_inst_env False 1 ''/usr'' 493 [FText ''/b/node''] ex_inst = Inr (l, st1) \<and>
    install_list (ex_inst_env\<lparr>ie_is_install := -1\<rparr>) False 1 ''/usr'' 493 [FText ''/b/node''] st1 = Inr (l2, st2) \<and>
    in_uninstall st2 = in_uninstall st1 @ [''/usr/node''] \<and> map_of (in_disk st2) = map_of (in_disk ex_inst)"
proof -
  obtain l st1 where r: "install_list ex_inst_env False 1 ''/usr'' 493 (map FText [''/b/node'']) ex_inst = Inr (l, st1)"
    using ex_install by (auto split: sum.splits)
  have t: "target_of ''/usr'' ''/b/node'' = ''/usr/node''" by code_simp
  have a: "list_all isabs [''/b/node'']" by code_simp
  have w: "\<forall>s \<in> set [''/b/node'']. map_of (in_disk ex_inst) (target_of ''/usr'' s) = None \<and> ie_writable ex_inst_env (target_of ''/usr'' s)"
    by (simp add: t ex_inst_def ex_inst_env_def)
  have i: "ie_is_install ex_inst_env > 0" by (simp add: ex_inst_env_def)
  show ?thesis using uninstall_undoes_install[OF a i w r] r t by auto
qed

section \<open>The paths to install to\<close>

text \<open>Text with the two special characters doubled.\<close>

definition escape :: "string \<Rightarrow> string" where
  "escape s = concat (map (\<lambda>c. if c = CHR 0x5C \<or> c = CHR ''$'' then [c, c] else [c]) s)"

lemma subst_vars_escape: "subst_vars get (escape s) h = Inr (s, h)"
proof (induction s)
  case (Cons c s)
  show ?case
  proof (cases "c = CHR 0x5C \<or> c = CHR ''$''")
    case True
    then have "escape (c # s) = c # c # escape s" by (auto simp: escape_def)
    then show ?thesis using Cons True by (simp add: subst_vars.simps(2) Let_def)
  next
    case False
    then have "escape (c # s) = c # escape s" by (auto simp: escape_def)
    then show ?thesis using Cons False by (simp add: subst_vars.simps(2) Let_def)
  qed
qed (simp add: escape_def)

lemma subst_vars_name:
  assumes "CHR 0x7D \<notin> set name" and "name \<noteq> []"
  shows "subst_vars get (''$'' @ CHR 0x7B # name @ CHR 0x7D # s) h =
    rbind (get name h) (\<lambda>(v, h1). rmap (\<lambda>(r, h2). (v @ r, h2)) (subst_vars get s h1))"
proof -
  have "takeWhile (\<lambda>x. x \<noteq> CHR 0x7D) (name @ CHR 0x7D # s) = name" "dropWhile (\<lambda>x. x \<noteq> CHR 0x7D) (name @ CHR 0x7D # s) = CHR 0x7D # s"
    using assms(1) by (auto simp: takeWhile_append dropWhile_append)
  then show ?thesis using assms(2) by (simp add: subst_vars.simps(2) Let_def)
qed

text \<open>
  The variables of an installation path are replaced, and nothing else: escaped text (with backslashes and dollar
  signs doubled) around a variable comes out as it was, with the value of the variable in the place of the variable.
\<close>

theorem subst_vars_roundtrip:
  assumes "CHR 0x7D \<notin> set name" and "name \<noteq> []" and "get name h = Inr (v, h')"
  shows "subst_vars get (''$'' @ CHR 0x7B # name @ CHR 0x7D # escape s) h = Inr (v @ s, h') \<and> subst_vars get (escape s) h = Inr (s, h)"
  using assms subst_vars_name[OF assms(1,2), of get "escape s" h] by (simp add: subst_vars_escape)

theorem subst_vars_roundtrip_witness:
  "subst_vars (\<lambda>n h. Inr (''/usr/local'', h)) (''$'' @ CHR 0x7B # ''PREFIX'' @ CHR 0x7D # escape ''/bin'') () = Inr (''/usr/local/bin'', ())"
  using subst_vars_roundtrip[of "''PREFIX''" "\<lambda>n h. Inr (''/usr/local'', h)" "()" "''/usr/local''" "()" "''/bin''"] by simp

text \<open>
  With a destination directory, every path to install to begins with it: the drive and the leading slashes of the
  path are taken away first, so an absolute path of the script cannot leave the destination directory.
\<close>

theorem install_path_under_destdir:
  assumes "get_destdir (in_heap st) (ie_env e) (ie_destdir e) = Inr (ie_destdir e, h1)" and "ie_destdir e \<noteq> []"
    and "get_install_path e path st = Inr (p, st')"
  shows "prefix (ie_destdir e) p \<and> in_disk st' = in_disk st"
proof -
  obtain q h2 where q: "p = path_join (ie_destdir e) (red_sub q)" "st' = st\<lparr>in_heap := h2\<rparr>"
    using assms by (auto simp: get_install_path_def rmap_Inr_iff)
  have "\<not> py_startswith (red_sub q) ''/''"
  proof
    assume "py_startswith (red_sub q) ''/''"
    then have h: "red_sub q \<noteq> []" "hd (red_sub q) = CHR ''/''" by (auto simp: py_startswith_iff_prefix prefix_def)
    then show False using hd_dropWhile[of "\<lambda>c. c = CHR ''/'' \<or> c = CHR 0x5C"] unfolding red_sub_def by metis
  qed
  then show ?thesis using q by (auto simp: path_join_def)
qed

definition ex_dest :: inst where "ex_dest = ex_inst\<lparr>in_heap := ex_heap\<rparr>"
definition ex_dest_env :: inst_env where "ex_dest_env = ex_inst_env\<lparr>ie_destdir := ''/tmp/d''\<rparr>"

lemma ex_destdir:
  "case get_destdir (in_heap ex_dest) (ie_env ex_dest_env) (ie_destdir ex_dest_env) of Inr (s, h) \<Rightarrow> s = ''/tmp/d'' | Inl e \<Rightarrow> False"
  "case get_install_path ex_dest_env ''/usr/bin'' ex_dest of Inr r \<Rightarrow> True | Inl e \<Rightarrow> False"
  by code_simp+

theorem install_path_under_destdir_witness:
  "\<exists>p st'. get_install_path ex_dest_env ''/usr/bin'' ex_dest = Inr (p, st') \<and> prefix ''/tmp/d'' p"
proof -
  have d: "ie_destdir ex_dest_env = ''/tmp/d''" by (simp add: ex_dest_env_def)
  obtain h1 where h: "get_destdir (in_heap ex_dest) (ie_env ex_dest_env) (ie_destdir ex_dest_env) = Inr (ie_destdir ex_dest_env, h1)"
    using ex_destdir(1) d by (auto split: sum.splits prod.splits)
  obtain p st' where p: "get_install_path ex_dest_env ''/usr/bin'' ex_dest = Inr (p, st')"
    using ex_destdir(2) by (auto split: sum.splits)
  show ?thesis using install_path_under_destdir[OF h _ p] p d by auto
qed

section \<open>Empty directories\<close>

lemma dirname_prefix: "prefix (dirname p) p"
proof -
  have d: "prefix (rev (dropWhile P (rev q))) q" for P and q :: string
    by (metis prefixI rev_append rev_rev_ident takeWhile_dropWhile_id)
  define head where "head = rev (dropWhile (\<lambda>c. c \<noteq> CHR ''/'') (rev p))"
  have h: "prefix head p" unfolding head_def by (rule d)
  show ?thesis
  proof (cases "list_all (\<lambda>c. c = CHR ''/'') head")
    case True
    then have "dirname p = head" unfolding dirname_def Let_def head_def by (simp only: if_True)
    then show ?thesis using h by simp
  next
    case False
    then have "dirname p = rev (dropWhile (\<lambda>c. c = CHR ''/'') (rev head))" unfolding dirname_def Let_def head_def by (simp only: if_False)
    then show ?thesis using prefix_order.trans[OF d h] by simp
  qed
qed

text \<open>A path is longer than its directory unless it is made of slashes.\<close>

lemma dirname_shorter:
  assumes "\<not> list_all (\<lambda>c. c = CHR ''/'') p"
  shows "length (dirname p) < length p"
proof -
  define head where "head = rev (dropWhile (\<lambda>c. c \<noteq> CHR ''/'') (rev p))"
  have hl: "length head \<le> length p" unfolding head_def using length_dropWhile_le[of _ "rev p"] by simp
  have p: "p \<noteq> []" using assms by auto
  show ?thesis
  proof (cases "length head < length p")
    case True
    have "length (dirname p) \<le> length head" unfolding dirname_def Let_def head_def[symmetric]
      using length_dropWhile_le[of _ "rev head"] by simp
    then show ?thesis using True by simp
  next
    case False
    have "length (dropWhile (\<lambda>c. c \<noteq> CHR ''/'') (rev p)) = length (rev p)" using False hl unfolding head_def by simp
    then have "dropWhile (\<lambda>c. c \<noteq> CHR ''/'') (rev p) = rev p"
      by (metis append_eq_append_conv append_Nil takeWhile_dropWhile_id)
    then have hp: "head = p" and l: "last p = CHR ''/''"
      using p by (simp add: head_def, metis dropWhile_eq_self_iff hd_rev rev_is_Nil_conv)
    have "dropWhile (\<lambda>c. c = CHR ''/'') (rev p) \<noteq> rev p" using p l by (metis dropWhile_eq_self_iff hd_rev rev_is_Nil_conv)
    then have "length (dropWhile (\<lambda>c. c = CHR ''/'') (rev p)) < length (rev p)"
      by (metis append_eq_append_conv append_Nil takeWhile_dropWhile_id length_dropWhile_le le_neq_implies_less)
    then show ?thesis using assms unfolding dirname_def Let_def head_def[symmetric] hp by simp
  qed
qed

lemma prefix_less: "prefix a b \<Longrightarrow> a \<noteq> b \<Longrightarrow> a < (b :: string)"
proof -
  assume "prefix a b" and n: "a \<noteq> b"
  then obtain zs where b: "b = a @ zs" by (auto simp: prefix_def)
  then obtain z zs' where "zs = z # zs'" using n by (cases zs) auto
  then show ?thesis using b unfolding list_less_def by (auto intro: lexord_append_rightI)
qed

lemma add_new_facts: "set (add_new xs l) = set l \<union> set xs" "distinct l \<Longrightarrow> distinct (add_new xs l)"
  unfolding add_new_def by (induction xs arbitrary: l) auto

lemma sorted_before: "sorted xs \<Longrightarrow> a \<in> set xs \<Longrightarrow> b \<in> set xs \<Longrightarrow> a < b \<Longrightarrow> stands_before a b xs"
  by (induction xs) (auto simp: stands_before_Cons)

lemma funpow_dirname_length: "length ((dirname ^^ k) y) \<le> length y"
  using dirname_prefix prefix_length_le by (induction k) (auto intro: order_trans)

lemma slashes_take: "list_all (\<lambda>c. c = CHR ''/'') y \<Longrightarrow> length y > 4 \<Longrightarrow> take 5 y = ''/////''"
proof -
  assume a: "list_all (\<lambda>c. c = CHR ''/'') y" "length y > 4"
  have "y = replicate (length y) (CHR ''/'')" using a(1) by (induction y) auto
  then have "take 5 y = replicate 5 (CHR ''/'')" using a(2) by (metis min_absorb1 Suc_leI eval_nat_numeral(3) take_replicate numeral_eq_Suc pred_numeral_simps(2,3) BitM_plus_one)
  then show ?thesis by (simp add: eval_nat_numeral)
qed

lemma dirname_take: "take 5 y \<noteq> ''/////'' \<Longrightarrow> take 5 (dirname y) \<noteq> ''/////''"
proof
  assume a: "take 5 y \<noteq> ''/////''" "take 5 (dirname y) = ''/////''"
  obtain z where "y = dirname y @ z" using dirname_prefix by (auto simp: prefix_def)
  moreover have "length (dirname y) \<ge> 5"
  proof (rule ccontr)
    assume "\<not> length (dirname y) \<ge> 5"
    then have "length (take 5 (dirname y)) < 5" by simp
    then show False unfolding a(2) by simp
  qed
  ultimately show False using a by (metis append_Nil2 diff_is_0_eq' take0 take_append)
qed

text \<open>The directories above \<open>y\<close>, and \<open>y\<close> itself, with more than four characters.\<close>

definition long_ups :: "string \<Rightarrow> string set" where
  "long_ups y = {x. \<exists>k. x = (dirname ^^ k) y \<and> length x > 4}"

lemma long_ups_step: "length y > 4 \<Longrightarrow> long_ups y = insert y (long_ups (dirname y))"
proof -
  assume y: "length y > 4"
  have "(\<exists>k. x = (dirname ^^ k) y) \<longleftrightarrow> x = y \<or> (\<exists>k. x = (dirname ^^ k) (dirname y))" for x
    by (metis funpow_0 funpow_swap1 funpow_simps_right(2) comp_apply not0_implies_Suc)
  then show ?thesis using y unfolding long_ups_def by auto
qed

lemma long_ups_short: "length y \<le> 4 \<Longrightarrow> long_ups y = {}"
  using funpow_dirname_length[of _ y] unfolding long_ups_def by (auto simp: not_less intro: order_trans)

lemma up_dirs_long:
  assumes "take 5 y \<noteq> ''/////''" and "length y \<le> n"
  shows "\<exists>l. up_dirs n y = Inr l \<and> set l = long_ups y"
  using assms
proof (induction n arbitrary: y)
  case (Suc n)
  show ?case
  proof (cases "length y > 4")
    case True
    then have "\<not> list_all (\<lambda>c. c = CHR ''/'') y" using slashes_take Suc.prems(1) by blast
    then have "length (dirname y) \<le> n" using dirname_shorter[of y] Suc.prems(2) by simp
    from Suc.IH[OF dirname_take[OF Suc.prems(1)] this] show ?thesis using True long_ups_step[OF True] by auto
  qed (simp add: long_ups_short)
qed (simp add: long_ups_short)

lemma mapM_up_dirs:
  assumes "\<forall>y \<in> set ys. take 5 y \<noteq> ''/////''"
  shows "\<exists>ls. mapM (\<lambda>y. up_dirs (length y) y) ys = Inr ls \<and> set (concat ls) = (\<Union>y \<in> set ys. long_ups y)"
  using assms
proof (induction ys)
  case (Cons y ys)
  obtain l where l: "up_dirs (length y) y = Inr l" "set l = long_ups y" using up_dirs_long[of y "length y"] Cons.prems by auto
  obtain ls where "mapM (\<lambda>y. up_dirs (length y) y) ys = Inr ls" "set (concat ls) = (\<Union>y \<in> set ys. long_ups y)" using Cons by auto
  then show ?case using l by simp
qed simp

text \<open>
  C30. After an uninstallation, the directories of the removed files and all directories above them, as far as their paths have
  more than four characters, are tried for removal, each once and after the directories in them, so that a directory that
  becomes empty by the removal of its last subdirectory is removed too. The loop upwards ends, unless a path begins
  with five slashes.
\<close>

theorem dirs_removed_bottom_up:
  assumes "\<forall>t \<in> set un. take 5 t \<noteq> ''/////''"
  shows "\<exists>l. dirs_to_remove un = Inr l \<and> distinct l \<and> set l = (\<Union>t \<in> set un. long_ups (dirname t)) \<and>
    (\<forall>x \<in> set l. dirname x \<in> set l \<longrightarrow> stands_before x (dirname x) l)"
proof -
  define lst where "lst = rev (sort (add_new (map dirname un) []))"
  have lst: "set lst = dirname ` set un" by (simp add: lst_def add_new_facts)
  then have "\<forall>y \<in> set lst. take 5 y \<noteq> ''/////''" using assms dirname_take by auto
  then obtain ls where ls: "mapM (\<lambda>y. up_dirs (length y) y) lst = Inr ls" "set (concat ls) = (\<Union>y \<in> set lst. long_ups y)"
    using mapM_up_dirs by blast
  define l where "l = rev (sort (add_new (concat ls) []))"
  have d: "dirs_to_remove un = Inr l" using ls(1) unfolding dirs_to_remove_def Let_def lst_def l_def by simp
  have s: "set l = (\<Union>t \<in> set un. long_ups (dirname t))" using ls(2) lst by (simp add: l_def add_new_facts)
  have "stands_before x (dirname x) l" if x: "x \<in> set l" "dirname x \<in> set l" for x
  proof -
    obtain t k where t: "t \<in> set un" "x = (dirname ^^ k) (dirname t)" "length x > 4" using x(1) s by (auto simp: long_ups_def)
    have "take 5 ((dirname ^^ k) (dirname t)) \<noteq> ''/////''" using assms t(1) dirname_take by (induction k) auto
    then have "dirname x \<noteq> x" using t dirname_shorter[of x] slashes_take[of x] by fastforce
    then have "stands_before (dirname x) x (sort (add_new (concat ls) []))"
      using x by (intro sorted_before prefix_less dirname_prefix) (simp_all add: l_def)
    then show ?thesis unfolding l_def stands_before_rev .
  qed
  moreover have "distinct l" by (simp add: l_def add_new_facts)
  ultimately show ?thesis using d s by blast
qed

theorem dirs_removed_bottom_up_witness:
  "\<exists>l. dirs_to_remove [''/usr/lib/node/x.js''] = Inr l \<and> stands_before ''/usr/lib/node'' ''/usr/lib'' l"
proof -
  have a: "\<forall>t \<in> set [''/usr/lib/node/x.js'']. take 5 t \<noteq> ''/////''" by simp
  obtain l where l: "dirs_to_remove [''/usr/lib/node/x.js''] = Inr l" "\<forall>x \<in> set l. dirname x \<in> set l \<longrightarrow> stands_before x (dirname x) l"
    using dirs_removed_bottom_up[OF a] by blast
  have e: "dirs_to_remove [''/usr/lib/node/x.js''] = Inr [''/usr/lib/node'', ''/usr/lib'']" by code_simp
  have "dirname ''/usr/lib/node'' = ''/usr/lib''" by code_simp
  then show ?thesis using l e by fastforce
qed

end
