(* ===== verification/Traversal.thy ===== *)
theory Traversal
  imports Py_Base
begin

text \<open>
  Two ways to run over the objects that can be reached from a list of names, as contracts: a queue that visits
  every name once, and a stack that takes the names a name depends on before the name itself. What a visit does
  to the state is up to the client, as long as it keeps the view of the state that gives the dependencies. The
  clients are the methods \<open>apply_lib_vars\<close> and \<open>apply_objdeps\<close> of \<open>Waf_Ccroot\<close>.
\<close>

definition dep_rel :: "('x \<Rightarrow> 'x set) \<Rightarrow> ('x \<times> 'x) set" where
  "dep_rel D = {(a, b). b \<in> D a}"

lemma rtrancl_closed: "D ` A \<subseteq> Pow A \<Longrightarrow> B \<subseteq> A \<Longrightarrow> (dep_rel D)\<^sup>* `` B \<subseteq> A"
proof
  fix y assume cl: "D ` A \<subseteq> Pow A" and B: "B \<subseteq> A" and "y \<in> (dep_rel D)\<^sup>* `` B"
  then obtain x where "x \<in> B" "(x, y) \<in> (dep_rel D)\<^sup>*" by blast
  from this(2) show "y \<in> A"
    by (induction rule: rtrancl_induct) (use \<open>x \<in> B\<close> B cl in \<open>auto simp: dep_rel_def\<close>)
qed

section \<open>Queues\<close>

locale queue_visit =
  fixes visit :: "'p \<Rightarrow> 'x \<Rightarrow> 's \<Rightarrow> ('x list \<times> 's) result"
    and loop :: "'p \<Rightarrow> nat \<Rightarrow> 'x list \<Rightarrow> 'x list \<Rightarrow> 's \<Rightarrow> ('x list \<times> 's) result"
    and steady :: "'p \<Rightarrow> bool"
    and good :: "'v \<Rightarrow> bool"
    and view :: "'s \<Rightarrow> 'v"
    and deps :: "'v \<Rightarrow> 'x \<Rightarrow> 'x list"
  assumes loop_Nil: "loop p n seen [] s = Inr (seen, s)"
    and loop_0: "loop p 0 seen (x # q) s = Inl RuntimeError"
    and loop_Suc: "loop p (Suc n) seen (x # q) s =
      (if x \<in> set seen then loop p n seen q s
       else rbind (visit p x s) (\<lambda>(more, s1). loop p n (seen @ [x]) (q @ more) s1))"
    and visit_keeps: "steady p \<Longrightarrow> good (view s) \<Longrightarrow> visit p x s = Inr (more, s') \<Longrightarrow> more = deps (view s) x \<and> view s' = view s"
    and finite_deps: "finite {x. deps v x \<noteq> []}"
begin

definition reach :: "'v \<Rightarrow> 'x list \<Rightarrow> 'x set" where
  "reach v q = (dep_rel (\<lambda>x. set (deps v x)))\<^sup>* `` set q"

lemma reach_finite: "finite (reach v q)"
proof -
  have "reach v q \<subseteq> set q \<union> (\<Union>x \<in> {x. deps v x \<noteq> []}. set (deps v x))"
    (is "_ \<subseteq> ?A")
  proof -
    have "set (deps v x) \<subseteq> ?A" for x by (cases "deps v x = []") auto
    then show ?thesis unfolding reach_def by (intro rtrancl_closed) auto
  qed
  then show ?thesis by (rule finite_subset) (use finite_deps in auto)
qed

lemma reach_step: "x \<in> reach v q \<Longrightarrow> y \<in> set (deps v x) \<Longrightarrow> y \<in> reach v q"
  unfolding reach_def dep_rel_def by (auto intro: rtrancl_into_rtrancl)

lemma reach_start: "set q \<subseteq> reach v q"
  unfolding reach_def by auto

text \<open>What the loop has seen when it ends, from a state in the middle.\<close>

lemma loop_seen:
  assumes "steady p"
  shows "loop p n seen q s = Inr (seen', s') \<Longrightarrow> good (view s) \<Longrightarrow> distinct seen \<Longrightarrow>
    (\<forall>x \<in> set seen. set (deps (view s) x) \<subseteq> set seen \<union> set q) \<Longrightarrow> set seen \<union> set q \<subseteq> A \<Longrightarrow>
    (\<forall>x \<in> A. set (deps (view s) x) \<subseteq> A) \<Longrightarrow>
    distinct seen' \<and> set seen \<union> set q \<subseteq> set seen' \<and> set seen' \<subseteq> A \<and>
    (\<forall>x \<in> set seen'. set (deps (view s) x) \<subseteq> set seen') \<and> view s' = view s"
proof (induction n arbitrary: seen q s)
  case 0
  then show ?case by (cases q) (simp_all add: loop_Nil loop_0)
next
  case (Suc n)
  show ?case
  proof (cases q)
    case Nil
    with Suc.prems show ?thesis by (simp add: loop_Nil)
  next
    case (Cons x r)
    show ?thesis
    proof (cases "x \<in> set seen")
      case True
      with Suc.prems(1) Cons have "loop p n seen r s = Inr (seen', s')" by (simp add: loop_Suc)
      moreover have "set seen \<union> set r = set seen \<union> set q" using True Cons by auto
      ultimately show ?thesis using Suc.IH[of seen r s] Suc.prems(2-6) by simp
    next
      case False
      with Suc.prems(1) Cons obtain more s1 where v: "visit p x s = Inr (more, s1)"
        and l: "loop p n (seen @ [x]) (r @ more) s1 = Inr (seen', s')" by (auto simp: loop_Suc rbind_Inr_iff)
      from visit_keeps[OF assms Suc.prems(2) v] have m: "more = deps (view s) x" "view s1 = view s" by simp_all
      have "x \<in> A" using Suc.prems(5) Cons by simp
      with Suc.prems(6) have "set more \<subseteq> A" unfolding m by blast
      have "distinct seen' \<and> set (seen @ [x]) \<union> set (r @ more) \<subseteq> set seen' \<and> set seen' \<subseteq> A \<and>
          (\<forall>x \<in> set seen'. set (deps (view s1) x) \<subseteq> set seen') \<and> view s' = view s1"
      proof (rule Suc.IH[OF l])
        show "\<forall>y \<in> set (seen @ [x]). set (deps (view s1) y) \<subseteq> set (seen @ [x]) \<union> set (r @ more)"
          using Suc.prems(4) Cons m by auto
        show "set (seen @ [x]) \<union> set (r @ more) \<subseteq> A" using Suc.prems(5) Cons \<open>set more \<subseteq> A\<close> by auto
      qed (use Suc.prems(2,3,6) m False in simp_all)
      then show ?thesis using Cons m(2) by auto
    qed
  qed
qed

lemma loop_result:
  assumes "steady p" and "good (view s)" and "loop p n [] q s = Inr (seen, s')"
  shows "distinct seen \<and> set seen = reach (view s) q \<and> view s' = view s"
proof -
  have r: "distinct seen \<and> set [] \<union> set q \<subseteq> set seen \<and> set seen \<subseteq> reach (view s) q \<and>
      (\<forall>x \<in> set seen. set (deps (view s) x) \<subseteq> set seen) \<and> view s' = view s"
    by (rule loop_seen[OF assms(1,3,2)]) (use reach_start reach_step in auto)
  then have "reach (view s) q \<subseteq> set seen" unfolding reach_def by (intro rtrancl_closed) auto
  with r show ?thesis by auto
qed

text \<open>The rounds that are left: one for each name in the queue, and for each name a visit may still add.\<close>

lemma loop_ends:
  assumes "steady p"
  shows "loop p n seen q s = Inl e \<Longrightarrow> good (view s) \<Longrightarrow> finite A \<Longrightarrow> set q \<subseteq> A \<Longrightarrow>
    (\<forall>x \<in> A. set (deps (view s) x) \<subseteq> A) \<Longrightarrow>
    length q + (\<Sum>x \<in> A - set seen. length (deps (view s) x)) \<le> n \<Longrightarrow>
    \<exists>x \<in> A. \<exists>s1. view s1 = view s \<and> visit p x s1 = Inl e"
proof (induction n arbitrary: seen q s)
  case 0
  then show ?case by (cases q) (simp_all add: loop_Nil)
next
  case (Suc n)
  then obtain x r where q: "q = x # r" by (cases q) (auto simp: loop_Nil)
  show ?case
  proof (cases "x \<in> set seen")
    case True
    with Suc.prems(1) q have "loop p n seen r s = Inl e" by (simp add: loop_Suc)
    from Suc.IH[OF this Suc.prems(2,3)] Suc.prems q show ?thesis by simp
  next
    case False
    show ?thesis
    proof (cases "visit p x s")
      case (Inl e')
      with Suc.prems(1) q False have "e' = e" by (simp add: loop_Suc)
      with Inl Suc.prems(4) q show ?thesis by auto
    next
      case (Inr ms)
      then obtain more s1 where v: "visit p x s = Inr (more, s1)" by (cases ms) auto
      with Suc.prems(1) q False have l: "loop p n (seen @ [x]) (r @ more) s1 = Inl e" by (simp add: loop_Suc)
      from visit_keeps[OF assms Suc.prems(2) v] have m: "more = deps (view s) x" "view s1 = view s" by simp_all
      have x: "x \<in> A - set seen" using Suc.prems(4) q False by simp
      have "A - set (seen @ [x]) = A - set seen - {x}" by auto
      then have "(\<Sum>x \<in> A - set (seen @ [x]). length (deps (view s) x)) + length (deps (view s) x) =
          (\<Sum>x \<in> A - set seen. length (deps (view s) x))"
        using sum.remove[OF _ x, of "\<lambda>x. length (deps (view s) x)"] Suc.prems(3) by simp
      then have le: "length (r @ more) + (\<Sum>x \<in> A - set (seen @ [x]). length (deps (view s1) x)) \<le> n"
        using Suc.prems(6) q m by simp
      have "set (r @ more) \<subseteq> A" using Suc.prems(4,5) q m x by auto
      from Suc.IH[OF l _ Suc.prems(3) this _ le] Suc.prems(2,5) m show ?thesis by simp
    qed
  qed
qed

lemma loop_total:
  assumes "steady p" and "good (view s)"
    and "length q + (\<Sum>x \<in> reach (view s) q. length (deps (view s) x)) \<le> n"
  shows "case loop p n [] q s of
      Inr (seen, s') \<Rightarrow> distinct seen \<and> set seen = reach (view s) q
    | Inl e \<Rightarrow> (\<exists>x \<in> reach (view s) q. \<exists>s1. view s1 = view s \<and> visit p x s1 = Inl e)"
proof (cases "loop p n [] q s")
  case (Inl e)
  have "\<exists>x \<in> reach (view s) q. \<exists>s1. view s1 = view s \<and> visit p x s1 = Inl e"
    by (rule loop_ends[OF assms(1) Inl assms(2) reach_finite reach_start]) (use assms(3) reach_step in auto)
  with Inl show ?thesis by simp
next
  case (Inr r)
  then show ?thesis using loop_result[OF assms(1,2)] by (cases r) auto
qed

end

section \<open>Stacks\<close>

locale stack_visit =
  fixes look :: "'p \<Rightarrow> 'x \<Rightarrow> 's \<Rightarrow> ('y \<times> 'x list \<times> 's) result"
    and accept :: "'p \<Rightarrow> 'y \<Rightarrow> 's \<Rightarrow> 's result"
    and loop :: "'p \<Rightarrow> nat \<Rightarrow> 'x list \<Rightarrow> 'x list \<Rightarrow> 's \<Rightarrow> ('x list \<times> 's) result"
    and steady :: "'p \<Rightarrow> bool"
    and good :: "'v \<Rightarrow> bool"
    and view :: "'s \<Rightarrow> 'v"
    and deps :: "'v \<Rightarrow> 'x \<Rightarrow> 'x set"
  assumes loop_Nil: "loop p n seen [] s = Inr (seen, s)"
    and loop_0: "loop p 0 seen (x # names) s = Inl RuntimeError"
    and loop_Suc: "loop p (Suc n) seen (x # names) s =
      (if x \<in> set seen then loop p n seen names s
       else rbind (look p x s) (\<lambda>(y, lst, s1).
         if filter (\<lambda>u. u \<notin> set seen) lst \<noteq> [] then loop p n seen (filter (\<lambda>u. u \<notin> set seen) lst @ x # names) s1
         else rbind (accept p y s1) (\<lambda>s2. loop p n (seen @ [x]) (x # names) s2)))"
    and look_keeps: "good (view s) \<Longrightarrow> look p x s = Inr (y, lst, s1) \<Longrightarrow> set lst = deps (view s) x \<and> view s1 = view s"
    and accept_keeps: "steady p \<Longrightarrow> good (view s) \<Longrightarrow> accept p y s = Inr s1 \<Longrightarrow> view s1 = view s"
    and finite_deps: "good v \<Longrightarrow> finite {x. deps v x \<noteq> {}}" "good v \<Longrightarrow> finite (deps v x)"
begin

definition reach :: "'v \<Rightarrow> 'x list \<Rightarrow> 'x set" where
  "reach v q = (dep_rel (deps v))\<^sup>* `` set q"

lemma reach_finite: "good v \<Longrightarrow> finite (reach v q)"
proof -
  assume g: "good v"
  have "reach v q \<subseteq> set q \<union> (\<Union>x \<in> {x. deps v x \<noteq> {}}. deps v x)" (is "_ \<subseteq> ?A")
  proof -
    have "deps v x \<subseteq> ?A" for x by (cases "deps v x = {}") auto
    then show ?thesis unfolding reach_def by (intro rtrancl_closed) auto
  qed
  then show ?thesis by (rule finite_subset) (use finite_deps[OF g] in auto)
qed

lemma reach_step: "x \<in> reach v q \<Longrightarrow> y \<in> deps v x \<Longrightarrow> y \<in> reach v q"
  unfolding reach_def dep_rel_def by (auto intro: rtrancl_into_rtrancl)

lemma reach_start: "set q \<subseteq> reach v q"
  unfolding reach_def by auto

text \<open>Every name stands after the names it depends on.\<close>

definition ordered :: "'v \<Rightarrow> 'x list \<Rightarrow> bool" where
  "ordered v seen \<longleftrightarrow> (\<forall>us x ws. seen = us @ x # ws \<longrightarrow> deps v x \<subseteq> set us)"

lemma ordered_snoc: "ordered v seen \<Longrightarrow> deps v x \<subseteq> set seen \<Longrightarrow> ordered v (seen @ [x])"
  unfolding ordered_def
proof (intro allI impI)
  fix us y ws assume o: "\<forall>us x ws. seen = us @ x # ws \<longrightarrow> deps v x \<subseteq> set us" and d: "deps v x \<subseteq> set seen"
    and e: "seen @ [x] = us @ y # ws"
  show "deps v y \<subseteq> set us"
  proof (cases ws rule: rev_cases)
    case Nil
    with e d show ?thesis by simp
  next
    case (snoc zs z)
    with e have "seen = us @ y # zs" by simp
    with o show ?thesis by blast
  qed
qed

lemma ordered_closed: "ordered v seen \<Longrightarrow> x \<in> set seen \<Longrightarrow> deps v x \<subseteq> set seen"
  unfolding ordered_def by (fastforce dest: split_list)

lemma ordered_before:
  assumes "ordered v seen" and "(x, y) \<in> (dep_rel (deps v))\<^sup>+" and "x \<in> set seen"
  shows "\<exists>us ws. seen = us @ x # ws \<and> y \<in> set us"
  using assms(2)
proof (induction rule: trancl_induct)
  case (base y)
  from assms(3) obtain us ws where "seen = us @ x # ws" by (meson split_list)
  with base assms(1) show ?case unfolding ordered_def dep_rel_def by blast
next
  case (step y z)
  then obtain us ws where e: "seen = us @ x # ws" and y: "y \<in> set us" by blast
  from y obtain as bs where us: "us = as @ y # bs" by (meson split_list)
  with e have "seen = as @ y # (bs @ x # ws)" by simp
  with assms(1) step(2) have "z \<in> set as" unfolding ordered_def dep_rel_def by blast
  with us have "z \<in> set us" by simp
  with e show ?case by blast
qed

lemma loop_seen:
  assumes "steady p"
  shows "loop p n seen names s = Inr (seen', s') \<Longrightarrow> good (view s) \<Longrightarrow> distinct seen \<Longrightarrow> ordered (view s) seen \<Longrightarrow>
    set seen \<union> set names \<subseteq> A \<Longrightarrow> (\<forall>x \<in> A. deps (view s) x \<subseteq> A) \<Longrightarrow>
    distinct seen' \<and> ordered (view s) seen' \<and> set seen \<union> set names \<subseteq> set seen' \<and> set seen' \<subseteq> A \<and> view s' = view s"
proof (induction n arbitrary: seen names s)
  case 0
  then show ?case by (cases names) (simp_all add: loop_Nil loop_0)
next
  case (Suc n)
  show ?case
  proof (cases names)
    case Nil
    with Suc.prems show ?thesis by (simp add: loop_Nil)
  next
    case (Cons x r)
    show ?thesis
    proof (cases "x \<in> set seen")
      case True
      with Suc.prems(1) Cons have "loop p n seen r s = Inr (seen', s')" by (simp add: loop_Suc)
      moreover have "set seen \<union> set r = set seen \<union> set names" using True Cons by auto
      ultimately show ?thesis using Suc.IH[of seen r s] Suc.prems(2-6) by simp
    next
      case False
      with Suc.prems(1) Cons obtain y lst s1 where l: "look p x s = Inr (y, lst, s1)"
        by (auto simp: loop_Suc rbind_Inr_iff)
      from look_keeps[OF Suc.prems(2) l] have k: "set lst = deps (view s) x" "view s1 = view s" by simp_all
      let ?us = "filter (\<lambda>u. u \<notin> set seen) lst"
      have x: "x \<in> A" using Suc.prems(5) Cons by simp
      show ?thesis
      proof (cases "?us = []")
        case True
        with Suc.prems(1) Cons False l obtain s2 where a: "accept p y s1 = Inr s2"
          and r: "loop p n (seen @ [x]) (x # r) s2 = Inr (seen', s')"
          by (auto simp: loop_Suc rbind_Inr_iff)
        have v2: "view s2 = view s" using accept_keeps[OF assms _ a] k Suc.prems(2) by simp
        have "deps (view s) x \<subseteq> set seen" using True k(1) by (auto simp: filter_empty_conv)
        with Suc.prems(4) have "ordered (view s2) (seen @ [x])" unfolding v2 by (rule ordered_snoc)
        with Suc.IH[OF r] v2 Suc.prems(2,3,5,6) False Cons show ?thesis by simp
      next
        case us: False
        with Suc.prems(1) Cons False l have r: "loop p n seen (?us @ x # r) s1 = Inr (seen', s')"
          by (simp add: loop_Suc)
        have "set ?us \<subseteq> A" using Suc.prems(6) x k(1) by auto
        with Suc.IH[OF r] k(2) Suc.prems(2-6) Cons show ?thesis by simp
      qed
    qed
  qed
qed

lemma loop_result:
  assumes "steady p" and "good (view s)" and "loop p n [] names s = Inr (seen, s')"
  shows "distinct seen \<and> ordered (view s) seen \<and> set seen = reach (view s) names"
proof -
  have "ordered (view s) []" by (simp add: ordered_def)
  with reach_start reach_step
  have r: "distinct seen \<and> ordered (view s) seen \<and> set [] \<union> set names \<subseteq> set seen \<and> set seen \<subseteq> reach (view s) names \<and> view s' = view s"
    by (intro loop_seen[OF assms(1,3,2)]) auto
  then have "reach (view s) names \<subseteq> set seen"
    unfolding reach_def using ordered_closed by (intro rtrancl_closed) auto
  with r show ?thesis by auto
qed

lemma loop_cycle:
  assumes "steady p" and "good (view s)" and "x \<in> reach (view s) names" and "(x, x) \<in> (dep_rel (deps (view s)))\<^sup>+"
  shows "\<exists>e. loop p n [] names s = Inl e"
proof (cases "loop p n [] names s")
  case (Inr r)
  then obtain seen s' where "loop p n [] names s = Inr (seen, s')" by (cases r) auto
  from loop_result[OF assms(1,2) this] have "distinct seen" "ordered (view s) seen" "x \<in> set seen" using assms(3) by auto
  with ordered_before[OF _ assms(4)] obtain us ws where "seen = us @ x # ws" "x \<in> set us" by blast
  with \<open>distinct seen\<close> show ?thesis by simp
qed simp

text \<open>An error of a visit, as opposed to a loop that does not end.\<close>

definition raised :: "'p \<Rightarrow> 'x set \<Rightarrow> 'v \<Rightarrow> py_error \<Rightarrow> bool" where
  "raised p A v e \<longleftrightarrow> (\<exists>x \<in> A. \<exists>s1. view s1 = v \<and>
     (look p x s1 = Inl e \<or> (\<exists>y lst s2. look p x s1 = Inr (y, lst, s2) \<and> accept p y s2 = Inl e)))"

text \<open>After some rounds the names \<open>us\<close> are taken from the stack and have all been seen, unless a visit raised an error.\<close>

definition runs :: "'p \<Rightarrow> 'x set \<Rightarrow> 'x list \<Rightarrow> 'x list \<Rightarrow> 'x list \<Rightarrow> 's \<Rightarrow> bool" where
  "runs p A us seen names s \<longleftrightarrow> (\<exists>k.
     (\<exists>seen' s'. set seen \<union> set us \<subseteq> set seen' \<and> view s' = view s \<and>
        (\<forall>n. loop p (k + n) seen (us @ names) s = loop p n seen' names s')) \<or>
     (\<exists>e. raised p A (view s) e \<and> (\<forall>n. loop p (k + n) seen (us @ names) s = Inl e)))"

lemma runs_append:
  assumes "runs p A us seen (vs @ names) s"
    and "\<And>seen' s'. set seen \<union> set us \<subseteq> set seen' \<Longrightarrow> view s' = view s \<Longrightarrow> runs p A vs seen' names s'"
  shows "runs p A (us @ vs) seen names s"
proof -
  from assms(1) obtain k where k: "(\<exists>seen' s'. set seen \<union> set us \<subseteq> set seen' \<and> view s' = view s \<and>
        (\<forall>n. loop p (k + n) seen (us @ vs @ names) s = loop p n seen' (vs @ names) s')) \<or>
     (\<exists>e. raised p A (view s) e \<and> (\<forall>n. loop p (k + n) seen (us @ vs @ names) s = Inl e))"
    unfolding runs_def by blast
  then show ?thesis
  proof
    assume "\<exists>e. raised p A (view s) e \<and> (\<forall>n. loop p (k + n) seen (us @ vs @ names) s = Inl e)"
    then show ?thesis unfolding runs_def by (intro exI[of _ k]) simp
  next
    assume "\<exists>seen' s'. set seen \<union> set us \<subseteq> set seen' \<and> view s' = view s \<and>
        (\<forall>n. loop p (k + n) seen (us @ vs @ names) s = loop p n seen' (vs @ names) s')"
    then obtain seen' s' where s': "set seen \<union> set us \<subseteq> set seen'" "view s' = view s"
      "\<And>n. loop p (k + n) seen (us @ vs @ names) s = loop p n seen' (vs @ names) s'" by blast
    from assms(2)[OF s'(1,2)] obtain m where m: "(\<exists>seen'' s''. set seen' \<union> set vs \<subseteq> set seen'' \<and> view s'' = view s' \<and>
        (\<forall>n. loop p (m + n) seen' (vs @ names) s' = loop p n seen'' names s'')) \<or>
      (\<exists>e. raised p A (view s') e \<and> (\<forall>n. loop p (m + n) seen' (vs @ names) s' = Inl e))"
      unfolding runs_def by blast
    have eq: "loop p (k + m + n) seen ((us @ vs) @ names) s = loop p (m + n) seen' (vs @ names) s'" for n
      using s'(3)[of "m + n"] by (simp add: add.assoc)
    from m show ?thesis
    proof
      assume "\<exists>e. raised p A (view s') e \<and> (\<forall>n. loop p (m + n) seen' (vs @ names) s' = Inl e)"
      then show ?thesis unfolding runs_def using eq s'(2) by (intro exI[of _ "k + m"]) simp
    next
      assume "\<exists>seen'' s''. set seen' \<union> set vs \<subseteq> set seen'' \<and> view s'' = view s' \<and>
        (\<forall>n. loop p (m + n) seen' (vs @ names) s' = loop p n seen'' names s'')"
      then obtain seen'' s'' where "set seen' \<union> set vs \<subseteq> set seen''" "view s'' = view s'"
        "\<And>n. loop p (m + n) seen' (vs @ names) s' = loop p n seen'' names s''" by blast
      with eq s'(1,2) show ?thesis unfolding runs_def
        by (intro exI[of _ "k + m"] disjI1 exI[of _ seen''] exI[of _ s'']) auto
    qed
  qed
qed

lemma runs_Nil: "runs p A [] seen names s"
  unfolding runs_def by (rule exI[of _ 0]) auto

lemma runs_list:
  assumes "\<And>u seen names s. u \<in> set us \<Longrightarrow> view s = v \<Longrightarrow> runs p A [u] seen names s" and "view s = v"
  shows "runs p A us seen names s"
  using assms
proof (induction us arbitrary: seen s)
  case (Cons u us)
  have "runs p A ([u] @ us) seen names s"
    by (rule runs_append) (use Cons in simp_all)
  then show ?case by simp
qed (rule runs_Nil)

text \<open>One round that puts names in front of the first one.\<close>

lemma runs_push:
  assumes "\<And>n. loop p (Suc n) seen (x # names) s = loop p n seen (us @ x # names) s1" and "view s1 = view s"
    and "runs p A (us @ [x]) seen names s1"
  shows "runs p A [x] seen names s"
proof -
  from assms(3) obtain k where k: "(\<exists>seen' s'. set seen \<union> set (us @ [x]) \<subseteq> set seen' \<and> view s' = view s \<and>
        (\<forall>n. loop p (k + n) seen (us @ x # names) s1 = loop p n seen' names s')) \<or>
     (\<exists>e. raised p A (view s) e \<and> (\<forall>n. loop p (k + n) seen (us @ x # names) s1 = Inl e))"
    unfolding runs_def assms(2) by auto
  have eq: "loop p (Suc k + n) seen ([x] @ names) s = loop p (k + n) seen (us @ x # names) s1" for n
    using assms(1)[of "k + n"] by simp
  from k show ?thesis unfolding runs_def using eq by (intro exI[of _ "Suc k"]) auto
qed

text \<open>A name whose names have all been seen.\<close>

lemma runs_ready:
  assumes "steady p" and "good (view s)" and "x \<in> A" and "deps (view s) x \<subseteq> set seen"
  shows "runs p A [x] seen names s"
proof (cases "x \<in> set seen")
  case True
  then show ?thesis unfolding runs_def
    by (intro exI[of _ "Suc 0"] disjI1 exI[of _ seen] exI[of _ s]) (simp add: loop_Suc)
next
  case False
  show ?thesis
  proof (cases "look p x s")
    case (Inl e)
    then have "raised p A (view s) e" using assms(3) unfolding raised_def by blast
    with Inl False show ?thesis unfolding runs_def
      by (intro exI[of _ "Suc 0"] disjI2 exI[of _ e]) (simp add: loop_Suc)
  next
    case (Inr r)
    obtain y lst s1 where l: "look p x s = Inr (y, lst, s1)" using Inr by (cases r) auto
    from look_keeps[OF assms(2) l] assms(4) have none: "filter (\<lambda>u. u \<notin> set seen) lst = []" and v1: "view s1 = view s"
      by (auto simp: filter_empty_conv)
    show ?thesis
    proof (cases "accept p y s1")
      case (Inl e)
      then have "raised p A (view s) e" using assms(3) l unfolding raised_def by blast
      with Inl False l none show ?thesis unfolding runs_def
        by (intro exI[of _ "Suc 0"] disjI2 exI[of _ e]) (simp add: loop_Suc)
    next
      case (Inr s2)
      have "view s2 = view s" using accept_keeps[OF assms(1) _ Inr] assms(2) v1 by simp
      with Inr False l none show ?thesis unfolding runs_def
        by (intro exI[of _ "Suc (Suc 0)"] disjI1 exI[of _ "seen @ [x]"] exI[of _ s2]) (simp add: loop_Suc)
    qed
  qed
qed

lemma runs_seen: "x \<in> set seen \<Longrightarrow> runs p A [x] seen names s"
  unfolding runs_def by (intro exI[of _ "Suc 0"] disjI1 exI[of _ seen] exI[of _ s]) (simp add: loop_Suc)

lemma runs_all:
  assumes "steady p" and "good v" and closed: "\<forall>x \<in> A. deps v x \<subseteq> A"
    and wf: "wf {(b, a). a \<in> A \<and> b \<in> deps v a}"
  shows "x \<in> A \<Longrightarrow> view s = v \<Longrightarrow> runs p A [x] seen names s"
  using wf
proof (induction x arbitrary: seen names s rule: wf_induct_rule)
  case (less x)
  show ?case
  proof (cases "x \<in> set seen \<or> deps v x \<subseteq> set seen")
    case True
    then show ?thesis using runs_seen runs_ready[OF assms(1) _ less.prems(1), of s] less.prems(2) assms(2) by auto
  next
    case False
    show ?thesis
    proof (cases "look p x s")
      case (Inl e)
      then have "raised p A (view s) e" using less.prems(1) unfolding raised_def by blast
      with Inl False show ?thesis unfolding runs_def
        by (intro exI[of _ "Suc 0"] disjI2 exI[of _ e]) (simp add: loop_Suc)
    next
      case (Inr r)
      obtain y lst s1 where l: "look p x s = Inr (y, lst, s1)" using Inr by (cases r) auto
      let ?us = "filter (\<lambda>u. u \<notin> set seen) lst"
      from look_keeps[OF _ l] less.prems(2) assms(2) have k: "set lst = deps v x" "view s1 = v" by simp_all
      with False have ne: "?us \<noteq> []" by (auto simp: filter_empty_conv)
      have "runs p A [u] seen0 names0 s0" if u: "u \<in> set ?us" "view s0 = v" for u seen0 names0 s0
      proof -
        from u k(1) have d: "u \<in> deps v x" by simp
        with closed less.prems(1) have "u \<in> A" by blast
        with less.IH[of u s0 seen0 names0] d less.prems(1) u(2) show ?thesis by simp
      qed
      then have "runs p A ?us seen ([x] @ names) s1" by (rule runs_list[OF _ k(2)])
      moreover have "runs p A [x] seen' names s'" if "set seen \<union> set ?us \<subseteq> set seen'" "view s' = view s1" for seen' s'
        by (rule runs_ready) (use that k assms(1,2) less.prems(1) in auto)
      ultimately have "runs p A (?us @ [x]) seen names s1" by (rule runs_append)
      moreover have "loop p (Suc n) seen (x # names) s = loop p n seen (?us @ x # names) s1" for n
        using False l ne by (simp add: loop_Suc)
      moreover have "view s1 = view s" using k(2) less.prems(2) by simp
      ultimately show ?thesis by (intro runs_push[of p seen x names s ?us s1])
    qed
  qed
qed

lemma loop_total:
  assumes "steady p" and "good (view s)" and acyc: "\<forall>x \<in> reach (view s) names. (x, x) \<notin> (dep_rel (deps (view s)))\<^sup>+"
  shows "\<exists>N. \<forall>n \<ge> N. case loop p n [] names s of
      Inr (seen, s') \<Rightarrow> distinct seen \<and> ordered (view s) seen \<and> set seen = reach (view s) names
    | Inl e \<Rightarrow> raised p (reach (view s) names) (view s) e"
proof -
  let ?A = "reach (view s) names"
  have wf: "wf {(b, a). a \<in> ?A \<and> b \<in> deps (view s) a}" (is "wf ?r")
  proof (rule finite_acyclic_wf)
    have "?r \<subseteq> ?A \<times> ?A" using reach_step by auto
    then show "finite ?r" by (rule finite_subset) (simp add: reach_finite[OF assms(2)])
    have sub: "(a, b) \<in> ?r\<^sup>+ \<Longrightarrow> b \<in> ?A \<and> (b, a) \<in> (dep_rel (deps (view s)))\<^sup>+" for a b
    proof (induction rule: trancl_induct)
      case (base b)
      then show ?case by (auto simp: dep_rel_def)
    next
      case (step b c)
      then have "(c, b) \<in> dep_rel (deps (view s))" "c \<in> ?A" by (auto simp: dep_rel_def)
      with step show ?case by (meson trancl_into_trancl2)
    qed
    then show "acyclic ?r" unfolding acyclic_def using acyc by blast
  qed
  have "runs p ?A names [] [] s"
    by (rule runs_list[OF runs_all[OF assms(1,2) _ wf]]) (use reach_start reach_step in auto)
  then obtain k where k: "(\<exists>seen' s'. \<forall>n. loop p (k + n) [] names s = loop p n seen' [] s') \<or>
     (\<exists>e. raised p ?A (view s) e \<and> (\<forall>n. loop p (k + n) [] names s = Inl e))"
    unfolding runs_def by auto
  show ?thesis
  proof (intro exI[of _ k] allI impI)
    fix n assume "k \<le> n"
    then have n: "k + (n - k) = n" by simp
    from k have "(\<exists>r. loop p n [] names s = Inr r) \<or> (\<exists>e. raised p ?A (view s) e \<and> loop p n [] names s = Inl e)"
      using n by (metis loop_Nil)
    then show "case loop p n [] names s of
      Inr (seen, s') \<Rightarrow> distinct seen \<and> ordered (view s) seen \<and> set seen = ?A
    | Inl e \<Rightarrow> raised p ?A (view s) e"
      using loop_result[OF assms(1,2)] by auto
  qed
qed

end

end
