(* ===== verification/Waf_Ccroot.thy ===== *)
theory Waf_Ccroot
  imports Waf_Install Waf_Preproc Traversal
begin

text \<open>
  The methods that the C and C++ tools add to task generators, \<^verbatim>\<open>src/tools/wafadmin/Tools/ccroot.py\<close>: default
  attributes, include paths, the link task, and the two traversals of other generators, \<open>apply_lib_vars\<close> over
  \<open>uselib_local\<close> (a queue) and \<open>apply_objdeps\<close> over \<open>add_objects\<close> (a stack), with the registration of the methods
  in the tables of \<open>Waf_Taskgen\<close>.

  After the definitions: the queue visits each library that can be reached
  once and nothing else, and ends; the stack takes the objects a generator depends on before the generator
  itself, and never ends on a cycle.

  Every generator has lists of its own: a list object that a script gives to two generators is not shared here.
\<close>

section \<open>Definitions\<close>

subsection \<open>Attributes\<close>

text \<open>The attributes of a generator; \<open>None\<close> when the attribute is not set. \<open>cg_dict\<close> has those under other names.\<close>

record cgen =
  cg_env :: nat
  cg_includes :: "sval option"
  cg_defines :: "sval option"
  cg_rpaths :: "sval option"
  cg_uselib :: "sval option"
  cg_uselib_local :: "sval option"
  cg_add_objects :: "sval option"
  cg_p_flag_vars :: "string list option"
  cg_p_type_vars :: "string list option"
  cg_compiled_tasks :: "nat list option"
  cg_link_task :: "nat option"
  cg_export_incdirs :: "sval option"
  cg_obj_files :: "string list option"
  cg_link :: "string option"
  cg_vnum :: "string option"
  cg_default_install_path :: "val option"
  cg_default_chmod :: "nat option"
  cg_dict :: "(string \<times> val) list"

text \<open>
  The attributes of all generators, the environments, the attribute \<open>dep_nodes\<close> of the tasks, and the calls that wait for
  the end of a group.
\<close>

record cworld =
  cw_gens :: "nat \<Rightarrow> cgen"
  cw_heap :: heap
  cw_dep_nodes :: "nat \<Rightarrow> nat list"
  cw_calls :: "post_call list"

type_synonym cctx = "cworld gctx"

text \<open>The globals of other modules, the file system, and the bound of the loops.\<close>

record cc_opts =
  co_bound :: nat
  co_fs :: fsys
  co_go_absolute :: bool
  co_standard_includes :: "string list"
  co_root :: nat
  co_platform :: string
  co_os_name :: string

definition c_at :: "cctx \<Rightarrow> nat \<Rightarrow> cgen" where
  "c_at st g = cw_gens (gx_tools st) g"

definition upd_c :: "nat \<Rightarrow> (cgen \<Rightarrow> cgen) \<Rightarrow> cctx \<Rightarrow> cctx" where
  "upd_c g f st = st\<lparr>gx_tools := (gx_tools st)\<lparr>cw_gens := (cw_gens (gx_tools st))(g := f (c_at st g))\<rparr>\<rparr>"

definition set_heap :: "heap \<Rightarrow> cctx \<Rightarrow> cctx" where
  "set_heap h st = st\<lparr>gx_tools := (gx_tools st)\<lparr>cw_heap := h\<rparr>\<rparr>"

abbreviation the_heap :: "cctx \<Rightarrow> heap" where
  "the_heap st \<equiv> cw_heap (gx_tools st)"

definition env_get :: "nat \<Rightarrow> string \<Rightarrow> cctx \<Rightarrow> (val \<times> cctx) result" where
  "env_get g key st = rmap (\<lambda>(v, h). (v, set_heap h st)) (getitem (the_heap st) (cg_env (c_at st g)) key)"

definition env_set :: "nat \<Rightarrow> string \<Rightarrow> val \<Rightarrow> cctx \<Rightarrow> cctx" where
  "env_set g key v st = set_heap (setitem (cg_env (c_at st g)) key v (the_heap st)) st"

definition env_append :: "nat \<Rightarrow> string \<Rightarrow> val \<Rightarrow> cctx \<Rightarrow> cctx result" where
  "env_append g key v st = rmap (\<lambda>h. set_heap h st) (append_value (cg_env (c_at st g)) key v (the_heap st))"

definition env_prepend :: "nat \<Rightarrow> string \<Rightarrow> val \<Rightarrow> cctx \<Rightarrow> cctx result" where
  "env_prepend g key v st = rmap (\<lambda>h. set_heap h st) (prepend_value (cg_env (c_at st g)) key v (the_heap st))"

definition env_append_unique :: "nat \<Rightarrow> string \<Rightarrow> val \<Rightarrow> cctx \<Rightarrow> cctx result" where
  "env_append_unique g key v st = rmap (\<lambda>h. set_heap h st) (append_unique (cg_env (c_at st g)) key v (the_heap st))"

text \<open>Appending a list of texts that was made on the spot.\<close>

definition env_append_unique_list :: "nat \<Rightarrow> string \<Rightarrow> string list \<Rightarrow> cctx \<Rightarrow> cctx result" where
  "env_append_unique_list g key ws st =
     (let (l, h) = new_list (map AStr ws) (the_heap st) in env_append_unique g key (VList l) (set_heap h st))"

text \<open>\<open>for x in value\<close>, and \<open>s in value\<close>: a text is a sequence of characters.\<close>

fun iter_val :: "heap \<Rightarrow> val \<Rightarrow> atom list result" where
  "iter_val h (VList l) = Inr (list_at h l)"
| "iter_val h (Atom (AStr s)) = Inr (map (\<lambda>c. AStr [c]) s)"
| "iter_val h (Atom _) = Inl TypeError"

fun val_contains :: "heap \<Rightarrow> val \<Rightarrow> string \<Rightarrow> bool result" where
  "val_contains h (VList l) s = Inr (AStr s \<in> set (list_at h l))"
| "val_contains h (Atom (AStr t)) s = Inr (py_find t s 0 \<noteq> None)"
| "val_contains h (Atom _) s = Inl TypeError"

fun path_text :: "atom \<Rightarrow> string result" where
  "path_text (AStr s) = Inr s"
| "path_text _ = Inl AttributeError"

fun has_feature :: "string \<Rightarrow> sval \<Rightarrow> bool" where
  "has_feature f (SList l) \<longleftrightarrow> f \<in> set l"
| "has_feature f (SText s) \<longleftrightarrow> py_find s f 0 \<noteq> None"

text \<open>An attribute that has to be there.\<close>

definition attr :: "'a option \<Rightarrow> 'a result" where
  "attr v = (case v of None \<Rightarrow> Inl AttributeError | Some x \<Rightarrow> Inr x)"

definition attr_true :: "sval option \<Rightarrow> bool" where
  "attr_true v \<longleftrightarrow> (case v of None \<Rightarrow> False | Some x \<Rightarrow> sval_true x)"

definition target_text :: "sval \<Rightarrow> string result" where
  "target_text t = (case t of SText s \<Rightarrow> Inr s | SList l \<Rightarrow> Inl AttributeError)"

text \<open>\<open>pattern % arguments\<close> for the conversion \<open>%s\<close>.\<close>

fun percent :: "string \<Rightarrow> string list \<Rightarrow> string result" where
  "percent [] [] = Inr []"
| "percent [] (a # as) = Inl TypeError"
| "percent (c # s) as =
     (if c \<noteq> CHR ''%'' then rmap (Cons c) (percent s as)
      else case s of
        [] \<Rightarrow> Inl ValueError
      | d # r \<Rightarrow>
          if d = CHR ''%'' then rmap (Cons c) (percent r as)
          else if d = CHR ''s'' then (case as of [] \<Rightarrow> Inl TypeError | a # as' \<Rightarrow> rmap (\<lambda>t. a @ t) (percent r as'))
          else Inl Unsupported)"

fun val_percent :: "val \<Rightarrow> atom \<Rightarrow> string result" where
  "val_percent (Atom (AStr p)) (AStr s) = percent p [s]"
| "val_percent (Atom (AStr p)) ANone = percent p [''None'']"
| "val_percent (Atom (AStr p)) (AOther n) = Inl Unsupported"
| "val_percent _ _ = Inl TypeError"

subsection \<open>Targets and defaults\<close>

definition cc_suffix :: "string \<Rightarrow> string" where
  "cc_suffix f = dropWhile (\<lambda>c. c = CHR ''c'') f"

definition get_target_name :: "nat \<Rightarrow> cctx \<Rightarrow> (string \<times> cctx) result" where
  "get_target_name g st =
     (let fs = sval_list (tg_features (gen_at st g));
          tp = foldl (\<lambda>tp x. if x \<in> {''cshlib'', ''cstaticlib''} then cc_suffix x else tp) ''program'' fs
      in rbind (env_get g (tp @ ''_PATTERN'') st) (\<lambda>(v, st1).
        let pattern = (if truthy (the_heap st1) v then v else Atom (AStr ''%s'')) in
        rbind (target_text (tg_target (gen_at st1 g))) (\<lambda>target.
          rbind (env_get g ''DEST_BINFMT'' st1) (\<lambda>(fmt, st2).
            let name = (case cg_vnum (c_at st2 g) of
                None \<Rightarrow> snd (path_split target)
              | Some vnum \<Rightarrow>
                  if fmt = Atom (AStr ''pe'') \<and> vnum \<noteq> [] \<and> ''cshlib'' \<in> set fs
                  then snd (path_split target) @ ''-'' @ hd (py_split_chr (CHR ''.'') vnum)
                  else snd (path_split target))
            in rmap (\<lambda>n. (path_join (fst (path_split target)) n, st2)) (val_percent pattern (AStr name))))))"

definition unversioned_sys_platform_to_binary_format :: "string \<Rightarrow> string" where
  "unversioned_sys_platform_to_binary_format p =
     (if p \<in> {''linux'', ''freebsd'', ''netbsd'', ''openbsd'', ''sunos''} then ''elf''
      else if p = ''darwin'' then ''mac-o''
      else if p \<in> {''win32'', ''cygwin'', ''uwin'', ''msys''} then ''pe''
      else ''elf'')"

definition def_attr :: "'a \<Rightarrow> 'a option \<Rightarrow> 'a option" where
  "def_attr d v = (case v of None \<Rightarrow> Some d | Some x \<Rightarrow> Some x)"

text \<open>A directory of the environment that is set from \<open>PREFIX\<close> when it is not set.\<close>

definition default_dir :: "nat \<Rightarrow> string \<Rightarrow> string \<Rightarrow> cctx \<Rightarrow> cctx result" where
  "default_dir g var expr st =
     rbind (env_get g var st) (\<lambda>(v, st1).
       if truthy (the_heap st1) v then Inr st1
       else rmap (\<lambda>(d, h). env_set g var (Atom (AStr d)) (set_heap h st1))
         (subst_vars (\<lambda>k h. get_flat h (cg_env (c_at st1 g)) k) expr (the_heap st1)))"

text \<open>A platform name that is not a text is in no list of names.\<close>

definition default_cc :: "cc_opts \<Rightarrow> nat \<Rightarrow> cctx \<Rightarrow> cctx result" where
  "default_cc co g st0 =
     (let st = upd_c g (\<lambda>c. c\<lparr>cg_includes := def_attr (SText []) (cg_includes c), cg_defines := def_attr (SText []) (cg_defines c),
            cg_rpaths := def_attr (SText []) (cg_rpaths c), cg_uselib := def_attr (SText []) (cg_uselib c),
            cg_uselib_local := def_attr (SText []) (cg_uselib_local c), cg_add_objects := def_attr (SText []) (cg_add_objects c),
            cg_p_flag_vars := def_attr [] (cg_p_flag_vars c), cg_p_type_vars := def_attr [] (cg_p_type_vars c),
            cg_compiled_tasks := def_attr [] (cg_compiled_tasks c)\<rparr>) st0
      in rbind (env_get g ''DEST_BINFMT'' st) (\<lambda>(fmt, st1).
        rbind (if truthy (the_heap st1) fmt then Inr st1
               else rmap (\<lambda>(os, st2).
                   let p = (if truthy (the_heap st2) os then (case os of Atom (AStr s) \<Rightarrow> s | _ \<Rightarrow> []) else co_platform co)
                   in env_set g ''DEST_BINFMT'' (Atom (AStr (unversioned_sys_platform_to_binary_format p))) st2)
                 (env_get g ''DEST_OS'' st1)) (\<lambda>st3.
          rbind (default_dir g ''BINDIR'' ''${PREFIX}/bin'' st3) (default_dir g ''LIBDIR'' ''${PREFIX}/lib${LIB_EXT}''))))"

definition apply_verif :: "nat \<Rightarrow> cctx \<Rightarrow> cctx result" where
  "apply_verif g st =
     (let c = c_at st g in
      if \<not> (sval_true (tg_source (gen_at st g)) \<or> attr_true (cg_add_objects c) \<or> attr_true (cg_uselib_local c) \<or>
            (case cg_obj_files c of None \<Rightarrow> False | Some l \<Rightarrow> l \<noteq> []))
      then Inl (WafError ''no source files specified'')
      else if \<not> sval_true (tg_target (gen_at st g)) then Inl (WafError ''no target'')
      else Inr st)"

definition O755 :: nat where "O755 = 493"

definition vars_target_cprogram :: "nat \<Rightarrow> cctx \<Rightarrow> cctx result" where
  "vars_target_cprogram g st =
     rmap (\<lambda>(v, st1). upd_c g (\<lambda>c. c\<lparr>cg_default_install_path := Some v, cg_default_chmod := Some O755\<rparr>) st1)
       (env_get g ''BINDIR'' st)"

definition vars_target_cshlib :: "nat \<Rightarrow> cctx \<Rightarrow> cctx result" where
  "vars_target_cshlib g st =
     rbind (env_get g ''DEST_BINFMT'' st) (\<lambda>(fmt, st1).
       if fmt = Atom (AStr ''pe'')
       then rmap (\<lambda>(v, st2). upd_c g (\<lambda>c. c\<lparr>cg_default_chmod := Some O755, cg_default_install_path := Some v\<rparr>) st2)
         (env_get g ''BINDIR'' st1)
       else rmap (\<lambda>(v, st2). upd_c g (\<lambda>c. c\<lparr>cg_default_install_path := Some v\<rparr>) st2) (env_get g ''LIBDIR'' st1))"

subsection \<open>Include paths and variables of the type\<close>

text \<open>The paths of one external library.\<close>

definition lib_cpppath :: "nat \<Rightarrow> string \<Rightarrow> atom list \<times> cctx \<Rightarrow> (atom list \<times> cctx) result" where
  "lib_cpppath g lib = (\<lambda>(lst, st).
     rbind (env_get g (''CPPPATH_'' @ lib) st) (\<lambda>(v, st1).
       rmap (\<lambda>ps. (add_unique lst ps, st1)) (iter_val (the_heap st1) v)))"

definition include_path :: "cc_opts \<Rightarrow> nat \<Rightarrow> string \<Rightarrow> atom list \<times> cctx \<Rightarrow> (atom list \<times> cctx) result" where
  "include_path co g path = (\<lambda>(lst, st).
     if AStr path \<in> set lst then Inr (lst, st)
     else if co_go_absolute co \<or> \<not> isabs path then Inr (lst @ [AStr path], st)
     else rmap (\<lambda>st1. (lst, st1)) (env_prepend g ''CPPPATH'' (Atom (AStr path)) st))"

definition find_dir_st :: "cc_opts \<Rightarrow> nat \<Rightarrow> string \<Rightarrow> cctx \<Rightarrow> (nat option \<times> cctx) result" where
  "find_dir_st co r path st = rmap (\<lambda>(n, t). (n, st\<lparr>gx_tree := t\<rparr>)) (find_dir (co_fs co) r (split_path path) (gx_tree st))"

definition path_node :: "cc_opts \<Rightarrow> nat \<Rightarrow> string \<Rightarrow> cctx \<Rightarrow> (nat option \<times> cctx) result" where
  "path_node co g path st =
     (if isabs path then (if co_go_absolute co then find_dir_st co (co_root co) path st else Inr (None, st))
      else case path of
        [] \<Rightarrow> Inl IndexError
      | c # rst \<Rightarrow>
          if c = CHR ''#''
          then (if rst \<noteq> [] then find_dir_st co (gx_srcnode st) rst st else Inr (Some (gx_srcnode st), st))
          else find_dir_st co (tg_path (gen_at st g)) path st)"

definition add_inc_path :: "cc_opts \<Rightarrow> nat \<Rightarrow> atom \<Rightarrow> cctx \<Rightarrow> cctx result" where
  "add_inc_path co g a st =
     rbind (path_text a) (\<lambda>path.
       rbind (path_node co g path st) (\<lambda>(n, st1).
         case n of None \<Rightarrow> Inr st1 | Some x \<Rightarrow> env_append g ''INC_PATHS'' (Atom (AOther x)) st1))"

text \<open>\<open>USE_TOP_LEVEL\<close> is \<open>False\<close>.\<close>

definition apply_incpaths :: "cc_opts \<Rightarrow> nat \<Rightarrow> cctx \<Rightarrow> cctx result" where
  "apply_incpaths co g st =
     rbind (attr (cg_uselib (c_at st g))) (\<lambda>uselib.
       rbind (foldM (lib_cpppath g) (sval_list uselib) ([], st)) (\<lambda>(lst, st1).
         let lst1 = (if co_go_absolute co then add_unique lst (map AStr (co_standard_includes co)) else lst) in
         rbind (attr (cg_includes (c_at st1 g))) (\<lambda>includes.
           rbind (foldM (include_path co g) (sval_list includes) (lst1, st1)) (\<lambda>(lst2, st2).
             foldM (add_inc_path co g) lst2 st2))))"

text \<open>The uselib of a type is added to a text; a list cannot be added.\<close>

definition type_uselib :: "nat \<Rightarrow> string \<Rightarrow> cctx \<Rightarrow> cctx result" where
  "type_uselib g x st =
     rbind (env_get g (x @ ''_USELIB'') st) (\<lambda>(v, st1).
       if \<not> truthy (the_heap st1) v then Inr st1
       else rbind (attr (cg_uselib (c_at st1 g))) (\<lambda>u.
         case (u, v) of
           (SText s, Atom (AStr w)) \<Rightarrow> Inr (upd_c g (\<lambda>c. c\<lparr>cg_uselib := Some (SText (s @ '' '' @ w))\<rparr>) st1)
         | _ \<Rightarrow> Inl TypeError))"

text \<open>A variable that is appended to another one when it is set: \<open>self.env.append_value(v, self.env[var])\<close>.\<close>

definition append_var :: "nat \<Rightarrow> string \<Rightarrow> string \<Rightarrow> cctx \<Rightarrow> cctx result" where
  "append_var g v var st =
     rbind (env_get g var st) (\<lambda>(x, st1). if truthy (the_heap st1) x then env_append g v x st1 else Inr st1)"

definition apply_type_vars :: "nat \<Rightarrow> cctx \<Rightarrow> cctx result" where
  "apply_type_vars g st =
     foldM (\<lambda>f st1.
         if f \<notin> {''cprogram'', ''cstaticlib'', ''cshlib''} then Inr st1
         else rbind (type_uselib g (cc_suffix f) st1) (\<lambda>st2.
           rbind (attr (cg_p_type_vars (c_at st2 g))) (\<lambda>vars.
             foldM (\<lambda>var. append_var g var (cc_suffix f @ ''_'' @ var)) vars st2)))
       (sval_list (tg_features (gen_at st g))) st"

subsection \<open>The link task\<close>

fun first_outputs :: "nat list \<Rightarrow> cctx \<Rightarrow> nat list result" where
  "first_outputs [] st = Inr []"
| "first_outputs (t # ts) st =
     (case gt_outputs (gx_tasks st ! t) of [] \<Rightarrow> Inl IndexError | o0 # _ \<Rightarrow> rmap (Cons o0) (first_outputs ts st))"

definition apply_link :: "cc_opts \<Rightarrow> nat \<Rightarrow> cctx \<Rightarrow> cctx result" where
  "apply_link co g st =
     (let fs = sval_list (tg_features (gen_at st g));
          link = (case cg_link (c_at st g) of
              Some (c # s) \<Rightarrow> c # s
            | _ \<Rightarrow> if ''cstaticlib'' \<in> set fs then ''static_link'' else if ''cxx'' \<in> set fs then ''cxx_link'' else ''cc_link'')
      in rbind (create_task link [] [] g st) (\<lambda>(tsk, st1).
        rbind (attr (cg_compiled_tasks (c_at st1 g))) (\<lambda>compiled.
          rbind (first_outputs compiled st1) (\<lambda>outputs.
            let st2 = upd_task tsk (\<lambda>t. t\<lparr>gt_inputs := gt_inputs t @ outputs\<rparr>) st1 in
            rbind (get_target_name g st2) (\<lambda>(name, st3).
              rbind (find_or_declare (co_fs co) (tg_path (gen_at st3 g)) (split_path name) (gx_tree st3)) (\<lambda>(n, t).
                case n of
                  None \<Rightarrow> Inl AttributeError
                | Some x \<Rightarrow> Inr (upd_c g (\<lambda>c. c\<lparr>cg_link_task := Some tsk\<rparr>)
                    (upd_task tsk (\<lambda>k. k\<lparr>gt_outputs := gt_outputs k @ [x]\<rparr>) (st3\<lparr>gx_tree := t\<rparr>)))))))))"

subsection \<open>Libraries of the project\<close>

abbreviation find_gen :: "nat \<Rightarrow> string \<Rightarrow> cctx \<Rightarrow> nat option \<times> cctx" where
  "find_gen g name st \<equiv> name_to_obj name (tg_variant (gen_at st g)) st"

text \<open>The names without those of static libraries; a name that is not found has no attribute \<open>features\<close>.\<close>

fun drop_static :: "nat \<Rightarrow> string list \<Rightarrow> cctx \<Rightarrow> (string list \<times> cctx) result" where
  "drop_static g [] st = Inr ([], st)"
| "drop_static g (x # xs) st =
     (case find_gen g x st of
        (None, st1) \<Rightarrow> Inl AttributeError
      | (Some z, st1) \<Rightarrow>
          rmap (\<lambda>(r, st2). (if has_feature ''cstaticlib'' (tg_features (gen_at st1 z)) then r else x # r, st2)) (drop_static g xs st1))"

definition local_libs :: "nat \<Rightarrow> nat \<Rightarrow> cctx \<Rightarrow> (string list \<times> cctx) result" where
  "local_libs g y st =
     (case cg_uselib_local (c_at st y) of
        None \<Rightarrow> Inr ([], st)
      | Some v \<Rightarrow>
          let fs = tg_features (gen_at st y) in
          if \<not> sval_true v then Inr ([], st)
          else if has_feature ''cshlib'' fs \<or> has_feature ''cprogram'' fs then drop_static g (sval_list v) st
          else Inr (sval_list v, st))"

text \<open>The directory of the library goes to the front of the path, unless it is in the path.\<close>

definition add_link_path :: "nat \<Rightarrow> nat \<Rightarrow> cctx \<Rightarrow> cctx result" where
  "add_link_path g out st =
     rbind (attr (n_parent (node_at (gx_tree st) out))) (\<lambda>par.
       rbind (bldpath (gx_tree st) par (Some (tg_variant (gen_at st g)))) (\<lambda>tmp_path.
         rbind (env_get g ''LIBPATH'' st) (\<lambda>(v, st1).
           rbind (val_contains (the_heap st1) v tmp_path) (\<lambda>b.
             if b then Inr st1 else env_prepend g ''LIBPATH'' (Atom (AStr tmp_path)) st1))))"

text \<open>The order of the link tasks, and the nodes that make the link task run again.\<close>

definition link_after :: "nat \<Rightarrow> nat \<Rightarrow> cctx \<Rightarrow> cctx" where
  "link_after gt yt st =
     st\<lparr>gx_man := (gx_man st)\<lparr>after_of := set_run_after gt yt (after_of (gx_man st))\<rparr>,
        gx_tools := (gx_tools st)\<lparr>cw_dep_nodes :=
          (cw_dep_nodes (gx_tools st))(gt := cw_dep_nodes (gx_tools st) gt @ gt_outputs (gx_tasks st ! yt))\<rparr>\<rparr>"

definition link_library :: "nat \<Rightarrow> nat \<Rightarrow> cctx \<Rightarrow> cctx result" where
  "link_library g y st =
     (case cg_link_task (c_at st y) of
        None \<Rightarrow> Inr st
      | Some yt \<Rightarrow>
          rbind (target_text (tg_target (gen_at st y))) (\<lambda>target.
            let fs = tg_features (gen_at st y); link_name = Atom (AStr (basename target)) in
            rbind (if has_feature ''cstaticlib'' fs then env_append g ''STATICLIB'' link_name st
                   else if has_feature ''cshlib'' fs \<or> has_feature ''cprogram'' fs then env_append g ''LIB'' link_name st
                   else Inr st) (\<lambda>st1.
              rbind (attr (cg_link_task (c_at st1 g))) (\<lambda>gt.
                let st2 = link_after gt yt st1 in
                rbind (case gt_outputs (gx_tasks st2 ! yt) of [] \<Rightarrow> Inl IndexError | o0 # _ \<Rightarrow> Inr o0) (\<lambda>out.
                  add_link_path g out st2)))))"

text \<open>\<open>self.uselib\<close> is a list here.\<close>

definition propagate_uselib :: "nat \<Rightarrow> string \<Rightarrow> cctx \<Rightarrow> cctx result" where
  "propagate_uselib g v st =
     rbind (env_get g (''STATICLIB_'' @ v) st) (\<lambda>(x, st1).
       if truthy (the_heap st1) x then Inr st1
       else rmap (\<lambda>u. if v \<in> set (sval_list u) then st1
                      else upd_c g (\<lambda>c. c\<lparr>cg_uselib := Some (SList (v # sval_list u))\<rparr>) st1)
         (attr (cg_uselib (c_at st1 g))))"

definition export_incdir :: "cc_opts \<Rightarrow> nat \<Rightarrow> nat \<Rightarrow> string \<Rightarrow> cctx \<Rightarrow> cctx result" where
  "export_incdir co g y x st =
     rbind (find_dir_st co (tg_path (gen_at st y)) x st) (\<lambda>(n, st1).
       case n of
         None \<Rightarrow> Inl (WafError ''invalid folder in export_incdirs'')
       | Some d \<Rightarrow> env_append_unique g ''INC_PATHS'' (Atom (AOther d)) st1)"

text \<open>One library that was not visited before: the names it adds to the queue, and what it gives to the generator.\<close>

definition visit_lib :: "cc_opts \<Rightarrow> (nat \<Rightarrow> cctx \<Rightarrow> cctx result) \<Rightarrow> nat \<Rightarrow> string \<Rightarrow> cctx \<Rightarrow> (string list \<times> cctx) result" where
  "visit_lib co pst g lib_name st =
     (case find_gen g lib_name st of
        (None, st1) \<Rightarrow> Inl (WafError (''object '' @ lib_name @ '' was not found in uselib_local''))
      | (Some y, st1) \<Rightarrow>
          rbind (pst y st1) (\<lambda>st2.
            rbind (local_libs g y st2) (\<lambda>(more, st3).
              rbind (link_library g y st3) (\<lambda>st4.
                rbind (attr (cg_uselib (c_at st4 y))) (\<lambda>u.
                  rbind (foldM (propagate_uselib g) (sval_list u) st4) (\<lambda>st5.
                    rmap (Pair more)
                      (case cg_export_incdirs (c_at st5 y) of
                         None \<Rightarrow> Inr st5
                       | Some e \<Rightarrow> foldM (export_incdir co g y) (if sval_true e then sval_list e else []) st5)))))))"

text \<open>The loop over the queue; the names seen are returned in the order of the visits.\<close>

fun lib_loop :: "nat \<Rightarrow> cc_opts \<Rightarrow> (nat \<Rightarrow> cctx \<Rightarrow> cctx result) \<Rightarrow> nat \<Rightarrow> string list \<Rightarrow> string list \<Rightarrow> cctx \<Rightarrow>
    (string list \<times> cctx) result" where
  "lib_loop n co pst g seen [] st = Inr (seen, st)"
| "lib_loop 0 co pst g seen (x # tmp) st = Inl RuntimeError"
| "lib_loop (Suc n) co pst g seen (x # tmp) st =
     (if x \<in> set seen then lib_loop n co pst g seen tmp st
      else rbind (visit_lib co pst g x st) (\<lambda>(more, st1). lib_loop n co pst g (seen @ [x]) (tmp @ more) st1))"

definition apply_lib_vars :: "cc_opts \<Rightarrow> (nat \<Rightarrow> cctx \<Rightarrow> cctx result) \<Rightarrow> nat \<Rightarrow> cctx \<Rightarrow> cctx result" where
  "apply_lib_vars co pst g st =
     rbind (attr (cg_uselib (c_at st g))) (\<lambda>u.
       let st1 = upd_c g (\<lambda>c. c\<lparr>cg_uselib := Some (SList (sval_list u))\<rparr>) st in
       rbind (attr (cg_uselib_local (c_at st1 g))) (\<lambda>names.
         rbind (lib_loop (co_bound co) co pst g [] (sval_list names) st1) (\<lambda>(seen, st2).
           rbind (attr (cg_uselib (c_at st2 g))) (\<lambda>uselib.
             foldM (\<lambda>x st3. rbind (attr (cg_p_flag_vars (c_at st3 g))) (\<lambda>vars.
                 foldM (\<lambda>v. append_var g v (v @ ''_'' @ x)) vars st3)) (sval_list uselib) st2))))"

subsection \<open>Objects of other generators\<close>

text \<open>
  \<open>to_list\<close> gives the list of the attribute itself, which \<open>reverse\<close> turns around in its place; the names are then
  put in front one by one, so they stand in the order the attribute had.
\<close>

definition objects_of :: "nat \<Rightarrow> cctx \<Rightarrow> string list \<times> cctx" where
  "objects_of y st =
     (case cg_add_objects (c_at st y) of
        None \<Rightarrow> ([], st)
      | Some (SText s) \<Rightarrow> (py_split_ws s, st)
      | Some (SList l) \<Rightarrow> (l, upd_c y (\<lambda>c. c\<lparr>cg_add_objects := Some (SList (rev l))\<rparr>) st))"

definition add_inputs :: "nat \<Rightarrow> nat \<Rightarrow> cctx \<Rightarrow> cctx result" where
  "add_inputs g t st =
     rmap (\<lambda>gt. upd_task gt (\<lambda>k. k\<lparr>gt_inputs := gt_inputs k @ gt_outputs (gx_tasks st ! t)\<rparr>) st) (attr (cg_link_task (c_at st g)))"

definition take_objects :: "(nat \<Rightarrow> cctx \<Rightarrow> cctx result) \<Rightarrow> nat \<Rightarrow> nat \<Rightarrow> cctx \<Rightarrow> cctx result" where
  "take_objects pst g y st =
     rbind (pst y st) (\<lambda>st1. rbind (attr (cg_compiled_tasks (c_at st1 y))) (\<lambda>ts. foldM (add_inputs g) ts st1))"

text \<open>A generator by its name, with the objects it wants before it.\<close>

definition obj_look :: "nat \<Rightarrow> string \<Rightarrow> cctx \<Rightarrow> (nat \<times> string list \<times> cctx) result" where
  "obj_look g x st =
     (case find_gen g x st of
        (None, st1) \<Rightarrow> Inl (WafError (''object '' @ x @ '' was not found in uselib_local''))
      | (Some y, st1) \<Rightarrow> Inr (y, if attr_true (cg_add_objects (c_at st1 y)) then objects_of y st1 else ([], st1)))"

text \<open>The loop over the stack; the names seen are returned in the order of the visits.\<close>

fun obj_loop :: "nat \<Rightarrow> (nat \<Rightarrow> cctx \<Rightarrow> cctx result) \<Rightarrow> nat \<Rightarrow> string list \<Rightarrow> string list \<Rightarrow> cctx \<Rightarrow> (string list \<times> cctx) result" where
  "obj_loop n pst g seen [] st = Inr (seen, st)"
| "obj_loop 0 pst g seen (x # names) st = Inl RuntimeError"
| "obj_loop (Suc n) pst g seen (x # names) st =
     (if x \<in> set seen then obj_loop n pst g seen names st
      else rbind (obj_look g x st) (\<lambda>(y, lst, st1).
        let added = filter (\<lambda>u. u \<notin> set seen) lst in
        if added \<noteq> [] then obj_loop n pst g seen (added @ x # names) st1
        else rbind (take_objects pst g y st1) (\<lambda>st2. obj_loop n pst g (seen @ [x]) (x # names) st2)))"

definition apply_objdeps :: "cc_opts \<Rightarrow> (nat \<Rightarrow> cctx \<Rightarrow> cctx result) \<Rightarrow> nat \<Rightarrow> cctx \<Rightarrow> cctx result" where
  "apply_objdeps co pst g st =
     (case cg_add_objects (c_at st g) of
        None \<Rightarrow> Inr st
      | Some v \<Rightarrow> if \<not> sval_true v then Inr st else rmap snd (obj_loop (co_bound co) pst g [] (sval_list v) st))"

text \<open>A file that is not found puts \<open>None\<close> among the inputs, and its first use raises \<open>AttributeError\<close>, which is raised here at once.\<close>

definition process_obj_files :: "cc_opts \<Rightarrow> nat \<Rightarrow> cctx \<Rightarrow> cctx result" where
  "process_obj_files co g st =
     (case cg_obj_files (c_at st g) of
        None \<Rightarrow> Inr st
      | Some fs \<Rightarrow>
          foldM (\<lambda>x st1.
              rbind (find_resource (co_fs co) (tg_path (gen_at st1 g)) (split_path x) (gx_tree st1)) (\<lambda>(n, t).
                rbind (attr (cg_link_task (c_at st1 g))) (\<lambda>gt.
                  case n of
                    None \<Rightarrow> Inl AttributeError
                  | Some r \<Rightarrow> Inr (upd_task gt (\<lambda>k. k\<lparr>gt_inputs := gt_inputs k @ [r]\<rparr>) (st1\<lparr>gx_tree := t\<rparr>))))) fs st)"

definition add_obj_file :: "string \<Rightarrow> nat \<Rightarrow> cctx \<Rightarrow> cctx" where
  "add_obj_file file g st =
     upd_c g (\<lambda>c. c\<lparr>cg_obj_files := Some ((case cg_obj_files c of None \<Rightarrow> [] | Some l \<Rightarrow> l) @ [file])\<rparr>)
       (if ''process_obj_files'' \<in> set (tg_meths (gen_at st g)) then st
        else upd_gen g (\<lambda>y. y\<lparr>tg_meths := tg_meths y @ [''process_obj_files'']\<rparr>) st)"

subsection \<open>Flags\<close>

definition link_flag :: "nat \<Rightarrow> val \<Rightarrow> atom \<Rightarrow> cctx \<Rightarrow> cctx result" where
  "link_flag g pattern i st =
     rbind (val_percent pattern i) (\<lambda>w. env_append_unique g ''LINKFLAGS'' (Atom (AStr w)) st)"

definition link_marker :: "nat \<Rightarrow> string \<Rightarrow> cctx \<Rightarrow> cctx result" where
  "link_marker g var st = rbind (env_get g var st) (\<lambda>(v, st1). env_append g ''LINKFLAGS'' v st1)"

text \<open>The members of a variable, and whether it is true.\<close>

definition env_iter :: "nat \<Rightarrow> string \<Rightarrow> cctx \<Rightarrow> (atom list \<times> cctx) result" where
  "env_iter g var st = rbind (env_get g var st) (\<lambda>(v, st1). rmap (\<lambda>l. (l, st1)) (iter_val (the_heap st1) v))"

definition env_true :: "nat \<Rightarrow> string \<Rightarrow> cctx \<Rightarrow> (bool \<times> cctx) result" where
  "env_true g var st = rmap (\<lambda>(v, st1). (truthy (the_heap st1) v, st1)) (env_get g var st)"

definition lib_flags :: "nat \<Rightarrow> val \<Rightarrow> string \<Rightarrow> cctx \<Rightarrow> cctx result" where
  "lib_flags g pattern var st =
     rbind (env_iter g var st) (\<lambda>(l, st1).
       rbind (mapM (val_percent pattern) l) (\<lambda>ws. env_append_unique_list g ''LINKFLAGS'' ws st1))"

definition apply_obj_vars :: "nat \<Rightarrow> cctx \<Rightarrow> cctx result" where
  "apply_obj_vars g st0 =
     rbind (env_get g ''LIB_ST'' st0) (\<lambda>(lib_st, st1).
     rbind (env_get g ''STATICLIB_ST'' st1) (\<lambda>(staticlib_st, st2).
     rbind (env_get g ''LIBPATH_ST'' st2) (\<lambda>(libpath_st, st3).
     rbind (env_get g ''STATICLIBPATH_ST'' st3) (\<lambda>(staticlibpath_st, st4).
     rbind (env_get g ''RPATH_ST'' st4) (\<lambda>(rpath_st, st5).
     rbind (env_true g ''FULLSTATIC'' st5) (\<lambda>(full, st6).
     rbind (if full then link_marker g ''FULLSTATIC_MARKER'' st6 else Inr st6) (\<lambda>st7.
     rbind (env_iter g ''RPATH'' st7) (\<lambda>(rpath, st8).
     rbind (foldM (\<lambda>i st. if truthy (the_heap st) (Atom i) \<and> truthy (the_heap st) rpath_st then link_flag g rpath_st i st else Inr st)
       rpath st8) (\<lambda>st9.
     rbind (env_iter g ''LIBPATH'' st9) (\<lambda>(libpath, st10).
     rbind (foldM (\<lambda>i st. rbind (link_flag g libpath_st i st) (link_flag g staticlibpath_st i)) libpath st10) (\<lambda>st11.
     rbind (env_true g ''STATICLIB'' st11) (\<lambda>(static, st12).
     rbind (if static then rbind (link_marker g ''STATICLIB_MARKER'' st12) (lib_flags g staticlib_st ''STATICLIB'') else Inr st12) (\<lambda>st13.
     rbind (env_true g ''LIB'' st13) (\<lambda>(lib, st14).
     rbind (if \<not> full \<and> (static \<or> lib) then link_marker g ''SHLIB_MARKER'' st14 else Inr st14) (\<lambda>st15.
     lib_flags g lib_st ''LIB'' st15)))))))))))))))"

definition c_attr_vars :: "(string \<times> string) list" where
  "c_attr_vars = [(''cxxflag'', ''CXXFLAGS''), (''cflag'', ''CCFLAGS''), (''ccflag'', ''CCFLAGS''), (''linkflag'', ''LINKFLAGS''),
     (''ldflag'', ''LINKFLAGS''), (''lib'', ''LIB''), (''libpath'', ''LIBPATH''), (''staticlib'', ''STATICLIB''),
     (''staticlibpath'', ''STATICLIBPATH''), (''rpath'', ''RPATH''), (''framework'', ''FRAMEWORK''),
     (''frameworkpath'', ''FRAMEWORKPATH'')]"

definition flag_key :: "string \<Rightarrow> string" where
  "flag_key x = (let y = py_lower x in if y \<noteq> [] \<and> last y = CHR ''s'' then butlast y else y)"

definition add_extra_flags :: "nat \<Rightarrow> cctx \<Rightarrow> cctx result" where
  "add_extra_flags g st =
     foldM (\<lambda>(x, v) st1. case map_of c_attr_vars (flag_key x) of
         None \<Rightarrow> Inr st1
       | Some var \<Rightarrow> env_append_unique g var v st1) (cg_dict (c_at st g)) st"

subsection \<open>The scanner\<close>

definition scan_input :: "pp_env \<Rightarrow> string list \<Rightarrow> nat list \<Rightarrow> nat \<Rightarrow> (nat list \<times> string list) \<times> pcache \<times> ntree \<Rightarrow>
    ((nat list \<times> string list) \<times> pcache \<times> ntree) result" where
  "scan_input e deflines inc_paths node = (\<lambda>((all_nodes, all_names), pc, t).
     rmap (\<lambda>((nodes, names), pc1, t1).
         ((fold (\<lambda>x l. if x \<in> set l then l else l @ [x]) nodes all_nodes,
           fold (\<lambda>x l. if x \<in> set l then l else l @ [x]) names all_names), pc1, t1))
       (get_deps e deflines node inc_paths pc t))"

definition scan :: "pp_env \<Rightarrow> string list \<Rightarrow> nat list \<Rightarrow> nat list \<Rightarrow> pcache \<Rightarrow> ntree \<Rightarrow>
    ((nat list \<times> string list) \<times> pcache \<times> ntree) result" where
  "scan e deflines inc_paths inputs pc t =
     (case inputs of
        [node] \<Rightarrow> get_deps e deflines node inc_paths pc t
      | _ \<Rightarrow> foldM (scan_input e deflines inc_paths) inputs (([], []), pc, t))"

subsection \<open>Registration\<close>

definition link_features :: "string list" where
  "link_features = [''cprogram'', ''dprogram'', ''cstaticlib'', ''dstaticlib'', ''cshlib'', ''dshlib'']"

text \<open>The decorators of the module, in the order in which Python applies them.\<close>

definition ccroot_class :: "tg_class \<Rightarrow> tg_class" where
  "ccroot_class c =
     (let c = feature [''cc'', ''cxx''] ''default_cc'' (before [''apply_core''] ''default_cc'' c);
          c = feature link_features ''apply_verif'' c;
          c = feature [''cprogram'', ''dprogram''] ''vars_target_cprogram''
            (after_deco [''default_cc''] ''vars_target_cprogram'' (before [''apply_core''] ''vars_target_cprogram'' c));
          c = after_deco [''default_cc''] ''vars_target_cshlib''
            (feature [''cshlib'', ''dshlib''] ''vars_target_cshlib'' (before [''apply_core''] ''vars_target_cshlib'' c));
          c = feature link_features ''default_link_install''
            (after_deco [''apply_link'', ''vars_target_cprogram'', ''vars_target_cshlib''] ''default_link_install'' c);
          c = feature [''cc'', ''cxx''] ''apply_incpaths'' (after_deco [''apply_type_vars'', ''apply_lib_vars'', ''apply_core''] ''apply_incpaths'' c);
          c = feature [''cc'', ''cxx''] ''apply_type_vars''
            (after_deco [''init_cc'', ''init_cxx''] ''apply_type_vars'' (before [''apply_lib_vars''] ''apply_type_vars'' c));
          c = feature [''cprogram'', ''cshlib'', ''cstaticlib''] ''apply_link'' (after_deco [''apply_core''] ''apply_link'' c);
          c = feature [''cc'', ''cxx''] ''apply_lib_vars''
            (after_deco [''apply_link'', ''init_cc'', ''init_cxx'', ''apply_core''] ''apply_lib_vars'' c);
          c = feature [''cprogram'', ''cstaticlib'', ''cshlib''] ''apply_objdeps''
            (after_deco [''init_cc'', ''init_cxx'', ''apply_link''] ''apply_objdeps'' c);
          c = feature [''cprogram'', ''cshlib'', ''cstaticlib''] ''apply_obj_vars'' (after_deco [''apply_lib_vars''] ''apply_obj_vars'' c);
          c = after_deco [''apply_link''] ''process_obj_files'' c;
          c = taskgen ''add_obj_file'' c;
          c = feature [''cc'', ''cxx''] ''add_extra_flags''
            (before [''init_cxx'', ''init_cc''] ''add_extra_flags''
              (before [''apply_lib_vars'', ''apply_obj_vars'', ''apply_incpaths'', ''init_cc''] ''add_extra_flags'' c));
          c = feature [''cshlib''] ''apply_implib''
            (after_deco [''apply_link'', ''default_cc''] ''apply_implib''
              (before [''apply_lib_vars'', ''apply_objdeps'', ''default_link_install''] ''apply_implib'' c))
      in feature [''cshlib''] ''apply_vnum''
           (after_deco [''apply_link''] ''apply_vnum'' (before [''apply_lib_vars'', ''default_link_install''] ''apply_vnum'' c)))"

text \<open>The methods by name; \<open>others\<close> are those of other tools and the methods that install files (\<open>Waf_Ccinstall\<close>).\<close>

definition cc_meth :: "cc_opts \<Rightarrow> (string \<Rightarrow> (nat \<Rightarrow> cctx \<Rightarrow> cctx result) \<Rightarrow> nat \<Rightarrow> cctx \<Rightarrow> cctx result) \<Rightarrow>
    string \<Rightarrow> (nat \<Rightarrow> cctx \<Rightarrow> cctx result) \<Rightarrow> nat \<Rightarrow> cctx \<Rightarrow> cctx result" where
  "cc_meth co others x pst g st =
     (if x = ''default_cc'' then default_cc co g st
      else if x = ''apply_verif'' then apply_verif g st
      else if x = ''vars_target_cprogram'' then vars_target_cprogram g st
      else if x = ''vars_target_cshlib'' then vars_target_cshlib g st
      else if x = ''apply_incpaths'' then apply_incpaths co g st
      else if x = ''apply_type_vars'' then apply_type_vars g st
      else if x = ''apply_link'' then apply_link co g st
      else if x = ''apply_lib_vars'' then apply_lib_vars co pst g st
      else if x = ''apply_objdeps'' then apply_objdeps co pst g st
      else if x = ''apply_obj_vars'' then apply_obj_vars g st
      else if x = ''process_obj_files'' then process_obj_files co g st
      else if x = ''add_extra_flags'' then add_extra_flags g st
      else others x pst g st)"

section \<open>The traversals\<close>

text \<open>What the methods of one generator leave alone in the others.\<close>

definition gview :: "cctx \<Rightarrow> (string \<times> nat) list \<times> tgen list \<times> (nat \<Rightarrow> sval option \<times> sval option)" where
  "gview st = (gx_names st, gx_gens st, \<lambda>y. (cg_uselib_local (c_at st y), cg_add_objects (c_at st y)))"

lemma gview_simps [simp]:
  "gview (set_heap h st) = gview st"
  "gview (st\<lparr>gx_tree := t\<rparr>) = gview st"
  "gview (upd_task x f' st) = gview st"
  by (simp_all add: gview_def set_heap_def c_at_def upd_task_def)

lemma gview_upd_c:
  assumes "\<And>c. cg_uselib_local (f c) = cg_uselib_local c" and "\<And>c. cg_add_objects (f c) = cg_add_objects c"
  shows "gview (upd_c g f st) = gview st"
  by (simp add: gview_def upd_c_def c_at_def fun_eq_iff assms)

lemma gview_foldM:
  assumes "foldM f xs s = Inr s'" and "\<And>x u u'. f x u = Inr u' \<Longrightarrow> gview u' = gview u"
  shows "gview s' = gview s"
  using assms(1)
proof (induction xs arbitrary: s)
  case (Cons x xs)
  then obtain u where "f x s = Inr u" "foldM f xs u = Inr s'" by (auto simp: rbind_Inr_iff)
  then show ?case using Cons.IH[of u] assms(2)[of x s u] by simp
qed simp

lemma gview_env:
  "env_get g k st = Inr (v, st') \<Longrightarrow> gview st' = gview st"
  "env_append g k v st = Inr st' \<Longrightarrow> gview st' = gview st"
  "env_prepend g k v st = Inr st' \<Longrightarrow> gview st' = gview st"
  "env_append_unique g k v st = Inr st' \<Longrightarrow> gview st' = gview st"
  by (auto simp: env_get_def env_append_def env_prepend_def env_append_unique_def rmap_Inr_iff)

lemma gview_link_path: "add_link_path g out st = Inr st' \<Longrightarrow> gview st' = gview st"
  by (auto simp: add_link_path_def rbind_Inr_iff dest!: gview_env split: if_splits)

lemma gview_link_after [simp]: "gview (link_after gt yt st) = gview st"
  by (simp add: link_after_def gview_def c_at_def)

lemma gview_link_library: "link_library g y st = Inr st' \<Longrightarrow> gview st' = gview st"
  by (auto simp: link_library_def rbind_Inr_iff Let_def dest!: gview_env gview_link_path split: option.splits if_splits)

lemma gview_propagate: "propagate_uselib g v st = Inr st' \<Longrightarrow> gview st' = gview st"
  by (auto simp: propagate_uselib_def rbind_Inr_iff rmap_Inr_iff gview_upd_c dest!: gview_env split: if_splits)

lemma gview_export: "export_incdir co g y x st = Inr st' \<Longrightarrow> gview st' = gview st"
  by (auto simp: export_incdir_def find_dir_st_def rbind_Inr_iff rmap_Inr_iff dest!: gview_env split: option.splits)

lemma find_gen_cached: "gx_names st \<noteq> [] \<Longrightarrow> name_to_obj x v st = (map_of (gx_names st) (gen_key v x), st)"
  by (simp add: name_to_obj_def)

subsection \<open>Libraries\<close>

text \<open>The dependencies between libraries: the index of the names, and per generator the variant, the features and \<open>uselib_local\<close>.\<close>

type_synonym lib_info = "(string \<times> nat) list \<times> (nat \<Rightarrow> string \<times> sval \<times> sval option)"

definition lib_view :: "cctx \<Rightarrow> lib_info" where
  "lib_view st = (gx_names st, \<lambda>y. (tg_variant (gen_at st y), tg_features (gen_at st y), cg_uselib_local (c_at st y)))"

definition lib_gen :: "nat \<Rightarrow> lib_info \<Rightarrow> string \<Rightarrow> nat option" where
  "lib_gen g v x = map_of (fst v) (gen_key (fst (snd v g)) x)"

definition is_static :: "nat \<Rightarrow> lib_info \<Rightarrow> string \<Rightarrow> bool" where
  "is_static g v x = (case lib_gen g v x of None \<Rightarrow> True | Some z \<Rightarrow> has_feature ''cstaticlib'' (fst (snd (snd v z))))"

text \<open>The libraries that a library brings with it: those of a shared library or a program without the static ones.\<close>

definition lib_deps :: "nat \<Rightarrow> lib_info \<Rightarrow> string \<Rightarrow> string list" where
  "lib_deps g v x =
     (case lib_gen g v x of
        None \<Rightarrow> []
      | Some y \<Rightarrow>
          (case snd v y of
             (_, fs, None) \<Rightarrow> []
           | (_, fs, Some u) \<Rightarrow>
               if \<not> sval_true u then []
               else if has_feature ''cshlib'' fs \<or> has_feature ''cprogram'' fs
               then filter (\<lambda>z. \<not> is_static g v z) (sval_list u) else sval_list u))"

definition keeps_libs :: "(nat \<Rightarrow> cctx \<Rightarrow> cctx result) \<Rightarrow> bool" where
  "keeps_libs pst \<longleftrightarrow> (\<forall>y s s'. pst y s = Inr s' \<longrightarrow> lib_view s' = lib_view s)"

lemma gview_lib_view: "gview s' = gview s \<Longrightarrow> lib_view s' = lib_view s"
  by (auto simp: gview_def lib_view_def gen_at_def fun_eq_iff)

lemma drop_static_result:
  assumes "gx_names st \<noteq> []"
  shows "drop_static g xs st = Inr (r, st') \<Longrightarrow> st' = st \<and> r = filter (\<lambda>z. \<not> is_static g (lib_view st) z) xs"
proof (induction xs arbitrary: r)
  case (Cons x xs)
  then obtain z where z: "map_of (gx_names st) (gen_key (tg_variant (gen_at st g)) x) = Some z"
    by (auto simp: find_gen_cached[OF assms] split: option.splits)
  with Cons.prems obtain r' where r': "drop_static g xs st = Inr (r', st')"
    and r: "r = (if has_feature ''cstaticlib'' (tg_features (gen_at st z)) then r' else x # r')"
    by (auto simp: find_gen_cached[OF assms] rmap_Inr_iff)
  with Cons.IH[OF r'] z show ?case by (simp add: is_static_def lib_gen_def lib_view_def)
qed simp

lemma local_libs_result:
  assumes "gx_names st \<noteq> []" and "local_libs g y st = Inr (lst, st')" and "lib_gen g (lib_view st) x = Some y"
  shows "st' = st \<and> lst = lib_deps g (lib_view st) x"
  using assms(2) drop_static_result[OF assms(1), of g _ lst st'] assms(3)
  by (auto simp: local_libs_def lib_deps_def lib_view_def Let_def split: option.splits if_splits)

lemma visit_lib_keeps:
  assumes "keeps_libs pst" and "fst (lib_view st) \<noteq> []" and "visit_lib co pst g x st = Inr (lst, st')"
  shows "lst = lib_deps g (lib_view st) x \<and> lib_view st' = lib_view st"
proof -
  have ne: "gx_names st \<noteq> []" using assms(2) by (simp add: lib_view_def)
  from assms(3) obtain y st2 st3 st4 st5 u where y: "map_of (gx_names st) (gen_key (tg_variant (gen_at st g)) x) = Some y"
    and p: "pst y st = Inr st2" and l: "local_libs g y st2 = Inr (lst, st3)" and k: "link_library g y st3 = Inr st4"
    and f: "foldM (propagate_uselib g) (sval_list u) st4 = Inr st5"
    and e: "(case cg_export_incdirs (c_at st5 y) of None \<Rightarrow> Inr st5
        | Some e \<Rightarrow> foldM (export_incdir co g y) (if sval_true e then sval_list e else []) st5) = Inr st'"
    by (auto simp: visit_lib_def find_gen_cached[OF ne] rbind_Inr_iff rmap_Inr_iff split: option.splits)
  have v2: "lib_view st2 = lib_view st" using assms(1) p unfolding keeps_libs_def by blast
  then have ne2: "gx_names st2 \<noteq> []" using ne by (simp add: lib_view_def)
  have g: "lib_gen g (lib_view st2) x = Some y" unfolding v2 using y by (simp add: lib_gen_def lib_view_def)
  from local_libs_result[OF ne2 l g] have m: "st3 = st2" "lst = lib_deps g (lib_view st2) x" by simp_all
  have "gview st5 = gview st4" using f by (rule gview_foldM) (rule gview_propagate)
  moreover have "gview st' = gview st5" using e gview_foldM[OF _ gview_export] by (auto split: option.splits)
  ultimately have "gview st' = gview st2" using gview_link_library[OF k] m(1) by simp
  then have "lib_view st' = lib_view st2" by (rule gview_lib_view)
  with m(2) v2 show ?thesis by simp
qed

lemma finite_indexed: "finite {x. map_of d (gen_key v x) \<noteq> None}"
proof -
  have "inj (gen_key v)" by (simp add: inj_def gen_key_def)
  moreover have "{x. map_of d (gen_key v x) \<noteq> None} = gen_key v -` dom (map_of d)" by auto
  ultimately show ?thesis by (simp add: finite_vimageI finite_dom_map_of)
qed

lemma finite_lib_deps: "finite {x. lib_deps g v x \<noteq> []}"
  by (rule finite_subset[OF _ finite_indexed[of "fst v" "fst (snd v g)"]])
    (auto simp: lib_deps_def lib_gen_def split: option.splits)

interpretation lq: queue_visit "\<lambda>pst. visit_lib co pst g" "\<lambda>pst n. lib_loop n co pst g" keeps_libs "\<lambda>v. fst v \<noteq> []" lib_view
    "lib_deps g" for co g
  by (unfold_locales; (rule lib_loop.simps finite_lib_deps | erule visit_lib_keeps, assumption+))

definition libs_reached :: "nat \<Rightarrow> cctx \<Rightarrow> string list \<Rightarrow> string set" where
  "libs_reached g st names = (dep_rel (\<lambda>x. set (lib_deps g (lib_view st) x)))\<^sup>* `` set names"


subsection \<open>Objects\<close>

type_synonym obj_info = "(string \<times> nat) list \<times> (nat \<Rightarrow> string) \<times> (nat \<Rightarrow> string set)"

definition obj_view :: "cctx \<Rightarrow> obj_info" where
  "obj_view st = (gx_names st, \<lambda>y. tg_variant (gen_at st y),
     \<lambda>y. case cg_add_objects (c_at st y) of None \<Rightarrow> {} | Some v \<Rightarrow> set (sval_list v))"

definition obj_deps :: "nat \<Rightarrow> obj_info \<Rightarrow> string \<Rightarrow> string set" where
  "obj_deps g v x = (case map_of (fst v) (gen_key (fst (snd v) g) x) of None \<Rightarrow> {} | Some y \<Rightarrow> snd (snd v) y)"

definition keeps_objs :: "(nat \<Rightarrow> cctx \<Rightarrow> cctx result) \<Rightarrow> bool" where
  "keeps_objs pst \<longleftrightarrow> (\<forall>y s s'. pst y s = Inr s' \<longrightarrow> obj_view s' = obj_view s)"

lemma gview_obj_view: "gview s' = gview s \<Longrightarrow> obj_view s' = obj_view s"
  by (auto simp: gview_def obj_view_def gen_at_def fun_eq_iff)

lemma objects_of_result:
  assumes "objects_of y st = (lst, st')" and "attr_true (cg_add_objects (c_at st y))"
  shows "set lst = snd (snd (obj_view st)) y \<and> obj_view st' = obj_view st"
proof -
  have flip: "obj_view (upd_c y (\<lambda>c. c\<lparr>cg_add_objects := Some (SList (rev l))\<rparr>) st) = obj_view st"
    if "cg_add_objects (c_at st y) = Some (SList l)" for l
    using that by (auto simp: obj_view_def upd_c_def c_at_def gen_at_def fun_eq_iff)
  from assms show ?thesis
    by (auto simp: objects_of_def attr_true_def flip split: option.splits sval.splits) (auto simp: obj_view_def)
qed

lemma obj_look_keeps:
  assumes "fst (obj_view st) \<noteq> []" and "obj_look g x st = Inr (y, lst, st')"
  shows "set lst = obj_deps g (obj_view st) x \<and> obj_view st' = obj_view st"
proof -
  have ne: "gx_names st \<noteq> []" using assms(1) by (simp add: obj_view_def)
  from assms(2) have y: "map_of (gx_names st) (gen_key (tg_variant (gen_at st g)) x) = Some y"
    and l: "(lst, st') = (if attr_true (cg_add_objects (c_at st y)) then objects_of y st else ([], st))"
    by (auto simp: obj_look_def find_gen_cached[OF ne] split: option.splits)
  have d: "obj_deps g (obj_view st) x = snd (snd (obj_view st)) y" using y by (simp add: obj_deps_def obj_view_def)
  show ?thesis
  proof (cases "attr_true (cg_add_objects (c_at st y))")
    case True
    with l objects_of_result[of y st lst st'] d show ?thesis by simp
  next
    case False
    then have "snd (snd (obj_view st)) y = {}"
      by (auto simp: obj_view_def attr_true_def py_split_ws_def split: option.splits sval.splits elim!: sval_true.elims)
    with False l d show ?thesis by simp
  qed
qed

lemma take_objects_keeps:
  assumes "keeps_objs pst" and "take_objects pst g y st = Inr st'"
  shows "obj_view st' = obj_view st"
proof -
  from assms(2) obtain st1 ts where p: "pst y st = Inr st1" and f: "foldM (add_inputs g) ts st1 = Inr st'"
    by (auto simp: take_objects_def rbind_Inr_iff)
  have "gview st' = gview st1" using f by (rule gview_foldM) (auto simp: add_inputs_def rmap_Inr_iff)
  then have "obj_view st' = obj_view st1" by (rule gview_obj_view)
  moreover have "obj_view st1 = obj_view st" using assms(1) p unfolding keeps_objs_def by blast
  ultimately show ?thesis by simp
qed

text \<open>The index is there, and every generator has finitely many objects.\<close>

definition obj_good :: "obj_info \<Rightarrow> bool" where
  "obj_good v \<longleftrightarrow> fst v \<noteq> [] \<and> (\<forall>y. finite (snd (snd v) y))"

lemma finite_obj_deps: "obj_good v \<Longrightarrow> finite {x. obj_deps g v x \<noteq> {}}" "obj_good v \<Longrightarrow> finite (obj_deps g v x)"
proof -
  show "finite {x. obj_deps g v x \<noteq> {}}"
    by (rule finite_subset[OF _ finite_indexed[of "fst v" "fst (snd v) g"]]) (auto simp: obj_deps_def split: option.splits)
  show "obj_good v \<Longrightarrow> finite (obj_deps g v x)" by (auto simp: obj_deps_def obj_good_def split: option.splits)
qed

lemma obj_good_view: "gx_names st \<noteq> [] \<Longrightarrow> obj_good (obj_view st)"
  by (auto simp: obj_good_def obj_view_def split: option.splits)

interpretation os: stack_visit "\<lambda>pst. obj_look g" "\<lambda>pst. take_objects pst g" "\<lambda>pst n. obj_loop n pst g" keeps_objs obj_good obj_view
    "obj_deps g" for g
proof (unfold_locales, goal_cases)
  case (4 s p x y lst s1)
  then show ?case using obj_look_keeps[of s g x y lst s1] by (simp add: obj_good_def)
next
  case (5 p s y s1)
  then show ?case using take_objects_keeps by blast
qed (simp_all add: finite_obj_deps Let_def)

definition objs_reached :: "nat \<Rightarrow> cctx \<Rightarrow> string list \<Rightarrow> string set" where
  "objs_reached g st names = (dep_rel (obj_deps g (obj_view st)))\<^sup>* `` set names"

lemma objs_reached_eq: "objs_reached g st names = stack_visit.reach (obj_deps g) (obj_view st) names"
  unfolding objs_reached_def os.reach_def ..



subsection \<open>Examples\<close>

lemma acyclic_rank: "(\<And>a b. (a, b) \<in> r \<Longrightarrow> f a < (f b :: nat)) \<Longrightarrow> acyclic r"
  by (rule acyclic_subset[OF wf_acyclic[OF wf_measure[of f]]]) auto

text \<open>A program and two libraries, \<open>a\<close> and \<open>b\<close>; \<open>a\<close> needs \<open>b\<close>.\<close>

definition cc_blank :: cgen where
  "cc_blank = \<lparr>cg_env = 0, cg_includes = None, cg_defines = None, cg_rpaths = None, cg_uselib = Some (SText []),
     cg_uselib_local = None, cg_add_objects = None, cg_p_flag_vars = None, cg_p_type_vars = None, cg_compiled_tasks = Some [],
     cg_link_task = None, cg_export_incdirs = None, cg_obj_files = None, cg_link = None, cg_vnum = None,
     cg_default_install_path = None, cg_default_chmod = None, cg_dict = []\<rparr>"

definition cc_sample :: "(nat \<Rightarrow> cgen) \<Rightarrow> cctx" where
  "cc_sample cg = \<lparr>gx_class = class_init, gx_gens = [ex_gen, ex_gen, ex_gen], gx_tasks = [], gx_kinds = Map.empty, gx_man = TaskManager,
     gx_tree = small_tree, gx_path = 1, gx_idx = (\<lambda>_. 1), gx_prev = None,
     gx_names = [(''default_a'', 1), (''default_b'', 2)], gx_is_install = 0, gx_srcnode = 1, gx_bldnode = 2, gx_log = [],
     gx_tools = \<lparr>cw_gens = cg, cw_heap = \<lparr>envs = Map.empty, lists = Map.empty, next_env = 0, next_list = 0\<rparr>,
       cw_dep_nodes = (\<lambda>_. []), cw_calls = []\<rparr>\<rparr>"

definition cc_libs :: cctx where
  "cc_libs = cc_sample ((\<lambda>_. cc_blank)(1 := cc_blank\<lparr>cg_uselib_local := Some (SText ''b'')\<rparr>))"

definition cc_objs :: "string \<Rightarrow> cctx" where
  "cc_objs w = cc_sample ((\<lambda>_. cc_blank)(1 := cc_blank\<lparr>cg_add_objects := Some (SList [''b''])\<rparr>,
     2 := cc_blank\<lparr>cg_add_objects := Some (SText w)\<rparr>))"

definition cc_sample_opts :: cc_opts where
  "cc_sample_opts = \<lparr>co_bound = 5, co_fs = small_fs, co_go_absolute = False, co_standard_includes = [], co_root = 0, co_platform = ''linux'', co_os_name = ''posix''\<rparr>"

lemma posted_keeps: "keeps_libs (\<lambda>y s. Inr s)" "keeps_objs (\<lambda>y s. Inr s)"
  by (simp_all add: keeps_libs_def keeps_objs_def)

lemma split_ws_b: "py_split_ws ''b'' = [''b'']" "py_split_ws ''a'' = [''a'']" "py_split_ws [] = []"
  by code_simp+

lemma cc_libs_deps: "lib_deps 0 (lib_view cc_libs) x = (if x = ''a'' then [''b''] else [])"
proof -
  have "fst (lib_view cc_libs) = [(''default_a'', 1), (''default_b'', 2)]" "fst (snd (lib_view cc_libs) 0) = ''default''"
    by (simp_all add: lib_view_def cc_libs_def cc_sample_def gen_at_def ex_gen_def)
  then have "lib_gen 0 (lib_view cc_libs) x = (if x = ''a'' then Some 1 else if x = ''b'' then Some 2 else None)"
    by (auto simp: lib_gen_def gen_key_def)
  moreover have "snd (lib_view cc_libs) 1 = (''default'', SList [], Some (SText ''b''))" "snd (snd (snd (lib_view cc_libs) 2)) = None"
    by (simp_all add: lib_view_def cc_libs_def cc_sample_def gen_at_def ex_gen_def c_at_def cc_blank_def)
  ultimately show ?thesis by (auto simp: lib_deps_def split_ws_b split: prod.splits)
qed


lemma cc_objs_deps:
  "obj_deps 0 (obj_view (cc_objs w)) x = (if x = ''a'' then {''b''} else if x = ''b'' then set (py_split_ws w) else {})"
proof -
  have "fst (obj_view (cc_objs w)) = [(''default_a'', 1), (''default_b'', 2)]" "fst (snd (obj_view (cc_objs w))) 0 = ''default''"
    "snd (snd (obj_view (cc_objs w))) 1 = {''b''}" "snd (snd (obj_view (cc_objs w))) 2 = set (py_split_ws w)"
    by (simp_all add: obj_view_def cc_objs_def cc_sample_def gen_at_def ex_gen_def c_at_def cc_blank_def)
  then show ?thesis by (auto simp: obj_deps_def gen_key_def)
qed

lemma cc_objs_names: "gx_names (cc_objs w) \<noteq> []"
  by (simp add: cc_objs_def cc_sample_def)


lemma cc_objs_taken: "case obj_loop 6 (\<lambda>y s. Inr s) 0 [] [''a''] (cc_objs []) of Inr (seen, st') \<Rightarrow> seen = [''b'', ''a''] | Inl e \<Rightarrow> False"
  by code_simp


text \<open>The list of objects of \<open>a\<close> is turned around by every visit of it.\<close>

lemma objects_reversed:
  "objects_of y st = (lst, st') \<Longrightarrow> cg_add_objects (c_at st y) = Some (SList l) \<Longrightarrow> cg_add_objects (c_at st' y) = Some (SList (rev l))"
  by (auto simp: objects_of_def upd_c_def c_at_def)

text \<open>A library of a shared library that does not exist gives an attribute error instead of the error for a missing library.\<close>

lemma missing_library_of_shared:
  assumes "gx_names st \<noteq> []" and "map_of (gx_names st) (gen_key (tg_variant (gen_at st g)) x) = None"
  shows "drop_static g (x # xs) st = Inl AttributeError" and "\<exists>m. visit_lib co pst g x st = Inl (WafError m)"
  by (simp_all add: visit_lib_def find_gen_cached[OF assms(1)] assms(2))

end
