(* ===== verification/Waf_Ccinstall.thy ===== *)
theory Waf_Ccinstall
  imports Waf_Ccroot
begin

text \<open>
  The installation of what the C features build, the rest of \<^verbatim>\<open>src/tools/wafadmin/Tools/ccroot.py\<close>: \<open>default_link_install\<close>,
  \<open>apply_implib\<close> for import libraries, \<open>apply_vnum\<close> and \<open>exec_vnum_link\<close> for libraries with a version, and \<open>add_as_needed\<close>. The
  methods call \<open>install_files\<close>, \<open>install_as\<close> and \<open>symlink_as\<close> of the build context, which wait for the end of the group
  (\<open>group_method\<close> in \<open>Waf_Install\<close>).

  After the definitions: what the calls do to the disk, which calls \<open>apply_vnum\<close> postpones, and from both that a
  library whose version has a dot is installed with links that lead to it, while one whose version has none is lost.
\<close>

section \<open>Definitions\<close>

subsection \<open>Attributes and calls\<close>

text \<open>The properties \<open>install_path\<close> and \<open>chmod\<close>, with the defaults that the methods of the C features set.\<close>

definition install_path_of :: "nat \<Rightarrow> cctx \<Rightarrow> val" where
  "install_path_of g st =
     (case get_inst_path (gen_at st g) of
        Some p \<Rightarrow> Atom (AStr p)
      | None \<Rightarrow> (case cg_default_install_path (c_at st g) of Some v \<Rightarrow> v | None \<Rightarrow> Atom ANone))"

definition chmod_of :: "nat \<Rightarrow> cctx \<Rightarrow> nat" where
  "chmod_of g st =
     (case tg_chmod (gen_at st g) of
        Some v \<Rightarrow> v
      | None \<Rightarrow> (case cg_default_chmod (c_at st g) of Some v \<Rightarrow> v | None \<Rightarrow> O644))"

text \<open>A call of an install method of the build context.\<close>

definition bld_call :: "post_call \<Rightarrow> cctx \<Rightarrow> cctx result" where
  "bld_call c st =
     (if gx_is_install st = 0 then Inr st
      else rmap (\<lambda>(calls, m). st\<lparr>gx_man := m, gx_tools := (gx_tools st)\<lparr>cw_calls := calls\<rparr>\<rparr>)
        (postpone_call (gx_path st) c (cw_calls (gx_tools st), gx_man st)))"

definition env_of :: "nat \<Rightarrow> cctx \<Rightarrow> env_arg" where
  "env_of g st = Some (cg_env (c_at st g), tg_variant (gen_at st g))"

text \<open>\<open>self.link_task.outputs[0]\<close>.\<close>

definition link_output :: "nat \<Rightarrow> cctx \<Rightarrow> (nat \<times> nat) result" where
  "link_output g st =
     rbind (attr (cg_link_task (c_at st g))) (\<lambda>k.
       case gt_outputs (gx_tasks st ! k) of [] \<Rightarrow> Inl IndexError | x # xs \<Rightarrow> Inr (k, x))"

text \<open>\<open>self.meths.remove(x)\<close>.\<close>

definition remove_meth :: "string \<Rightarrow> nat \<Rightarrow> cctx \<Rightarrow> cctx result" where
  "remove_meth x g st =
     (if x \<in> set (tg_meths (gen_at st g)) then Inr (upd_gen g (\<lambda>y. y\<lparr>tg_meths := remove1 x (tg_meths y)\<rparr>) st)
      else Inl ValueError)"

text \<open>\<open>node.parent.find_or_declare(name)\<close>; a node that cannot be made is \<open>None\<close>, and its first use raises \<open>AttributeError\<close>.\<close>

definition declare_beside :: "cc_opts \<Rightarrow> nat \<Rightarrow> string \<Rightarrow> cctx \<Rightarrow> (nat \<times> cctx) result" where
  "declare_beside co node name st =
     (case n_parent (node_at (gx_tree st) node) of
        None \<Rightarrow> Inl AttributeError
      | Some d \<Rightarrow>
          rbind (find_or_declare (co_fs co) d (split_path name) (gx_tree st)) (\<lambda>(n, t).
            rmap (\<lambda>x. (x, st\<lparr>gx_tree := t\<rparr>)) (attr n)))"

text \<open>\<open>env.append_value('LINKFLAGS', v.split())\<close>.\<close>

definition append_link_flags :: "nat \<Rightarrow> string \<Rightarrow> cctx \<Rightarrow> cctx result" where
  "append_link_flags g v st =
     (let (l, h) = new_list (map AStr (py_split_ws v)) (the_heap st) in env_append g ''LINKFLAGS'' (VList l) (set_heap h st))"

subsection \<open>The methods that install\<close>

definition default_link_install :: "nat \<Rightarrow> cctx \<Rightarrow> cctx result" where
  "default_link_install g st =
     (let path = install_path_of g st in
      if truthy (the_heap st) path
      then rbind (link_output g st) (\<lambda>(k, x).
        bld_call (CallFiles path (AList [FNode x]) (env_of g st) (chmod_of g st) False None) st)
      else Inr st)"

definition apply_implib :: "cc_opts \<Rightarrow> nat \<Rightarrow> cctx \<Rightarrow> cctx result" where
  "apply_implib co g st0 =
     rbind (env_get g ''DEST_BINFMT'' st0) (\<lambda>(fmt, st1).
       if fmt \<noteq> Atom (AStr ''pe'') then Inr st1
       else rbind (remove_meth ''default_link_install'' g st1) (\<lambda>st2.
         let bindir = install_path_of g st2 in
         if \<not> truthy (the_heap st2) bindir then Inr st2
         else rbind (link_output g st2) (\<lambda>(k, dll).
           rbind (bld_call (CallFiles bindir (AList [FNode dll]) (env_of g st2) (chmod_of g st2) False None) st2) (\<lambda>st3.
           rbind (env_get g ''implib_PATTERN'' st3) (\<lambda>(pat, st4).
           rbind (target_text (tg_target (gen_at st4 g))) (\<lambda>target.
           rbind (val_percent pat (AStr (snd (path_split target)))) (\<lambda>name.
           rbind (declare_beside co dll name st4) (\<lambda>(implib, st5).
           let st6 = upd_task k (\<lambda>t. t\<lparr>gt_outputs := gt_outputs t @ [implib]\<rparr>) st5 in
           rbind (bld_call (CallAs (Atom (AStr (''${LIBDIR}/'' @ n_name (node_at (gx_tree st6) implib)))) (FNode implib)
             (env_of g st6) O644 None) st6) (\<lambda>st7.
           rbind (env_get g ''IMPLIB_ST'' st7) (\<lambda>(flag, st8).
           rbind (bldpath (gx_tree st8) implib (Some (tg_variant (gen_at st8 g)))) (\<lambda>p.
           rbind (val_percent flag (AStr p)) (\<lambda>v. append_link_flags g v st8))))))))))))"

text \<open>The names of a library with its version, the full one and the one with the first number only.\<close>

definition vnum_names :: "string \<Rightarrow> string \<Rightarrow> string \<times> string" where
  "vnum_names libname vnum =
     (let num = hd (py_split_chr (CHR ''.'') vnum) in
      if py_endswith libname ''.dylib''
      then (py_replace libname ''.dylib'' (''.'' @ vnum @ ''.dylib''), py_replace libname ''.dylib'' (''.'' @ num @ ''.dylib''))
      else (libname @ ''.'' @ vnum, libname @ ''.'' @ num))"

text \<open>The calls of \<open>apply_vnum\<close>.\<close>

definition vnum_calls :: "nat \<Rightarrow> cctx \<Rightarrow> string \<Rightarrow> string \<Rightarrow> string \<Rightarrow> string \<Rightarrow> nat \<Rightarrow> post_call list" where
  "vnum_calls g st path name3 name2 libname node =
     [CallAs (Atom (AStr (path @ ''/'' @ name3))) (FNode node) (env_of g st) O644 None,
      CallLink (Atom (AStr (path @ ''/'' @ name2))) name3 None None,
      CallLink (Atom (AStr (path @ ''/'' @ libname))) name3 None None]"

definition soname_flag :: "nat \<Rightarrow> string \<Rightarrow> cctx \<Rightarrow> cctx result" where
  "soname_flag g name2 st =
     rbind (env_get g ''SONAME_ST'' st) (\<lambda>(s, st1).
       if truthy (the_heap st1) s then rbind (val_percent s (AStr name2)) (\<lambda>v. append_link_flags g v st1) else Inr st1)"

text \<open>The task that makes the link in the build directory.\<close>

definition vnum_task :: "cc_opts \<Rightarrow> nat \<Rightarrow> nat \<Rightarrow> string \<Rightarrow> cctx \<Rightarrow> cctx result" where
  "vnum_task co g node name2 st =
     rbind (create_task ''vnum'' [] [] g st) (\<lambda>(k, st1).
       let st2 = upd_task k (\<lambda>t. t\<lparr>gt_inputs := gt_inputs t @ [node]\<rparr>) st1 in
       rmap (\<lambda>(x, st3). upd_task k (\<lambda>t. t\<lparr>gt_outputs := gt_outputs t @ [x]\<rparr>) st3) (declare_beside co node name2 st2))"

text \<open>\<open>path + os.sep\<close>.\<close>

definition plus_path :: "val \<Rightarrow> string result" where
  "plus_path v = (case v of Atom (AStr s) \<Rightarrow> Inr s | _ \<Rightarrow> Inl TypeError)"

definition apply_vnum :: "cc_opts \<Rightarrow> nat \<Rightarrow> cctx \<Rightarrow> cctx result" where
  "apply_vnum co g st0 =
     (let vnum = (case cg_vnum (c_at st0 g) of None \<Rightarrow> [] | Some v \<Rightarrow> v) in
      if vnum = [] \<or> \<not> has_feature ''cshlib'' (tg_features (gen_at st0 g)) \<or> co_os_name co \<noteq> ''posix'' then Inr st0
      else rbind (env_get g ''DEST_BINFMT'' st0) (\<lambda>(fmt, st1).
        if fmt \<notin> {Atom (AStr ''elf''), Atom (AStr ''mac-o'')} then Inr st1
        else rbind (remove_meth ''default_link_install'' g st1) (\<lambda>st2.
          rbind (link_output g st2) (\<lambda>(k, node).
          let libname = n_name (node_at (gx_tree st2) node);
              (name3, name2) = vnum_names libname vnum
          in rbind (soname_flag g name2 st2) (\<lambda>st3.
            let path = install_path_of g st3 in
            if \<not> truthy (the_heap st3) path then Inr st3
            else rbind (plus_path path) (\<lambda>p.
              rbind (foldM bld_call (vnum_calls g st3 p name3 name2 libname node) st3) (vnum_task co g node name2)))))))"

text \<open>The class of the task, and its work: the link is made anew; \<open>True\<close> for the return value 1.\<close>

definition vnum_class :: "cctx \<Rightarrow> cctx" where
  "vnum_class st =
     upd_kind ''vnum'' (\<lambda>k. add_flag ''quiet'' (k\<lparr>k_order := (k_order k)(''ext_in'' := [''.bin''])\<rparr>))
       (task_type_from_func ''vnum'' [] st)"

definition exec_vnum_link :: "inst_env \<Rightarrow> gtask \<Rightarrow> inst \<Rightarrow> (bool \<times> inst) result" where
  "exec_vnum_link e k st0 =
     (case gt_outputs k of
        [] \<Rightarrow> Inl IndexError
      | x # xs \<Rightarrow>
          rbind (abspath (in_tree st0) x (Some (ie_variant e))) (\<lambda>(path, t).
            let st = st0\<lparr>in_tree := t\<rparr>;
                d = (case os_remove e path (in_disk st) of Inr d' \<Rightarrow> d' | Inl err \<Rightarrow> in_disk st)
            in case gt_inputs k of
                 [] \<Rightarrow> Inl IndexError
               | y # ys \<Rightarrow>
                   if map_of d path = None \<and> ie_writable e path \<and> os_entry d (dirname path) = Some Dir
                   then Inr (False, st\<lparr>in_disk := dict_set path (Link (n_name (node_at t y))) d\<rparr>)
                   else Inr (True, st\<lparr>in_disk := d\<rparr>)))"

text \<open>\<open>add_as_needed\<close>, on the environment \<open>e\<close> of the configuration.\<close>

definition add_as_needed :: "nat \<Rightarrow> heap \<Rightarrow> heap result" where
  "add_as_needed e h0 =
     rbind (getitem h0 e ''DEST_BINFMT'') (\<lambda>(fmt, h1).
       if fmt \<noteq> Atom (AStr ''elf'') then Inr h1
       else rbind (getitem h1 e ''CXX_NAME'') (\<lambda>(cxx, h2).
         rbind (getitem h2 e ''CC_NAME'') (\<lambda>(cc, h3).
           if Atom (AStr ''gcc'') \<in> {cxx, cc} then append_unique e ''LINKFLAGS'' (Atom (AStr ''--as-needed'')) h3 else Inr h3)))"

text \<open>All methods of the module by name; \<open>others\<close> are those of other tools.\<close>

definition cc_install_meth :: "cc_opts \<Rightarrow> (string \<Rightarrow> (nat \<Rightarrow> cctx \<Rightarrow> cctx result) \<Rightarrow> nat \<Rightarrow> cctx \<Rightarrow> cctx result) \<Rightarrow>
    string \<Rightarrow> (nat \<Rightarrow> cctx \<Rightarrow> cctx result) \<Rightarrow> nat \<Rightarrow> cctx \<Rightarrow> cctx result" where
  "cc_install_meth co others =
     cc_meth co (\<lambda>x pst g st.
       if x = ''default_link_install'' then default_link_install g st
       else if x = ''apply_implib'' then apply_implib co g st
       else if x = ''apply_vnum'' then apply_vnum co g st
       else others x pst g st)"


section \<open>Disks and paths\<close>

lemma follow_links_mono:
  assumes "map_of d \<subseteq>\<^sub>m map_of d'"
  shows "follow_links n d p = Some x \<Longrightarrow> follow_links n d' p = Some x"
proof (induction n arbitrary: p)
  case 0
  then obtain y where "map_of d p = Some y" by (cases "map_of d p") (simp_all add: follow_links.simps)
  moreover from this assms have "map_of d' p = Some y" by (metis domI map_le_def)
  ultimately show ?case using 0 by (cases y) (auto simp: follow_links.simps[of 0])
next
  case (Suc n)
  then obtain y where "map_of d p = Some y" by (cases "map_of d p") (simp_all add: follow_links.simps)
  moreover from this assms have "map_of d' p = Some y" by (metis domI map_le_def)
  ultimately show ?case using Suc by (cases y) (auto simp: follow_links.simps[of "Suc n"])
qed

lemma os_entry_mono: "map_of d \<subseteq>\<^sub>m map_of d' \<Longrightarrow> os_entry d p = Some x \<Longrightarrow> os_entry d' p = Some x"
  unfolding os_entry_def by (rule follow_links_mono)

lemma link_to_itself: "map_of d p = Some (Link x) \<Longrightarrow> path_join (dirname p) x = p \<Longrightarrow> os_entry d p = None"
proof -
  assume a: "map_of d p = Some (Link x)" "path_join (dirname p) x = p"
  have "follow_links n d p = None" for n by (induction n) (subst follow_links.simps, simp add: a)+
  then show ?thesis unfolding os_entry_def .
qed

lemma os_entry_link:
  assumes "map_of d p = Some (Link x)" and "map_of d (path_join (dirname p) x) = Some (File c m k)"
  shows "os_entry d p = Some (File c m k)"
  unfolding os_entry_def numeral_eq_Suc
  by (subst follow_links.simps, simp add: assms(1)) (subst follow_links.simps, simp add: assms(2))

text \<open>Making a directory adds it and directories above it.\<close>

definition adds_above :: "string \<Rightarrow> disk \<Rightarrow> disk \<Rightarrow> bool" where
  "adds_above p d d' \<longleftrightarrow> (\<forall>q. map_of d' q = map_of d q \<or> map_of d q = None \<and> prefix q p)"

lemma adds_above_le: "adds_above p d d' \<Longrightarrow> map_of d \<subseteq>\<^sub>m map_of d'"
  unfolding adds_above_def map_le_def by (metis domIff)

lemma makedirs_adds: "makedirs n e p d = Some d' \<Longrightarrow> adds_above p d d'"
proof (induction n arbitrary: p d')
  case (Suc n)
  obtain h0 t0 where s: "path_split p = (h0, t0)" by (cases "path_split p")
  obtain h t where ht: "(if t0 = [] then path_split h0 else (h0, t0)) = (h, t)" by fastforce
  have pre: "prefix h p"
    using s ht dirname_prefix[of p] dirname_prefix[of h0]
    by (auto simp: path_split_def split: if_splits intro: prefix_order.trans)
  define d1 where "d1 = (if h \<noteq> [] \<and> t \<noteq> [] \<and> os_entry d h = None then makedirs n e h d else Some d)"
  from Suc.prems obtain d2 where d2: "d1 = Some d2" and d': "(if t = ''.'' then Some d2 else mkdir_one e p d2) = Some d'"
    by (auto simp: s ht d1_def[symmetric] split: option.splits)
  have a: "adds_above h d d2"
    using d2 Suc.IH[of h d2] unfolding d1_def by (auto simp: adds_above_def split: if_splits)
  from d' have m: "map_of d' q = map_of d2 q \<or> map_of d2 q = None \<and> q = p" for q
    by (auto simp: mkdir_one_def map_of_dict_set split: if_splits)
  show ?case unfolding adds_above_def
  proof
    fix q
    from a m[of q] pre show "map_of d' q = map_of d q \<or> map_of d q = None \<and> prefix q p"
      unfolding adds_above_def by (metis prefix_order.trans prefix_order.refl)
  qed
qed simp

lemma check_dir_adds:
  assumes "check_dir e dir st = Inr st'"
  shows "adds_above dir (in_disk st) (in_disk st')" "in_heap st' = in_heap st" "in_tree st' = in_tree st"
  using assms makedirs_adds[of "Suc (length dir)" e dir "in_disk st"]
  by (auto simp: check_dir_def adds_above_def split: if_splits option.splits)

text \<open>Paths of a directory and a name.\<close>

lemma dirname_slash:
  assumes "d \<noteq> []" and "last d \<noteq> CHR ''/''" and "CHR ''/'' \<notin> set name"
  shows "dirname (d @ ''/'' @ name) = d"
proof -
  have "dropWhile (\<lambda>c. c \<noteq> CHR ''/'') (rev name @ CHR ''/'' # rev d) = CHR ''/'' # rev d"
    using assms(3) by (induction name rule: rev_induct) auto
  moreover have "dropWhile (\<lambda>c. c = CHR ''/'') (rev d) = rev d"
    using assms(1,2) by (cases d rule: rev_cases) simp_all
  moreover have "\<not> list_all (\<lambda>c. c = CHR ''/'') d" using assms(2) last_in_set[OF assms(1)] by (auto simp: list_all_iff)
  ultimately show ?thesis by (simp add: dirname_def)
qed

lemma path_join_slash:
  assumes "d \<noteq> []" and "last d \<noteq> CHR ''/''" and "CHR ''/'' \<notin> set name"
  shows "path_join d name = d @ ''/'' @ name"
proof -
  have "\<not> py_startswith name ''/''" using assms(3) by (auto simp: py_startswith_iff_prefix prefix_def)
  moreover have "\<not> py_endswith d ''/''" using assms(1,2) by (cases d rule: rev_cases) (simp_all add: py_endswith_def py_startswith_iff_prefix)
  ultimately show ?thesis using assms(1) by (simp add: path_join_def)
qed


section \<open>The effect of the calls\<close>

text \<open>A text without variables and escapes.\<close>

definition plain :: "string \<Rightarrow> bool" where
  "plain s \<longleftrightarrow> CHR ''$'' \<notin> set s \<and> CHR 0x5C \<notin> set s"

lemma subst_vars_plain: "plain s \<Longrightarrow> subst_vars get s h = Inr (s, h)"
proof (induction s)
  case (Cons c s)
  then have "c \<noteq> CHR ''$''" "c \<noteq> CHR 0x5C" "subst_vars get s h = Inr (s, h)" by (auto simp: plain_def)
  then show ?case by (simp add: subst_vars.simps(2) Let_def)
qed simp

text \<open>The variable \<open>NOINSTALL\<close>, which turns the destination directory off, is not set.\<close>

definition destdir_used :: "heap \<Rightarrow> nat \<Rightarrow> bool" where
  "destdir_used h e \<longleftrightarrow> find_var (env_fuel e) h e ''NOINSTALL'' = Inr None"

lemma find_var_envs: "envs h' = envs h \<Longrightarrow> find_var n h' e key = find_var n h e key"
  by (induction n arbitrary: e) (simp_all add: env_table_def env_parent_def split: option.splits)

lemma destdir_used_envs: "envs h' = envs h \<Longrightarrow> destdir_used h' e = destdir_used h e"
  unfolding destdir_used_def by (subst find_var_envs[of h' h]) simp_all

definition dest_of :: "inst_env \<Rightarrow> string \<Rightarrow> string" where
  "dest_of e path = (if ie_destdir e \<noteq> [] then path_join (ie_destdir e) (red_sub path) else path)"

lemma get_install_path_plain:
  assumes "plain path" and "destdir_used (in_heap st) (ie_env e)"
  shows "\<exists>h. envs h = envs (in_heap st) \<and> get_install_path e path st = Inr (dest_of e path, st\<lparr>in_heap := h\<rparr>)"
proof (intro exI conjI)
  show "envs (snd (new_list [] (in_heap st))) = envs (in_heap st)" by (simp add: new_list_def)
  show "get_install_path e path st = Inr (dest_of e path, st\<lparr>in_heap := snd (new_list [] (in_heap st))\<rparr>)"
    using assms by (simp add: get_install_path_def get_destdir_def getitem_def destdir_used_def dest_of_def subst_vars_plain
        new_list_def list_at_def)
qed

lemma red_sub_dir:
  assumes "red_sub path \<noteq> []"
  shows "red_sub (path @ ''/'' @ name) = red_sub path @ ''/'' @ name"
proof -
  define cut where "cut s = (if length s \<ge> 2 \<and> chr_isalpha (s ! 0) \<and> s ! 1 = CHR '':'' then drop 2 s else s)" for s
  have r: "red_sub s = dropWhile (\<lambda>c. c = CHR ''/'' \<or> c = CHR 0x5C) (cut s)" for s by (simp add: red_sub_def cut_def)
  have "path \<noteq> []" using assms by (auto simp: red_sub_def)
  then have c: "cut (path @ ''/'' @ name) = cut path @ ''/'' @ name"
    by (cases path rule: list.exhaust; cases "tl path") (auto simp: cut_def)
  have "\<exists>x \<in> set (cut path). \<not> (x = CHR ''/'' \<or> x = CHR 0x5C)" using assms unfolding r by auto
  then show ?thesis unfolding r c by auto
qed

text \<open>The directory of an installation, and its files.\<close>

definition good_dest :: "inst_env \<Rightarrow> string \<Rightarrow> bool" where
  "good_dest e path \<longleftrightarrow> path \<noteq> [] \<and> last path \<noteq> CHR ''/'' \<and> plain path \<and> (ie_destdir e \<noteq> [] \<longrightarrow> red_sub path \<noteq> [])"

lemma last_dropWhile: "dropWhile P s \<noteq> [] \<Longrightarrow> last (dropWhile P s) = last s"
  by (induction s) (auto split: if_splits)

lemma last_red_sub: "red_sub path \<noteq> [] \<Longrightarrow> last (red_sub path) = last path"
  proof -
  assume r: "red_sub path \<noteq> []"
  obtain s where s: "red_sub path = dropWhile (\<lambda>c. c = CHR ''/'' \<or> c = CHR 0x5C) s" "s = path \<or> s = drop 2 path"
    by (auto simp: red_sub_def)
  with r have "s \<noteq> []" by auto
  with s(2) have "last s = last path" by (auto simp: last_drop)
  with r s(1) show ?thesis by (simp add: last_dropWhile)
qed

lemma dest_of_dir:
  assumes "good_dest e path"
  shows "dest_of e (path @ ''/'' @ name) = dest_of e path @ ''/'' @ name" "dest_of e path \<noteq> []" "last (dest_of e path) \<noteq> CHR ''/''"
proof -
  have *: "path_join a (r @ s) = path_join a r @ s" if "r \<noteq> []" for a r s
    using that by (cases r) (auto simp: path_join_def py_startswith_iff_prefix)
  have l: "last (path_join a r) = last r" "path_join a r \<noteq> []" if "r \<noteq> []" for a r
    using that by (auto simp: path_join_def)
  show "dest_of e (path @ ''/'' @ name) = dest_of e path @ ''/'' @ name"
    using assms red_sub_dir[of path name] * by (simp add: dest_of_def good_dest_def)
  show "dest_of e path \<noteq> []" "last (dest_of e path) \<noteq> CHR ''/''"
    using assms l[of "red_sub path" "ie_destdir e"] last_red_sub[of path] by (auto simp: dest_of_def good_dest_def)
qed

lemma do_install_copies:
  assumes "ie_is_install e > 0" and "map_of (in_disk st) tgt = None" and "do_install e src tgt chmod st = Inr (b, st')"
  shows "\<exists>c m mode. os_entry (in_disk st) src = Some (File c m mode) \<and> map_of (in_disk st') = (map_of (in_disk st))(tgt \<mapsto> File c m chmod)"
    and "in_heap st' = in_heap st"
proof -
  have n: "os_entry (in_disk st) tgt = None" using assms(2) by (rule os_entry_None)
  then have "\<not> up_to_date e src tgt (in_disk st)" by (simp add: up_to_date_def os_stat_def)
  with do_install_result[OF assms(1), of st tgt src chmod] n assms(3) obtain c m mode d where
    "os_entry (in_disk st) src = Some (File c m mode)" "st' = st\<lparr>in_disk := d\<rparr>"
    "map_of d = (map_of (in_disk st))(tgt \<mapsto> File c m chmod)"
    by (cases b) auto
  then show "\<exists>c m mode. os_entry (in_disk st) src = Some (File c m mode) \<and> map_of (in_disk st') = (map_of (in_disk st))(tgt \<mapsto> File c m chmod)"
    and "in_heap st' = in_heap st" by auto
qed

text \<open>A library that is not there yet, installed under its full name.\<close>

lemma call_as_effect:
  assumes run: "run_call e (CallAs (Atom (AStr (path @ ''/'' @ name))) (FNode node) a chmod cwd) st = Inr st'"
    and inst: "ie_is_install e > 0" and dest: "good_dest (call_env a e) path" and name: "plain name" "CHR ''/'' \<notin> set name"
    and used: "destdir_used (in_heap st) (ie_env (call_env a e))"
    and new: "map_of (in_disk st) (dest_of e path @ ''/'' @ name) = None"
    and src: "abspath (in_tree st) node (Some (ie_variant (call_env a e))) = Inr (src, t)" "os_entry (in_disk st) src = Some (File c m mode)"
  shows "map_of (in_disk st') (dest_of e path @ ''/'' @ name) = Some (File c m chmod)" "envs (in_heap st') = envs (in_heap st)"
proof -
  let ?e = "call_env a e" and ?t = "dest_of e path @ ''/'' @ name"
  have e: "ie_is_install ?e = ie_is_install e" "dest_of ?e p = dest_of e p" for p
    by (auto simp: call_env_def dest_of_def split: option.split)
  have p: "plain (path @ ''/'' @ name)" using dest name by (simp add: plain_def good_dest_def)
  note d = dest_of_dir(1)[OF dest, of name, unfolded e] dest_of_dir(2,3)[OF dest, unfolded e]
  note dn = dirname_slash[OF d(2,3) name(2), simplified]
  from get_install_path_plain[OF p used] obtain h where h: "envs h = envs (in_heap st)"
    "get_install_path ?e (path @ ''/'' @ name) st = Inr (?t, st\<lparr>in_heap := h\<rparr>)" unfolding e d(1) by blast
  from run obtain b st2 where st2: "check_dir ?e (dest_of e path) (st\<lparr>in_heap := h\<rparr>) = Inr st2"
    and do: "do_install ?e src ?t chmod (st2\<lparr>in_tree := t\<rparr>) = Inr (b, st')"
    using h(2) src(1) check_dir_adds(3)[of ?e "dest_of e path" "st\<lparr>in_heap := h\<rparr>"]
    by (auto simp: path_arg_def install_as_def rbind_Inr_iff rmap_Inr_iff dn Let_def)
  note c = check_dir_adds[OF st2]
  have "\<not> prefix ?t (dest_of e path)" by (auto dest: prefix_length_le)
  with c(1) new have n: "map_of (in_disk (st2\<lparr>in_tree := t\<rparr>)) ?t = None"
    unfolding adds_above_def by (auto dest: spec[of _ ?t])
  have "os_entry (in_disk (st2\<lparr>in_tree := t\<rparr>)) src = Some (File c m mode)"
    using os_entry_mono[OF adds_above_le[OF c(1)]] src(2) by simp
  with do_install_copies[OF _ n do] inst e(1) show "map_of (in_disk st') ?t = Some (File c m chmod)" by auto
  from do_install_copies(2)[OF _ n do] inst e(1) h(1) c(2) show "envs (in_heap st') = envs (in_heap st)" by simp
qed

text \<open>A link that is made or made anew; nothing else that was there changes.\<close>

lemma call_link_effect:
  assumes run: "run_call e (CallLink (Atom (AStr (path @ ''/'' @ name))) src None cwd) st = Inr st'"
    and inst: "ie_is_install e > 0" "\<not> ie_win32 e" and dest: "good_dest e path" and name: "plain name" "CHR ''/'' \<notin> set name"
    and used: "destdir_used (in_heap st) (ie_env e)"
  shows "map_of (in_disk st') (dest_of e path @ ''/'' @ name) = Some (Link src)" "envs (in_heap st') = envs (in_heap st)"
    and "q \<noteq> dest_of e path @ ''/'' @ name \<Longrightarrow> map_of (in_disk st) q = Some x \<Longrightarrow> map_of (in_disk st') q = Some x"
proof -
  let ?t = "dest_of e path @ ''/'' @ name"
  have p: "plain (path @ ''/'' @ name)" using dest name by (simp add: plain_def good_dest_def)
  note d = dest_of_dir(1)[OF dest, of name] dest_of_dir(2,3)[OF dest]
  note dn = dirname_slash[OF d(2,3) name(2), simplified]
  from get_install_path_plain[OF p used] obtain h where h: "envs h = envs (in_heap st)"
    "get_install_path e (path @ ''/'' @ name) st = Inr (?t, st\<lparr>in_heap := h\<rparr>)" unfolding d(1) by blast
  from run obtain st2 r where st2: "check_dir e (dest_of e path) (st\<lparr>in_heap := h\<rparr>) = Inr st2"
    and s: "symlink_as e (path @ ''/'' @ name) src st = Inr (r, st')"
    using h(2) inst by (auto simp: path_arg_def call_env_def symlink_as_def rbind_Inr_iff rmap_Inr_iff dn)
  note c = check_dir_adds[OF st2]
  have "\<exists>d'. st' = st2\<lparr>in_disk := d'\<rparr> \<and> map_of d' = (map_of (in_disk st2))(?t \<mapsto> Link src)"
  proof (cases "map_of (in_disk st2) ?t = Some (Link src)")
    case True
    then have "st' = st2" using s st2 h(2) inst by (simp add: symlink_as_def dn Let_def)
    with True show ?thesis by (intro exI[of _ "in_disk st2"]) (auto simp: fun_eq_iff)
  next
    case False
    then show ?thesis using s st2 h(2) inst
      by (auto simp: symlink_as_def dn Let_def map_of_dict_set os_remove_def map_of_dict_del split: if_splits sum.splits option.splits entry.splits)
  qed
  then obtain d' where d': "st' = st2\<lparr>in_disk := d'\<rparr>" "map_of d' = (map_of (in_disk st2))(?t \<mapsto> Link src)" by blast
  then show "map_of (in_disk st') ?t = Some (Link src)" by simp
  from d' c(2) h(1) show "envs (in_heap st') = envs (in_heap st)" by simp
  show "q \<noteq> ?t \<Longrightarrow> map_of (in_disk st) q = Some x \<Longrightarrow> map_of (in_disk st') q = Some x"
    using adds_above_le[OF c(1)] d' by (auto simp: map_le_def dom_def)
qed


section \<open>The names of a version\<close>

lemma py_replace_length_le:
  "length a \<le> length b \<Longrightarrow> length (py_replace_ne k old a s) \<le> length (py_replace_ne k old b s)"
  by (induction k old a s rule: py_replace_ne.induct) auto

lemma py_replace_length_less:
  "length a < length b \<Longrightarrow> Sublist.suffix old s \<Longrightarrow> old \<noteq> [] \<Longrightarrow> length (py_replace_ne 0 old a s) < length (py_replace_ne 0 old b s)"
proof (induction s)
  case (Cons c s)
  show ?case
  proof (cases "py_startswith (c # s) old")
    case True
    with Cons.prems(1) py_replace_length_le[of a b "length old - 1" old s] show ?thesis by simp
  next
    case False
    with Cons.prems(2) have "Sublist.suffix old s" by (auto simp: suffix_Cons py_startswith_iff_prefix)
    with Cons False show ?thesis by simp
  qed
qed simp

lemma py_replace_same: "old \<noteq> [] \<Longrightarrow> py_replace_ne k old old s = drop k s"
proof (induction s arbitrary: k)
  case (Cons c s)
  show ?case
  proof (cases k)
    case 0
    show ?thesis
    proof (cases "py_startswith (c # s) old")
      case True
      with Cons.prems obtain old' r where "old = c # old'" "s = old' @ r"
        by (cases old) (auto simp: py_startswith_iff_prefix prefix_def)
      with True 0 Cons.IH[OF Cons.prems, of "length old'"] show ?thesis by simp
    qed (use 0 Cons in simp)
  qed (use Cons in simp)
qed simp

lemma set_py_replace: "set (py_replace_ne k old new s) \<subseteq> set s \<union> set new"
  by (induction k old new s rule: py_replace_ne.induct) auto

lemma split_first:
  "hd (py_split_chr d s) = takeWhile (\<lambda>c. c \<noteq> d) s" "py_split_chr d s \<noteq> []"
  by (induction s) (auto split: list.splits)

text \<open>The names have the characters of the library's name and of the version, and a dot.\<close>

lemma vnum_names_set:
  assumes "vnum_names lib vnum = (n3, n2)"
  shows "set n3 \<union> set n2 \<subseteq> set lib \<union> set vnum \<union> set ''.dylib''"
proof -
  have "set (takeWhile (\<lambda>c. c \<noteq> CHR ''.'') vnum) \<subseteq> set vnum" by (auto dest: set_takeWhileD)
  with assms set_py_replace[of 0 "''.dylib''" "''.'' @ vnum @ ''.dylib''" lib]
    set_py_replace[of 0 "''.dylib''" "''.'' @ takeWhile (\<lambda>c. c \<noteq> CHR ''.'') vnum @ ''.dylib''" lib] show ?thesis
    by (auto simp: vnum_names_def py_replace_def split_first Let_def split: if_splits)
qed

text \<open>They are longer than the name of the library, and the full name is longer than the other one when the version has a dot.\<close>

lemma vnum_names_length:
  assumes "vnum_names lib vnum = (n3, n2)"
  shows "length lib < length n2" "CHR ''.'' \<in> set vnum \<Longrightarrow> length n2 < length n3" "CHR ''.'' \<notin> set vnum \<Longrightarrow> n2 = n3"
proof -
  let ?n = "takeWhile (\<lambda>c. c \<noteq> CHR ''.'') vnum" and ?s = "''.dylib''"
  have less: "length ?n < length vnum" if "CHR ''.'' \<in> set vnum"
    using that by (induction vnum) auto
  have all: "?n = vnum" if "CHR ''.'' \<notin> set vnum" using that by (induction vnum) auto
  have e: "py_endswith lib ?s \<Longrightarrow> Sublist.suffix ?s lib" by (simp add: py_endswith_def py_startswith_iff_prefix suffix_to_prefix)
  have l: "py_endswith lib ?s \<Longrightarrow> length lib < length (py_replace_ne 0 ?s (''.'' @ ?n @ ?s) lib)"
    using py_replace_length_less[of ?s "''.'' @ ?n @ ?s" ?s lib] e by (simp add: py_replace_same)
  have l2: "py_endswith lib ?s \<Longrightarrow> CHR ''.'' \<in> set vnum \<Longrightarrow>
      length (py_replace_ne 0 ?s (''.'' @ ?n @ ?s) lib) < length (py_replace_ne 0 ?s (''.'' @ vnum @ ?s) lib)"
    using py_replace_length_less[of "''.'' @ ?n @ ?s" "''.'' @ vnum @ ?s" ?s lib] e less by simp
  show "length lib < length n2" using assms l by (auto simp: vnum_names_def py_replace_def split_first Let_def split: if_splits)
  show "CHR ''.'' \<in> set vnum \<Longrightarrow> length n2 < length n3"
    using assms l2 less by (auto simp: vnum_names_def py_replace_def split_first Let_def split: if_splits)
  show "CHR ''.'' \<notin> set vnum \<Longrightarrow> n2 = n3" using assms all by (auto simp: vnum_names_def split_first split: if_splits)
qed

section \<open>The queue of calls\<close>

definition this_group :: "cctx \<Rightarrow> task_group" where
  "this_group st = (let m = with_group (gx_man st) in groups m ! current_group m)"

lemma update_group_this:
  assumes "update_group f (with_group m) = Inr m'"
  shows "groups m' ! current_group m' = f (groups (with_group m) ! current_group (with_group m))" "with_group m' = m'"
  using assms by (auto simp: update_group_def with_group_def split: if_splits)

lemma bld_call_queue:
  assumes "bld_call c st = Inr st'" and "gx_is_install st \<noteq> 0"
  shows "cw_calls (gx_tools st') = cw_calls (gx_tools st) @ [with_cwd (gx_path st) c]"
    and "post_funs (this_group st') = post_funs (this_group st) @ [length (cw_calls (gx_tools st))]"
    and "gx_gens st' = gx_gens st" "gx_path st' = gx_path st" "gx_is_install st' = gx_is_install st"
  using assms update_group_this[of _ "gx_man st"]
  by (auto simp: bld_call_def postpone_call_def rmap_Inr_iff this_group_def Let_def)

lemma bld_calls_queue:
  assumes "foldM bld_call cs st = Inr st'" and "gx_is_install st \<noteq> 0"
  shows "cw_calls (gx_tools st') = cw_calls (gx_tools st) @ map (with_cwd (gx_path st)) cs \<and>
    post_funs (this_group st') = post_funs (this_group st) @ [length (cw_calls (gx_tools st)) ..< length (cw_calls (gx_tools st)) + length cs] \<and>
    gx_gens st' = gx_gens st"
  using assms
proof (induction cs arbitrary: st)
  case (Cons c cs)
  then obtain st1 where s: "bld_call c st = Inr st1" "foldM bld_call cs st1 = Inr st'" by (auto simp: rbind_Inr_iff)
  note q = bld_call_queue[OF s(1) Cons.prems(2)]
  from Cons.IH[OF s(2)] q Cons.prems(2) show ?case by (simp add: upt_rec)
qed simp

text \<open>The task in the build directory leaves the calls alone.\<close>

lemma vnum_task_queue:
  assumes "vnum_task co g node name st = Inr st'"
  shows "cw_calls (gx_tools st') = cw_calls (gx_tools st)" "post_funs (this_group st') = post_funs (this_group st)"
    and "tg_meths (gen_at st' h) = tg_meths (gen_at st h)"
proof -
  from assms obtain m where k: "add_task (length (gx_tasks st)) (gx_man st) = Inr m" and d: "gx_man st' = m" "gx_tools st' = gx_tools st"
      "gx_gens st' = (gx_gens st)[g := (gx_gens st ! g)\<lparr>tg_tasks := tg_tasks (gx_gens st ! g) @ [length (gx_tasks st)]\<rparr>]"
    by (auto simp: vnum_task_def create_task_def declare_beside_def rbind_Inr_iff rmap_Inr_iff attr_def upd_task_def upd_gen_def
        Let_def gen_at_def split: if_splits option.splits)
  show "cw_calls (gx_tools st') = cw_calls (gx_tools st)" by (simp add: d)
  show "post_funs (this_group st') = post_funs (this_group st)"
    using update_group_this[OF k[unfolded add_task_def]] by (simp add: this_group_def d Let_def)
  show "tg_meths (gen_at st' h) = tg_meths (gen_at st h)"
    by (cases "g < length (gx_gens st)"; cases "g = h") (simp_all add: gen_at_def d list_update_beyond)
qed

lemma env_get_heap: "env_get g key st = Inr (v, st1) \<Longrightarrow> \<exists>h. st1 = set_heap h st"
  by (auto simp: env_get_def rmap_Inr_iff)

lemma set_heap_frame:
  "gen_at (set_heap h st) g = gen_at st g" "c_at (set_heap h st) g = c_at st g" "gx_man (set_heap h st) = gx_man st"
  "gx_tree (set_heap h st) = gx_tree st" "gx_path (set_heap h st) = gx_path st" "gx_is_install (set_heap h st) = gx_is_install st"
  "gx_tasks (set_heap h st) = gx_tasks st" "cw_calls (gx_tools (set_heap h st)) = cw_calls (gx_tools st)"
  "gx_gens (set_heap h st) = gx_gens st" "set_heap h' (set_heap h st) = set_heap h' st"
  by (simp_all add: set_heap_def gen_at_def c_at_def)

lemma soname_flag_heap: "soname_flag g n st = Inr st' \<Longrightarrow> \<exists>h. st' = set_heap h st"
  by (auto simp: soname_flag_def append_link_flags_def env_append_def rbind_Inr_iff rmap_Inr_iff set_heap_frame new_list_def
      dest!: env_get_heap split: if_splits)

section \<open>A library with its version\<close>

text \<open>
  The generator \<open>g\<close> makes a shared library with the version \<open>vnum\<close> on a system with \<open>elf\<close> files, \<open>node\<close> is the
  output of its link task, \<open>path\<close> is where it is installed, and no other call waits in the group.
\<close>

definition versioned_lib :: "cc_opts \<Rightarrow> nat \<Rightarrow> cctx \<Rightarrow> string \<Rightarrow> string \<Rightarrow> nat \<Rightarrow> bool" where
  "versioned_lib co g st vnum path node \<longleftrightarrow>
     cg_vnum (c_at st g) = Some vnum \<and> vnum \<noteq> [] \<and> has_feature ''cshlib'' (tg_features (gen_at st g)) \<and> co_os_name co = ''posix'' \<and>
     (\<exists>st1. env_get g ''DEST_BINFMT'' st = Inr (Atom (AStr ''elf''), st1)) \<and> (\<exists>k. link_output g st = Inr (k, node)) \<and>
     install_path_of g st = Atom (AStr path) \<and> gx_is_install st \<noteq> 0 \<and> post_funs (this_group st) = []"

lemma remove_meth_frame:
  assumes "remove_meth x g st = Inr st'"
  shows "gx_tools st' = gx_tools st" "gx_man st' = gx_man st" "gx_path st' = gx_path st" "gx_is_install st' = gx_is_install st"
    "gx_tasks st' = gx_tasks st" "gx_tree st' = gx_tree st"
    and "g < length (gx_gens st) \<Longrightarrow> gen_at st' g = (gen_at st g)\<lparr>tg_meths := remove1 x (tg_meths (gen_at st g))\<rparr>"
  using assms by (auto simp: remove_meth_def upd_gen_def gen_at_def split: if_splits)

text \<open>What \<open>apply_vnum\<close> does: the usual installation is taken out, and three calls are postponed.\<close>

lemma apply_vnum_queue:
  assumes "apply_vnum co g st = Inr st'" and "versioned_lib co g st vnum path node" and "path \<noteq> []" and "g < length (gx_gens st)"
    and names: "vnum_names (n_name (node_at (gx_tree st) node)) vnum = (n3, n2)"
  shows "tg_meths (gen_at st' g) = remove1 ''default_link_install'' (tg_meths (gen_at st g))"
    and "\<exists>old. cw_calls (gx_tools st') = old @ map (with_cwd (gx_path st))
      (vnum_calls g st path n3 n2 (n_name (node_at (gx_tree st) node)) node) \<and> post_funs (this_group st') = [length old ..< length old + 3]"
proof -
  from assms(2) obtain st1 k where v: "env_get g ''DEST_BINFMT'' st = Inr (Atom (AStr ''elf''), st1)" "link_output g st = Inr (k, node)"
    "install_path_of g st = Atom (AStr path)" "gx_is_install st \<noteq> 0" "post_funs (this_group st) = []"
    "cg_vnum (c_at st g) = Some vnum" "vnum \<noteq> []" "has_feature ''cshlib'' (tg_features (gen_at st g))" "co_os_name co = ''posix''"
    unfolding versioned_lib_def by blast
  from env_get_heap[OF v(1)] obtain h1 where h1: "st1 = set_heap h1 st" by blast
  from assms(1) v(1,6-9) obtain st2 where m: "remove_meth ''default_link_install'' g st1 = Inr st2"
    by (auto simp: apply_vnum_def Let_def rbind_Inr_iff)
  note f = remove_meth_frame[OF m, unfolded h1, unfolded set_heap_frame]
  have c: "c_at st2 g = c_at st g" using f(1) by (simp add: c_at_def set_heap_def)
  have lo: "link_output g st2 = Inr (k, node)" using v(2) f(5) c by (simp add: link_output_def)
  have ip: "install_path_of g st2 = Atom (AStr path)" using v(3) f(7)[OF assms(4)] c by (simp add: install_path_of_def get_inst_path_def split: option.splits)
  let ?lib = "n_name (node_at (gx_tree st) node)"
  from assms(1) v(1,6-9) m lo obtain st3 where s: "soname_flag g n2 st2 = Inr st3"
    by (auto simp: apply_vnum_def Let_def rbind_Inr_iff f(6) names)
  from soname_flag_heap[OF s] obtain h3 where h3: "st3 = set_heap h3 st2" by blast
  have ip3: "install_path_of g st3 = Atom (AStr path)" and e3: "env_of g st3 = env_of g st"
    using ip f(7)[OF assms(4)] c by (simp_all add: h3 set_heap_frame install_path_of_def env_of_def split: option.splits)
  from assms(1) v(1,6-9) m lo s assms(3) obtain st4 where q: "foldM bld_call (vnum_calls g st3 path n3 n2 ?lib node) st3 = Inr st4"
    and t: "vnum_task co g node n2 st4 = Inr st'"
    by (auto simp: apply_vnum_def Let_def rbind_Inr_iff f(6) names ip3 plus_path_def)
  have ins: "gx_is_install st3 \<noteq> 0" "this_group st3 = this_group st" "gx_path st3 = gx_path st"
    using v(4) f by (simp_all add: h3 set_heap_frame this_group_def)
  have cs: "vnum_calls g st3 path n3 n2 ?lib node = vnum_calls g st path n3 n2 ?lib node" by (simp add: vnum_calls_def e3)
  note q' = bld_calls_queue[OF q ins(1), unfolded ins(3) cs]
  from q' vnum_task_queue[OF t] f(7)[OF assms(4)]
  show "tg_meths (gen_at st' g) = remove1 ''default_link_install'' (tg_meths (gen_at st g))"
    by (simp add: gen_at_def h3 set_heap_frame)
  have "length (vnum_calls g st path n3 n2 ?lib node) = 3" by (simp add: vnum_calls_def)
  with q' vnum_task_queue[OF t] v(5) ins(2)
  show "\<exists>old. cw_calls (gx_tools st') = old @ map (with_cwd (gx_path st)) (vnum_calls g st path n3 n2 ?lib node) \<and>
      post_funs (this_group st') = [length old ..< length old + 3]"
    by (intro exI[of _ "cw_calls (gx_tools st3)"]) simp
qed

text \<open>
  The build \<open>e\<close> installs to \<open>path\<close> of the disk \<open>s\<close>, with the environment of the build and the one of \<open>g\<close>; the output of the
  link task is a file there, with the text \<open>c\<close> and the time \<open>m\<close>.
\<close>

definition lib_place :: "inst_env \<Rightarrow> nat \<Rightarrow> cctx \<Rightarrow> string \<Rightarrow> nat \<Rightarrow> inst \<Rightarrow> string \<Rightarrow> int \<Rightarrow> bool" where
  "lib_place e g st path node s c m \<longleftrightarrow>
     ie_is_install e > 0 \<and> \<not> ie_win32 e \<and> good_dest e path \<and>
     destdir_used (in_heap s) (ie_env e) \<and> destdir_used (in_heap s) (cg_env (c_at st g)) \<and>
     (\<exists>src t mode. abspath (in_tree s) node (Some (tg_variant (gen_at st g))) = Inr (src, t) \<and>
        os_entry (in_disk s) src = Some (File c m mode))"

definition safe_name :: "string \<Rightarrow> bool" where
  "safe_name s \<longleftrightarrow> plain s \<and> CHR ''/'' \<notin> set s"

lemma vnum_names_safe:
  assumes "vnum_names lib vnum = (n3, n2)" and "safe_name lib" and "safe_name vnum"
  shows "safe_name n3" "safe_name n2"
  using vnum_names_set[OF assms(1)] assms(2,3) by (auto simp: safe_name_def plain_def)

text \<open>The three calls, one after the other.\<close>

lemma vnum_calls_run:
  assumes run: "foldM (run_call e) (map (with_cwd w) (vnum_calls g st path n3 n2 lib node)) s = Inr s'"
    and place: "lib_place e g st path node s c m" and names: "vnum_names lib vnum = (n3, n2)" "safe_name lib" "safe_name vnum"
    and new: "map_of (in_disk s) (dest_of e path @ ''/'' @ n3) = None"
  shows "map_of (in_disk s') (dest_of e path @ ''/'' @ n2) = Some (Link n3)" "map_of (in_disk s') (dest_of e path @ ''/'' @ lib) = Some (Link n3)"
    and "n2 \<noteq> n3 \<Longrightarrow> map_of (in_disk s') (dest_of e path @ ''/'' @ n3) = Some (File c m O644)"
proof -
  let ?d = "dest_of e path"
  obtain src t mode where pl: "ie_is_install e > 0" "\<not> ie_win32 e" "good_dest e path" "destdir_used (in_heap s) (ie_env e)"
    "destdir_used (in_heap s) (cg_env (c_at st g))" "abspath (in_tree s) node (Some (tg_variant (gen_at st g))) = Inr (src, t)"
    "os_entry (in_disk s) src = Some (File c m mode)"
    using place unfolding lib_place_def by blast
  note sn = vnum_names_safe[OF names] names(2)
  note len = vnum_names_length(1,2)[OF names(1)]
  from run obtain s1 s2 where r: "run_call e (CallAs (Atom (AStr (path @ ''/'' @ n3))) (FNode node) (env_of g st) O644 (Some w)) s = Inr s1"
    "run_call e (CallLink (Atom (AStr (path @ ''/'' @ n2))) n3 None (Some w)) s1 = Inr s2"
    "run_call e (CallLink (Atom (AStr (path @ ''/'' @ lib))) n3 None (Some w)) s2 = Inr s'"
    by (auto simp: vnum_calls_def with_cwd_def rbind_Inr_iff simp del: run_call.simps)
  have ge: "good_dest (call_env (env_of g st) e) path" "destdir_used (in_heap s) (ie_env (call_env (env_of g st) e))"
    "ie_variant (call_env (env_of g st) e) = tg_variant (gen_at st g)"
    using pl(3,5) by (simp_all add: good_dest_def call_env_def env_of_def)
  note a = call_as_effect[OF r(1) pl(1) ge(1) _ _ ge(2) new _ pl(7), unfolded ge(3), OF _ _ pl(6)] sn(1)
  have f1: "map_of (in_disk s1) (?d @ ''/'' @ n3) = Some (File c m O644)" "envs (in_heap s1) = envs (in_heap s)"
    using a by (simp_all add: safe_name_def)
  have u1: "destdir_used (in_heap s1) (ie_env e)" using pl(4) destdir_used_envs[OF f1(2)] by simp
  note b = call_link_effect[OF r(2) pl(1,2,3) _ _ u1] sn(2)
  have f2: "map_of (in_disk s2) (?d @ ''/'' @ n2) = Some (Link n3)" "envs (in_heap s2) = envs (in_heap s1)"
    "n2 \<noteq> n3 \<Longrightarrow> map_of (in_disk s2) (?d @ ''/'' @ n3) = Some (File c m O644)"
    using b f1(1) by (simp_all add: safe_name_def)
  have u2: "destdir_used (in_heap s2) (ie_env e)" using u1 destdir_used_envs[OF f2(2)] by simp
  note k = call_link_effect[OF r(3) pl(1,2,3) _ _ u2] sn(3)
  have ne: "lib \<noteq> n2" "n2 \<noteq> n3 \<Longrightarrow> lib \<noteq> n3" using len vnum_names_length(3)[OF names(1)] by force+
  show "map_of (in_disk s') (?d @ ''/'' @ lib) = Some (Link n3)" using k by (simp add: safe_name_def)
  show "map_of (in_disk s') (?d @ ''/'' @ n2) = Some (Link n3)" using k f2(1) ne by (simp add: safe_name_def)
  show "n2 \<noteq> n3 \<Longrightarrow> map_of (in_disk s') (?d @ ''/'' @ n3) = Some (File c m O644)" using k f2(3) ne by (simp add: safe_name_def)
qed

lemma foldM_map_nth:
  "foldM (\<lambda>n. f ((old @ cs) ! n)) [length old ..< length old + length cs] s = foldM f cs s"
proof (induction cs arbitrary: old s)
  case (Cons c cs)
  have u: "[length old ..< length old + length (c # cs)] = length old # [length (old @ [c]) ..< length (old @ [c]) + length cs]"
    by (subst upt_conv_Cons) simp_all
  have "foldM (\<lambda>n. f ((old @ c # cs) ! n)) [length (old @ [c]) ..< length (old @ [c]) + length cs] = foldM f cs"
    using Cons.IH[of "old @ [c]"] by (intro ext) simp
  then show ?case unfolding u by (simp del: upt.simps length_append)
qed simp

text \<open>From the method of the generator to the disk.\<close>

lemma vnum_run_group:
  assumes "apply_vnum co g st = Inr st'" and "versioned_lib co g st vnum path node" and "path \<noteq> []" and "g < length (gx_gens st)"
    and "vnum_names (n_name (node_at (gx_tree st) node)) vnum = (n3, n2)"
    and "run_group e (cw_calls (gx_tools st')) (this_group st') s = Inr s'"
  shows "foldM (run_call e) (map (with_cwd (gx_path st)) (vnum_calls g st path n3 n2 (n_name (node_at (gx_tree st) node)) node)) s = Inr s'"
proof -
  let ?cs = "map (with_cwd (gx_path st)) (vnum_calls g st path n3 n2 (n_name (node_at (gx_tree st) node)) node)"
  from apply_vnum_queue(2)[OF assms(1-5)] obtain old where o: "cw_calls (gx_tools st') = old @ ?cs"
    "post_funs (this_group st') = [length old ..< length old + 3]" by blast
  have "length ?cs = 3" by (simp add: vnum_calls_def)
  with assms(6) o foldM_map_nth[of "run_call e" old ?cs s] show ?thesis by (simp add: run_group_def)
qed

lemma linked_entry:
  assumes "good_dest e path" and "safe_name n" and "safe_name n3" and "map_of d (dest_of e path @ ''/'' @ n) = Some (Link n3)"
  shows "path_join (dirname (dest_of e path @ ''/'' @ n)) n3 = dest_of e path @ ''/'' @ n3"
  using dirname_slash[OF dest_of_dir(2,3)[OF assms(1)], of n] path_join_slash[OF dest_of_dir(2,3)[OF assms(1)], of n3] assms(2,3)
  by (simp add: safe_name_def)


text \<open>
  A version without a dot: both names with a version are the same, the link replaces the library that was installed a moment
  before and leads to itself, and nothing that can be read is left.
\<close>

lemma undotted_version_lost:
  assumes "apply_vnum co g st = Inr st'" and "versioned_lib co g st vnum path node" and "g < length (gx_gens st)"
    and "CHR ''.'' \<notin> set vnum" and "lib = n_name (node_at (gx_tree st) node)" and "vnum_names lib vnum = (n3, n2)"
    and "safe_name lib" and "safe_name vnum" and "lib_place e g st path node s c m"
    and "map_of (in_disk s) (dest_of e path @ ''/'' @ n3) = None"
    and "run_group e (cw_calls (gx_tools st')) (this_group st') s = Inr s'"
  shows "map_of (in_disk s') (dest_of e path @ ''/'' @ n3) = Some (Link n3) \<and> os_entry (in_disk s') (dest_of e path @ ''/'' @ n3) = None"
proof -
  have good: "good_dest e path" using assms(9) by (simp add: lib_place_def)
  then have p: "path \<noteq> []" by (simp add: good_dest_def)
  note run = vnum_run_group[OF assms(1,2) p assms(3) assms(6)[unfolded assms(5)] assms(11), folded assms(5)]
  note r = vnum_calls_run[OF run assms(9,6,7,8,10)]
  from vnum_names_length(3)[OF assms(6,4)] r(1) have l: "map_of (in_disk s') (dest_of e path @ ''/'' @ n3) = Some (Link n3)" by simp
  note sn = vnum_names_safe[OF assms(6,7,8)]
  from l link_to_itself[OF l linked_entry[OF good sn(1) sn(1) l]] show ?thesis by blast
qed

subsection \<open>An example\<close>

definition lib_tree :: ntree where
  "lib_tree = small_tree\<lparr>nodes := (nodes small_tree)[1 := \<lparr>n_name = ''src'', n_parent = Some 0, n_id = 9,
       n_childs = Some [(''a.c'', 3), (''libx.so'', 4)]\<rparr>] @ [\<lparr>n_name = ''libx.so'', n_parent = Some 1, n_id = 23, n_childs = None\<rparr>],
     id_nodes := 24\<rparr>"

definition lib_heap :: heap where
  "lib_heap = \<lparr>envs = [0 \<mapsto> \<lparr>table = [(''DEST_BINFMT'', Atom (AStr ''elf''))], parent = None\<rparr>],
     lists = Map.empty, next_env = 1, next_list = 0\<rparr>"

definition lib_ctx :: "string \<Rightarrow> cctx" where
  "lib_ctx vnum = vnum_class ((cc_sample ((\<lambda>_. cc_blank)(0 := cc_blank\<lparr>cg_vnum := Some vnum, cg_link_task := Some 0\<rparr>)))
     \<lparr>gx_gens := [ex_gen\<lparr>tg_features := SList [''cshlib''], tg_install := Some ''/lib'', tg_meths := [''default_link_install'']\<rparr>],
      gx_tasks := [\<lparr>gt_class = ''link'', gt_gen = 0, gt_inputs = [], gt_outputs = [4], gt_dep_vars = None, gt_ruledeps = None,
        gt_install = None, gt_cwd = None, gt_do_install = None\<rparr>],
      gx_is_install := 1, gx_tree := lib_tree,
      gx_tools := (gx_tools (cc_sample ((\<lambda>_. cc_blank)(0 := cc_blank\<lparr>cg_vnum := Some vnum, cg_link_task := Some 0\<rparr>))))
        \<lparr>cw_heap := lib_heap\<rparr>\<rparr>)"

definition lib_inst_env :: inst_env where
  "lib_inst_env = \<lparr>ie_is_install = 1, ie_force = False, ie_destdir = [], ie_win32 = False, ie_env = 0, ie_variant = ''default'',
     ie_path = 1, ie_fs = small_fs, ie_writable = (\<lambda>_. True), ie_dirstat = (\<lambda>_. (0, 0)), ie_glob = (\<lambda>_ _. [])\<rparr>"

definition lib_disk :: inst where
  "lib_disk = \<lparr>in_disk = [([CHR ''/''], Dir), (''/lib'', Dir), (''/bld'', Dir), (''/bld/default'', Dir), (''/bld/default/libx.so'', File ''elf'' 7 0),
       (''/lib/libx.so'', Link ''libx.so.0.9'')],
     in_uninstall = [], in_error = False, in_tree = lib_tree, in_heap = lib_heap\<rparr>"

lemma lib_ctx_versioned: "versioned_lib cc_sample_opts 0 (lib_ctx ''1.2'') ''1.2'' ''/lib'' 4"
proof -
  have "rmap fst (env_get 0 ''DEST_BINFMT'' (lib_ctx ''1.2'')) = Inr (Atom (AStr ''elf''))" by code_simp
  then have "\<exists>st1. env_get 0 ''DEST_BINFMT'' (lib_ctx ''1.2'') = Inr (Atom (AStr ''elf''), st1)" by (auto simp: rmap_Inr_iff)
  moreover have "link_output 0 (lib_ctx ''1.2'') = Inr (0, 4)" by code_simp
  moreover have "cg_vnum (c_at (lib_ctx ''1.2'') 0) = Some ''1.2''" "has_feature ''cshlib'' (tg_features (gen_at (lib_ctx ''1.2'') 0))"
    "co_os_name cc_sample_opts = ''posix''" "install_path_of 0 (lib_ctx ''1.2'') = Atom (AStr ''/lib'')" "gx_is_install (lib_ctx ''1.2'') \<noteq> 0"
    "post_funs (this_group (lib_ctx ''1.2'')) = []"
    by code_simp+
  ultimately show ?thesis unfolding versioned_lib_def by blast
qed

lemma lib_disk_place: "lib_place lib_inst_env 0 (lib_ctx ''1.2'') ''/lib'' 4 lib_disk ''elf'' 7"
proof -
  have "rmap fst (abspath (in_tree lib_disk) 4 (Some (tg_variant (gen_at (lib_ctx ''1.2'') 0)))) = Inr ''/bld/default/libx.so''"
    by code_simp
  then obtain t where "abspath (in_tree lib_disk) 4 (Some (tg_variant (gen_at (lib_ctx ''1.2'') 0))) = Inr (''/bld/default/libx.so'', t)"
    by (auto simp: rmap_Inr_iff)
  moreover have "os_entry (in_disk lib_disk) ''/bld/default/libx.so'' = Some (File ''elf'' 7 0)" by code_simp
  moreover have "ie_is_install lib_inst_env > 0" "\<not> ie_win32 lib_inst_env" "good_dest lib_inst_env ''/lib''"
    "destdir_used (in_heap lib_disk) (ie_env lib_inst_env)" "destdir_used (in_heap lib_disk) (cg_env (c_at (lib_ctx ''1.2'') 0))"
    by code_simp+
  ultimately show ?thesis unfolding lib_place_def by blast
qed


end
