(* ===== verification/Waf_Cctool.thy ===== *)
theory Waf_Cctool
  imports Waf_Ccinstall
begin

text \<open>
  The C and C++ tools, \<^verbatim>\<open>src/tools/wafadmin/Tools/cc.py\<close> and \<^verbatim>\<open>cxx.py\<close>, and \<open>get_cc_version\<close> of \<^verbatim>\<open>ccroot.py\<close>: the macros of the
  compiler that was found, the variables, include flags and defines of a generator, the hooks that make a compilation task
  for a source, and the registration of methods, hooks and classes of tasks.

  After the definitions: every source of a generator is compiled by one task, and the link task reads the objects; the
  methods of the three modules can always be sorted; the system found does not depend on the order of iteration when the
  macros of the compiler agree.

  Running the compiler is a parameter, and so are the order in which Python iterates over dictionaries and sets, and the
  variables of a rule text.
\<close>

section \<open>Definitions\<close>

subsection \<open>The compiler that was found\<close>

text \<open>
  \<open>shlex.split\<close> without comments: white space outside quotes separates words; a backslash takes the next character
  as it is, within double quotes only if it is a backslash or a double quote. The state before a word is \<open>ShSpace\<close>;
  \<open>ShEsc\<close> has the quote that a backslash was read in.
\<close>

datatype sh_state = ShSpace | ShWord | ShQuote char | ShEsc "char option"

definition sh_space :: "char \<Rightarrow> bool" where
  "sh_space c \<longleftrightarrow> c \<in> {CHR '' '', CHR 0x09, CHR 0x0D, CHR 0x0A}"

definition sh_quote :: "char \<Rightarrow> bool" where
  "sh_quote c \<longleftrightarrow> c = CHR 0x22 \<or> c = CHR 0x27"

definition sh_state_of :: "char option \<Rightarrow> sh_state" where
  "sh_state_of q = (case q of None \<Rightarrow> ShWord | Some c \<Rightarrow> ShQuote c)"

definition sh_word :: "bool \<Rightarrow> string \<Rightarrow> string list" where
  "sh_word quoted token = (if token \<noteq> [] \<or> quoted then [token] else [])"

fun shlex_from :: "sh_state \<Rightarrow> bool \<Rightarrow> string \<Rightarrow> string \<Rightarrow> string list result" where
  "shlex_from (ShQuote q) quoted token [] = Inl ValueError"
| "shlex_from (ShEsc q) quoted token [] = Inl ValueError"
| "shlex_from ShSpace quoted token [] = Inr (sh_word quoted token)"
| "shlex_from ShWord quoted token [] = Inr (sh_word quoted token)"
| "shlex_from (ShQuote q) quoted token (c # s) =
     (if c = q then shlex_from ShWord True token s
      else if c = CHR 0x5C \<and> q = CHR 0x22 then shlex_from (ShEsc (Some q)) True token s
      else shlex_from (ShQuote q) True (token @ [c]) s)"
| "shlex_from (ShEsc q) quoted token (c # s) =
     shlex_from (sh_state_of q) quoted
       (token @ (if q \<noteq> None \<and> c \<noteq> CHR 0x5C \<and> Some c \<noteq> q then [CHR 0x5C, c] else [c])) s"
| "shlex_from st quoted token (c # s) =
     (if sh_space c then rmap (append (sh_word quoted token)) (shlex_from ShSpace False [] s)
      else if c = CHR 0x5C then shlex_from (ShEsc None) quoted token s
      else if sh_quote c then shlex_from (ShQuote c) quoted token s
      else shlex_from ShWord quoted (token @ [c]) s)"

definition shlex_split :: "string \<Rightarrow> string list result" where
  "shlex_split s = shlex_from ShSpace False [] s"

text \<open>The macros of the compiler, from the lines it writes.\<close>

definition macro_line :: "string \<Rightarrow> (string \<times> string) list \<Rightarrow> (string \<times> string) list result" where
  "macro_line line k =
     rmap (\<lambda>lst. case lst of d # key # v # r \<Rightarrow> dict_set key v k | _ \<Rightarrow> k) (shlex_split line)"

definition compiler_macros :: "string \<Rightarrow> (string \<times> string) list result" where
  "compiler_macros out = foldM macro_line (py_split_chr (CHR 0x0A) out) []"

definition mp1 :: "(string \<times> string) list" where
  "mp1 = [(''__linux__'', ''linux''), (''__GNU__'', ''hurd''), (''__FreeBSD__'', ''freebsd''), (''__NetBSD__'', ''netbsd''),
     (''__OpenBSD__'', ''openbsd''), (''__sun'', ''sunos''), (''__hpux'', ''hpux''), (''__sgi'', ''irix''), (''_AIX'', ''aix''),
     (''__CYGWIN__'', ''cygwin''), (''__MSYS__'', ''msys''), (''_UWIN'', ''uwin''), (''_WIN64'', ''win32''), (''_WIN32'', ''win32'')]"

definition mp2 :: "(string \<times> string) list" where
  "mp2 = [(''__x86_64__'', ''x86_64''), (''__i386__'', ''x86''), (''__ia64__'', ''ia''), (''__mips__'', ''mips''),
     (''__sparc__'', ''sparc''), (''__alpha__'', ''alpha''), (''__arm__'', ''arm''), (''__hppa__'', ''hppa''), (''__powerpc__'', ''powerpc'')]"

text \<open>The loop over a table, in the order in which Python iterates over it, up to a macro that is defined.\<close>

fun first_defined :: "(string \<times> string) list \<Rightarrow> (string \<times> string) list \<Rightarrow> string option" where
  "first_defined k [] = None"
| "first_defined k ((i, v) # tbl) = (if map_of k i \<noteq> None then Some v else first_defined k tbl)"

definition set_text :: "nat \<Rightarrow> string \<Rightarrow> string option \<Rightarrow> heap \<Rightarrow> heap" where
  "set_text e key v h = (case v of None \<Rightarrow> h | Some s \<Rightarrow> setitem e key (Atom (AStr s)) h)"

definition dest_os :: "(string \<times> string) list \<Rightarrow> (string \<times> string) list \<Rightarrow> string option" where
  "dest_os tbl k =
     (case first_defined k tbl of
        Some v \<Rightarrow> Some v
      | None \<Rightarrow> if map_of k ''__APPLE__'' \<noteq> None \<and> map_of k ''__MACH__'' \<noteq> None then Some ''darwin''
                else if map_of k ''__unix__'' \<noteq> None then Some ''generic'' else None)"

text \<open>\<open>out\<close> is what the compiler wrote, \<open>None\<close> when it could not be run; \<open>it\<close> is the order of iteration.\<close>

definition get_cc_version :: "((string \<times> string) list \<Rightarrow> (string \<times> string) list) \<Rightarrow> string option \<Rightarrow> bool \<Rightarrow> bool \<Rightarrow> nat \<Rightarrow> heap \<Rightarrow>
    ((string \<times> string) list \<times> heap) result" where
  "get_cc_version it out0 gcc icc e h =
     (case out0 of
        None \<Rightarrow> Inl (WafError ''could not determine the compiler version'')
      | Some out \<Rightarrow>
          if gcc \<and> py_find out ''__INTEL_COMPILER'' 0 \<noteq> None then Inl (WafError ''The intel compiler pretends to be gcc'')
          else if gcc \<and> py_find out ''__GNUC__'' 0 = None then Inl (WafError ''Could not determine the compiler type'')
          else if icc \<and> py_find out ''__INTEL_COMPILER'' 0 = None then Inl (WafError ''Not icc/icpc'')
          else if \<not> (icc \<or> gcc) then Inr ([], h)
          else rbind (compiler_macros out) (\<lambda>k.
            let h1 = set_text e ''DEST_OS'' (dest_os (it mp1) k) h;
                h2 = set_text e ''DEST_BINFMT'' (if map_of k ''__ELF__'' \<noteq> None then Some ''elf'' else None) h1;
                h3 = set_text e ''DEST_CPU'' (first_defined k (it mp2)) h2
            in case (map_of k ''__GNUC__'', map_of k ''__GNUC_MINOR__'', map_of k ''__GNUC_PATCHLEVEL__'') of
                 (Some a, Some b, Some c) \<Rightarrow> (let (l, h4) = new_list (map AStr [a, b, c]) h3 in Inr (k, setitem e ''CC_VERSION'' (VList l) h4))
               | _ \<Rightarrow> Inl KeyError))"

subsection \<open>The features \<open>cc\<close> and \<open>cxx\<close>\<close>

definition g_cc_flag_vars :: "string list" where
  "g_cc_flag_vars = [''CCDEPS'', ''FRAMEWORK'', ''FRAMEWORKPATH'', ''STATICLIB'', ''LIB'', ''LIBPATH'', ''LINKFLAGS'', ''RPATH'',
     ''CCFLAGS'', ''CPPPATH'', ''CPPFLAGS'', ''CCDEFINES'']"

definition g_cc_type_vars :: "string list" where
  "g_cc_type_vars = [''CCFLAGS'', ''LINKFLAGS'']"

definition g_cxx_flag_vars :: "string list" where
  "g_cxx_flag_vars = [''CXXDEPS'', ''FRAMEWORK'', ''FRAMEWORKPATH'', ''STATICLIB'', ''LIB'', ''LIBPATH'', ''LINKFLAGS'', ''RPATH'',
     ''CXXFLAGS'', ''CCFLAGS'', ''CPPPATH'', ''CPPFLAGS'', ''CXXDEFINES'']"

definition g_cxx_type_vars :: "string list" where
  "g_cxx_type_vars = [''CXXFLAGS'', ''LINKFLAGS'']"

text \<open>The union of the attribute with the variables of the language; \<open>so\<close> is the order of iteration over a set.\<close>

definition add_vars :: "(string set \<Rightarrow> string list) \<Rightarrow> string list \<Rightarrow> string list \<Rightarrow> nat \<Rightarrow> cctx \<Rightarrow> cctx result" where
  "add_vars so flag_vars type_vars g st =
     rbind (attr (cg_p_flag_vars (c_at st g))) (\<lambda>f. rbind (attr (cg_p_type_vars (c_at st g))) (\<lambda>t.
       Inr (upd_c g (\<lambda>c. c\<lparr>cg_p_flag_vars := Some (so (set f \<union> set flag_vars)), cg_p_type_vars := Some (so (set t \<union> set type_vars))\<rparr>) st)))"

definition need_compiler :: "string \<Rightarrow> nat \<Rightarrow> cctx \<Rightarrow> cctx result" where
  "need_compiler var g st =
     rbind (env_true g var st) (\<lambda>(b, st1). if b then Inr st1 else Inl (WafError ''At least one compiler must be selected''))"

definition init_cc :: "(string set \<Rightarrow> string list) \<Rightarrow> nat \<Rightarrow> cctx \<Rightarrow> cctx result" where
  "init_cc so g st = rbind (add_vars so g_cc_flag_vars g_cc_type_vars g st) (need_compiler ''CC_NAME'' g)"

definition init_cxx :: "(string set \<Rightarrow> string list) \<Rightarrow> nat \<Rightarrow> cctx \<Rightarrow> cctx result" where
  "init_cxx so g st =
     rbind (if has_feature ''cc'' (tg_features (gen_at st g)) then Inr st
            else case map_of (c_mappings (gx_class st)) ''.cxx'' of
              None \<Rightarrow> Inl KeyError
            | Some h \<Rightarrow> Inr (upd_gen g (\<lambda>y. y\<lparr>tg_mappings := dict_set ''.c'' h (tg_mappings y)\<rparr>) st)) (\<lambda>st1.
       rbind (add_vars so g_cxx_flag_vars g_cxx_type_vars g st1) (need_compiler ''CXX_NAME'' g))"

text \<open>The flags of the include paths: for a node of \<open>INC_PATHS\<close> in the build and in the source directory.\<close>

definition node_flags :: "string \<Rightarrow> val \<Rightarrow> nat \<Rightarrow> atom \<Rightarrow> cctx \<Rightarrow> cctx result" where
  "node_flags var pattern g i st =
     (case i of
        AOther n \<Rightarrow>
          (let v = Some (tg_variant (gen_at st g)) in
           rbind (bldpath (gx_tree st) n v) (\<lambda>p.
             rbind (val_percent pattern (AStr p)) (\<lambda>w.
               rbind (env_append_unique g var (Atom (AStr w)) st) (\<lambda>st1.
                 rbind (srcpath (gx_tree st1) n v) (\<lambda>q.
                   rbind (val_percent pattern (AStr q)) (\<lambda>w2. env_append_unique g var (Atom (AStr w2)) st1))))))
      | _ \<Rightarrow> Inl AttributeError)"

definition inc_flags :: "string \<Rightarrow> nat \<Rightarrow> cctx \<Rightarrow> cctx result" where
  "inc_flags var g st0 =
     rbind (env_get g ''CPPPATH_ST'' st0) (\<lambda>(pattern, st1).
       rbind (env_iter g ''INC_PATHS'' st1) (\<lambda>(ns, st2).
         rbind (foldM (node_flags var pattern g) ns st2) (\<lambda>st3.
           rbind (env_iter g ''CPPPATH'' st3) (\<lambda>(ps, st4).
             foldM (\<lambda>i st. rbind (val_percent pattern i) (\<lambda>w. env_append_unique g var (Atom (AStr w)) st)) ps st4))))"

definition apply_obj_vars_cc :: "nat \<Rightarrow> cctx \<Rightarrow> cctx result" where
  "apply_obj_vars_cc = inc_flags ''_CCINCFLAGS''"

definition apply_obj_vars_cxx :: "nat \<Rightarrow> cctx \<Rightarrow> cctx result" where
  "apply_obj_vars_cxx = inc_flags ''_CXXINCFLAGS''"

text \<open>\<open>to_list\<close> of a value, and \<open>l += value\<close>, which takes a text apart into characters.\<close>

definition val_list :: "heap \<Rightarrow> val \<Rightarrow> atom list result" where
  "val_list h v = (case v of Atom (AStr s) \<Rightarrow> Inr (map AStr (py_split_ws s)) | VList l \<Rightarrow> Inr (list_at h l) | _ \<Rightarrow> Inl TypeError)"

definition trimquotes :: "string \<Rightarrow> string result" where
  "trimquotes s0 =
     (if s0 = [] then Inr []
      else let s = py_rstrip s0 in
        if s = [] then Inl IndexError
        else if hd s = CHR 0x27 \<and> last s = CHR 0x27 then Inr (butlast (tl s)) else Inr s)"

definition defline :: "string \<Rightarrow> string result" where
  "defline y =
     (let x = py_split_chr (CHR ''='') y in rmap (\<lambda>v. hd x @ '' '' @ v) (trimquotes (py_join ''='' (tl x))))"

definition lib_defines :: "(heap \<Rightarrow> val \<Rightarrow> atom list result) \<Rightarrow> string \<Rightarrow> nat \<Rightarrow> string \<Rightarrow> atom list \<times> cctx \<Rightarrow> (atom list \<times> cctx) result" where
  "lib_defines ext_by var g l = (\<lambda>(milst, st).
     rbind (env_get g (var @ ''_'' @ l) st) (\<lambda>(v, st1).
       if truthy (the_heap st1) v then rmap (\<lambda>xs. (milst @ xs, st1)) (ext_by (the_heap st1) v) else Inr (milst, st1)))"

definition set_list :: "nat \<Rightarrow> string \<Rightarrow> string list \<Rightarrow> cctx \<Rightarrow> cctx" where
  "set_list g key ws st = (let (l, h) = new_list (map AStr ws) (the_heap st) in env_set g key (VList l) (set_heap h st))"

text \<open>The defines of a generator, of its environment and of its libraries.\<close>

definition all_defines :: "(heap \<Rightarrow> val \<Rightarrow> atom list result) \<Rightarrow> string \<Rightarrow> nat \<Rightarrow> cctx \<Rightarrow> (string list \<times> cctx) result" where
  "all_defines ext_by var g st0 =
     (let st = upd_c g (\<lambda>c. c\<lparr>cg_defines := def_attr (SList []) (cg_defines c)\<rparr>) st0 in
      rbind (attr (cg_defines (c_at st g))) (\<lambda>own.
        rbind (env_get g var st) (\<lambda>(v, st1).
          rbind (val_list (the_heap st1) v) (\<lambda>common.
            let milst = add_unique [] (map AStr (sval_list own) @ common) in
            rbind (attr (cg_uselib (c_at st1 g))) (\<lambda>u.
              rbind (foldM (lib_defines ext_by var g) (sval_list u) (milst, st1)) (\<lambda>(all, st2).
                rmap (\<lambda>ws. (ws, st2)) (mapM path_text all)))))))"

definition apply_defines :: "(heap \<Rightarrow> val \<Rightarrow> atom list result) \<Rightarrow> string \<Rightarrow> string \<Rightarrow> nat \<Rightarrow> cctx \<Rightarrow> cctx result" where
  "apply_defines ext_by var flags g st0 =
     rbind (all_defines ext_by var g st0) (\<lambda>(milst, st1).
       rbind (mapM defline milst) (\<lambda>deflines.
         let st2 = set_list g ''DEFLINES'' deflines st1 in
         rbind (env_get g (var @ ''_ST'') st2) (\<lambda>(y, st3).
           rmap (\<lambda>ws. set_list g flags ws st3) (mapM (\<lambda>x. val_percent y (AStr x)) milst))))"

definition apply_defines_cc :: "nat \<Rightarrow> cctx \<Rightarrow> cctx result" where
  "apply_defines_cc = apply_defines iter_val ''CCDEFINES'' ''_CCDEFFLAGS''"

definition apply_defines_cxx :: "nat \<Rightarrow> cctx \<Rightarrow> cctx result" where
  "apply_defines_cxx = apply_defines val_list ''CXXDEFINES'' ''_CXXDEFFLAGS''"

subsection \<open>Compilation tasks\<close>

definition obj_ext_of :: "nat \<Rightarrow> cctx \<Rightarrow> string result" where
  "obj_ext_of g st =
     (case map_of (cg_dict (c_at st g)) ''obj_ext'' of
        Some v \<Rightarrow> if truthy (the_heap st) v then (case v of Atom (AStr s) \<Rightarrow> Inr s | _ \<Rightarrow> Inl TypeError)
                   else Inr (''_'' @ str_nat (tg_idx (gen_at st g)) @ ''.o'')
      | None \<Rightarrow> Inr (''_'' @ str_nat (tg_idx (gen_at st g)) @ ''.o''))"

text \<open>A hook is given a node; a name has no attribute \<open>change_ext\<close>.\<close>

definition compile_hook :: "cc_opts \<Rightarrow> string \<Rightarrow> nat \<Rightarrow> hook_arg \<Rightarrow> cctx \<Rightarrow> cctx result" where
  "compile_hook co kind g a st =
     rbind (obj_ext_of g st) (\<lambda>ext.
       case a of
         HName s \<Rightarrow> Inl AttributeError
       | HNode node \<Rightarrow>
           rbind (change_ext (co_fs co) node ext (gx_tree st)) (\<lambda>(n, t).
             rbind (create_task kind [node] (case n of None \<Rightarrow> [] | Some x \<Rightarrow> [x]) g (st\<lparr>gx_tree := t\<rparr>)) (\<lambda>(k, st1).
               case cg_compiled_tasks (c_at st1 g) of
                 None \<Rightarrow> Inl (WafError ''Have you forgotten to set the feature?'')
               | Some ks \<Rightarrow> Inr (upd_c g (\<lambda>c. c\<lparr>cg_compiled_tasks := Some (ks @ [k])\<rparr>) st1))))"

definition c_hook :: "cc_opts \<Rightarrow> nat \<Rightarrow> hook_arg \<Rightarrow> cctx \<Rightarrow> cctx result" where
  "c_hook co = compile_hook co ''cc''"

definition cxx_hook :: "cc_opts \<Rightarrow> nat \<Rightarrow> hook_arg \<Rightarrow> cctx \<Rightarrow> cctx result" where
  "cxx_hook co = compile_hook co ''cxx''"

subsection \<open>Registration\<close>

definition EXT_CC :: "string list" where "EXT_CC = [''.c'']"

definition EXT_CXX :: "string list" where "EXT_CXX = [''.cpp'', ''.cc'', ''.cxx'', ''.C'', ''.c++'']"

definition cc_class :: "tg_class \<Rightarrow> tg_class" where
  "cc_class c =
     (let c = feature [''cc''] ''init_cc'' (before [''apply_type_vars''] ''init_cc'' (after_deco [''default_cc''] ''init_cc'' c));
          c = feature [''cc''] ''apply_obj_vars_cc'' (after_deco [''apply_incpaths''] ''apply_obj_vars_cc'' c);
          c = feature [''cc''] ''apply_defines_cc'' (after_deco [''apply_lib_vars''] ''apply_defines_cc'' c)
      in extension (SList EXT_CC) ''c_hook'' c)"

definition cxx_class :: "tg_class \<Rightarrow> tg_class" where
  "cxx_class c =
     (let c = feature [''cxx''] ''init_cxx'' (before [''apply_type_vars''] ''init_cxx'' (after_deco [''default_cc''] ''init_cxx'' c));
          c = feature [''cxx''] ''apply_obj_vars_cxx'' (after_deco [''apply_incpaths''] ''apply_obj_vars_cxx'' c);
          c = feature [''cxx''] ''apply_defines_cxx'' (after_deco [''apply_lib_vars''] ''apply_defines_cxx'' c)
      in extension (SList EXT_CXX) ''cxx_hook'' c)"

text \<open>The classes of the tasks; \<open>rv\<close> has the variables of a rule.\<close>

definition simple_kind :: "string list \<Rightarrow> string \<Rightarrow> string \<Rightarrow> string list \<Rightarrow> gclass" where
  "simple_kind vars ext_in ext_out flags =
     \<lparr>k_vars = vars, k_order = (\<lambda>_. [])(''ext_in'' := [ext_in], ''ext_out'' := [ext_out]), k_flags = flags\<rparr>"

definition lb :: string where "lb = [CHR ''$'', CHR 0x7B]"
definition rb :: string where "rb = [CHR 0x7D]"

definition cc_str :: string where
  "cc_str = lb @ ''CC'' @ rb @ '' '' @ lb @ ''CCFLAGS'' @ rb @ '' '' @ lb @ ''CPPFLAGS'' @ rb @ '' '' @ lb @ ''_CCINCFLAGS'' @ rb @ '' '' @
     lb @ ''_CCDEFFLAGS'' @ rb @ '' '' @ lb @ ''CC_SRC_F'' @ rb @ lb @ ''SRC'' @ rb @ '' '' @ lb @ ''CC_TGT_F'' @ rb @ lb @ ''TGT'' @ rb"

definition cxx_str :: string where
  "cxx_str = lb @ ''CXX'' @ rb @ '' '' @ lb @ ''CXXFLAGS'' @ rb @ '' '' @ lb @ ''CPPFLAGS'' @ rb @ '' '' @ lb @ ''_CXXINCFLAGS'' @ rb @ '' '' @
     lb @ ''_CXXDEFFLAGS'' @ rb @ '' '' @ lb @ ''CXX_SRC_F'' @ rb @ lb @ ''SRC'' @ rb @ '' '' @ lb @ ''CXX_TGT_F'' @ rb @ lb @ ''TGT'' @ rb"

definition link_str :: "string \<Rightarrow> string" where
  "link_str x = lb @ ''LINK_'' @ x @ rb @ '' '' @ lb @ x @ ''LNK_SRC_F'' @ rb @ lb @ ''SRC'' @ rb @ '' '' @ lb @ x @ ''LNK_TGT_F'' @ rb @
     lb @ ''TGT[0].abspath(env)'' @ rb @ '' '' @ lb @ ''LINKFLAGS'' @ rb"

definition cc_kinds :: "(string \<Rightarrow> string list) \<Rightarrow> cctx \<Rightarrow> cctx" where
  "cc_kinds rv st = st\<lparr>gx_kinds := (gx_kinds st)(
     ''cc'' \<mapsto> simple_kind (rv cc_str @ [''CCDEPS'']) ''.c'' ''.o'' [''scan''],
     ''cc_link'' \<mapsto> simple_kind (rv (link_str ''CC'')) ''.o'' ''.bin'' [''maxjobs'', ''install''])\<rparr>"

definition cxx_kinds :: "(string \<Rightarrow> string list) \<Rightarrow> cctx \<Rightarrow> cctx" where
  "cxx_kinds rv st = st\<lparr>gx_kinds := (gx_kinds st)(
     ''cxx'' \<mapsto> simple_kind (rv cxx_str @ [''CXXDEPS'']) ''.cxx'' ''.o'' [''scan''],
     ''cxx_link'' \<mapsto> simple_kind (rv (link_str ''CXX'')) ''.o'' ''.bin'' [''maxjobs'', ''install''])\<rparr>"

text \<open>The methods and hooks by name.\<close>

definition cc_tool_meth :: "cc_opts \<Rightarrow> (string set \<Rightarrow> string list) \<Rightarrow> (string \<Rightarrow> (nat \<Rightarrow> cctx \<Rightarrow> cctx result) \<Rightarrow> nat \<Rightarrow> cctx \<Rightarrow> cctx result) \<Rightarrow>
    string \<Rightarrow> (nat \<Rightarrow> cctx \<Rightarrow> cctx result) \<Rightarrow> nat \<Rightarrow> cctx \<Rightarrow> cctx result" where
  "cc_tool_meth co so others =
     cc_install_meth co (\<lambda>x pst g st.
       if x = ''init_cc'' then init_cc so g st
       else if x = ''apply_obj_vars_cc'' then apply_obj_vars_cc g st
       else if x = ''apply_defines_cc'' then apply_defines_cc g st
       else if x = ''init_cxx'' then init_cxx so g st
       else if x = ''apply_obj_vars_cxx'' then apply_obj_vars_cxx g st
       else if x = ''apply_defines_cxx'' then apply_defines_cxx g st
       else others x pst g st)"

definition cc_tool_hook :: "cc_opts \<Rightarrow> (string \<Rightarrow> nat \<Rightarrow> hook_arg \<Rightarrow> cctx \<Rightarrow> cctx result) \<Rightarrow> string \<Rightarrow> nat \<Rightarrow> hook_arg \<Rightarrow> cctx \<Rightarrow> cctx result" where
  "cc_tool_hook co others h =
     (if h = ''c_hook'' then c_hook co else if h = ''cxx_hook'' then cxx_hook co else others h)"


section \<open>From sources to the link task\<close>

text \<open>The task \<open>k\<close> compiles the node \<open>n\<close> for the generator \<open>g\<close>; its output is the node with another extension.\<close>

definition compiles :: "cc_opts \<Rightarrow> nat \<Rightarrow> gtask list \<Rightarrow> nat \<Rightarrow> nat \<Rightarrow> bool" where
  "compiles co g ts n k \<longleftrightarrow> k < length ts \<and> gt_class (ts ! k) \<in> {''cc'', ''cxx''} \<and> gt_gen (ts ! k) = g \<and> gt_inputs (ts ! k) = [n] \<and>
     (\<exists>ext t x t'. change_ext (co_fs co) n ext t = Inr (x, t') \<and> gt_outputs (ts ! k) = (case x of None \<Rightarrow> [] | Some y \<Rightarrow> [y]))"

lemma compiles_append: "compiles co g ts n k \<Longrightarrow> compiles co g (ts @ us) n k"
  by (simp add: compiles_def nth_append)

definition no_hook :: "string \<Rightarrow> nat \<Rightarrow> hook_arg \<Rightarrow> cctx \<Rightarrow> cctx result" where
  "no_hook h g a st = Inl AttributeError"

lemma gen_at_update:
  "tg_allnodes ((gx_gens st)[g := (gx_gens st ! g)\<lparr>tg_tasks := x\<rparr>] ! h) = tg_allnodes (gx_gens st ! h)"
  by (cases "g < length (gx_gens st)"; cases "g = h"; simp add: list_update_beyond)

lemma compile_hook_result:
  assumes "compile_hook co kind g (HNode n) st = Inr st'" and "kind \<in> {''cc'', ''cxx''}"
  shows "\<exists>t. gx_tasks st' = gx_tasks st @ [t] \<and> compiles co g (gx_tasks st @ [t]) n (length (gx_tasks st))"
    and "\<exists>ks. cg_compiled_tasks (c_at st g) = Some ks \<and> cg_compiled_tasks (c_at st' g) = Some (ks @ [length (gx_tasks st)])"
    and "tg_allnodes (gen_at st' g) = tg_allnodes (gen_at st g)"
proof -
  from assms(1) obtain ext x t m ks where c: "change_ext (co_fs co) n ext (gx_tree st) = Inr (x, t)"
    and k: "cg_compiled_tasks (c_at st g) = Some ks" "cg_compiled_tasks (c_at st' g) = Some (ks @ [length (gx_tasks st)])"
    and s: "gx_tasks st' = gx_tasks st @ [\<lparr>gt_class = kind, gt_gen = g, gt_inputs = [n], gt_outputs = (case x of None \<Rightarrow> [] | Some y \<Rightarrow> [y]),
         gt_dep_vars = None, gt_ruledeps = None, gt_install = None, gt_cwd = None, gt_do_install = None\<rparr>]"
      "gx_gens st' = (gx_gens st)[g := (gx_gens st ! g)\<lparr>tg_tasks := tg_tasks (gx_gens st ! g) @ [length (gx_tasks st)]\<rparr>]"
    by (auto simp: compile_hook_def create_task_def rbind_Inr_iff rmap_Inr_iff upd_gen_def upd_c_def c_at_def gen_at_def Let_def
        split: if_splits option.splits)
  show "\<exists>t. gx_tasks st' = gx_tasks st @ [t] \<and> compiles co g (gx_tasks st @ [t]) n (length (gx_tasks st))"
    using s(1) c assms(2) by (auto simp: compiles_def)
  show "\<exists>ks. cg_compiled_tasks (c_at st g) = Some ks \<and> cg_compiled_tasks (c_at st' g) = Some (ks @ [length (gx_tasks st)])" using k by blast
  show "tg_allnodes (gen_at st' g) = tg_allnodes (gen_at st g)" by (simp add: gen_at_def s gen_at_update)
qed

lemma hook_cases:
  assumes "cc_tool_hook co no_hook h g a st = Inr st'"
  obtains kind n where "kind \<in> {''cc'', ''cxx''}" "a = HNode n" "compile_hook co kind g (HNode n) st = Inr st'"
  using assms
  by (cases a) (auto simp: cc_tool_hook_def c_hook_def cxx_hook_def no_hook_def compile_hook_def[of _ _ _ "HName _"] rbind_Inr_iff split: if_splits)

lemma hooks_growing: "te_hook env = cc_tool_hook co no_hook \<Longrightarrow> growing_env env g"
  unfolding growing_env_def by (metis hook_cases compile_hook_result(3) prefix_order.refl)

text \<open>The nodes of a list, one after the other: one task for each.\<close>

lemma core_node_compiles:
  assumes "te_hook env = cc_tool_hook co no_hook" and "core_node env g n st = Inr st'"
  obtains t ks where "gx_tasks st' = gx_tasks st @ [t]" "compiles co g (gx_tasks st @ [t]) n (length (gx_tasks st))"
    "cg_compiled_tasks (c_at st g) = Some ks" "cg_compiled_tasks (c_at st' g) = Some (ks @ [length (gx_tasks st)])"
proof -
  from assms obtain h where "cc_tool_hook co no_hook h g (HNode n) st = Inr st'" by (auto simp: core_node_def split: option.splits)
  then obtain kind where k: "kind \<in> {''cc'', ''cxx''}" "compile_hook co kind g (HNode n) st = Inr st'" by (metis hook_cases hook_arg.inject(2))
  from compile_hook_result(1,2)[OF k(2,1)] that show thesis by blast
qed

definition all_compiled :: "cc_opts \<Rightarrow> nat \<Rightarrow> nat list \<Rightarrow> nat list \<Rightarrow> gtask list \<Rightarrow> bool" where
  "all_compiled co g ns ks ts \<longleftrightarrow> distinct ks \<and> list_all2 (compiles co g ts) ns ks"

lemma all_compiled_lt: "all_compiled co g ns ks ts \<Longrightarrow> k \<in> set ks \<Longrightarrow> k < length ts"
  unfolding all_compiled_def by (metis compiles_def in_set_conv_nth list_all2_nthD2)

lemma all_compiled_append: "all_compiled co g ns ks ts \<Longrightarrow> all_compiled co g ns ks (ts @ us)"
  unfolding all_compiled_def by (auto elim: list_all2_mono intro: compiles_append)

lemma nodes_compiled:
  assumes "te_hook env = cc_tool_hook co no_hook"
  shows "foldM (core_node env g) ns st = Inr st' \<Longrightarrow> cg_compiled_tasks (c_at st g) = Some ks \<Longrightarrow> all_compiled co g ms ks (gx_tasks st) \<Longrightarrow>
    \<exists>ks'. cg_compiled_tasks (c_at st' g) = Some ks' \<and> all_compiled co g (ms @ ns) ks' (gx_tasks st')"
proof (induction ns arbitrary: st ks ms)
  case (Cons n ns)
  from Cons.prems(1) obtain s where s: "core_node env g n st = Inr s" "foldM (core_node env g) ns s = Inr st'" by (auto simp: rbind_Inr_iff)
  obtain t where t: "gx_tasks s = gx_tasks st @ [t]" "compiles co g (gx_tasks st @ [t]) n (length (gx_tasks st))"
    "cg_compiled_tasks (c_at s g) = Some (ks @ [length (gx_tasks st)])"
    using core_node_compiles[OF assms s(1)] Cons.prems(2) by (metis option.inject)
  have "length (gx_tasks st) \<notin> set ks" using all_compiled_lt[OF Cons.prems(3)] by blast
  with all_compiled_append[OF Cons.prems(3), of "[t]"] t have "all_compiled co g (ms @ [n]) (ks @ [length (gx_tasks st)]) (gx_tasks s)"
    by (simp add: all_compiled_def list_all2_appendI)
  from Cons.IH[OF s(2) t(3) this] show ?case by simp
qed auto

lemma core_name_frame:
  assumes "te_hook env = cc_tool_hook co no_hook" and "core_name env g f st = Inr st'"
  shows "gx_tasks st' = gx_tasks st" "gx_tools st' = gx_tools st"
proof -
  have "te_hook env h g (HName f) st \<noteq> Inr st'" for h unfolding assms(1) by (metis hook_cases hook_arg.distinct(1))
  with assms(2) show "gx_tasks st' = gx_tasks st" "gx_tools st' = gx_tools st"
    by (auto simp: core_name_def rbind_Inr_iff upd_gen_def split: option.splits)
qed

lemma core_names_frame:
  assumes "te_hook env = cc_tool_hook co no_hook"
  shows "foldM (core_name env g) fs st = Inr st' \<Longrightarrow> gx_tasks st' = gx_tasks st \<and> gx_tools st' = gx_tools st"
  by (induction fs arbitrary: st) (auto simp: rbind_Inr_iff dest: core_name_frame[OF assms])

lemma apply_core_compiles:
  assumes "te_hook env = cc_tool_hook co no_hook" and "apply_core env g st = Inr st'" and "cg_compiled_tasks (c_at st g) = Some []"
  shows "\<exists>ks. cg_compiled_tasks (c_at st' g) = Some ks \<and> all_compiled co g (tg_allnodes (gen_at st' g)) ks (gx_tasks st')"
proof -
  from assms(2) obtain s where s: "foldM (core_name env g) (sval_list (tg_source (gen_at st g))) st = Inr s" "nodes_loop (te_bound env) env g 0 s = Inr st'"
    by (auto simp: apply_core_def rbind_Inr_iff)
  have f: "foldM (core_node env g) (tg_allnodes (gen_at st' g)) s = Inr st'"
    using nl.loop_fold[OF core_node_grows[OF hooks_growing[OF assms(1)]] s(2)] by auto
  have "cg_compiled_tasks (c_at s g) = Some []" using core_names_frame[OF assms(1) s(1)] assms(3) by (simp add: c_at_def)
  from nodes_compiled[OF assms(1) f this, of "[]"] show ?thesis by (simp add: all_compiled_def)
qed

lemma first_outputs_Inr:
  "first_outputs ks st = Inr os \<Longrightarrow> os = map (\<lambda>k. hd (gt_outputs (gx_tasks st ! k))) ks \<and> (\<forall>k \<in> set ks. gt_outputs (gx_tasks st ! k) \<noteq> [])"
  by (induction ks arbitrary: os) (auto simp: rmap_Inr_iff split: list.splits)

lemma get_target_name_heap: "get_target_name g st = Inr (n, st') \<Longrightarrow> \<exists>h. st' = set_heap h st"
  by (auto simp: get_target_name_def rbind_Inr_iff rmap_Inr_iff Let_def set_heap_frame dest!: env_get_heap)

text \<open>The link task reads the first output of every compilation task.\<close>

lemma apply_link_inputs:
  assumes "apply_link co g st = Inr st'" and "cg_compiled_tasks (c_at st g) = Some ks" and "\<forall>k \<in> set ks. k < length (gx_tasks st)"
  shows "\<exists>t. gx_tasks st' = gx_tasks st @ [t] \<and> gt_inputs t = map (\<lambda>k. hd (gt_outputs (gx_tasks st ! k))) ks \<and>
      (\<forall>k \<in> set ks. gt_outputs (gx_tasks st ! k) \<noteq> [])"
    and "cg_link_task (c_at st' g) = Some (length (gx_tasks st))" "cg_compiled_tasks (c_at st' g) = Some ks"
    and "tg_allnodes (gen_at st' g) = tg_allnodes (gen_at st g)"
proof -
  from assms(1) obtain link k st1 ks' os name st3 x t where c: "create_task link [] [] g st = Inr (k, st1)"
    and ks': "cg_compiled_tasks (c_at st1 g) = Some ks'" and os: "first_outputs ks' st1 = Inr os"
    and n: "get_target_name g (upd_task k (\<lambda>t. t\<lparr>gt_inputs := gt_inputs t @ os\<rparr>) st1) = Inr (name, st3)"
    and st': "st' = upd_c g (\<lambda>c. c\<lparr>cg_link_task := Some k\<rparr>) (upd_task k (\<lambda>k. k\<lparr>gt_outputs := gt_outputs k @ [x]\<rparr>) (st3\<lparr>gx_tree := t\<rparr>))"
    by (auto simp: apply_link_def rbind_Inr_iff Let_def attr_def split: option.splits)
  from c obtain t0 where t0: "k = length (gx_tasks st)" "gx_tasks st1 = gx_tasks st @ [t0]" "gt_inputs t0 = []" "gx_tools st1 = gx_tools st"
      "gx_gens st1 = (gx_gens st)[g := (gx_gens st ! g)\<lparr>tg_tasks := tg_tasks (gx_gens st ! g) @ [k]\<rparr>]"
    by (auto simp: create_task_def rmap_Inr_iff upd_gen_def gen_at_def Let_def split: if_splits)
  have ks: "ks' = ks" using ks' assms(2) t0(4) by (simp add: c_at_def)
  from get_target_name_heap[OF n] obtain h where h: "st3 = set_heap h (upd_task k (\<lambda>t. t\<lparr>gt_inputs := gt_inputs t @ os\<rparr>) st1)" by blast
  have "gt_outputs (gx_tasks st1 ! j) = gt_outputs (gx_tasks st ! j)" if "j \<in> set ks" for j
    using assms(3) that by (simp add: t0(2) nth_append)
  with first_outputs_Inr[OF os] have o: "os = map (\<lambda>k. hd (gt_outputs (gx_tasks st ! k))) ks" "\<forall>k \<in> set ks. gt_outputs (gx_tasks st ! k) \<noteq> []"
    by (simp_all add: ks)
  have "gx_tasks st' = gx_tasks st @ [t0\<lparr>gt_inputs := os, gt_outputs := gt_outputs t0 @ [x]\<rparr>]"
    by (simp add: st' h upd_c_def upd_task_def set_heap_def t0 list_update_append nth_append)
  with o show "\<exists>t. gx_tasks st' = gx_tasks st @ [t] \<and> gt_inputs t = map (\<lambda>k. hd (gt_outputs (gx_tasks st ! k))) ks \<and>
      (\<forall>k \<in> set ks. gt_outputs (gx_tasks st ! k) \<noteq> [])" by auto
  show "cg_link_task (c_at st' g) = Some (length (gx_tasks st))" by (simp add: st' upd_c_def c_at_def t0(1))
  show "cg_compiled_tasks (c_at st' g) = Some ks" using assms(2) by (simp add: st' h upd_c_def c_at_def upd_task_def set_heap_def t0(4))
  show "tg_allnodes (gen_at st' g) = tg_allnodes (gen_at st g)"
    by (simp add: st' h upd_c_def gen_at_def upd_task_def set_heap_def t0(5) gen_at_update)
qed


section \<open>The order of the methods\<close>

text \<open>The tables of the class when the three modules are loaded.\<close>

definition c_tools :: tg_class where
  "c_tools = cxx_class (cc_class (ccroot_class class_init))"

text \<open>A number for every method that is larger than those of the methods before it.\<close>

definition cc_rank :: "string \<Rightarrow> nat" where
  "cc_rank f = (case map_of
     [(''init_cc'', 1), (''init_cxx'', 1), (''vars_target_cprogram'', 1), (''vars_target_cshlib'', 1), (''apply_type_vars'', 2),
      (''apply_core'', 2), (''apply_link'', 3), (''apply_implib'', 4), (''apply_vnum'', 4), (''process_obj_files'', 4),
      (''apply_lib_vars'', 5), (''apply_objdeps'', 5), (''default_link_install'', 5), (''apply_obj_vars'', 6), (''apply_incpaths'', 6),
      (''apply_defines_cc'', 6), (''apply_defines_cxx'', 6), (''apply_obj_vars_cc'', 7), (''apply_obj_vars_cxx'', 7)] f
     of None \<Rightarrow> 0 | Some n \<Rightarrow> n)"

lemma cc_prec_rank:
  "list_all (\<lambda>(k, l). list_all (\<lambda>f. cc_rank f < cc_rank k) l \<and> distinct l) (c_prec c_tools) \<and>
   distinct (map fst (c_prec c_tools))"
  by code_simp

text \<open>The pairs of methods of which the second one relies on what the first one has done.\<close>

definition cc_order :: "(string \<times> string) list" where
  "cc_order = [(''default_cc'', ''apply_core''), (''apply_core'', ''apply_link''), (''apply_type_vars'', ''apply_lib_vars''),
     (''apply_link'', ''apply_lib_vars''), (''apply_link'', ''apply_objdeps''), (''apply_lib_vars'', ''apply_obj_vars''),
     (''apply_lib_vars'', ''apply_incpaths''), (''add_extra_flags'', ''apply_obj_vars''), (''apply_vnum'', ''default_link_install''),
     (''init_cc'', ''apply_type_vars''), (''init_cc'', ''apply_lib_vars''), (''default_cc'', ''init_cc''), (''default_cc'', ''init_cxx''),
     (''init_cxx'', ''apply_type_vars''), (''init_cxx'', ''apply_lib_vars''), (''apply_incpaths'', ''apply_obj_vars_cc''),
     (''apply_incpaths'', ''apply_obj_vars_cxx''), (''apply_lib_vars'', ''apply_defines_cc''), (''apply_lib_vars'', ''apply_defines_cxx'')]"

lemma cc_order_prec:
  "list_all (\<lambda>(f1, f2). f1 \<in> set (ddget (c_prec c_tools) f2)) cc_order"
  by code_simp

text \<open>
  C29. Whatever methods of the C tools a generator has, and in whatever order Python iterates over them, they can
  be sorted, since the module asks for no cycle; and in the result the attributes are set before the sources are
  processed, the sources before the link task is made, the link task before the libraries and the objects of
  other generators are looked up, and the libraries before the flags, the defines and the include paths are made of them.
\<close>

theorem c_methods_sorted:
  assumes "distinct keys"
  shows "\<exists>out. sort_methods keys (c_prec c_tools) = Inr out \<and> distinct out \<and> set out = set keys \<and>
    list_all (\<lambda>(f1, f2). f1 \<in> set keys \<and> f2 \<in> set keys \<longrightarrow> stands_before f1 f2 out) cc_order"
proof -
  let ?tbl = "c_prec c_tools"
  have wf: "wf_prec ?tbl" using cc_prec_rank unfolding wf_prec_def list_all_iff by auto
  have "cc_rank a < cc_rank b" if "(a, b) \<in> prec_rel keys ?tbl" for a b
    using that cc_prec_rank unfolding prec_rel_def list_all_iff by fastforce
  then have ac: "acyclic (prec_rel keys ?tbl)" by (rule acyclic_rank)
  with sort_methods_correct[OF assms wf] obtain out where out: "sort_methods keys ?tbl = Inr out" "distinct out" "set out = set keys"
    "\<And>f1 f2. (f1, f2) \<in> prec_rel keys ?tbl \<Longrightarrow> f1 \<in> set keys \<Longrightarrow> stands_before f1 f2 out"
    by (cases "sort_methods keys ?tbl") auto
  have "stands_before f1 f2 out" if f: "(f1, f2) \<in> set cc_order" "f1 \<in> set keys" "f2 \<in> set keys" for f1 f2
  proof (rule out(4)[OF _ f(2)])
    from f(1) cc_order_prec have "f1 \<in> set (ddget ?tbl f2)" unfolding list_all_iff by blast
    then obtain l where "map_of ?tbl f2 = Some l" "f1 \<in> set l"
      by (cases "map_of ?tbl f2") (auto simp: ddget_def)
    with f(3) show "(f1, f2) \<in> prec_rel keys ?tbl" unfolding prec_rel_def by (auto dest: map_of_SomeD)
  qed
  with out show ?thesis by (auto simp: list_all_iff)
qed

theorem c_methods_sorted_witness:
  "\<exists>out. sort_methods [''apply_link'', ''apply_core'', ''default_cc''] (c_prec c_tools) = Inr out \<and>
     set out = {''apply_link'', ''apply_core'', ''default_cc''}"
  using c_methods_sorted[of "[''apply_link'', ''apply_core'', ''default_cc'']"] by auto


section \<open>Examples\<close>

definition c_ctx :: cctx where
  "c_ctx = cc_kinds (\<lambda>r. []) ((cc_sample (\<lambda>_. cc_blank))\<lparr>gx_class := c_tools,
     gx_gens := [ex_gen\<lparr>tg_rule := None, tg_source := SText ''a.c'', tg_target := SText ''p'', tg_features := SList [''cc'', ''cprogram'']\<rparr>]\<rparr>)"

definition c_env :: "cworld tg_env" where
  "c_env = \<lparr>te_bound = 5, te_order = (\<lambda>K. []), te_fs = small_fs, te_meth = (\<lambda>x pst g s. Inr s),
     te_hook = cc_tool_hook cc_sample_opts no_hook, te_rule_vars = (\<lambda>r. []), te_h_fun = (\<lambda>f. f)\<rparr>"


text \<open>The system that is found does not depend on the order of iteration when the macros that are defined agree on it.\<close>

lemma first_defined_Some: "first_defined k tbl = Some v \<Longrightarrow> \<exists>i. (i, v) \<in> set tbl \<and> map_of k i \<noteq> None"
  by (induction k tbl rule: first_defined.induct) (auto split: if_splits)

lemma first_defined_None: "first_defined k tbl = None \<longleftrightarrow> (\<forall>(i, v) \<in> set tbl. map_of k i = None)"
  by (induction k tbl rule: first_defined.induct) auto

lemma dest_os_order:
  assumes "set t1 = set t2" and "\<And>i v j w. (i, v) \<in> set t1 \<Longrightarrow> (j, w) \<in> set t1 \<Longrightarrow> map_of k i \<noteq> None \<Longrightarrow> map_of k j \<noteq> None \<Longrightarrow> v = w"
  shows "dest_os t1 k = dest_os t2 k"
proof -
  have "first_defined k t1 = first_defined k t2"
  proof (cases "first_defined k t1")
    case None
    then have "first_defined k t2 = None" using assms(1) by (simp only: first_defined_None)
    with None show ?thesis by simp
  next
    case (Some v)
    then have "first_defined k t2 \<noteq> None" using assms(1) by (metis first_defined_None option.distinct(1))
    then obtain w where w: "first_defined k t2 = Some w" by blast
    from first_defined_Some[OF Some] first_defined_Some[OF w] assms have "v = w" by metis
    with Some w show ?thesis by simp
  qed
  then show ?thesis by (simp add: dest_os_def)
qed

text \<open>A compiler that defines the macros of two systems is taken for one or the other by the order of iteration.\<close>

lemma dest_os_two_systems:
  "dest_os mp1 [(''__CYGWIN__'', ''1''), (''_WIN32'', ''1'')] = Some ''cygwin''"
  "dest_os (rev mp1) [(''__CYGWIN__'', ''1''), (''_WIN32'', ''1'')] = Some ''win32''"
  by code_simp+

text \<open>A define with a value of spaces ends in \<open>IndexError\<close>.\<close>

lemma blank_define_raises: "defline ''A= '' = Inl IndexError"
  by code_simp

text \<open>The defines of a library that are a text are taken as a list of characters by the C tool, and of words by the C++ tool.\<close>

lemma text_defines_split:
  "iter_val h (Atom (AStr ''AB C'')) = Inr [AStr ''A'', AStr ''B'', AStr '' '', AStr ''C'']"
  "val_list h (Atom (AStr ''AB C'')) = Inr [AStr ''AB'', AStr ''C'']"
  by (simp, simp add: val_list_def) code_simp

text \<open>Two sources that differ in their extensions only have the same object.\<close>

lemma same_object: "changed_ext ''a.c'' ''_1.o'' = changed_ext ''a.cc'' ''_1.o''"
  by code_simp

end
