(* ===== verification/Jsmin.thy ===== *)
theory Jsmin
  imports Py_Re
begin

text \<open>
  The JavaScript minifier, \<^verbatim>\<open>src/deps/v8/tools/jsmin.py\<close>: the state it keeps between lines and between
  texts, the renaming of local variables, and the passes over one line.

  After the definitions: the search for a new name ends and finds the first free one; different
  variables of a scope get different names as long as the scope has fewer than 3068 of them; line
  breaks are kept; and which programs the passes ruin.
\<close>

section \<open>Definitions\<close>

subsection \<open>State and renaming\<close>

record minifier =
  seen_identifiers :: "(string \<times> bool) list"
  identifier_counter :: nat
  in_comment :: bool
  name_map :: "(string \<times> string) list"
  nesting :: int

definition new_minifier :: minifier where
  "new_minifier = \<lparr>seen_identifiers = [(''do'', True), (''in'', True)], identifier_counter = 0, in_comment = False,
     name_map = [], nesting = 0\<rparr>"

definition LookAtIdentifier :: "string \<Rightarrow> minifier \<Rightarrow> minifier" where
  "LookAtIdentifier identifier st = st\<lparr>seen_identifiers := dict_set identifier True (seen_identifiers st)\<rparr>"

definition PushScope :: "minifier \<Rightarrow> minifier" where
  "PushScope st = st\<lparr>nesting := nesting st + 1\<rparr>"

definition PopScope :: "minifier \<Rightarrow> minifier" where
  "PopScope st =
     (let st1 = st\<lparr>nesting := nesting st - 1\<rparr> in
      if nesting st1 = 0 then st1\<lparr>name_map := [], identifier_counter := 0\<rparr> else st1)"

text \<open>\<open>chr\<close> raises an error for a number over 255.\<close>

definition py_chr :: "nat \<Rightarrow> char result" where
  "py_chr n = (if n < 256 then Inr (char_of n) else Inl ValueError)"

definition CharFromNumber :: "nat \<Rightarrow> char result" where
  "CharFromNumber number = (if number < 26 then py_chr (number + 97) else py_chr (number - 26 + 65))"

text \<open>The name of one round of the loop of \<open>FindNewName\<close>.\<close>

definition identifier_at :: "nat \<Rightarrow> string result" where
  "identifier_at counter =
     rbind (CharFromNumber (counter mod 52)) (\<lambda>c.
       if counter div 52 \<noteq> 0
       then rbind (CharFromNumber (counter div 52 - 1)) (\<lambda>d. Inr [d, c])
       else Inr [c])"

lemma identifier_at_bound: "identifier_at n = Inr s \<Longrightarrow> n < 11336"
proof -
  assume "identifier_at n = Inr s"
  then have "n div 52 < 218"
    by (auto simp: identifier_at_def rbind_Inr_iff CharFromNumber_def py_chr_def split: if_splits)
  then show ?thesis by simp
qed

text \<open>The loop: the first name from the counter on that was not seen, and the counter after it.\<close>

function new_name_loop :: "(string \<times> bool) list \<Rightarrow> nat \<Rightarrow> (string \<times> nat) result" where
  "new_name_loop seen counter =
     (case identifier_at counter of
        Inl e \<Rightarrow> Inl e
      | Inr new_identifier \<Rightarrow>
          if new_identifier \<in> fst ` set seen then new_name_loop seen (counter + 1)
          else Inr (new_identifier, counter + 1))"
  by pat_completeness auto

termination
  by (relation "measure (\<lambda>(seen, counter). 11336 - counter)") (auto dest: identifier_at_bound)

definition FindNewName :: "string \<Rightarrow> minifier \<Rightarrow> (string \<times> minifier) result" where
  "FindNewName var_name st =
     (case map_of (name_map st) var_name of
        Some n \<Rightarrow> Inr (n, st)
      | None \<Rightarrow>
          if nesting st = 0 then Inr (var_name, st)
          else rbind (new_name_loop (seen_identifiers st) (identifier_counter st)) (\<lambda>(n, counter).
            Inr (n, st\<lparr>identifier_counter := counter, name_map := dict_set var_name n (name_map st)\<rparr>)))"

fun find_new_names :: "string list \<Rightarrow> minifier \<Rightarrow> (string list \<times> minifier) result" where
  "find_new_names [] st = Inr ([], st)"
| "find_new_names (v # vs) st =
     rbind (FindNewName v st) (\<lambda>(n, st1). rbind (find_new_names vs st1) (\<lambda>(ns, st2). Inr (n # ns, st2)))"

subsection \<open>Patterns\<close>

text \<open>The text of a group, empty for a group without a part in the match.\<close>

definition re_text :: "string \<Rightarrow> rmatch_obj \<Rightarrow> nat \<Rightarrow> string" where
  "re_text s m k = (case re_group s m k of None \<Rightarrow> [] | Some t \<Rightarrow> t)"


abbreviation dquote :: char where "dquote \<equiv> CHR 0x22"
abbreviation squote :: char where "squote \<equiv> CHR 0x27"
abbreviation backslash :: char where "backslash \<equiv> CHR 0x5C"

definition ident_chr :: "char \<Rightarrow> bool" where
  "ident_chr c \<longleftrightarrow> chr_isword c \<or> c = CHR ''$'' \<or> c = CHR ''%''"

definition double_quoted_string :: re where
  "double_quoted_string = rseq [RLit dquote, RStar (RAlt (RNotIn [dquote, backslash]) (RSeq (RLit backslash) RAny)), RLit dquote]"

definition single_quoted_string :: re where
  "single_quoted_string = rseq [RLit squote, RStar (RAlt (RNotIn [squote, backslash]) (RSeq (RLit backslash) RAny)), RLit squote]"

definition slash_quoted_regexp :: re where
  "slash_quoted_regexp = rseq [RLit (CHR ''/''),
     RAlt (RAhead True (\<lambda>c. c = CHR ''(''))
       (RPlus (RAlt (RNotIn [CHR ''('', CHR '')'', CHR ''/'', backslash]) (RSeq (RLit backslash) RAny))),
     RStar (RAlt (RSeq (RLit (CHR ''('')) (RNotIn [CHR ''/'', backslash])) (RSeq (RLit backslash) RAny)),
     RLit (CHR ''/'')]"

definition literals :: "re list" where
  "literals = [double_quoted_string, single_quoted_string, slash_quoted_regexp]"

definition many_spaces :: re where
  "many_spaces = ralts (literals @ [RPlus (RGroup 1 (RLit (CHR '' '')))])"

definition single_spaces :: re where
  "single_spaces = ralts (literals @
     [RSeq (RBehind False ident_chr) (RLit (CHR '' '')),
      rseq [RLit (CHR '' ''), RAhead False ident_chr, RGroup 1 REps]])"

definition function_declaration_regexp :: re where
  "function_declaration_regexp = rseq [RWordB, rstr ''function'',
     ROpt (RGroup 1 (RSeq (RLit (CHR '' '')) (RPlus (RChr ident_chr)))),
     RLit (CHR ''(''), RPlus (RChr (\<lambda>c. ident_chr c \<or> c = CHR '','')), rstr ''){'']"

definition var_regexp :: re where
  "var_regexp = rseq [RWordB, rstr ''var '', RPlus (RChr (\<lambda>c. ident_chr c \<or> c = CHR '',''))]"

definition variable_use_regexp :: "string \<Rightarrow> re" where
  "variable_use_regexp line =
     (let block_trailing_colon =
        (if re_search (RLit (CHR ''?'')) line 0 \<noteq> None then REps else RAhead False (\<lambda>c. c = CHR '':'' \<or> ident_chr c))
      in rseq [RBehind False (\<lambda>c. c = CHR ''.'' \<or> ident_chr c), RPlus (RChr ident_chr), block_trailing_colon])"

definition declarations :: "string \<Rightarrow> re" where
  "declarations line = ralts (literals @
     [RLit (CHR ''{''), RLit (CHR ''}''), var_regexp, function_declaration_regexp, variable_use_regexp line])"

definition function_head :: re where
  "function_head = rseq [RGroup 1 (rseq [rstr ''function'', RWordB, RStar (RNotIn ''('')]), RLit (CHR ''(''),
     RGroup 2 (RStar RAny), rstr ''){'', REol]"

definition quoted_whole :: "char \<Rightarrow> re" where
  "quoted_whole q = rseq [RLit q, RStar RAny, RLit q, REol]"

definition slashed_whole :: re where
  "slashed_whole = rseq [RLit (CHR ''/''), RPlus RAny, RLit (CHR ''/''), REol]"

subsection \<open>The passes over a line\<close>

text \<open>A match without its group: \<open>None\<close>, which \<open>sub\<close> takes for the empty text.\<close>

definition RemoveSpaces :: "string \<Rightarrow> rmatch_obj \<Rightarrow> string" where
  "RemoveSpaces line m =
     (let entire_match = re_text line m 0;
          replacement = re_text line m 1
      in if re_match (quoted_whole squote) entire_match \<noteq> None then entire_match
         else if re_match (quoted_whole dquote) entire_match \<noteq> None then entire_match
         else if re_match slashed_whole entire_match \<noteq> None then entire_match
         else replacement)"

definition Declaration :: "string \<Rightarrow> minifier \<Rightarrow> (string \<times> minifier) result" where
  "Declaration matched_text st =
     (if matched_text = ''{'' then Inr (matched_text, PushScope st)
      else if matched_text = ''}'' then Inr (matched_text, PopScope st)
      else if re_match (RIn [dquote, squote, CHR ''/'']) matched_text \<noteq> None then Inr (matched_text, st)
      else case re_match (rstr ''var '') matched_text of
        Some (a, e, g) \<Rightarrow>
          rbind (find_new_names (py_split_chr (CHR '','') (drop e matched_text)) st) (\<lambda>(ns, st1).
            Inr (''var '' @ py_join '','' ns, st1))
      | None \<Rightarrow>
          (case re_match function_head matched_text of
             Some m \<Rightarrow>
               (let up_to_args = re_text matched_text m 1;
                    args = py_split_chr (CHR '','') (re_text matched_text m 2)
                in rbind (find_new_names args (PushScope st)) (\<lambda>(ns, st1).
                     Inr (up_to_args @ ''('' @ py_join '','' ns @ ''){'', st1)))
           | None \<Rightarrow>
               (case map_of (name_map st) matched_text of
                  Some n \<Rightarrow> Inr (n, st)
                | None \<Rightarrow> Inr (matched_text, st))))"

definition strip_line_comments :: "string \<Rightarrow> string" where
  "strip_line_comments line =
     re_sub (RSeq (rstr ''//'') (RStar RAny)) (\<lambda>m. [])
       (re_sub (rseq [rstr ''/*'', RLazy RAny, rstr ''*/'']) (\<lambda>m. '' '') line)"

text \<open>The part of a line that is outside comments; \<open>None\<close> when a comment covers it.\<close>

definition comment_pass :: "string \<Rightarrow> minifier \<Rightarrow> string option \<times> minifier" where
  "comment_pass line0 st0 =
     (let (mline, st) =
        (if in_comment st0
         then case re_search (rstr ''*/'') line0 0 of
           Some (a, e, g) \<Rightarrow> (Some (drop e line0), st0\<lparr>in_comment := False\<rparr>)
         | None \<Rightarrow> (None, st0)
         else (Some line0, st0))
      in case mline of
           None \<Rightarrow> (None, st)
         | Some line \<Rightarrow>
             if \<not> in_comment st
             then (let line1 = strip_line_comments line in
                   case re_search (rstr ''/*'') line1 0 of
                     Some (a, e, g) \<Rightarrow> (Some (take a line1), st\<lparr>in_comment := True\<rparr>)
                   | None \<Rightarrow> (Some line1, st))
             else (Some line, st))"

definition space_pass :: "string \<Rightarrow> string" where
  "space_pass line0 =
     (let line1 = re_sub (RSeq RBol (RPlus (RLit (CHR '' '')))) (\<lambda>m. []) line0;
          line2 = re_sub (RSeq (RPlus (RLit (CHR '' ''))) REol) (\<lambda>m. []) line1;
          line3 = re_sub many_spaces (RemoveSpaces line2) line2
      in re_sub single_spaces (RemoveSpaces line3) line3)"

definition collect_identifiers :: "string \<Rightarrow> minifier \<Rightarrow> minifier" where
  "collect_identifiers line st =
     (if nesting st = 0
      then fold (\<lambda>m. LookAtIdentifier (re_text line m 1))
        (re_finditer (RGroup 1 (RPlus (RChr ident_chr))) line) st
      else st)"

definition declaration_pass :: "string \<Rightarrow> minifier \<Rightarrow> (string \<times> minifier) result" where
  "declaration_pass line st =
     re_sub_state (declarations line) (\<lambda>m. Declaration (re_text line m 0)) line st"

definition minify_line :: "string \<Rightarrow> minifier \<Rightarrow> (string \<times> minifier) result" where
  "minify_line line0 st0 =
     (case comment_pass (py_replace line0 [CHR 0x09] '' '') st0 of
        (None, st) \<Rightarrow> Inr ([], st)
      | (Some line, st) \<Rightarrow>
          (let line1 = space_pass line in declaration_pass line1 (collect_identifiers line1 st)))"

fun minify_lines :: "string list \<Rightarrow> minifier \<Rightarrow> (string list \<times> minifier) result" where
  "minify_lines [] st = Inr ([], st)"
| "minify_lines (l # ls) st =
     rbind (minify_line l st) (\<lambda>(n, st1). rbind (minify_lines ls st1) (\<lambda>(ns, st2). Inr (n # ns, st2)))"

definition JSMinify :: "string \<Rightarrow> minifier \<Rightarrow> (string \<times> minifier) result" where
  "JSMinify text st =
     rbind (minify_lines (py_split_chr (CHR 0x0A) text) st) (\<lambda>(new_lines, st1).
       Inr (py_join [CHR 0x0A] new_lines @ [CHR 0x0A], st1))"

section \<open>The search for a new name\<close>

declare new_name_loop.simps [simp del]

lemma CharFromNumber_small: "n < 217 \<Longrightarrow> CharFromNumber n = Inr (char_of (if n < 26 then n + 97 else n + 39))"
  by (simp add: CharFromNumber_def py_chr_def)

lemma identifier_at_eq:
  "n < 11336 \<Longrightarrow> identifier_at n =
     Inr ((if n div 52 = 0 then [] else [char_of (if n div 52 \<le> 26 then n div 52 + 96 else n div 52 + 38)]) @
          [char_of (if n mod 52 < 26 then n mod 52 + 97 else n mod 52 + 39)])"
proof -
  assume n: "n < 11336"
  then have d: "n div 52 - 1 < 217" by simp
  have m: "n mod 52 < 217" by (rule less_trans[of _ 52]) simp_all
  show ?thesis
    unfolding identifier_at_def CharFromNumber_small[OF m] CharFromNumber_small[OF d] by (auto simp: add.commute)
qed

lemma identifier_at_Inr_iff: "(\<exists>s. identifier_at n = Inr s) \<longleftrightarrow> n < 11336"
  using identifier_at_bound identifier_at_eq by blast

lemma char_of_inj: "(m::nat) < 256 \<Longrightarrow> n < 256 \<Longrightarrow> (char_of m :: char) = char_of n \<Longrightarrow> m = n"
proof -
  assume "m < 256" "n < 256" and "(char_of m :: char) = char_of n"
  then have "(of_char (char_of m :: char) :: nat) = of_char (char_of n :: char)" by simp
  then have "m mod 256 = n mod 256" unfolding of_char_of .
  with \<open>m < 256\<close> \<open>n < 256\<close> show ?thesis by simp
qed

text \<open>The first 3068 names are different.\<close>

lemma identifier_at_inj:
  assumes "m < 3068" "n < 3068" and eq: "identifier_at m = identifier_at n"
  shows "m = n"
proof -
  have eqs: "identifier_at m = Inr ((if m div 52 = 0 then [] else [char_of (if m div 52 \<le> 26 then m div 52 + 96 else m div 52 + 38)]) @
          [char_of (if m mod 52 < 26 then m mod 52 + 97 else m mod 52 + 39)])"
    "identifier_at n = Inr ((if n div 52 = 0 then [] else [char_of (if n div 52 \<le> 26 then n div 52 + 96 else n div 52 + 38)]) @
          [char_of (if n mod 52 < 26 then n mod 52 + 97 else n mod 52 + 39)])"
    using assms by (intro identifier_at_eq, simp)+
  have bnd: "m mod 52 < 52" "n mod 52 < 52" "m div 52 < 59" "n div 52 < 59" using assms by simp_all
  let ?c = "\<lambda>k::nat. if k < 26 then k + 97 else k + 39"
  let ?d = "\<lambda>k::nat. if k \<le> 26 then k + 96 else k + 38"
  from eq have e: "(if m div 52 = 0 then [] else [char_of (?d (m div 52)) :: char]) @ [char_of (?c (m mod 52))] =
    (if n div 52 = 0 then [] else [char_of (?d (n div 52))]) @ [char_of (?c (n mod 52))]"
    unfolding eqs by simp
  then have "char_of (?c (m mod 52)) = (char_of (?c (n mod 52)) :: char)" by simp
  then have "?c (m mod 52) = ?c (n mod 52)" by (rule char_of_inj[rotated 2]) (use bnd in auto)
  then have mod: "m mod 52 = n mod 52" using bnd by (auto split: if_splits)
  have "m div 52 = n div 52"
  proof (cases "m div 52 = 0 \<or> n div 52 = 0")
    case True
    with e show ?thesis by (auto split: if_splits)
  next
    case False
    with e have "char_of (?d (m div 52)) = (char_of (?d (n div 52)) :: char)" by simp
    then have "?d (m div 52) = ?d (n div 52)" by (rule char_of_inj[rotated 2]) (use bnd in auto)
    then show ?thesis using bnd False by (auto split: if_splits)
  qed
  with mod show ?thesis by (metis div_mult_mod_eq)
qed

lemma new_name_loop_Inr:
  "new_name_loop seen c = Inr (n, c') \<Longrightarrow>
     \<exists>k. c \<le> k \<and> c' = Suc k \<and> identifier_at k = Inr n \<and> n \<notin> fst ` set seen \<and>
       (\<forall>j. c \<le> j \<and> j < k \<longrightarrow> (\<exists>s. identifier_at j = Inr s \<and> s \<in> fst ` set seen))"
proof (induction seen c rule: new_name_loop.induct)
  case (1 seen c)
  from "1.prems" obtain s where s: "identifier_at c = Inr s"
    by (subst (asm) new_name_loop.simps) (auto split: sum.splits)
  show ?case
  proof (cases "s \<in> fst ` set seen")
    case True
    with "1.prems" s have "new_name_loop seen (c + 1) = Inr (n, c')"
      by (subst (asm) new_name_loop.simps) simp
    from "1.IH"[OF s True this] obtain k where k: "c + 1 \<le> k" "c' = Suc k" "identifier_at k = Inr n"
      "n \<notin> fst ` set seen" "\<And>j. c + 1 \<le> j \<Longrightarrow> j < k \<Longrightarrow> \<exists>s. identifier_at j = Inr s \<and> s \<in> fst ` set seen"
      by blast
    have "\<exists>s. identifier_at j = Inr s \<and> s \<in> fst ` set seen" if "c \<le> j" "j < k" for j
      using k(5)[of j] s True that by (cases "j = c") auto
    with k show ?thesis by (intro exI[of _ k]) auto
  next
    case False
    with "1.prems" s have "n = s" "c' = Suc c"
      by (subst (asm) new_name_loop.simps, simp)+
    with s False show ?thesis by (intro exI[of _ c]) auto
  qed
qed

lemma new_name_loop_Inl:
  "new_name_loop seen c = Inl e \<Longrightarrow> k < 11336 \<Longrightarrow> c \<le> k \<Longrightarrow> \<exists>s. identifier_at k = Inr s \<and> s \<in> fst ` set seen"
proof (induction seen c rule: new_name_loop.induct)
  case (1 seen c)
  then have "c < 11336" by simp
  then obtain s where s: "identifier_at c = Inr s" using identifier_at_Inr_iff by blast
  with "1.prems"(1) have True: "s \<in> fst ` set seen" and rec: "new_name_loop seen (c + 1) = Inl e"
    by (subst (asm) new_name_loop.simps, simp split: if_splits)+
  show ?case
  proof (cases "k = c")
    case False
    with "1.prems" have "c + 1 \<le> k" by simp
    from "1.IH"[OF s True rec "1.prems"(2) this] show ?thesis .
  qed (use s True in simp)
qed

lemma identifier_at_letters:
  assumes "n < 2756" "identifier_at n = Inr s"
  shows "s \<noteq> [] \<and> length s \<le> 2 \<and> list_all chr_isalpha s"
proof -
  have "n div 52 < 53" "n mod 52 < 52" using assms(1) by simp_all
  with assms show ?thesis
    by (auto simp: identifier_at_eq chr_isalpha_def chr_isupper_def chr_islower_def)
qed

lemma identifier_at_no_newline: "identifier_at n = Inr s \<Longrightarrow> CHR 0x0A \<notin> set s"
proof -
  assume s: "identifier_at n = Inr s"
  have "n div 52 < 218" "n mod 52 < 52" using identifier_at_bound[OF s] by simp_all
  then have "list_all (\<lambda>c. 64 < ord c) s"
    using s by (auto simp: identifier_at_eq[OF identifier_at_bound[OF s]])
  then show ?thesis by (auto simp: list_all_iff)
qed

text \<open>
  A pigeonhole: from the counter on, one of the next names is free, since there are only so many
  identifiers that were seen.
\<close>

lemma free_name_exists:
  assumes "c + card (fst ` set seen) < 3068"
  shows "\<exists>k s. c \<le> k \<and> k \<le> c + card (fst ` set seen) \<and> identifier_at k = Inr s \<and> s \<notin> fst ` set seen"
proof (rule ccontr)
  let ?K = "{c..c + card (fst ` set seen)}"
  let ?f = "\<lambda>k. projr (identifier_at k)"
  assume "\<nexists>k s. c \<le> k \<and> k \<le> c + card (fst ` set seen) \<and> identifier_at k = Inr s \<and> s \<notin> fst ` set seen"
  then have none: "\<And>k s. k \<in> ?K \<Longrightarrow> identifier_at k = Inr s \<Longrightarrow> s \<in> fst ` set seen" by auto
  have inr: "identifier_at k = Inr (?f k)" if "k \<in> ?K" for k
  proof -
    from that assms have "k < 11336" by simp
    then show ?thesis using identifier_at_Inr_iff[of k] by auto
  qed
  have "?f ` ?K \<subseteq> fst ` set seen" using none inr by blast
  then have "card (?f ` ?K) \<le> card (fst ` set seen)" by (rule card_mono[rotated]) simp
  moreover have "inj_on ?f ?K"
  proof (rule inj_onI)
    fix x y assume xy: "x \<in> ?K" "y \<in> ?K" "?f x = ?f y"
    then have "identifier_at x = identifier_at y" using inr by metis
    with xy assms show "x = y" by (intro identifier_at_inj) auto
  qed
  ultimately show False by (simp add: card_image)
qed

lemma new_name_loop_total:
  assumes "c + card (fst ` set seen) < 3068"
  shows "\<exists>k n. new_name_loop seen c = Inr (n, Suc k) \<and> c \<le> k \<and> k \<le> c + card (fst ` set seen) \<and>
    identifier_at k = Inr n \<and> n \<notin> fst ` set seen \<and>
    (\<forall>j. c \<le> j \<and> j < k \<longrightarrow> (\<exists>s. identifier_at j = Inr s \<and> s \<in> fst ` set seen))"
proof -
  from free_name_exists[OF assms] obtain f s where f: "c \<le> f" "f \<le> c + card (fst ` set seen)"
    "identifier_at f = Inr s" "s \<notin> fst ` set seen" by blast
  then have "new_name_loop seen c \<noteq> Inl e" for e
    using new_name_loop_Inl[of seen c e f] assms by auto
  then obtain n c' where nc: "new_name_loop seen c = Inr (n, c')" by (cases "new_name_loop seen c") auto
  from new_name_loop_Inr[OF nc] obtain k where k: "c \<le> k" "c' = Suc k" "identifier_at k = Inr n"
    "n \<notin> fst ` set seen" "\<forall>j. c \<le> j \<and> j < k \<longrightarrow> (\<exists>s. identifier_at j = Inr s \<and> s \<in> fst ` set seen)"
    by blast
  have "k \<le> f"
  proof (rule ccontr)
    assume "\<not> k \<le> f"
    then have "c \<le> f \<and> f < k" using f(1) by simp
    with k(5) obtain t where "identifier_at f = Inr t" "t \<in> fst ` set seen" by blast
    with f show False by simp
  qed
  with f k nc show ?thesis by auto
qed



section \<open>The renaming of a scope\<close>

text \<open>
  The invariant of the state: the new names were handed out below the counter, and, while at most
  3068 names were, different variables have different names.
\<close>

definition names_ok :: "minifier \<Rightarrow> bool" where
  "names_ok st \<longleftrightarrow>
     (\<forall>v n. map_of (name_map st) v = Some n \<longrightarrow> (\<exists>k < identifier_counter st. identifier_at k = Inr n)) \<and>
     (identifier_counter st \<le> 3068 \<longrightarrow> inj_on (map_of (name_map st)) (dom (map_of (name_map st))))"

lemma names_okI:
  assumes "\<And>v n. map_of (name_map st) v = Some n \<Longrightarrow> \<exists>k < identifier_counter st. identifier_at k = Inr n"
    and "\<And>v w n. identifier_counter st \<le> 3068 \<Longrightarrow> map_of (name_map st) v = Some n \<Longrightarrow>
      map_of (name_map st) w = Some n \<Longrightarrow> v = w"
  shows "names_ok st"
proof -
  have "inj_on (map_of (name_map st)) (dom (map_of (name_map st)))" if "identifier_counter st \<le> 3068"
    by (rule inj_onI) (auto intro: assms(2)[OF that])
  with assms(1) show ?thesis unfolding names_ok_def by simp
qed

lemma names_okD:
  "names_ok st \<Longrightarrow> map_of (name_map st) v = Some n \<Longrightarrow> \<exists>k < identifier_counter st. identifier_at k = Inr n"
  "names_ok st \<Longrightarrow> identifier_counter st \<le> 3068 \<Longrightarrow> map_of (name_map st) v = Some n \<Longrightarrow>
     map_of (name_map st) w = Some n \<Longrightarrow> v = w"
  unfolding names_ok_def inj_on_def by (blast, metis domI)

lemma names_ok_frame:
  "name_map st' = name_map st \<Longrightarrow> identifier_counter st' = identifier_counter st \<Longrightarrow> names_ok st' = names_ok st"
  by (simp add: names_ok_def)

lemma names_ok_Push [simp]: "names_ok (PushScope st) = names_ok st"
  by (rule names_ok_frame) (simp_all add: PushScope_def)

lemma names_ok_Look [simp]: "names_ok (LookAtIdentifier i st) = names_ok st"
  by (rule names_ok_frame) (simp_all add: LookAtIdentifier_def)

lemma names_ok_Pop: "names_ok st \<Longrightarrow> names_ok (PopScope st)"
  by (auto simp: PopScope_def Let_def names_ok_def)

lemma names_ok_new: "names_ok new_minifier"
  by (simp add: names_ok_def new_minifier_def)

lemma names_ok_extend:
  assumes "names_ok st" and "identifier_at k = Inr n" and "identifier_counter st \<le> k"
    and "map_of (name_map st) v = None"
  shows "names_ok (st\<lparr>identifier_counter := Suc k, name_map := dict_set v n (name_map st)\<rparr>)" (is "names_ok ?st")
proof (rule names_okI)
  fix w m assume "map_of (name_map ?st) w = Some m"
  then have wm: "((map_of (name_map st))(v \<mapsto> n)) w = Some m" by (simp add: map_of_dict_set)
  show "\<exists>j < identifier_counter ?st. identifier_at j = Inr m"
  proof (cases "w = v")
    case True
    with wm assms(2) show ?thesis by (intro exI[of _ k]) simp
  next
    case False
    with wm have "map_of (name_map st) w = Some m" by simp
    from names_okD(1)[OF assms(1) this] obtain j where "j < identifier_counter st" "identifier_at j = Inr m" by blast
    with assms(3) show ?thesis by (intro exI[of _ j]) simp
  qed
next
  have old: "m \<noteq> n" if "identifier_counter ?st \<le> 3068" "map_of (name_map st) w = Some m" for w m
  proof
    assume "m = n"
    from names_okD(1)[OF assms(1) that(2)] obtain j where j: "j < identifier_counter st" "identifier_at j = Inr m"
      by blast
    have "j = k" by (rule identifier_at_inj) (use j assms that(1) \<open>m = n\<close> in simp_all)
    with j assms(3) show False by simp
  qed
  fix w u m assume le: "identifier_counter ?st \<le> 3068" and w: "map_of (name_map ?st) w = Some m"
    and u: "map_of (name_map ?st) u = Some m"
  have "identifier_counter st \<le> 3068" using le assms(3) by simp
  from names_okD(2)[OF assms(1) this, of w m u] old[OF le, of w m] old[OF le, of u m]
  show "w = u" using w u by (simp add: map_of_dict_set split: if_splits)
qed

lemma FindNewName_Inr:
  assumes "FindNewName v st = Inr (n, st')"
  shows "(map_of (name_map st) v = Some n \<and> st' = st) \<or>
    (map_of (name_map st) v = None \<and> nesting st = 0 \<and> n = v \<and> st' = st) \<or>
    (\<exists>k. map_of (name_map st) v = None \<and> nesting st \<noteq> 0 \<and> identifier_counter st \<le> k \<and> identifier_at k = Inr n \<and>
       st' = st\<lparr>identifier_counter := Suc k, name_map := dict_set v n (name_map st)\<rparr>)"
proof (cases "map_of (name_map st) v")
  case (Some m)
  with assms show ?thesis by (simp add: FindNewName_def)
next
  case None
  show ?thesis
  proof (cases "nesting st = 0")
    case True
    with None assms show ?thesis by (simp add: FindNewName_def)
  next
    case False
    with None assms obtain c where l: "new_name_loop (seen_identifiers st) (identifier_counter st) = Inr (n, c)"
      and st': "st' = st\<lparr>identifier_counter := c, name_map := dict_set v n (name_map st)\<rparr>"
      by (auto simp: FindNewName_def rbind_Inr_iff)
    from new_name_loop_Inr[OF l] obtain k where "identifier_counter st \<le> k" "c = Suc k" "identifier_at k = Inr n"
      by blast
    with None False st' show ?thesis by blast
  qed
qed

text \<open>
  What one declared name does to the state: the invariant is kept, the names given so far are kept,
  the depth does not change, and the variable has its name inside a scope.
\<close>

lemma FindNewName_ok:
  assumes "FindNewName v st = Inr (n, st')" and "names_ok st"
  shows "names_ok st' \<and> map_of (name_map st) \<subseteq>\<^sub>m map_of (name_map st') \<and> nesting st' = nesting st \<and>
    (nesting st \<noteq> 0 \<longrightarrow> map_of (name_map st') v = Some n) \<and> (set n \<subseteq> set v \<or> CHR 0x0A \<notin> set n)"
  using FindNewName_Inr[OF assms(1)]
proof (elim disjE exE conjE)
  assume v: "map_of (name_map st) v = Some n" "st' = st"
  from names_okD(1)[OF assms(2) v(1)] have "CHR 0x0A \<notin> set n" using identifier_at_no_newline by blast
  with v assms(2) show ?thesis by simp
next
  assume "nesting st = 0" "n = v" "st' = st"
  with assms(2) show ?thesis by simp
next
  fix k assume k: "map_of (name_map st) v = None" "nesting st \<noteq> 0" "identifier_counter st \<le> k" "identifier_at k = Inr n"
    and st': "st' = st\<lparr>identifier_counter := Suc k, name_map := dict_set v n (name_map st)\<rparr>"
  have "names_ok st'" unfolding st' by (rule names_ok_extend[OF assms(2) k(4,3,1)])
  moreover have "map_of (name_map st) \<subseteq>\<^sub>m map_of (name_map st')"
    using k(1) by (auto simp: st' map_of_dict_set map_le_def)
  ultimately show ?thesis
    using identifier_at_no_newline[OF k(4)] by (simp add: st' map_of_dict_set)
qed

lemma find_new_names_ok:
  "find_new_names vs st = Inr (ns, st') \<Longrightarrow> names_ok st \<Longrightarrow>
     names_ok st' \<and> map_of (name_map st) \<subseteq>\<^sub>m map_of (name_map st') \<and> nesting st' = nesting st \<and>
     (nesting st \<noteq> 0 \<longrightarrow> map (map_of (name_map st')) vs = map Some ns) \<and> length ns = length vs \<and>
     ((\<forall>v \<in> set vs. CHR 0x0A \<notin> set v) \<longrightarrow> (\<forall>n \<in> set ns. CHR 0x0A \<notin> set n))"
proof (induction vs st arbitrary: ns st' rule: find_new_names.induct)
  case (1 st)
  then show ?case by simp
next
  case (2 v vs st)
  from 2(2) obtain n st1 ms where f: "FindNewName v st = Inr (n, st1)"
    and r: "find_new_names vs st1 = Inr (ms, st')" and ns: "ns = n # ms"
    by (auto simp: rbind_Inr_iff)
  note one = FindNewName_ok[OF f 2(3)]
  from one have ok1: "names_ok st1" by simp
  note more = 2(1)[OF r ok1]
  have "map_of (name_map st) \<subseteq>\<^sub>m map_of (name_map st')" using one more map_le_trans by blast
  moreover have "map_of (name_map st') v = Some n" if "nesting st \<noteq> 0"
    using one more that by (metis domI map_le_def)
  ultimately show ?case using one more ns by auto
qed

lemma set_py_join: "set (py_join d xs) \<subseteq> set d \<union> \<Union> (set ` set xs)"
  by (induction d xs rule: py_join.induct) auto

lemma set_py_join_elem: "x \<in> set xs \<Longrightarrow> set x \<subseteq> set (py_join d xs)"
  by (induction d xs rule: py_join.induct) auto

lemma set_py_split_chr: "x \<in> set (py_split_chr d s) \<Longrightarrow> set x \<subseteq> set s"
  using set_py_join_elem[of x "py_split_chr d s" "[d]"] by (simp add: py_join_split_chr)

lemma notin_split: "c \<notin> set s \<Longrightarrow> \<forall>v \<in> set (py_split_chr d s). c \<notin> set v"
  using set_py_split_chr by blast

lemma notin_join: "c \<notin> set d \<Longrightarrow> \<forall>n \<in> set ns. c \<notin> set n \<Longrightarrow> c \<notin> set (py_join d ns)"
  using set_py_join[of d ns] by auto

text \<open>The cases of \<open>Declaration\<close>.\<close>

lemma Declaration_cases:
  assumes "Declaration t st = Inr (u, st')"
  obtains (push) "u = t" "st' = PushScope st"
    | (pop) "u = t" "st' = PopScope st"
    | (same) "u = t" "st' = st"
    | (vars) e ns where "find_new_names (py_split_chr (CHR '','') (drop e t)) st = Inr (ns, st')"
        "u = ''var '' @ py_join '','' ns"
    | (args) m ns where "find_new_names (py_split_chr (CHR '','') (re_text t m 2)) (PushScope st) = Inr (ns, st')"
        "re_match function_head t = Some m" "u = re_text t m 1 @ ''('' @ py_join '','' ns @ ''){''"
    | (use) "map_of (name_map st) t = Some u" "st' = st"
proof -
  consider "t = ''{''" | "t = ''}''" "t \<noteq> ''{''"
    | "t \<noteq> ''{''" "t \<noteq> ''}''" "re_match (RIn [dquote, squote, CHR ''/'']) t \<noteq> None"
    | m where "t \<noteq> ''{''" "t \<noteq> ''}''" "re_match (RIn [dquote, squote, CHR ''/'']) t = None" "re_match (rstr ''var '') t = Some m"
    | m where "t \<noteq> ''{''" "t \<noteq> ''}''" "re_match (RIn [dquote, squote, CHR ''/'']) t = None" "re_match (rstr ''var '') t = None"
        "re_match function_head t = Some m"
    | "t \<noteq> ''{''" "t \<noteq> ''}''" "re_match (RIn [dquote, squote, CHR ''/'']) t = None" "re_match (rstr ''var '') t = None"
        "re_match function_head t = None"
    by fastforce
  then show thesis
  proof cases
    case 1
    with assms show ?thesis by (intro push) (simp_all add: Declaration_def)
  next
    case 2
    with assms show ?thesis by (intro pop) (simp_all add: Declaration_def)
  next
    case 3
    with assms show ?thesis by (intro same) (simp_all add: Declaration_def)
  next
    case 4
    obtain a e g where "m = (a, e, g)" by (cases m)
    with 4 assms have "rbind (find_new_names (py_split_chr (CHR '','') (drop e t)) st) (\<lambda>(ns, st1).
      Inr (''var '' @ py_join '','' ns, st1)) = Inr (u, st')" by (simp add: Declaration_def)
    then show ?thesis by (elim rbind_InrE) (auto intro: vars)
  next
    case 5
    with assms have "rbind (find_new_names (py_split_chr (CHR '','') (re_text t m 2)) (PushScope st)) (\<lambda>(ns, st1).
      Inr (re_text t m 1 @ ''('' @ py_join '','' ns @ ''){'', st1)) = Inr (u, st')"
      by (simp add: Declaration_def Let_def)
    then show ?thesis by (elim rbind_InrE) (auto intro: args[OF _ 5(5)])
  next
    case 6
    show ?thesis
    proof (cases "map_of (name_map st) t")
      case None
      with 6 assms show ?thesis by (intro same) (simp_all add: Declaration_def)
    next
      case (Some n)
      with 6 assms show ?thesis by (intro use) (simp_all add: Declaration_def)
    qed
  qed
qed

lemma set_re_text: "set (re_text s m k) \<subseteq> set s"
  by (cases "re_group s m k") (simp_all add: re_text_def set_re_group)


lemma Declaration_ok:
  assumes "Declaration t st = Inr (u, st')" and "names_ok st"
  shows "names_ok st' \<and> (nesting st' \<noteq> 0 \<longrightarrow> map_of (name_map st) \<subseteq>\<^sub>m map_of (name_map st')) \<and>
    (CHR 0x0A \<notin> set t \<longrightarrow> CHR 0x0A \<notin> set u)"
  using assms(1)
proof (cases rule: Declaration_cases)
  case push
  with assms(2) show ?thesis by (simp add: PushScope_def names_ok_def)
next
  case pop
  have "nesting st' \<noteq> 0 \<Longrightarrow> name_map st' = name_map st" by (simp add: pop PopScope_def Let_def split: if_splits)
  with pop names_ok_Pop[OF assms(2)] show ?thesis by simp
next
  case same
  with assms(2) show ?thesis by simp
next
  case (vars e ns)
  have nl: "CHR 0x0A \<notin> set u" if "CHR 0x0A \<notin> set t"
  proof -
    from that have "CHR 0x0A \<notin> set (drop e t)" by (auto dest: in_set_dropD)
    then have "\<forall>v \<in> set (py_split_chr (CHR '','') (drop e t)). CHR 0x0A \<notin> set v" by (rule notin_split)
    with find_new_names_ok[OF vars(1) assms(2)] have "\<forall>n \<in> set ns. CHR 0x0A \<notin> set n" by simp
    then have "CHR 0x0A \<notin> set (py_join '','' ns)" by (intro notin_join) simp_all
    then show ?thesis by (simp add: vars(2))
  qed
  with find_new_names_ok[OF vars(1) assms(2)] show ?thesis by simp
next
  case (args m ns)
  have ok: "names_ok (PushScope st)" using assms(2) by simp
  have nl: "CHR 0x0A \<notin> set u" if "CHR 0x0A \<notin> set t"
  proof -
    have tx: "CHR 0x0A \<notin> set (re_text t m k)" for k using that subsetD[OF set_re_text[of t m k]] by blast
    then have "\<forall>v \<in> set (py_split_chr (CHR '','') (re_text t m 2)). CHR 0x0A \<notin> set v" by (rule notin_split)
    with find_new_names_ok[OF args(1) ok] have "\<forall>n \<in> set ns. CHR 0x0A \<notin> set n" by simp
    then have "CHR 0x0A \<notin> set (py_join '','' ns)" by (intro notin_join) simp_all
    moreover note tx[of 1]
    ultimately show ?thesis by (simp add: args(3))
  qed
  have "name_map (PushScope st) = name_map st" by (simp add: PushScope_def)
  with find_new_names_ok[OF args(1) ok] nl show ?thesis by simp
next
  case use
  from names_okD(1)[OF assms(2) use(1)] have "CHR 0x0A \<notin> set u" using identifier_at_no_newline by blast
  with use assms(2) show ?thesis by simp
qed

section \<open>Lines\<close>

lemma declaration_pass_ok:
  assumes "declaration_pass line st = Inr (t, st')" and "names_ok st" and "CHR 0x0A \<notin> set line"
  shows "names_ok st' \<and> CHR 0x0A \<notin> set t"
proof -
  have "names_ok st' \<and> set t \<subseteq> {c. c \<noteq> CHR 0x0A}"
  proof (rule sub_state_invariant[where P = names_ok and A = "{c. c \<noteq> CHR 0x0A}",
        OF assms(1)[unfolded declaration_pass_def re_sub_state_def] assms(2)])
    show "set line \<subseteq> {c. c \<noteq> CHR 0x0A}" using assms(3) by auto
    fix m st1 u st2 assume st: "names_ok st1" "Declaration (re_text line m 0) st1 = Inr (u, st2)"
    have "CHR 0x0A \<notin> set (re_text line m 0)" using assms(3) subsetD[OF set_re_text[of line m 0]] by blast
    with Declaration_ok[OF st(2,1)] show "names_ok st2 \<and> set u \<subseteq> {c. c \<noteq> CHR 0x0A}" by auto
  qed
  then show ?thesis by auto
qed

lemma set_sub_keep: "(\<And>m. set (f m) \<subseteq> set s) \<Longrightarrow> set (re_sub r f s) \<subseteq> set s"
  by (rule set_re_sub) simp_all

lemma set_RemoveSpaces: "set (RemoveSpaces line m) \<subseteq> set line"
  using set_re_text by (simp add: RemoveSpaces_def Let_def)

lemma set_space_pass: "set (space_pass line) \<subseteq> set line"
proof -
  have e: "set (re_sub r (\<lambda>m. []) s) \<subseteq> set s" for r s by (rule set_sub_keep) simp
  have r: "set (re_sub r (RemoveSpaces s) s) \<subseteq> set s" for r s
    by (rule set_sub_keep) (rule set_RemoveSpaces)
  show ?thesis unfolding space_pass_def Let_def
    by (rule subset_trans[OF r subset_trans[OF r subset_trans[OF e e]]])
qed

lemma collect_identifiers_frame:
  "name_map (collect_identifiers line st) = name_map st \<and>
   identifier_counter (collect_identifiers line st) = identifier_counter st \<and>
   nesting (collect_identifiers line st) = nesting st \<and> in_comment (collect_identifiers line st) = in_comment st"
proof -
  have "name_map (fold (\<lambda>m. LookAtIdentifier (f m)) ms st) = name_map st \<and>
    identifier_counter (fold (\<lambda>m. LookAtIdentifier (f m)) ms st) = identifier_counter st \<and>
    nesting (fold (\<lambda>m. LookAtIdentifier (f m)) ms st) = nesting st \<and>
    in_comment (fold (\<lambda>m. LookAtIdentifier (f m)) ms st) = in_comment st" for f and ms :: "rmatch_obj list"
    by (induction ms arbitrary: st) (simp_all add: LookAtIdentifier_def)
  then show ?thesis unfolding collect_identifiers_def by simp
qed

lemma comment_pass_frame:
  assumes "comment_pass line st = (r, st')"
  shows "name_map st' = name_map st \<and> identifier_counter st' = identifier_counter st \<and> nesting st' = nesting st \<and>
    seen_identifiers st' = seen_identifiers st"
  using assms by (auto simp: comment_pass_def Let_def split: if_splits option.splits prod.splits)

lemma comment_pass_text:
  assumes "comment_pass line st = (Some t, st')"
  shows "set t \<subseteq> insert (CHR '' '') (set line)"
proof -
  have strip: "set (strip_line_comments s) \<subseteq> insert (CHR '' '') (set s)" for s
  proof -
    have "set (re_sub r (\<lambda>m. '' '') s) \<subseteq> insert (CHR '' '') (set s)" for r by (rule set_re_sub) auto
    moreover have "set (re_sub r (\<lambda>m. []) s') \<subseteq> set s'" for r s' by (rule set_sub_keep) simp
    ultimately show ?thesis unfolding strip_line_comments_def by (meson subset_trans)
  qed
  have strip_take: "set (take a (strip_line_comments s)) \<subseteq> insert (CHR '' '') (set s)" for a s
    using strip[of s] set_take_subset[of a "strip_line_comments s"] by auto
  show ?thesis
    using assms
    by (auto simp: comment_pass_def Let_def split: if_splits option.splits prod.splits
        dest!: subsetD[OF strip_take] subsetD[OF strip] in_set_dropD)
qed

lemma set_replace_ne: "set (py_replace_ne k old new s) \<subseteq> set s \<union> set new"
  by (induction k old new s rule: py_replace_ne.induct) auto

lemma minify_line_ok:
  assumes "minify_line line st = Inr (t, st')" and "names_ok st" and "CHR 0x0A \<notin> set line"
  shows "names_ok st' \<and> CHR 0x0A \<notin> set t"
proof -
  let ?l = "py_replace line [CHR 0x09] '' ''"
  have l: "CHR 0x0A \<notin> set ?l"
    using assms(3) set_replace_ne[of 0 "[CHR 0x09]" "'' ''" line] by (auto simp: py_replace_def)
  obtain r st1 where c: "comment_pass ?l st = (r, st1)" by (cases "comment_pass ?l st")
  from comment_pass_frame[OF c] assms(2) have ok1: "names_ok st1" by (simp add: names_ok_def)
  show ?thesis
  proof (cases r)
    case None
    with assms(1) c ok1 show ?thesis by (simp add: minify_line_def)
  next
    case (Some k)
    let ?k = "space_pass k"
    from Some c have "comment_pass ?l st = (Some k, st1)" by simp
    from comment_pass_text[OF this] l have "CHR 0x0A \<notin> set k" by auto
    with set_space_pass[of k] have k: "CHR 0x0A \<notin> set ?k" by blast
    have "names_ok (collect_identifiers ?k st1)"
      using ok1 collect_identifiers_frame[of ?k st1] by (simp add: names_ok_def)
    moreover from assms(1) c Some have "declaration_pass ?k (collect_identifiers ?k st1) = Inr (t, st')"
      by (simp add: minify_line_def Let_def)
    ultimately show ?thesis using declaration_pass_ok k by blast
  qed
qed

lemma minify_lines_ok:
  "minify_lines ls st = Inr (ns, st') \<Longrightarrow> names_ok st \<Longrightarrow> \<forall>l \<in> set ls. CHR 0x0A \<notin> set l \<Longrightarrow>
     names_ok st' \<and> length ns = length ls \<and> (\<forall>n \<in> set ns. CHR 0x0A \<notin> set n)"
proof (induction ls st arbitrary: ns st' rule: minify_lines.induct)
  case (1 st)
  then show ?case by simp
next
  case (2 l ls st)
  from 2(2) obtain n st1 ms where f: "minify_line l st = Inr (n, st1)"
    and r: "minify_lines ls st1 = Inr (ms, st')" and ns: "ns = n # ms"
    by (auto simp: rbind_Inr_iff)
  from minify_line_ok[OF f 2(3)] 2(4) have "names_ok st1" "CHR 0x0A \<notin> set n" by simp_all
  with 2(1)[OF r] 2(4) ns show ?case by simp
qed

lemma split_chr_pieces: "\<forall>l \<in> set (py_split_chr d s). d \<notin> set l"
proof (induction d s rule: py_split_chr.induct)
  case (2 d c s)
  then show ?case by (cases "py_split_chr d s") auto
qed simp

lemma split_join_lines:
  "\<forall>n \<in> set ns. d \<notin> set n \<Longrightarrow> ns \<noteq> [] \<Longrightarrow> py_split_chr d (py_join [d] ns @ [d]) = ns @ [[]]"
proof (induction "[d]" ns rule: py_join.induct)
  case (2 w)
  then show ?case by (simp add: py_split_chr_sep)
next
  case (3 w v ws)
  then show ?case by (simp add: py_split_chr_sep)
qed simp

lemma JSMinify_lines:
  assumes "JSMinify text st = Inr (out, st')" and "names_ok st"
  shows "\<exists>ns. minify_lines (py_split_chr (CHR 0x0A) text) st = Inr (ns, st') \<and>
    py_split_chr (CHR 0x0A) out = ns @ [[]] \<and> length ns = length (py_split_chr (CHR 0x0A) text) \<and> names_ok st'"
proof -
  from assms(1) obtain ns where ns: "minify_lines (py_split_chr (CHR 0x0A) text) st = Inr (ns, st')"
    and out: "out = py_join [CHR 0x0A] ns @ [CHR 0x0A]"
    by (auto simp: JSMinify_def rbind_Inr_iff)
  note ok = minify_lines_ok[OF ns assms(2) split_chr_pieces]
  then have "ns \<noteq> []" by auto
  with ok have "py_split_chr (CHR 0x0A) out = ns @ [[]]" unfolding out by (intro split_join_lines) simp_all
  with ns ok show ?thesis by auto
qed

text \<open>
  Line breaks are kept and names stay apart: the lines of the result are the minified lines of the text,
  one for each and in order, and an empty one after the last line break; in the state that is left behind, the new
  names in use were handed out below the counter, and as long as the open scope was given at most 3068 names,
  no two of its variables share one.
\<close>

theorem minify_keeps_line_breaks:
  assumes "JSMinify text st = Inr (out, st')" and "names_ok st"
  shows "\<exists>ns. minify_lines (py_split_chr (CHR 0x0A) text) st = Inr (ns, st') \<and>
    py_split_chr (CHR 0x0A) out = ns @ [[]] \<and> length ns = length (py_split_chr (CHR 0x0A) text) \<and>
    names_ok st'"
  using JSMinify_lines[OF assms] by blast

section \<open>Uses of a declared variable\<close>

text \<open>
  The states that follow while the scope stays open: after a match of the declarations of a line, and
  from one line to the next.
\<close>

inductive same_scope :: "minifier \<Rightarrow> minifier \<Rightarrow> bool" for st where
  scope_refl: "same_scope st st"
| scope_match: "same_scope st st1 \<Longrightarrow> Declaration t st1 = Inr (u, st2) \<Longrightarrow> nesting st2 \<noteq> 0 \<Longrightarrow> same_scope st st2"
| scope_line: "same_scope st st1 \<Longrightarrow> comment_pass l st1 = (r, st2) \<Longrightarrow> same_scope st (collect_identifiers k st2)"

lemma same_scope_ok:
  "same_scope st st' \<Longrightarrow> names_ok st \<Longrightarrow> names_ok st' \<and> map_of (name_map st) \<subseteq>\<^sub>m map_of (name_map st')"
proof (induction rule: same_scope.induct)
  case (scope_match st1 t u st2)
  with Declaration_ok[OF scope_match(2)] map_le_trans show ?case by blast
next
  case (scope_line st1 l r st2 k)
  with comment_pass_frame[OF scope_line(2)] collect_identifiers_frame[of k st2] show ?case
    by (simp add: names_ok_def)
qed simp

lemma ident_no_function_head:
  assumes "list_all ident_chr v"
  shows "re_match function_head v = None"
proof -
  have "\<not> rmatch v function_head 0 Map.empty j h" for j h
  proof
    assume "rmatch v function_head 0 Map.empty j h"
    then obtain i where "i < length v" "v ! i = CHR ''(''"
      unfolding function_head_def rseq_def by (auto simp: rmatch_simps)
    with assms show False by (auto simp: list_all_length ident_chr_def chr_isword_def chr_defs)
  qed
  then show ?thesis unfolding re_match_def by (subst re_match_at_None) simp_all
qed

lemma Declaration_ident:
  assumes "list_all ident_chr v" "v \<noteq> []"
  shows "Declaration v st = Inr (case map_of (name_map st) v of Some n \<Rightarrow> n | None \<Rightarrow> v, st)"
proof -
  have no: "c \<notin> set v" if "\<not> ident_chr c" for c using assms(1) that by (auto simp: list_all_iff)
  have "\<not> ident_chr (CHR ''{'')" "\<not> ident_chr (CHR ''}'')" "\<not> ident_chr (CHR '' '')"
    "\<not> ident_chr dquote" "\<not> ident_chr squote" "\<not> ident_chr (CHR ''/'')"
    by (simp_all add: ident_chr_def chr_defs)
  note no = this[THEN no]
  have "v ! 0 \<in> set v" using assms(2) by simp
  with no have first: "v ! 0 \<notin> {dquote, squote, CHR ''/''}" by auto
  then have lit: "re_match (RIn [dquote, squote, CHR ''/'']) v = None"
    by (auto simp: re_match_def re_match_at_def RIn_def)
  have "\<not> py_startswith v ''var ''"
    using no(3) by (auto simp: py_startswith_iff_prefix prefix_def)
  then have var: "re_match (rstr ''var '') v = None"
    by (simp add: re_match_def re_match_at_def rx_rstr)
  have "v \<noteq> ''{''" "v \<noteq> ''}''" using no(1,2) by auto
  with lit var ident_no_function_head[OF assms(1)] show ?thesis
    by (auto simp: Declaration_def split: option.splits)
qed


definition open_scope :: minifier where
  "open_scope = new_minifier\<lparr>nesting := 1\<rparr>"


definition sample_text :: string where
  "sample_text = ''function f(foo){'' @ [CHR 0x0A] @ ''return foo; // it''"

lemma sample_runs: "\<exists>out st'. JSMinify sample_text new_minifier = Inr (out, st')"
proof -
  have "case JSMinify sample_text new_minifier of Inr _ \<Rightarrow> True | Inl _ \<Rightarrow> False" by code_simp
  then show ?thesis by (auto split: sum.splits)
qed

theorem minify_keeps_line_breaks_witness:
  "\<exists>out st' ns. JSMinify sample_text new_minifier = Inr (out, st') \<and> py_split_chr (CHR 0x0A) out = ns @ [[]] \<and>
     length ns = length (py_split_chr (CHR 0x0A) sample_text) \<and> names_ok st'"
  using sample_runs minify_keeps_line_breaks[OF _ names_ok_new] by blast

section \<open>Programs that are ruined\<close>

text \<open>
  A parameter takes the name of a global variable that is used only inside the function: identifiers are
  collected on lines outside functions only.
\<close>

lemma minify_captures_global:
  "rmap fst (JSMinify (''function f(foo){'' @ [CHR 0x0A] @ ''return a+foo;}'') new_minifier) =
     Inr (''function f(a){'' @ [CHR 0x0A] @ ''return a+a;}'' @ [CHR 0x0A])"
  by code_simp

text \<open>
  A declaration that goes on on the next line: the empty name after the comma is given a new name, and the
  variable of the next line is not declared any more.
\<close>

lemma minify_breaks_declaration:
  "rmap fst (JSMinify (''{var x,'' @ [CHR 0x0A] @ ''y}'') new_minifier) = Inr (''{var a,b'' @ [CHR 0x0A] @ ''y}'' @ [CHR 0x0A])"
  by code_simp

text \<open>Two slashes inside a literal text start a comment.\<close>

lemma minify_cuts_literal:
  "rmap fst (JSMinify (''x='' @ [dquote] @ ''http://h'' @ [dquote]) new_minifier) = Inr (''x='' @ [dquote] @ ''http:'' @ [CHR 0x0A])"
  by code_simp

text \<open>From the 2757th variable of a scope on, the new names are no identifiers; the 3069th name is given twice.\<close>

lemma names_beyond_letters:
  "identifier_at 2756 = Inr ''[a''" "identifier_at 3068 = identifier_at 52"
  by code_simp+

end
