(* ===== verification/V8_JS2C.thy ===== *)
theory V8_JS2C
  imports JS2C Jsmin
begin

text \<open>
  V8's packer of its JavaScript sources, \<^verbatim>\<open>src/deps/v8/tools/js2c.py\<close>, from which the one of \<open>JS2C\<close> was
  taken: constants and macros are searched by word, in the order of their declaration, every module is
  checked for \<open>eval\<close> and \<open>with\<close> and goes through the minifier of \<open>Jsmin\<close>, whose state is kept
  from one module to the next. \<open>ReadLines\<close>, \<open>ParseValue\<close>, the two classes of macros, the scan over the
  arguments and the patterns of the macro file have the same text in both files and are those of \<open>JS2C\<close>.

  After the definitions: the expansion of one macro always ends, what the two files hold, and that every
  module in them was checked.
\<close>

section \<open>Definitions\<close>

subsection \<open>Encoding and validation\<close>

definition ToCArray_v8 :: "string \<Rightarrow> string result" where
  "ToCArray_v8 lines =
     rmap (\<lambda>values. py_join '', '' (values @ [''0'']))
       (mapM (\<lambda>c. if ord c < 128 then Inr (str_nat (ord c)) else Inl AssertionError) lines)"

definition RemoveCommentsAndTrailingWhitespace :: "string \<Rightarrow> string" where
  "RemoveCommentsAndTrailingWhitespace lines0 =
     (let lines1 = re_sub (rseq [rstr ''//'', RStar RAny, RLit (CHR 0x0A)]) (\<lambda>m. nl) lines0;
          lines2 = re_sub (rseq [rstr ''/*'', RLazy (RChr (\<lambda>c. True)), rstr ''*/'']) (\<lambda>m. []) lines1
      in re_sub (RSeq (RPlus RSpace) (RPlus (RLit (CHR 0x0A)))) (\<lambda>m. nl) lines2)"

definition EVAL_PATTERN :: re where
  "EVAL_PATTERN = rseq [RWordB, rstr ''eval'', RStar RSpace, RLit (CHR ''('')]"

definition WITH_PATTERN :: re where
  "WITH_PATTERN = rseq [RWordB, rstr ''with'', RStar RSpace, RLit (CHR ''('')]"

text \<open>A string is raised, which Python 2.6 turns into a type error.\<close>

definition Validate :: "string \<Rightarrow> unit result" where
  "Validate lines0 =
     (let lines = RemoveCommentsAndTrailingWhitespace lines0 in
      if re_search EVAL_PATTERN lines 0 \<noteq> None then Inl TypeError
      else if re_search WITH_PATTERN lines 0 \<noteq> None then Inl TypeError
      else Inr ())"

subsection \<open>Constants and macros\<close>

text \<open>
  The compiled patterns are given by the names, which consist of letters, digits and underscores. In
  the replacement, a backslash would start an escape of \<open>re.sub\<close>.
\<close>

definition const_re :: "string \<Rightarrow> re" where
  "const_re name = rseq [RWordB, rstr name, RWordB]"

definition macro_re :: "string \<Rightarrow> re" where
  "macro_re name = rseq [RWordB, rstr name, RLit (CHR ''('')]"

definition sub_template :: "re \<Rightarrow> string \<Rightarrow> string \<Rightarrow> string result" where
  "sub_template r template s = (if CHR 0x5C \<in> set template then Inl Unsupported else Inr (re_sub r (\<lambda>m. template) s))"

definition ExpandConstants_v8 :: "string \<Rightarrow> (string \<times> string) list \<Rightarrow> string result" where
  "ExpandConstants_v8 lines constants = foldM (\<lambda>(key, v) ls. sub_template (const_re key) v ls) constants lines"

lemma macro_re_search:
  assumes "re_search (macro_re name) s i = Some (a, e, g)"
  shows "i \<le> a \<and> a < e \<and> e \<le> length s"
proof -
  from re_search_Some[OF assms] have ok: "i \<le> a" "a \<le> e" "e \<le> length s" "re_match_at (macro_re name) s a = Some (a, e, g)"
    by auto
  then have "a \<le> length s" by simp
  with re_match_at_Some[OF ok(4)] have "rmatch s (macro_re name) a Map.empty e g" by blast
  then obtain j h where "rmatch s (RSeq RWordB (rstr name)) a Map.empty j h" "e = Suc j"
    unfolding macro_re_def rseq_def by (auto simp: rmatch_simps)
  with rmatch_bounds[OF this(1) \<open>a \<le> length s\<close>] ok show ?thesis by simp
qed

lemma scan_args_end: "scan_args lines r fin lm h = (as, lm', e) \<Longrightarrow> fin \<le> e \<and> e \<le> fin + length r"
proof (induction lines r fin lm h arbitrary: as lm' e rule: scan_args.induct)
  case (2 lines c r fin lm h)
  then show ?case by (fastforce simp: Let_def split: if_splits prod.splits)
qed simp

lemma call_args_end: "call_args lines fin = (as, e) \<Longrightarrow> fin \<le> e"
  unfolding call_args_def by (auto simp: Let_def split: prod.splits dest: scan_args_end)

lemma rbind_cong [fundef_cong]:
  "m = m' \<Longrightarrow> (\<And>x. m' = Inr x \<Longrightarrow> f x = f' x) \<Longrightarrow> rbind m f = rbind m' f'"
  by (cases m') simp_all

text \<open>
  The loop over the invocations of one macro, from the position where the next search starts: the
  search goes on after the expansion, so the text that is left to search gets shorter.
\<close>

function expand_while_v8 :: "(string \<Rightarrow> string result) \<Rightarrow> string \<Rightarrow> macro \<Rightarrow> string \<Rightarrow> nat \<Rightarrow> string result" where
  "expand_while_v8 rec name m lines pos =
     (case re_search (macro_re name) lines pos of
        None \<Rightarrow> Inr lines
      | Some (start, e, g) \<Rightarrow>
          (if lines ! (e - 1) \<noteq> CHR ''('' then Inl AssertionError
           else case call_args lines e of (args, fin) \<Rightarrow>
             rbind (add_args rec m args []) (\<lambda>mapping.
               rbind (macro_expand m mapping) (\<lambda>res.
                 expand_while_v8 rec name m (take start lines @ res @ drop fin lines) (start + length res)))))"
  by pat_completeness auto

termination
proof (relation "measure (\<lambda>(rec, name, m, lines, pos). length lines - pos)", goal_cases)
  case 1
  show ?case by simp
next
  case (2 rec name m lines pos x start y e g args fin mapping res)
  then have s: "re_search (macro_re name) lines pos = Some (start, e, g)" and c: "call_args lines e = (args, fin)"
    by simp_all
  from macro_re_search[OF s] call_args_end[OF c] show ?case by simp linarith
qed

fun ExpandMacros_v8 :: "nat \<Rightarrow> string \<Rightarrow> (string \<times> macro) list \<Rightarrow> string result" where
  "ExpandMacros_v8 0 lines macros = Inl RuntimeError"
| "ExpandMacros_v8 (Suc n) lines macros =
     foldM (\<lambda>(name, m) ls. expand_while_v8 (\<lambda>a. ExpandMacros_v8 n a macros) name m ls 0) (rev macros) lines"

text \<open>One line of the macro file: the entries are appended.\<close>

definition read_macro_line_v8 :: "(string list \<Rightarrow> string \<Rightarrow> (string list \<Rightarrow> string result) result) \<Rightarrow> string \<Rightarrow>
    (string \<times> string) list \<times> (string \<times> macro) list \<Rightarrow> ((string \<times> string) list \<times> (string \<times> macro) list) result" where
  "read_macro_line_v8 py_eval line0 = (\<lambda>(constants, macros).
     (let line = py_strip (case py_find line0 ''#'' 0 of None \<Rightarrow> line0 | Some h \<Rightarrow> take h line0) in
      if length line = 0 then Inr (constants, macros)
      else case re_match CONST_PATTERN line of
        Some m \<Rightarrow> Inr (constants @ [(grp line m 1, py_strip (grp line m 2))], macros)
      | None \<Rightarrow> (case re_match MACRO_PATTERN line of
          Some m \<Rightarrow> Inr (constants, macros @ [(grp line m 1,
            TextMacro (map py_strip (py_split_chr (CHR '','') (grp line m 2))) (py_strip (grp line m 3)))])
        | None \<Rightarrow> (case re_match PYTHON_MACRO_PATTERN line of
            Some m \<Rightarrow>
              (let args = map py_strip (py_split_chr (CHR '','') (grp line m 2)) in
               rmap (\<lambda>f. (constants, macros @ [(grp line m 1, PythonMacro args f)])) (py_eval args (py_strip (grp line m 3))))
          | None \<Rightarrow> Inl TypeError))))"

definition ReadMacros_v8 :: "(string list \<Rightarrow> string \<Rightarrow> (string list \<Rightarrow> string result) result) \<Rightarrow> string list \<Rightarrow>
    ((string \<times> string) list \<times> (string \<times> macro) list) result" where
  "ReadMacros_v8 py_eval lines = foldM (read_macro_line_v8 py_eval) lines ([], [])"

subsection \<open>The files\<close>

definition text_lines :: "string list \<Rightarrow> string" where
  "text_lines ls = concat (map (\<lambda>l. l @ nl) ls)"

definition HEADER_TEMPLATE_v8 :: "nat \<Rightarrow> nat \<Rightarrow> string \<Rightarrow> string \<Rightarrow> string \<Rightarrow> string \<Rightarrow> string \<Rightarrow> string" where
  "HEADER_TEMPLATE_v8 builtin_count debugger_count srcs get_index_cases get_script_source_cases
     get_script_name_cases ty =
     text_lines [''// Copyright 2008 Google Inc. All Rights Reserved.'', [],
       ''// This file was generated from .js source files by SCons.  If you'',
       ''// want to make changes to this file you should either change the'',
       ''// javascript source files or the SConstruct script.'', [],
       ''#include '' @ dq @ ''v8.h'' @ dq, ''#include '' @ dq @ ''natives.h'' @ dq, [],
       ''namespace v8 {'', ''namespace internal {'', []] @
     srcs @
     text_lines [[], ''  template <>'', ''  int NativesCollection<'' @ ty @ ''>::GetBuiltinsCount() {'',
       ''    return '' @ str_nat builtin_count @ '';'', ''  }'', [],
       ''  template <>'', ''  int NativesCollection<'' @ ty @ ''>::GetDebuggerCount() {'',
       ''    return '' @ str_nat debugger_count @ '';'', ''  }'', [],
       ''  template <>'', ''  int NativesCollection<'' @ ty @ ''>::GetIndex(const char* name) {''] @
     get_index_cases @
     text_lines [''    return -1;'', ''  }'', [],
       ''  template <>'', ''  Vector<const char> NativesCollection<'' @ ty @ ''>::GetScriptSource(int index) {''] @
     get_script_source_cases @
     text_lines [''    return Vector<const char>('' @ dq @ dq @ '', 0);'', ''  }'', [],
       ''  template <>'', ''  Vector<const char> NativesCollection<'' @ ty @ ''>::GetScriptName(int index) {''] @
     get_script_name_cases @
     text_lines [''    return Vector<const char>('' @ dq @ dq @ '', 0);'', ''  }'', [], ''}  // internal'', ''}  // v8'']"

definition SOURCE_DECLARATION_v8 :: "string \<Rightarrow> string \<Rightarrow> string" where
  "SOURCE_DECLARATION_v8 i data = ''  static const char '' @ i @ ''[] = { '' @ data @ '' };'' @ nl"

definition GET_DEBUGGER_INDEX_CASE :: "string \<Rightarrow> nat \<Rightarrow> string" where
  "GET_DEBUGGER_INDEX_CASE i k = ''    if (strcmp(name, '' @ dq @ i @ dq @ '') == 0) return '' @ str_nat k @ '';'' @ nl"

definition GET_DEBUGGER_SCRIPT_SOURCE_CASE :: "string \<Rightarrow> nat \<Rightarrow> nat \<Rightarrow> string" where
  "GET_DEBUGGER_SCRIPT_SOURCE_CASE i len k =
     ''    if (index == '' @ str_nat k @ '') return Vector<const char>('' @ i @ '', '' @ str_nat len @ '');'' @ nl"

definition GET_DEBUGGER_SCRIPT_NAME_CASE :: "string \<Rightarrow> nat \<Rightarrow> nat \<Rightarrow> string" where
  "GET_DEBUGGER_SCRIPT_NAME_CASE name len k =
     ''    if (index == '' @ str_nat k @ '') return Vector<const char>('' @ dq @ name @ dq @ '', '' @ str_nat len @ '');'' @ nl"

text \<open>The files, \<open>eval\<close>, and the recursion limit.\<close>

record v8_env =
  ve_file :: "string \<Rightarrow> string result"
  ve_eval :: "string list \<Rightarrow> string \<Rightarrow> (string list \<Rightarrow> string result) result"
  ve_limit :: nat

record v8_state =
  v_minifier :: minifier
  v_ids :: "(string \<times> nat) list"
  debugger_ids :: "(string \<times> nat) list"
  v_source_lines :: "string list"
  v_source_lines_empty :: "string list"

definition is_debugger :: "string \<Rightarrow> bool" where
  "is_debugger filename = py_endswith filename ''-debugger.js''"

definition module_id_v8 :: "string \<Rightarrow> string" where
  "module_id_v8 filename =
     (let i = drop_last 3 (path_tail filename) in if is_debugger filename then drop_last 9 i else i)"

text \<open>The first loop: the macro file, and the modules.\<close>

fun find_macros_v8 :: "v8_env \<Rightarrow> string list \<Rightarrow> (string \<times> string) list \<times> (string \<times> macro) list \<times> string list \<Rightarrow>
    ((string \<times> string) list \<times> (string \<times> macro) list \<times> string list) result" where
  "find_macros_v8 ve [] acc = Inr acc"
| "find_macros_v8 ve (s # ss) (consts, macros, modules) =
     (if path_tail s = ''macros.py''
      then rbind (ve_file ve s) (\<lambda>text.
        rbind (ReadMacros_v8 (ve_eval ve) (ReadLines text)) (\<lambda>(c, m). find_macros_v8 ve ss (c, m, modules)))
      else find_macros_v8 ve ss (consts, macros, modules @ [s]))"

definition expanded_text :: "v8_env \<Rightarrow> (string \<times> string) list \<Rightarrow> (string \<times> macro) list \<Rightarrow> string \<Rightarrow> string result" where
  "expanded_text ve consts macros filename =
     rbind (ve_file ve filename) (\<lambda>lines.
       rbind (ExpandConstants_v8 lines consts) (\<lambda>lines1.
         rbind (ExpandMacros_v8 (ve_limit ve) lines1 macros) (\<lambda>lines2.
           rbind (Validate lines2) (\<lambda>u. Inr lines2))))"

definition pack_module_v8 :: "v8_env \<Rightarrow> (string \<times> string) list \<Rightarrow> (string \<times> macro) list \<Rightarrow> string \<Rightarrow> v8_state \<Rightarrow>
    v8_state result" where
  "pack_module_v8 ve consts macros filename st =
     rbind (expanded_text ve consts macros filename) (\<lambda>lines0.
       rbind (JSMinify lines0 (v_minifier st)) (\<lambda>(lines, mini).
         rbind (ToCArray_v8 lines) (\<lambda>data.
           let i = module_id_v8 filename;
               st1 = (if is_debugger filename then st\<lparr>debugger_ids := debugger_ids st @ [(i, length lines)]\<rparr>
                      else st\<lparr>v_ids := v_ids st @ [(i, length lines)]\<rparr>)
           in Inr (st1\<lparr>v_minifier := mini,
                       v_source_lines := v_source_lines st1 @ [SOURCE_DECLARATION_v8 i data],
                       v_source_lines_empty := v_source_lines_empty st1 @ [SOURCE_DECLARATION_v8 i data]\<rparr>))))"

text \<open>The two loops over the modules share the counter: debugger modules come first.\<close>

fun index_cases :: "nat \<Rightarrow> (string \<times> nat) list \<Rightarrow> (string \<times> string \<times> string) list" where
  "index_cases i [] = []"
| "index_cases i ((k, len) # ks) =
     (let native_name = ''native '' @ k @ ''.js''
      in (GET_DEBUGGER_INDEX_CASE k i, GET_DEBUGGER_SCRIPT_SOURCE_CASE k len i,
          GET_DEBUGGER_SCRIPT_NAME_CASE native_name (length native_name) i)) # index_cases (i + 1) ks"

definition emit_v8 :: "string \<Rightarrow> v8_state \<Rightarrow> string list \<Rightarrow> string" where
  "emit_v8 ty st lines =
     (let cases = index_cases 0 (debugger_ids st) @ index_cases (length (debugger_ids st)) (v_ids st)
      in HEADER_TEMPLATE_v8 (length (v_ids st) + length (debugger_ids st)) (length (debugger_ids st))
           (py_join nl lines) (concat (map fst cases)) (concat (map (fst \<circ> snd) cases)) (concat (map (snd \<circ> snd) cases)) ty)"

definition start_v8 :: v8_state where
  "start_v8 = \<lparr>v_minifier = new_minifier, v_ids = [], debugger_ids = [], v_source_lines = [], v_source_lines_empty = []\<rparr>"

definition JS2C_v8 :: "v8_env \<Rightarrow> string list \<Rightarrow> string list \<Rightarrow> string \<Rightarrow> (string \<times> string) list \<times> unit result" where
  "JS2C_v8 ve source target ty =
     (case rbind (find_macros_v8 ve source ([], [], [])) (\<lambda>(consts, macros, modules).
             foldM (pack_module_v8 ve consts macros) modules start_v8) of
        Inl e \<Rightarrow> ([], Inl e)
      | Inr st \<Rightarrow>
          (case target of
             [] \<Rightarrow> ([], Inl IndexError)
           | t # ts \<Rightarrow>
               ((t, emit_v8 ty st (v_source_lines st)) #
                  (case ts of [] \<Rightarrow> [] | t2 # _ \<Rightarrow> [(t2, emit_v8 ty st (v_source_lines_empty st))]), Inr ())))"

definition v8_main :: "v8_env \<Rightarrow> string list \<Rightarrow> (string \<times> string) list \<times> unit result" where
  "v8_main ve argv = (case argv of
     prog # natives # natives_empty # ty # source_files \<Rightarrow> JS2C_v8 ve source_files [natives, natives_empty] ty
   | _ \<Rightarrow> ([], Inl IndexError))"

section \<open>Expansion ends\<close>

declare expand_while_v8.simps [simp del]

lemma macro_re_paren:
  assumes "re_search (macro_re name) s i = Some (a, e, g)"
  shows "s ! (e - 1) = CHR ''(''"
proof -
  from re_search_Some[OF assms] have ok: "a \<le> length s" "re_match_at (macro_re name) s a = Some (a, e, g)" by auto
  from re_match_at_Some[OF ok(2,1)] have "rmatch s (macro_re name) a Map.empty e g" by blast
  then show ?thesis unfolding macro_re_def rseq_def by (auto simp: rmatch_simps)
qed

lemma length_slice_le: "length (py_slice s i j) \<le> length s - i"
  by (simp add: py_slice_def)

lemma scan_args_length:
  "scan_args lines r fin lm h = (as, lm', e) \<Longrightarrow> lm \<le> fin \<Longrightarrow>
     (\<forall>a \<in> set as. length a \<le> length lines - lm) \<and> lm \<le> lm'"
proof (induction lines r fin lm h arbitrary: as lm' e rule: scan_args.induct)
  case (2 lines c r fin lm h)
  consider "h = 0" | "h \<noteq> 0" "c = CHR '','' \<and> h = 1" | "h \<noteq> 0" "\<not> (c = CHR '','' \<and> h = 1)" by blast
  then show ?case
  proof cases
    case 1
    with 2(3) show ?thesis by simp
  next
    case c: 2
    obtain as1 l1 e1 where s: "scan_args lines r (fin + 1) (fin + 1) h = (as1, l1, e1)"
      by (cases "scan_args lines r (fin + 1) (fin + 1) h") auto
    with 2(3) c have as: "as = py_slice lines lm fin # as1" "lm' = l1" by (auto simp: Let_def)
    from 2(1)[OF c s] have "(\<forall>a \<in> set as1. length a \<le> length lines - (fin + 1)) \<and> fin + 1 \<le> l1" by simp
    with as 2(4) length_slice_le[of lines lm fin] show ?thesis by fastforce
  next
    case c: 3
    from 2(3) have "scan_args lines r (fin + 1) lm (if c \<in> set ''({['' then h + 1 else if c \<in> set '')}]'' then h - 1 else h)
      = (as, lm', e)" by (simp only: scan_args.simps c if_False)
    from 2(2)[OF c this] 2(4) show ?thesis by simp
  qed
qed simp

lemma call_args_length:
  "call_args lines fin = (as, e) \<Longrightarrow> a \<in> set as \<Longrightarrow> length a \<le> length lines - fin"
proof -
  assume c: "call_args lines fin = (as, e)" and a: "a \<in> set as"
  obtain as1 lm where s: "scan_args lines (drop fin lines) fin fin 1 = (as1, lm, e)" and as: "as = as1 @ [py_slice lines lm (e - 1)]"
    using c by (auto simp: call_args_def Let_def split: prod.splits)
  from scan_args_length[OF s] have "\<forall>a \<in> set as1. length a \<le> length lines - fin" "fin \<le> lm" by simp_all
  with as a length_slice_le[of lines lm "e - 1"] show ?thesis by auto
qed

lemma length_py_strip: "length (py_strip s) \<le> length s"
  unfolding py_strip_def py_lstrip_def py_rstrip_def
  by (metis length_dropWhile_le length_rev order_trans)

lemma add_args_total:
  assumes "\<forall>a \<in> set as. \<exists>r. rec (py_strip a) = Inr r" and "macro_args m \<noteq> []"
  shows "\<exists>mapping'. add_args rec m as mapping = Inr mapping'"
  using assms(1)
proof (induction as arbitrary: mapping)
  case (Cons a as)
  then obtain r where "rec (py_strip a) = Inr r" by auto
  with Cons assms(2) show ?case by (simp add: add_arg_def)
qed simp

lemma expand_while_v8_total:
  assumes "\<And>a. length a < L \<Longrightarrow> \<exists>r. rec a = Inr r"
  shows "length lines - pos \<le> L \<Longrightarrow> \<exists>r. expand_while_v8 rec name (TextMacro (x # xs) body) lines pos = Inr r"
proof (induction "length lines - pos" arbitrary: lines pos rule: less_induct)
  case less
  let ?m = "TextMacro (x # xs) body"
  show ?case
  proof (cases "re_search (macro_re name) lines pos")
    case None
    then show ?thesis by (simp add: expand_while_v8.simps[of rec name])
  next
    case (Some s)
    obtain start e g where s: "re_search (macro_re name) lines pos = Some (start, e, g)" using Some by (cases s) simp
    obtain as fin where c: "call_args lines e = (as, fin)" by (cases "call_args lines e")
    note b = macro_re_search[OF s] call_args_end[OF c]
    have "\<forall>a \<in> set as. \<exists>r. rec (py_strip a) = Inr r"
    proof
      fix a assume "a \<in> set as"
      from call_args_length[OF c this] length_py_strip[of a] b less.prems have "length (py_strip a) < L" by linarith
      then show "\<exists>r. rec (py_strip a) = Inr r" by (rule assms)
    qed
    from add_args_total[OF this, of ?m "[]"] obtain mapping where mp: "add_args rec ?m as [] = Inr mapping" by auto
    obtain res where res: "macro_expand ?m mapping = Inr res" by simp
    let ?l = "take start lines @ res @ drop fin lines" and ?p = "start + length res"
    have "length ?l - ?p < length lines - pos" using b by simp linarith
    from less.hyps[OF this] less.prems this obtain r where "expand_while_v8 rec name ?m ?l ?p = Inr r" by fastforce
    then have "expand_while_v8 rec name ?m lines pos = Inr r"
      using s c mp res macro_re_paren[OF s] by (subst expand_while_v8.simps) simp
    then show ?thesis ..
  qed
qed

text \<open>
  A text macro with parameters is expanded in every text, also when its body calls the macro itself:
  a recursion limit above the length of the text is never reached.
\<close>

theorem single_macro_expansion_ends:
  assumes "length lines < n"
  shows "\<exists>r. ExpandMacros_v8 n lines [(name, TextMacro (x # xs) body)] = Inr r"
  using assms
proof (induction n arbitrary: lines)
  case (Suc n)
  let ?rec = "\<lambda>a. ExpandMacros_v8 n a [(name, TextMacro (x # xs) body)]"
  have "\<exists>r. expand_while_v8 ?rec name (TextMacro (x # xs) body) lines 0 = Inr r"
  proof (rule expand_while_v8_total[where L = "length lines"])
    fix a :: string assume "length a < length lines"
    with Suc.prems have "length a < n" by simp
    then show "\<exists>r. ?rec a = Inr r" by (rule Suc.IH)
  qed simp
  then show ?case by auto
qed simp

theorem single_macro_expansion_ends_witness:
  "\<exists>r. ExpandMacros_v8 6 ''M(a)'' [(''M'', TextMacro [''x''] ''M(x)'')] = Inr r"
  by (rule single_macro_expansion_ends) simp

section \<open>The files\<close>

lemma ToCArray_v8_eq: "ToCArray_v8 s = (if ascii s then Inr (c_array s) else Inl AssertionError)"
proof -
  have "mapM (\<lambda>c. if ord c < 128 then Inr (str_nat (ord c)) else Inl AssertionError) s =
    (if ascii s then Inr (map (\<lambda>c. str_nat (ord c)) s) else Inl AssertionError)"
    by (induction s) (simp_all add: ascii_def)
  then show ?thesis by (simp add: ToCArray_v8_def c_array_def)
qed

text \<open>The modules through one minifier, in order.\<close>

fun minify_all :: "string list \<Rightarrow> minifier \<Rightarrow> (string list \<times> minifier) result" where
  "minify_all [] mini = Inr ([], mini)"
| "minify_all (t # ts) mini =
     rbind (JSMinify t mini) (\<lambda>(t', mini1). rbind (minify_all ts mini1) (\<lambda>(ts', mini2). Inr (t' # ts', mini2)))"

text \<open>The names and lengths of some of the modules, and the text of a file, given all modules and their minified texts.\<close>

definition ids_of :: "(string \<Rightarrow> bool) \<Rightarrow> string list \<Rightarrow> string list \<Rightarrow> (string \<times> nat) list" where
  "ids_of p modules outs = map (\<lambda>(m, out). (module_id_v8 m, length out)) (filter (p \<circ> fst) (zip modules outs))"

definition natives_file :: "string \<Rightarrow> string list \<Rightarrow> string list \<Rightarrow> string" where
  "natives_file ty modules outs =
     (let debuggers = ids_of is_debugger modules outs;
          cases = index_cases 0 (debuggers @ ids_of (\<lambda>m. \<not> is_debugger m) modules outs)
      in HEADER_TEMPLATE_v8 (length modules) (length debuggers)
           (py_join nl (map (\<lambda>(m, out). SOURCE_DECLARATION_v8 (module_id_v8 m) (c_array out)) (zip modules outs)))
           (concat (map fst cases)) (concat (map (fst \<circ> snd) cases)) (concat (map (snd \<circ> snd) cases)) ty)"

lemma index_cases_append: "index_cases i (xs @ ys) = index_cases i xs @ index_cases (i + length xs) ys"
  by (induction i xs rule: index_cases.induct) simp_all

lemma pack_modules_v8:
  "foldM (pack_module_v8 ve consts macros) modules st = Inr st' \<Longrightarrow>
   \<exists>texts outs. mapM (expanded_text ve consts macros) modules = Inr texts \<and>
     minify_all texts (v_minifier st) = Inr (outs, v_minifier st') \<and> length outs = length modules \<and> list_all ascii outs \<and>
     v_ids st' = v_ids st @ ids_of (\<lambda>m. \<not> is_debugger m) modules outs \<and>
     debugger_ids st' = debugger_ids st @ ids_of is_debugger modules outs \<and>
     v_source_lines st' = v_source_lines st @
       map (\<lambda>(m, out). SOURCE_DECLARATION_v8 (module_id_v8 m) (c_array out)) (zip modules outs) \<and>
     v_source_lines_empty st' = v_source_lines_empty st @
       map (\<lambda>(m, out). SOURCE_DECLARATION_v8 (module_id_v8 m) (c_array out)) (zip modules outs)"
proof (induction modules arbitrary: st)
  case Nil
  then show ?case by (simp add: ids_of_def)
next
  case (Cons m ms)
  from Cons.prems obtain st1 where p: "pack_module_v8 ve consts macros m st = Inr st1"
    and r: "foldM (pack_module_v8 ve consts macros) ms st1 = Inr st'" by (auto simp: rbind_Inr_iff)
  from p obtain t out where t: "expanded_text ve consts macros m = Inr t"
    and out: "JSMinify t (v_minifier st) = Inr (out, v_minifier st1)" "ascii out"
    and st1: "v_ids st1 = v_ids st @ (if is_debugger m then [] else [(module_id_v8 m, length out)])"
      "debugger_ids st1 = debugger_ids st @ (if is_debugger m then [(module_id_v8 m, length out)] else [])"
      "v_source_lines st1 = v_source_lines st @ [SOURCE_DECLARATION_v8 (module_id_v8 m) (c_array out)]"
      "v_source_lines_empty st1 = v_source_lines_empty st @ [SOURCE_DECLARATION_v8 (module_id_v8 m) (c_array out)]"
    by (auto simp: pack_module_v8_def rbind_Inr_iff ToCArray_v8_eq Let_def split: if_splits)
  from Cons.IH[OF r] obtain ts outs where ih: "mapM (expanded_text ve consts macros) ms = Inr ts"
    "minify_all ts (v_minifier st1) = Inr (outs, v_minifier st')" "length outs = length ms" "list_all ascii outs"
    "v_ids st' = v_ids st1 @ ids_of (\<lambda>m. \<not> is_debugger m) ms outs"
    "debugger_ids st' = debugger_ids st1 @ ids_of is_debugger ms outs"
    "v_source_lines st' = v_source_lines st1 @
       map (\<lambda>(m, out). SOURCE_DECLARATION_v8 (module_id_v8 m) (c_array out)) (zip ms outs)"
    "v_source_lines_empty st' = v_source_lines_empty st1 @
       map (\<lambda>(m, out). SOURCE_DECLARATION_v8 (module_id_v8 m) (c_array out)) (zip ms outs)"
    by blast
  show ?case
    by (rule exI[of _ "t # ts"], rule exI[of _ "out # outs"]) (simp add: t ih st1 out ids_of_def)
qed

lemma ids_of_length: "length outs = length modules \<Longrightarrow>
    length (ids_of (\<lambda>m. \<not> p m) modules outs) + length (ids_of p modules outs) = length modules"
  unfolding ids_of_def by (induction modules outs rule: list_induct2') auto

lemma emit_natives:
  assumes "v_ids st = ids_of (\<lambda>m. \<not> is_debugger m) modules outs" and "debugger_ids st = ids_of is_debugger modules outs"
    and "length outs = length modules"
  shows "emit_v8 ty st (map (\<lambda>(m, out). SOURCE_DECLARATION_v8 (module_id_v8 m) (c_array out)) (zip modules outs)) =
    natives_file ty modules outs"
  using ids_of_length[OF assms(3), of is_debugger] assms(1,2)
  by (simp add: emit_v8_def natives_file_def Let_def index_cases_append)

lemma Validate_Inr:
  "Validate t = Inr () \<longleftrightarrow>
     re_search EVAL_PATTERN (RemoveCommentsAndTrailingWhitespace t) 0 = None \<and>
     re_search WITH_PATTERN (RemoveCommentsAndTrailingWhitespace t) 0 = None"
  by (simp add: Validate_def Let_def del: not_None_eq)

lemma expanded_texts_valid:
  assumes "mapM (expanded_text ve consts macros) modules = Inr texts"
  shows "list_all (\<lambda>t. Validate t = Inr ()) texts"
proof -
  have v: "Validate t = Inr ()" if "expanded_text ve consts macros m = Inr t" for m t
    using that by (auto simp: expanded_text_def rbind_Inr_iff)
  from assms have "list_all2 (\<lambda>m t. expanded_text ve consts macros m = Inr t) modules texts"
    by (simp add: mapM_Inr_iff)
  then have "list_all2 (\<lambda>m t. Validate t = Inr ()) modules texts" by (rule list_all2_mono) (rule v)
  then show ?thesis by (auto simp: list_all_length list_all2_conv_all_nth)
qed

lemma minify_all_lines:
  "minify_all ts mini = Inr (outs, mini') \<Longrightarrow> names_ok mini \<Longrightarrow>
     list_all2 (\<lambda>t out. length (py_split_chr (CHR 0x0A) out) = length (py_split_chr (CHR 0x0A) t) + 1) ts outs"
proof (induction ts mini arbitrary: outs mini' rule: minify_all.induct)
  case (2 t ts mini)
  from 2(2) obtain t' mini1 ts' where m: "JSMinify t mini = Inr (t', mini1)"
    and r: "minify_all ts mini1 = Inr (ts', mini')" and outs: "outs = t' # ts'"
    by (auto simp: rbind_Inr_iff)
  from JSMinify_lines[OF m 2(3)] have "names_ok mini1" "length (py_split_chr (CHR 0x0A) t') = length (py_split_chr (CHR 0x0A) t) + 1"
    by auto
  with 2(1)[OF m refl r] outs show ?case by simp
qed simp

text \<open>
  C19. When the packer ends without an exception, every module was expanded and has neither \<open>eval\<close> nor
  \<open>with\<close> outside what the check takes for comments; the texts went through one minifier, in order, with
  their line breaks kept; both files hold the same text: an array for every module, in order, from
  which the minified text can be read back, and the tables in which the debugger modules come first.
\<close>

theorem v8_natives_files:
  assumes "JS2C_v8 ve source [t1, t2] ty = (writes, Inr ())"
  shows "\<exists>consts macros modules texts outs mini.
    find_macros_v8 ve source ([], [], []) = Inr (consts, macros, modules) \<and>
    mapM (expanded_text ve consts macros) modules = Inr texts \<and>
    list_all (\<lambda>t. re_search EVAL_PATTERN (RemoveCommentsAndTrailingWhitespace t) 0 = None \<and>
      re_search WITH_PATTERN (RemoveCommentsAndTrailingWhitespace t) 0 = None) texts \<and>
    minify_all texts new_minifier = Inr (outs, mini) \<and>
    list_all2 (\<lambda>t out. length (py_split_chr (CHR 0x0A) out) = length (py_split_chr (CHR 0x0A) t) + 1) texts outs \<and>
    list_all (\<lambda>out. c_values (c_array out) = map ord out @ [0]) outs \<and>
    writes = [(t1, natives_file ty modules outs), (t2, natives_file ty modules outs)]"
proof -
  from assms obtain cs macros modules st where
    f: "find_macros_v8 ve source ([], [], []) = Inr (cs, macros, modules)"
    and p: "foldM (pack_module_v8 ve cs macros) modules start_v8 = Inr st"
    and w: "writes = [(t1, emit_v8 ty st (v_source_lines st)), (t2, emit_v8 ty st (v_source_lines_empty st))]"
    by (auto simp: JS2C_v8_def rbind_Inr_iff split: sum.splits)
  from pack_modules_v8[OF p] obtain texts outs where t: "mapM (expanded_text ve cs macros) modules = Inr texts"
    and mo: "minify_all texts new_minifier = Inr (outs, v_minifier st)" "length outs = length modules"
    and st: "v_ids st = ids_of (\<lambda>m. \<not> is_debugger m) modules outs" "debugger_ids st = ids_of is_debugger modules outs"
      "v_source_lines st = map (\<lambda>(m, out). SOURCE_DECLARATION_v8 (module_id_v8 m) (c_array out)) (zip modules outs)"
      "v_source_lines_empty st = map (\<lambda>(m, out). SOURCE_DECLARATION_v8 (module_id_v8 m) (c_array out)) (zip modules outs)"
    by (auto simp: start_v8_def)
  have "writes = [(t1, natives_file ty modules outs), (t2, natives_file ty modules outs)]"
    using w emit_natives[OF st(1,2) mo(2)] st(3,4) by simp
  moreover have "list_all (\<lambda>out. c_values (c_array out) = map ord out @ [0]) outs"
    by (simp add: list_all_iff c_values_c_array)
  ultimately show ?thesis
    using f t mo(1) expanded_texts_valid[OF t, unfolded Validate_Inr] minify_all_lines[OF mo(1) names_ok_new] by blast
qed

definition sample_env :: v8_env where
  "sample_env = \<lparr>ve_file = (\<lambda>f. Inr ''f''), ve_eval = (\<lambda>as body. Inl TypeError), ve_limit = 1\<rparr>"

theorem v8_natives_files_witness:
  "\<exists>outs. JS2C_v8 sample_env [''src/x-debugger.js''] [''a.cc'', ''b.cc''] ''CORE'' =
     ([(''a.cc'', natives_file ''CORE'' [''src/x-debugger.js''] outs),
       (''b.cc'', natives_file ''CORE'' [''src/x-debugger.js''] outs)], Inr ())"
proof -
  let ?r = "JS2C_v8 sample_env [''src/x-debugger.js''] [''a.cc'', ''b.cc''] ''CORE''"
  have "snd ?r = Inr ()" by code_simp
  then have r: "?r = (fst ?r, Inr ())" by (metis prod.collapse)
  have f: "find_macros_v8 sample_env [''src/x-debugger.js''] ([], [], []) = Inr ([], [], [''src/x-debugger.js''])"
  proof -
    have "path_tail ''src/x-debugger.js'' \<noteq> ''macros.py''" by code_simp
    then show ?thesis by simp
  qed
  from v8_natives_files[OF r] f r show ?thesis by auto
qed

text \<open>
  The check for \<open>eval\<close> and \<open>with\<close> takes two slashes inside a literal text for a comment.
\<close>

lemma validate_misses_eval: "Validate (''x='' @ dq @ ''//'' @ dq @ '';eval(y)'' @ nl) = Inr ()"
  by code_simp

end
