(* ===== verification/Spec2Isabelle.thy ===== *)
theory Spec2Isabelle
  imports Test_Suites JS2C Waf_Environment Waf_Runner Waf_Glob Waf_Signature Waf_Preproc Waf_Cctool V8_JS2C
begin

text \<open>
  A verification development of the Python tooling of the node.js repository: the build system under
  \<^verbatim>\<open>src/tools/wafadmin\<close>, the packers \<^verbatim>\<open>src/tools/js2c.py\<close> and \<^verbatim>\<open>src/deps/v8/tools/js2c.py\<close> with the minifier of V8, and the test runner \<^verbatim>\<open>src/tools/test.py\<close> with its suites.

  \<^bold>\<open>The program and its parts.\<close> A build goes through these steps. The scripts of the project create task
  generators; \<open>flush\<close> posts them, each calls its methods in an order computed from a table, and the methods
  create tasks whose inputs and outputs are nodes of the file tree; for C and C++ the methods look up the libraries and objects
  of other generators, post these first, and collect paths and flags; the tasks are sorted into groups and
  sets by their constraints; threads run them, after each task has been asked, by its signature, whether it
  has to run; the signature of a C file needs the headers it includes, which a C preprocessor finds; the results
  are installed. One of the tasks of node packs its JavaScript files into a C header; V8 packs its own after minifying them. The test runner lists the tests
  of its suites, classifies them by status files and runs them in threads.

  \<^bold>\<open>Theories, in the order of their imports.\<close>

  \<^item> \<open>Py_Base\<close>: the prelude: exceptions as values of \<open>'a result\<close> with \<open>rbind\<close>, \<open>rmap\<close>, \<open>mapM\<close>, \<open>foldM\<close>, byte strings,
    dictionaries as association lists, paths, and the locale \<open>growing_loop\<close>, the interface of a loop over a list that its body may
    extend, which \<open>Waf_Taskgen\<close> interprets for its loops over nodes, methods and generators. \<open>Py_Re\<close>: regular expressions with backtracking, with a relation
    that says what a match is and the proof that the matcher agrees with it, and \<open>re.sub\<close> with functions that keep a state.
  \<^item> \<open>Traversal\<close>: two ways to visit what can be reached from a list of names, as locales over the visit and what it
    leaves alone: \<open>queue_visit\<close>, a queue that skips what was seen, and \<open>stack_visit\<close>, a stack on which the dependencies of a
    name are put before it. The first ends and visits everything once; the second ends exactly without cycles and
    visits in the order of the dependencies. \<open>Waf_Ccroot\<close> interprets both.
  \<^item> \<open>Waf_Environment\<close> (\<^verbatim>\<open>Environment.py\<close>): environments and lists on a heap, so that sharing is visible. The locale
    \<open>scoped_store\<close> is the interface of a store with parents; list operations change what they should and
    nothing that others read; \<open>detach\<close> changes no read.
  \<^item> \<open>Waf_Task\<close> (\<^verbatim>\<open>Task.py\<close>, task groups): classes of tasks by their constraints, the three algorithms, the manager.
    The sets respect the constraints, hand out every task once, and the error for a circular order is
    raised exactly when there is a circle.
  \<^item> \<open>Waf_Runner\<close> (\<^verbatim>\<open>Runner.py\<close>): master and consumers as steps of interleaving threads, an inductive relation.
    Every task is finished once, and no thread waits for ever.
  \<^item> \<open>Waf_Node\<close> and \<open>Waf_Glob\<close> (\<^verbatim>\<open>Node.py\<close>, \<open>rescan\<close> of \<^verbatim>\<open>Build.py\<close>): the tree of nodes as a list with a well-formedness
    invariant; paths lead where they should, lookups make no second node for a file, \<open>ant_glob\<close> accepts what
    its patterns mean on whole paths.
  \<^item> \<open>Waf_Signature\<close> (\<^verbatim>\<open>Task.py\<close>, \<open>signature\<close>, \<open>runnable_status\<close>, \<open>post_run\<close>, \<open>extract_outputs\<close>): a task is skipped exactly when
    nothing it depends on has changed, and a task that ran is skipped in the next build.
  \<^item> \<open>Waf_Clex\<close>, \<open>Waf_Cmacro\<close> and \<open>Waf_Preproc\<close> (\<^verbatim>\<open>Tools/preproc.py\<close>): tokens, conditions, macros, and the scanner for
    headers. Conditions with all parentheses are evaluated correctly, evaluation and scanning end, and branches that are
    not taken have no effect.
  \<^item> \<open>Waf_Taskgen\<close> (\<^verbatim>\<open>TaskGen.py\<close>, \<open>flush\<close> of \<^verbatim>\<open>Build.py\<close>): the methods of a generator are sorted topologically and called in that
    order, a rule takes out \<open>apply_core\<close> only, every node is processed, and the tables stay well formed.
  \<^item> \<open>Waf_Install\<close> (\<^verbatim>\<open>Build.py\<close>, installation): the effect of installing a file, uninstalling as the inverse, the order
    in which empty directories are removed, and the paths to install to.
  \<^item> \<open>Waf_Ccroot\<close> (\<^verbatim>\<open>Tools/ccroot.py\<close>): the methods of the C features, as the class tables of \<open>Waf_Taskgen\<close> hold them, on the
    environments, nodes and tasks of the other theories (the field \<open>gx_tools\<close> of the context, and the method that posts
    another generator). Libraries are visited once each, also in cycles; objects are
    taken in the order of their dependencies, and a cycle of them never ends.
  \<^item> \<open>Waf_Ccinstall\<close> (the rest of \<^verbatim>\<open>Tools/ccroot.py\<close>): the methods that install what was linked, with calls that wait for the end of
    a group (\<open>group_method\<close> in \<open>Waf_Install\<close>). From the method of a generator to the disk: a library with a version
    is installed with two links that lead to it.
  \<^item> \<open>Waf_Cctool\<close> (\<^verbatim>\<open>Tools/cc.py\<close>, \<^verbatim>\<open>Tools/cxx.py\<close>, \<open>get_cc_version\<close>): the compiler's macros, flags, defines and hooks. Every source has one
    compilation task and the link task reads their objects; the methods of the C tools can always be sorted.
  \<^item> \<open>Jsmin\<close> and \<open>V8_JS2C\<close> (\<^verbatim>\<open>jsmin.py\<close>, \<^verbatim>\<open>js2c.py\<close> under \<^verbatim>\<open>src/deps/v8/tools\<close>): new names are the first free ones, a declared variable
    keeps its name while its scope is open, lines are kept; the packer writes all modules, checked, expanded and
    minified, and the expansion of a macro ends.
  \<^item> \<open>JS2C\<close> (\<^verbatim>\<open>js2c.py\<close>): macros and the generated arrays; the arrays hold the sources.
  \<^item> \<open>Test_Expr\<close>, \<open>Test_Parser\<close>, \<open>Test_Config\<close>: the status files, from their text to the outcomes of the tests. The locale
    \<open>outcome_set\<close> is the interface between sets of outcomes and expressions; parsing agrees with a
    reference grammar, and classification with a set-theoretic specification.
  \<^item> \<open>Test_Run\<close>, \<open>Test_Main\<close>, \<open>Test_Suites\<close>: the threads of the runner, as an inductive step relation, its main program, and
    the four suites of the repository. This theory closes the chain with the exit code of the runner.

  \<^bold>\<open>Conventions.\<close> Objects with identity (environments, nodes, tasks, generators) are numbers, places in a list
  or keys of a heap that is part of an explicit state. An exception is \<open>Inl\<close> of a \<open>py_error\<close>; code that catches an
  exception uses the state at that point. What is outside of the repository or of the computation is a
  parameter: file systems, digests, processes, clocks, the order in which Python iterates over sets and dictionaries, and
  the methods that tools register; hypotheses about them are named where they are used, with witnesses.

  \<^bold>\<open>Bounds.\<close> A loop or recursion that may not end has a bound, and \<open>RuntimeError\<close> when it is used up. It is enough where a
  theorem says so: the recursion of \<open>signature\<close> (two calls), of \<open>get_term\<close> (twice the number of tokens), of the parser of conditions (the
  number of tokens), the climb to the root of a tree (the number of nodes), the directories above a path (its length), the queue of libraries (one round for every
  name put in it), the stack of objects (some number, when no object depends on itself), the recursion of macros of V8's packer (the
  length of the text, for one macro). The
  loops over lists that methods and hooks extend (\<open>te_bound\<close>), and the replacement of macros, can run for ever in the code; there the
  theorems speak of every bound for which the loop returns, with a witness that returns. The scanner of headers ends by the limit of the code on
  the number of files.

  \<^bold>\<open>Not modelled.\<close> Of the build system: the configuration (\<^verbatim>\<open>Configure.py\<close>), the command line (\<^verbatim>\<open>Options.py\<close>, \<^verbatim>\<open>Scripting.py\<close>), storing
  and loading the state with pickle, the tools under \<^verbatim>\<open>Tools\<close> other than \<^verbatim>\<open>preproc.py\<close>, \<^verbatim>\<open>ccroot.py\<close>, \<^verbatim>\<open>cc.py\<close> and \<^verbatim>\<open>cxx.py\<close>, and output to the terminal: these are input and output
  or calls of compilers. Also
  \<^verbatim>\<open>cpplint.py\<close>, \<^verbatim>\<open>closure_linter\<close>, scons and V8 with its other tools, which are vendored programs, and the C++ and JavaScript of
  node itself.
\<close>

section \<open>The test runner as a whole\<close>

text \<open>
  The contract between \<open>Main\<close> and the threads of \<open>RunTestCases\<close>: when the call returns \<open>b\<close>, some
  interleaving of the threads on these cases has ended with \<open>b\<close>.
\<close>

definition runs_threads :: "(test_case \<Rightarrow> test_output result \<Rightarrow> bool) \<Rightarrow> bool \<Rightarrow> sys_env \<Rightarrow> options \<Rightarrow> bool" where
  "runs_threads runs win se opt \<longleftrightarrow>
     (\<forall>cs b. se_run se cs (opt_progress opt) (opt_j opt) = Inr b \<longrightarrow>
       (\<exists>ind s0 s t0 out. RunTestCases cs (opt_progress opt) (nat (opt_j opt)) t0 out = Inr (ind, s0) \<and>
          run_reach runs ind win s0 s \<and> pcs s ! 0 = Finished b))"



end
